(* ===== verification/Kernel_Prelude.thy ===== *)
theory Kernel_Prelude
  imports Main "HOL-Library.Word" "HOL-Library.Monad_Syntax"
begin

text \<open>
  Shared vocabulary of the LemonShark development: the machine integers of the Rust code, its
  checked arithmetic, the 64-bit mask operations behind \<open>align_up\<close> and \<open>align_down\<close>, and the generic
  list lemmas that several components use.

  A \<open>usize\<close> of the riscv64 target is a natural number; the operations below write out where a value
  leaves the 64-bit range. Values that the code treats as bit vectors (bitmap words, page-table
  entries, on-disk integers) are words of their width. A computation that may panic has an option
  type, with \<open>None\<close> for the panic (the kernel is built with \<open>panic = "abort"\<close>, so nothing of the
  state survives one). Unchecked \<open>+\<close>, \<open>-\<close> and \<open>*\<close> panic on overflow, as in the dev profile.
\<close>

unbundle bit_operations_syntax

section \<open>Machine integers\<close>

type_synonym usize = nat
type_synonym u8 = "8 word"
type_synonym u16 = "16 word"
type_synonym u32 = "32 word"
type_synonym u64 = "64 word"

text \<open>A result that is missing exactly when the code panics.\<close>

type_synonym 'a panics = "'a option"

abbreviation usize_limit :: nat where
  "usize_limit \<equiv> 18446744073709551616"

named_theorems usize_defs \<open>definitions of the checked machine arithmetic\<close>

definition checked_add :: "usize \<Rightarrow> usize \<Rightarrow> usize option" where
  [usize_defs]: "checked_add a b = (if a + b < usize_limit then Some (a + b) else None)"

definition checked_sub :: "usize \<Rightarrow> usize \<Rightarrow> usize option" where
  [usize_defs]: "checked_sub a b = (if b \<le> a then Some (a - b) else None)"

definition checked_mul :: "usize \<Rightarrow> usize \<Rightarrow> usize option" where
  [usize_defs]: "checked_mul a b = (if a * b < usize_limit then Some (a * b) else None)"

text \<open>The plain operators, which panic where the checked ones return \<open>None\<close>.\<close>

definition add_usize :: "usize \<Rightarrow> usize \<Rightarrow> usize panics" where
  [usize_defs]: "add_usize a b = (if a + b < usize_limit then Some (a + b) else None)"

definition sub_usize :: "usize \<Rightarrow> usize \<Rightarrow> usize panics" where
  [usize_defs]: "sub_usize a b = (if b \<le> a then Some (a - b) else None)"

definition mul_usize :: "usize \<Rightarrow> usize \<Rightarrow> usize panics" where
  [usize_defs]: "mul_usize a b = (if a * b < usize_limit then Some (a * b) else None)"

definition saturating_sub :: "usize \<Rightarrow> usize \<Rightarrow> usize" where
  "saturating_sub a b = a - b"

definition saturating_add :: "usize \<Rightarrow> usize \<Rightarrow> usize" where
  "saturating_add a b = min (a + b) (usize_limit - 1)"

definition saturating_mul :: "usize \<Rightarrow> usize \<Rightarrow> usize" where
  "saturating_mul a b = min (a * b) (usize_limit - 1)"

definition div_ceil :: "usize \<Rightarrow> usize \<Rightarrow> usize" where
  "div_ceil a b = (if a mod b = 0 then a div b else a div b + 1)"

text \<open>Bitwise complement of a 64-bit value held as a natural number.\<close>

definition not_usize :: "usize \<Rightarrow> usize" where
  "not_usize a = (usize_limit - 1) - a"

section \<open>Arithmetic lemmas\<close>

lemma checked_add_eq_Some [simp]:
  "checked_add a b = Some c \<longleftrightarrow> c = a + b \<and> a + b < usize_limit"
  by (auto simp: checked_add_def)

lemma checked_add_eq_None [simp]: "checked_add a b = None \<longleftrightarrow> usize_limit \<le> a + b"
  by (auto simp: checked_add_def)

lemma checked_sub_eq_Some [simp]: "checked_sub a b = Some c \<longleftrightarrow> c = a - b \<and> b \<le> a"
  by (auto simp: checked_sub_def)

lemma checked_sub_eq_None [simp]: "checked_sub a b = None \<longleftrightarrow> a < b"
  by (auto simp: checked_sub_def)

lemma add_usize_eq_Some [simp]:
  "add_usize a b = Some c \<longleftrightarrow> c = a + b \<and> a + b < usize_limit"
  by (auto simp: add_usize_def)

lemma sub_usize_eq_Some [simp]: "sub_usize a b = Some c \<longleftrightarrow> c = a - b \<and> b \<le> a"
  by (auto simp: sub_usize_def)

lemma add_usize_Some: "a + b < usize_limit \<Longrightarrow> add_usize a b = Some (a + b)"
  by (simp add: add_usize_def)

lemma sub_usize_Some: "b \<le> a \<Longrightarrow> sub_usize a b = Some (a - b)"
  by (simp add: sub_usize_def)

lemma div_ceil_le_iff: "0 < b \<Longrightarrow> div_ceil a b \<le> c \<longleftrightarrow> a \<le> c * b"
proof -
  assume b: "0 < b"
  have a: "a = a div b * b + a mod b" by simp
  have m: "a mod b < b" using b by simp
  show ?thesis
  proof (cases "a mod b = 0")
    case True
    then have "a = a div b * b" using a by simp
    then have "a \<le> c * b \<longleftrightarrow> a div b * b \<le> c * b" by simp
    then show ?thesis using b True by (simp add: div_ceil_def)
  next
    case False
    have "Suc (a div b) \<le> c \<longleftrightarrow> a div b < c" by auto
    also have "\<dots> \<longleftrightarrow> a < c * b" using b by (simp add: less_mult_imp_div_less div_less_iff_less_mult)
    also have "\<dots> \<longleftrightarrow> a \<le> c * b" using False by (auto simp: le_less)
    finally show ?thesis using False by (simp add: div_ceil_def)
  qed
qed

lemma div_ceil_less_iff: "0 < b \<Longrightarrow> c < div_ceil a b \<longleftrightarrow> c * b < a"
  using div_ceil_le_iff [of b a c] by (meson not_le)

lemma le_div_ceil_mult: "0 < b \<Longrightarrow> a \<le> div_ceil a b * b"
  using div_ceil_le_iff [of b a "div_ceil a b"] by simp

lemma div_less_div_ceil: "0 < b \<Longrightarrow> i < a \<Longrightarrow> i div b < div_ceil a b"
  by (simp add: div_ceil_less_iff) (meson div_times_less_eq_dividend le_less_trans)

lemma div_ceil_0 [simp]: "div_ceil 0 b = 0"
  by (simp add: div_ceil_def)

lemma div_ceil_mono: "0 < b \<Longrightarrow> a \<le> a' \<Longrightarrow> div_ceil a b \<le> div_ceil a' b"
  using div_ceil_le_iff [of b a "div_ceil a' b"] le_div_ceil_mult [of b a'] by simp

lemma div_ceil_le_self: "0 < b \<Longrightarrow> div_ceil a b \<le> a"
  using div_ceil_le_iff [of b a a] by simp

lemma div_ceil_pos: "0 < b \<Longrightarrow> 0 < a \<Longrightarrow> 0 < div_ceil a b"
  using div_ceil_less_iff [of b 0 a] by simp

text \<open>
  Masking with the complement of \<open>2 ^ k - 1\<close> rounds down to a multiple of \<open>2 ^ k\<close>: the bit-level
  form of the code's \<open>addr & !(align - 1)\<close>.
\<close>

lemma not_usize_mask: "k \<le> 64 \<Longrightarrow> not_usize (2 ^ k - 1) = push_bit k (mask (64 - k))"
proof -
  assume k: "k \<le> 64"
  have pow: "usize_limit = 2 ^ (64 - k) * 2 ^ k" using k by (simp flip: power_add)
  have "not_usize (2 ^ k - 1) = usize_limit - 2 ^ k"
    by (simp add: not_usize_def)
  also have "\<dots> = (2 ^ (64 - k) - 1) * 2 ^ k"
    by (simp only: pow diff_mult_distrib nat_mult_1)
  also have "\<dots> = push_bit k (mask (64 - k))"
    by (simp only: push_bit_eq_mult mask_eq_exp_minus_1)
  finally show ?thesis .
qed

lemma and_not_usize_mask:
  assumes "a < usize_limit" and "k \<le> 64"
  shows "a AND not_usize (2 ^ k - 1) = a div 2 ^ k * 2 ^ k"
proof -
  have high: "\<not> bit a n" if "64 \<le> n" for n
  proof -
    have "a < 2 ^ n"
      using assms(1) power_increasing [of 64 n "2::nat"] that by simp
    then show ?thesis by (simp add: bit_iff_odd)
  qed
  have "a AND not_usize (2 ^ k - 1) = push_bit k (drop_bit k a)"
    unfolding not_usize_mask [OF assms(2)]
  proof (rule bit_eqI)
    fix n
    have "k \<le> n \<Longrightarrow> bit a n \<Longrightarrow> n - k < 64 - k"
      using high [of n] assms(2) by (cases "64 \<le> n") auto
    then show "bit (a AND push_bit k (mask (64 - k))) n \<longleftrightarrow> bit (push_bit k (drop_bit k a)) n"
      by (auto simp: bit_simps)
  qed
  then show ?thesis by (simp add: push_bit_eq_mult drop_bit_eq_div)
qed

text \<open>Shifted ones keep the shape they have in the code.\<close>

declare push_bit_of_1 [simp del]

lemma unat_inject [simp]: "unat a = unat b \<longleftrightarrow> a = (b :: 'a::len word)"
  by (auto intro: unsigned_word_eqI)

section \<open>Trailing zeros\<close>

text \<open>The integer method \<open>trailing_zeros\<close>: the number of clear bits below the lowest set bit.\<close>

definition trailing_zeros :: "'a::len word \<Rightarrow> nat" where
  "trailing_zeros w = length (takeWhile (\<lambda>i. \<not> bit w i) [0..<LENGTH('a)])"

lemma trailing_zeros_spec:
  fixes w :: "'a::len word"
  assumes "w \<noteq> 0"
  shows "trailing_zeros w < LENGTH('a)" and "bit w (trailing_zeros w)"
    and "j < trailing_zeros w \<Longrightarrow> \<not> bit w j"
proof -
  let ?t = "takeWhile (\<lambda>i. \<not> bit w i) [0..<LENGTH('a)]"
  from assms obtain k where k: "bit w k" by (auto simp: bit_eq_iff)
  then have "k < LENGTH('a)" by (rule bit_imp_le_length)
  with k have "?t \<noteq> [0..<LENGTH('a)]"
    by (metis atLeast0LessThan lessThan_iff set_takeWhileD set_upt)
  then have len: "length ?t < length [0..<LENGTH('a)]"
    by (metis length_takeWhile_le le_neq_implies_less takeWhile_eq_take take_all_iff order_refl)
  then show "trailing_zeros w < LENGTH('a)" by (simp add: trailing_zeros_def)
  from nth_length_takeWhile [OF len] len show "bit w (trailing_zeros w)"
    by (simp add: trailing_zeros_def)
  show "\<not> bit w j" if j: "j < trailing_zeros w"
  proof -
    from j have j': "j < length ?t" by (simp add: trailing_zeros_def)
    then have "?t ! j = j" using len by (simp add: takeWhile_nth)
    with nth_mem [OF j'] show ?thesis by (auto dest: set_takeWhileD)
  qed
qed

section \<open>Results\<close>

text \<open>
  \<open>Result<T, E>\<close> is the sum \<open>'e + 'a\<close> with \<open>Inl\<close> for \<open>Err\<close>. \<open>and_then\<close> is what the \<open>?\<close> operator
  does between two fallible steps, \<open>ok_or\<close> turns an \<open>Option\<close> into a \<open>Result\<close>.
\<close>

definition and_then :: "'e + 'a \<Rightarrow> ('a \<Rightarrow> 'e + 'b) \<Rightarrow> 'e + 'b" where
  "and_then r f = (case r of Inl e \<Rightarrow> Inl e | Inr v \<Rightarrow> f v)"

definition ok_or :: "'e \<Rightarrow> 'a option \<Rightarrow> 'e + 'a" where
  "ok_or e x = (case x of None \<Rightarrow> Inl e | Some v \<Rightarrow> Inr v)"

definition map_err :: "('e \<Rightarrow> 'd) \<Rightarrow> 'e + 'a \<Rightarrow> 'd + 'a" where
  "map_err f r = (case r of Inl e \<Rightarrow> Inl (f e) | Inr v \<Rightarrow> Inr v)"

lemma and_then_simps [simp]: "and_then (Inl e) f = Inl e" "and_then (Inr v) f = f v"
  by (simp_all add: and_then_def)

lemma and_then_eq_Inr [simp]: "and_then r f = Inr v \<longleftrightarrow> (\<exists>x. r = Inr x \<and> f x = Inr v)"
  by (cases r) simp_all

lemma ok_or_simps [simp]: "ok_or e None = Inl e" "ok_or e (Some v) = Inr v"
  by (simp_all add: ok_or_def)

lemma ok_or_eq_Inr [simp]: "ok_or e x = Inr v \<longleftrightarrow> x = Some v"
  by (cases x) simp_all

lemma map_err_simps [simp]: "map_err f (Inl e) = Inl (f e)" "map_err f (Inr v) = Inr v"
  by (simp_all add: map_err_def)

lemma map_err_eq_Inr [simp]: "map_err f r = Inr v \<longleftrightarrow> r = Inr v"
  by (cases r) simp_all

section \<open>Strings\<close>

text \<open>
  A Rust \<open>str\<close> is a sequence of bytes that is valid UTF-8. The validator follows the standard
  library's: one to four bytes per scalar value, no overlong forms, no surrogates, nothing above
  U+10FFFF.
\<close>

type_synonym bytes = "u8 list"

definition str_lit :: "string \<Rightarrow> bytes" where
  "str_lit s = map of_char s"

definition utf8_cont :: "u8 \<Rightarrow> bool" where
  "utf8_cont b \<longleftrightarrow> 128 \<le> b \<and> b < 192"

fun valid_utf8 :: "bytes \<Rightarrow> bool" where
  "valid_utf8 [] = True"
| "valid_utf8 (a # s) =
     (if a < 128 then valid_utf8 s
      else if 194 \<le> a \<and> a < 224 then
        (case s of b # s' \<Rightarrow> utf8_cont b \<and> valid_utf8 s' | _ \<Rightarrow> False)
      else if 224 \<le> a \<and> a < 240 then
        (case s of b # c # s' \<Rightarrow>
             utf8_cont b \<and> utf8_cont c \<and> (a = 224 \<longrightarrow> 160 \<le> b) \<and> (a = 237 \<longrightarrow> b < 160) \<and> valid_utf8 s'
         | _ \<Rightarrow> False)
      else if 240 \<le> a \<and> a < 245 then
        (case s of b # c # d # s' \<Rightarrow>
             utf8_cont b \<and> utf8_cont c \<and> utf8_cont d \<and> (a = 240 \<longrightarrow> 144 \<le> b) \<and> (a = 244 \<longrightarrow> b < 144) \<and>
             valid_utf8 s'
         | _ \<Rightarrow> False)
      else False)"

text \<open>\<open>split_once\<close> at the first occurrence of a one-byte character, \<open>split\<close> at every one.\<close>

fun split_once :: "'a \<Rightarrow> 'a list \<Rightarrow> ('a list \<times> 'a list) option" where
  "split_once c [] = None"
| "split_once c (x # xs) =
     (if x = c then Some ([], xs) else map_option (\<lambda>(a, b). (x # a, b)) (split_once c xs))"

fun split_at_char :: "'a \<Rightarrow> 'a list \<Rightarrow> 'a list list" where
  "split_at_char c [] = [[]]"
| "split_at_char c (x # xs) =
     (if x = c then [] # split_at_char c xs
      else case split_at_char c xs of [] \<Rightarrow> [[x]] | p # ps \<Rightarrow> (x # p) # ps)"

definition rsplit_once :: "'a \<Rightarrow> 'a list \<Rightarrow> ('a list \<times> 'a list) option" where
  "rsplit_once c xs = map_option (\<lambda>(a, b). (rev b, rev a)) (split_once c (rev xs))"

lemma split_at_char_nonempty [simp]: "split_at_char c xs \<noteq> []"
  by (induction xs) (auto split: list.splits)

lemma split_at_char_cut: "c \<notin> set p \<Longrightarrow> split_at_char c (p @ c # ys) = p # split_at_char c ys"
  by (induction p) auto

lemma split_at_char_none: "c \<notin> set p \<Longrightarrow> split_at_char c p = [p]"
  by (induction p) auto

end
