(* ===== verification/Bitmap.thy ===== *)
theory Bitmap
  imports Kernel_Prelude
begin

text \<open>
  The bitmap crate (\<open>bitmap/src/lib.rs\<close>): a fixed-capacity bit set on 32-bit words. The page-frame
  allocator keeps one bitmap per arena, the filesystem one for i-nodes, one for data blocks and one
  for the dirty flags of the i-node cache. The theory models the crate's operations, states the
  contract its clients rely on as the locale \<open>bit_allocator\<close>, and interprets it on the model.
\<close>

section \<open>Model\<close>

definition BITS_PER_WORD :: usize where
  "BITS_PER_WORD = 32"

lemmas BITS_PER_WORD_simp [simp] = BITS_PER_WORD_def

record invalid_word_count =
  iwc_expected :: usize
  iwc_actual :: usize

record bitmap =
  bm_len :: usize
  bm_words :: "u32 list"

definition bitmap_new :: "usize \<Rightarrow> bitmap" where
  "bitmap_new len =
     (let word_count = div_ceil len BITS_PER_WORD
      in \<lparr>bm_len = len, bm_words = replicate word_count 0\<rparr>)"

definition bitmap_from_words :: "usize \<Rightarrow> u32 list \<Rightarrow> invalid_word_count + bitmap" where
  "bitmap_from_words len words =
     (let expected = div_ceil len BITS_PER_WORD
      in if length words \<noteq> expected
         then Inl \<lparr>iwc_expected = expected, iwc_actual = length words\<rparr>
         else let remainder = len mod BITS_PER_WORD
              in Inr \<lparr>bm_len = len,
                      bm_words = (if words \<noteq> [] \<and> remainder \<noteq> 0
                                  then butlast words @ [last words AND (push_bit remainder 1 - 1)]
                                  else words)\<rparr>)"

text \<open>\<open>assert!\<close> and slice indexing panic; both guards are written out.\<close>

definition bitmap_set :: "bitmap \<Rightarrow> usize \<Rightarrow> bitmap panics" where
  "bitmap_set b index =
     (if index < bm_len b then
        let arr_index = index div BITS_PER_WORD; bit_index = index mod BITS_PER_WORD
        in if arr_index < length (bm_words b)
           then Some (b\<lparr>bm_words := (bm_words b)
                  [arr_index := (bm_words b ! arr_index) OR push_bit bit_index 1]\<rparr>)
           else None
      else None)"

definition bitmap_unset :: "bitmap \<Rightarrow> usize \<Rightarrow> bitmap panics" where
  "bitmap_unset b index =
     (if index < bm_len b then
        let arr_index = index div BITS_PER_WORD; bit_index = index mod BITS_PER_WORD
        in if arr_index < length (bm_words b)
           then Some (b\<lparr>bm_words := (bm_words b)
                  [arr_index := (bm_words b ! arr_index) AND NOT (push_bit bit_index 1)]\<rparr>)
           else None
      else None)"

definition bitmap_is_set :: "bitmap \<Rightarrow> usize \<Rightarrow> bool panics" where
  "bitmap_is_set b index =
     (if index < bm_len b then
        let arr_index = index div BITS_PER_WORD; bit_index = index mod BITS_PER_WORD
        in if arr_index < length (bm_words b)
           then Some ((bm_words b ! arr_index) AND push_bit bit_index 1 > 0)
           else None
      else None)"

text \<open>The loop of \<open>find_free\<close> over the enumerated words; \<open>- 1\<close> is \<open>u32::MAX\<close>.\<close>

fun find_free_from :: "usize \<Rightarrow> usize \<Rightarrow> u32 list \<Rightarrow> usize option" where
  "find_free_from len arr_idx [] = None"
| "find_free_from len arr_idx (bits # rest) =
     (if bits \<noteq> - 1 then
        let res = trailing_zeros (NOT bits); index = arr_idx * BITS_PER_WORD + res
        in if index < len then Some index else None
      else find_free_from len (arr_idx + 1) rest)"

definition bitmap_find_free :: "bitmap \<Rightarrow> usize option" where
  "bitmap_find_free b = find_free_from (bm_len b) 0 (bm_words b)"

text \<open>
  \<open>drain_ones\<close> is an iterator; its only consumer runs it to the end. The inner closure empties one
  word from its lowest set bit up, the outer \<open>flat_map\<close> goes through the words in order. The value
  is the list of indices yielded and the words left behind.
\<close>

lemma clear_lowest_less:
  fixes n :: "'a::len word"
  assumes "n \<noteq> 0"
  shows "unat (n AND NOT (push_bit (trailing_zeros n) 1)) < unat n"
proof -
  let ?m = "n AND NOT (push_bit (trailing_zeros n) 1)"
  have "\<not> bit ?m (trailing_zeros n)" by (simp add: bit_simps)
  then have "?m \<noteq> n" using trailing_zeros_spec(2) [OF assms] by metis
  moreover have "?m \<le> n" by (rule word_and_le2)
  ultimately show ?thesis by (metis le_neq_trans word_less_nat_alt)
qed

function drain_word :: "usize \<Rightarrow> u32 \<Rightarrow> usize list \<times> u32" where
  "drain_word idx n =
     (if n = 0 then ([], n)
      else let trailing = trailing_zeros n;
               (rest, n') = drain_word idx (n AND NOT (push_bit trailing 1))
           in ((idx * BITS_PER_WORD + trailing) # rest, n'))"
  by pat_completeness auto
termination
  by (relation "measure (\<lambda>(idx, n). unat n)") (simp_all add: clear_lowest_less)

declare drain_word.simps [simp del]

fun drain_words :: "usize \<Rightarrow> u32 list \<Rightarrow> usize list \<times> u32 list" where
  "drain_words idx [] = ([], [])"
| "drain_words idx (n # ns) =
     (let (is, n') = drain_word idx n; (js, ns') = drain_words (idx + 1) ns
      in (is @ js, n' # ns'))"

definition bitmap_drain_ones :: "bitmap \<Rightarrow> usize list \<times> bitmap" where
  "bitmap_drain_ones b =
     (let (is, ws) = drain_words 0 (bm_words b) in (is, b\<lparr>bm_words := ws\<rparr>))"

section \<open>Abstraction: the set of indices, and the representation invariant\<close>

definition bit_at :: "u32 list \<Rightarrow> usize \<Rightarrow> bool" where
  "bit_at ws i \<longleftrightarrow> i < 32 * length ws \<and> bit (ws ! (i div 32)) (i mod 32)"

definition bm_bits :: "bitmap \<Rightarrow> nat set" where
  "bm_bits b = {i. i < bm_len b \<and> bit_at (bm_words b) i}"

definition bm_ok :: "bitmap \<Rightarrow> bool" where
  "bm_ok b \<longleftrightarrow> length (bm_words b) = div_ceil (bm_len b) 32 \<and>
     (\<forall>i \<in> {bm_len b ..< 32 * length (bm_words b)}. \<not> bit_at (bm_words b) i)"

lemma bm_okD_len: "bm_ok b \<Longrightarrow> length (bm_words b) = div_ceil (bm_len b) 32"
  by (simp add: bm_ok_def)

lemma bm_okD_pad: "bm_ok b \<Longrightarrow> bit_at (bm_words b) i \<Longrightarrow> i < bm_len b"
  by (force simp: bm_ok_def bit_at_def not_less)

lemma bm_ok_arr: "bm_ok b \<Longrightarrow> i < bm_len b \<Longrightarrow> i div 32 < length (bm_words b)"
  by (simp add: bm_okD_len div_less_div_ceil)

lemma bm_ok_index: "bm_ok b \<Longrightarrow> i < bm_len b \<Longrightarrow> i < 32 * length (bm_words b)"
  using bm_ok_arr [of b i] by (simp add: div_less_iff_less_mult mult.commute)

lemma bm_bits_iff: "bm_ok b \<Longrightarrow> i \<in> bm_bits b \<longleftrightarrow> bit_at (bm_words b) i"
  using bm_okD_pad by (auto simp: bm_bits_def)

lemma bm_bits_subset: "bm_bits b \<subseteq> {..<bm_len b}"
  by (auto simp: bm_bits_def)

lemma finite_bm_bits [simp]: "finite (bm_bits b)"
  by (rule finite_subset [OF bm_bits_subset]) simp

lemma index_eq_iff: "i = j \<longleftrightarrow> i div 32 = j div 32 \<and> i mod 32 = (j::nat) mod 32"
  by (metis div_mult_mod_eq)

lemma bit_at_update:
  assumes "a div 32 < length ws"
  shows "bit_at (ws[a div 32 := w]) i \<longleftrightarrow>
    (if i div 32 = a div 32 then bit w (i mod 32) else bit_at ws i)"
proof -
  have "i div 32 = a div 32 \<Longrightarrow> i < 32 * length ws"
    using assms by (metis div_less_iff_less_mult mult.commute zero_less_numeral)
  then show ?thesis using assms by (auto simp: bit_at_def nth_list_update)
qed

lemma bit_or_one: "bit (w OR push_bit k 1) j \<longleftrightarrow> bit w j \<or> (j = k \<and> j < 32)" for w :: u32
  by (auto simp: bit_simps dest: bit_imp_le_length)

lemma bit_andnot_one: "bit (w AND NOT (push_bit k 1)) j \<longleftrightarrow> bit w j \<and> j \<noteq> k" for w :: u32
  by (auto simp: bit_simps dest: bit_imp_le_length)

lemma and_one_gt0: "k < 32 \<Longrightarrow> w AND push_bit k 1 > 0 \<longleftrightarrow> bit w k" for w :: u32
proof -
  assume k: "k < 32"
  have "w AND push_bit k 1 = 0 \<longleftrightarrow> (\<forall>n. \<not> (bit w n \<and> n = k))"
    unfolding bit_eq_iff [of "w AND push_bit k 1" 0] using k
    by (auto simp: bit_simps dest: bit_imp_le_length)
  then show ?thesis by (simp add: word_gt_0)
qed


section \<open>Each operation on the abstraction\<close>

lemma bit_at_replicate [simp]: "\<not> bit_at (replicate n 0) i"
  by (auto simp: bit_at_def div_less_iff_less_mult mult.commute)

lemma bitmap_new_ok: "bm_ok (bitmap_new len)"
  by (simp add: bm_ok_def bitmap_new_def)

lemma bitmap_new_bits: "bm_bits (bitmap_new len) = {}"
  by (simp add: bm_bits_def bitmap_new_def)

lemma bitmap_new_len: "bm_len (bitmap_new len) = len"
  by (simp add: bitmap_new_def)

text \<open>\<open>set\<close> and \<open>unset\<close> rewrite one word; both are instances of one update lemma.\<close>

lemma word_update_bits:
  assumes ok: "bm_ok b" and i: "i < bm_len b"
    and w: "\<And>j. j < 32 \<Longrightarrow> bit w j \<longleftrightarrow> (if j = i mod 32 then v else bit (bm_words b ! (i div 32)) j)"
  defines "b' \<equiv> b\<lparr>bm_words := (bm_words b)[i div 32 := w]\<rparr>"
  shows "bm_ok b'" and "bm_bits b' = (if v then insert i (bm_bits b) else bm_bits b - {i})"
proof -
  have arr: "i div 32 < length (bm_words b)" using ok i by (rule bm_ok_arr)
  have at: "bit_at (bm_words b') j \<longleftrightarrow> (if j = i then v else bit_at (bm_words b) j)" for j
  proof (cases "j div 32 = i div 32")
    case True
    then have "j < 32 * length (bm_words b)"
      using arr by (metis div_less_iff_less_mult mult.commute zero_less_numeral)
    then show ?thesis
      using True w [of "j mod 32"] index_eq_iff [of j i]
      by (auto simp: b'_def bit_at_update [OF arr] bit_at_def)
  next
    case False
    then show ?thesis by (auto simp: b'_def bit_at_update [OF arr])
  qed
  show "bm_ok b'" using ok i at by (auto simp: bm_ok_def b'_def)
  show "bm_bits b' = (if v then insert i (bm_bits b) else bm_bits b - {i})"
    using i at by (auto simp: bm_bits_def b'_def)
qed

lemma bitmap_set_Some:
  assumes "bm_ok b" and "i < bm_len b"
  shows "\<exists>b'. bitmap_set b i = Some b' \<and> bm_ok b' \<and> bm_len b' = bm_len b \<and>
           bm_bits b' = insert i (bm_bits b)"
proof -
  have "bit ((bm_words b ! (i div 32)) OR push_bit (i mod 32) 1) j \<longleftrightarrow>
      (if j = i mod 32 then True else bit (bm_words b ! (i div 32)) j)" if "j < 32" for j
    using that by (simp add: bit_or_one)
  from word_update_bits [OF assms this] assms show ?thesis
    by (simp add: bitmap_set_def Let_def bm_ok_arr)
qed

lemma bitmap_unset_Some:
  assumes "bm_ok b" and "i < bm_len b"
  shows "\<exists>b'. bitmap_unset b i = Some b' \<and> bm_ok b' \<and> bm_len b' = bm_len b \<and>
           bm_bits b' = bm_bits b - {i}"
proof -
  have "bit ((bm_words b ! (i div 32)) AND NOT (push_bit (i mod 32) 1)) j \<longleftrightarrow>
      (if j = i mod 32 then False else bit (bm_words b ! (i div 32)) j)" if "j < 32" for j
    by (auto simp: bit_andnot_one)
  from word_update_bits [OF assms this] assms show ?thesis
    by (simp add: bitmap_unset_def Let_def bm_ok_arr)
qed

lemma bitmap_is_set_Some:
  assumes "bm_ok b" and "i < bm_len b"
  shows "bitmap_is_set b i = Some (i \<in> bm_bits b)"
  using assms bm_ok_index [OF assms]
  by (simp add: bitmap_is_set_def Let_def bm_ok_arr and_one_gt0 bm_bits_def bit_at_def)

lemma bitmap_oob:
  assumes "bm_len b \<le> i"
  shows "bitmap_set b i = None" and "bitmap_unset b i = None" and "bitmap_is_set b i = None"
  using assms by (simp_all add: bitmap_set_def bitmap_unset_def bitmap_is_set_def)

subsection \<open>Finding a free bit\<close>

lemma bit_max_word: "n < 32 \<Longrightarrow> bit (- 1 :: u32) n"
  by (simp add: bit_simps)

lemma bit_at_Cons: "bit_at (w # ws) i \<longleftrightarrow> (if i < 32 then bit w i else bit_at ws (i - 32))"
proof (cases "i < 32")
  case False
  then have "i div 32 = Suc ((i - 32) div 32)" and "i mod 32 = (i - 32) mod 32"
    by (simp_all add: le_div_geq le_mod_geq)
  moreover have "i < 32 * length (w # ws) \<longleftrightarrow> i - 32 < 32 * length ws" using False by auto
  ultimately show ?thesis using False by (simp add: bit_at_def)
qed (simp add: bit_at_def)

text \<open>The scan from word \<open>k\<close> on returns the least clear index at or above \<open>32 * k\<close>, if it is in range.\<close>

lemma find_free_from_Some:
  "find_free_from len k ws = Some i \<Longrightarrow>
     32 * k \<le> i \<and> i < len \<and> i < 32 * (k + length ws) \<and> \<not> bit_at ws (i - 32 * k) \<and>
     (\<forall>j. 32 * k \<le> j \<longrightarrow> j < i \<longrightarrow> bit_at ws (j - 32 * k))"
proof (induction len k ws rule: find_free_from.induct)
  case (1 len k)
  then show ?case by simp
next
  case (2 len k w ws)
  show ?case
  proof (cases "w = - 1")
    case True
    then have "find_free_from len (k + 1) ws = Some i" using "2.prems" by simp
    note IH = "2.IH" [OF _ this, simplified True, simplified]
    have at: "bit_at (w # ws) (j - 32 * k) \<longleftrightarrow> j - 32 * k < 32 \<or> bit_at ws (j - (32 * k + 32))" for j
      by (auto simp: bit_at_Cons True bit_max_word)
    have "bit_at (w # ws) (j - 32 * k)" if "32 * k \<le> j" and "j < i" for j
      using that IH at [of j] by (cases "32 * k + 32 \<le> j") (auto simp: add.commute [of 32])
    then show ?thesis using IH at [of i] by (auto simp: not_less add.commute [of 32])
  next
    case False
    let ?t = "trailing_zeros (NOT w)"
    have nz: "NOT w \<noteq> 0" using False by (metis bit.double_compl bit.compl_zero)
    note t = trailing_zeros_spec [OF nz]
    from "2.prems" False have i: "i = k * 32 + ?t" "i < len"
      by (auto simp: Let_def split: if_splits)
    have "bit w j" if "j < ?t" for j
      using t(3) [OF that] t(1) that by (simp add: bit_simps)
    moreover have "\<not> bit w ?t" using t(1,2) by (simp add: bit_simps)
    ultimately show ?thesis using i t(1) by (auto simp: bit_at_Cons)
  qed
qed

lemma find_free_from_None:
  "find_free_from len k ws = None \<Longrightarrow> 32 * k \<le> i \<Longrightarrow> i < len \<Longrightarrow> i < 32 * (k + length ws) \<Longrightarrow>
     bit_at ws (i - 32 * k)"
proof (induction len k ws rule: find_free_from.induct)
  case (1 len k)
  then show ?case by simp
next
  case (2 len k w ws)
  show ?case
  proof (cases "w = - 1")
    case True
    then have none: "find_free_from len (k + 1) ws = None" using "2.prems" by simp
    show ?thesis
    proof (cases "i - 32 * k < 32")
      case True
      then show ?thesis using \<open>w = - 1\<close> by (simp add: bit_at_Cons bit_max_word)
    next
      case False
      then have "32 * (k + 1) \<le> i" using "2.prems"(2) by simp
      with "2.IH" [OF _ none] \<open>w = - 1\<close> "2.prems"(3,4) have "bit_at ws (i - 32 * (k + 1))" by simp
      then show ?thesis using False by (simp add: bit_at_Cons add.commute [of 32])
    qed
  next
    case False
    let ?t = "trailing_zeros (NOT w)"
    have nz: "NOT w \<noteq> 0" using False by (metis bit.double_compl bit.compl_zero)
    note t = trailing_zeros_spec [OF nz]
    from "2.prems" False have "len \<le> k * 32 + ?t"
      by (auto simp: Let_def split: if_splits)
    then have j: "i - 32 * k < ?t" using "2.prems"(2,3) by simp
    have "bit w (i - 32 * k)" using t(3) [OF j] t(1) j by (simp add: bit_simps)
    then show ?thesis using j t(1) by (simp add: bit_at_Cons)
  qed
qed

lemma bitmap_find_free_Some:
  assumes "bm_ok b" and "bitmap_find_free b = Some i"
  shows "i < bm_len b" and "i \<notin> bm_bits b" and "j < i \<Longrightarrow> j \<in> bm_bits b"
  using find_free_from_Some [OF assms(2) [unfolded bitmap_find_free_def]] assms(1)
  by (auto simp: bm_bits_iff)

lemma bitmap_find_free_None:
  assumes "bm_ok b"
  shows "bitmap_find_free b = None \<longleftrightarrow> bm_bits b = {..<bm_len b}"
proof
  assume none: "bitmap_find_free b = None"
  have "i \<in> bm_bits b" if "i < bm_len b" for i
    using find_free_from_None [OF none [unfolded bitmap_find_free_def], of i] that
      bm_ok_index [OF assms that] by (simp add: bm_bits_iff [OF assms])
  then show "bm_bits b = {..<bm_len b}" using bm_bits_subset by auto
next
  assume full: "bm_bits b = {..<bm_len b}"
  show "bitmap_find_free b = None"
  proof (cases "bitmap_find_free b")
    case (Some i)
    then show ?thesis using bitmap_find_free_Some [OF assms Some] full by simp
  qed simp
qed

subsection \<open>Draining\<close>

lemma filter_bit_lowest:
  fixes n :: u32
  assumes "n \<noteq> 0"
  shows "filter (bit n) [0..<32] =
    trailing_zeros n # filter (bit (n AND NOT (push_bit (trailing_zeros n) 1))) [0..<32]"
proof -
  let ?t = "trailing_zeros n"
  note t = trailing_zeros_spec [OF assms]
  have split: "[0..<32] = [0..<?t] @ ?t # [Suc ?t..<32]"
    using t(1) upt_add_eq_append [OF le0, of ?t "32 - ?t"] upt_conv_Cons [of ?t 32] by simp
  have low: "filter (bit n) [0..<?t] = []" "filter (bit (n AND NOT (push_bit ?t 1))) [0..<?t] = []"
    using t(3) by (auto simp: filter_empty_conv bit_andnot_one)
  have high: "filter (bit (n AND NOT (push_bit ?t 1))) [Suc ?t..<32] = filter (bit n) [Suc ?t..<32]"
    by (rule filter_cong) (auto simp: bit_andnot_one)
  show ?thesis unfolding split using low high t(2) by (simp add: bit_andnot_one)
qed

lemma drain_word_eq: "drain_word k n = (map ((+) (k * 32)) (filter (bit n) [0..<32]), 0)"
proof (induction k n rule: drain_word.induct)
  case (1 k n)
  show ?case
  proof (cases "n = 0")
    case True
    then show ?thesis by (simp add: drain_word.simps)
  next
    case False
    from "1.IH" [OF False refl]
    show ?thesis
      by (simp only: drain_word.simps [of k n] filter_bit_lowest [OF False] Let_def) (simp add: False)
  qed
qed

lemma filter_bit_at_Cons:
  "filter (bit_at (w # ws)) [0..<32 + m] =
     filter (bit w) [0..<32] @ map ((+) 32) (filter (bit_at ws) [0..<m])"
proof -
  have "[0..<32 + m] = [0..<32] @ map (\<lambda>i. i + 32) [0..<m]"
    by (simp only: upt_add_eq_append [OF le0, of 32 m] map_add_upt add.commute [of m])
  moreover have "filter (bit_at (w # ws)) [0..<32] = filter (bit w) [0..<32]"
    by (rule filter_cong) (auto simp: bit_at_Cons)
  moreover have "filter (bit_at (w # ws)) (map (\<lambda>i. i + 32) [0..<m]) =
      map ((+) 32) (filter (bit_at ws) [0..<m])"
    by (simp add: filter_map bit_at_Cons comp_def add.commute)
  ultimately show ?thesis by simp
qed

lemma drain_words_eq:
  "drain_words k ws =
     (map ((+) (k * 32)) (filter (bit_at ws) [0..<32 * length ws]), replicate (length ws) 0)"
proof (induction ws arbitrary: k)
  case (Cons w ws)
  show ?case
    by (simp only: drain_words.simps Cons.IH drain_word_eq length_Cons mult_Suc_right filter_bit_at_Cons)
       (simp add: comp_def add.assoc)
qed simp

lemma bitmap_drain_ones_spec:
  assumes "bm_ok b"
  shows "fst (bitmap_drain_ones b) = sorted_list_of_set (bm_bits b)"
    and "bm_ok (snd (bitmap_drain_ones b))" and "bm_bits (snd (bitmap_drain_ones b)) = {}"
    and "bm_len (snd (bitmap_drain_ones b)) = bm_len b"
proof -
  let ?l = "filter (bit_at (bm_words b)) [0..<32 * length (bm_words b)]"
  have eq: "bitmap_drain_ones b = (?l, b\<lparr>bm_words := replicate (length (bm_words b)) 0\<rparr>)"
    by (simp add: bitmap_drain_ones_def drain_words_eq map_idI)
  have "set ?l = bm_bits b" by (auto simp: bm_bits_iff [OF assms] bit_at_def)
  moreover have "sorted ?l" and "distinct ?l" by (simp_all add: sorted_wrt_filter)
  ultimately show "fst (bitmap_drain_ones b) = sorted_list_of_set (bm_bits b)"
    by (metis eq fst_conv sorted_list_of_set.idem_if_sorted_distinct)
  show "bm_ok (snd (bitmap_drain_ones b))" and "bm_bits (snd (bitmap_drain_ones b)) = {}"
    and "bm_len (snd (bitmap_drain_ones b)) = bm_len b"
    using assms by (simp_all add: eq bm_ok_def bm_bits_def)
qed

subsection \<open>Raw words\<close>

lemma bit_low_mask: "k < 32 \<Longrightarrow> bit (push_bit k 1 - 1 :: u32) j \<longleftrightarrow> j < k"
proof -
  assume k: "k < 32"
  have "push_bit k 1 - 1 = (mask k :: u32)" by (simp add: mask_eq_exp_minus_1 push_bit_of_1)
  then show ?thesis using k by (auto simp: bit_mask_iff)
qed

text \<open>
  A word list of the right length always loads; the bits below \<open>len\<close> are kept, the padding is
  cleared, and a wrong length is reported with both counts.
\<close>

lemma bit_at_from_words:
  assumes "words \<noteq> []"
  shows "bit_at (butlast words @ [last words AND m]) i \<longleftrightarrow>
    bit_at words i \<and> (i div 32 = length words - 1 \<longrightarrow> bit m (i mod 32))"
proof -
  have div: "i < 32 * length words \<longleftrightarrow> i div 32 < length words"
    by (simp add: div_less_iff_less_mult mult.commute)
  have "i div 32 < length words \<Longrightarrow> \<not> i div 32 < length words - 1 \<Longrightarrow> i div 32 = length words - 1"
    by simp
  then show ?thesis
    using assms
    by (cases "i div 32 < length words - 1")
       (auto simp: bit_at_def div nth_append nth_butlast last_conv_nth bit_and_iff)
qed

lemma bitmap_from_words_Inr:
  assumes "length words = div_ceil len 32"
  shows "\<exists>b. bitmap_from_words len words = Inr b \<and> bm_ok b \<and> bm_len b = len \<and>
           bm_bits b = {i. i < len \<and> bit_at words i}"
proof (cases "words \<noteq> [] \<and> len mod 32 \<noteq> 0")
  case True
  let ?ws = "butlast words @ [last words AND (push_bit (len mod 32) 1 - 1)]"
  have n: "length words = len div 32 + 1" using assms True by (simp add: div_ceil_def)
  have at: "bit_at ?ws i \<longleftrightarrow> bit_at words i \<and> i < len" for i
  proof -
    have "i div 32 = len div 32 \<Longrightarrow> i mod 32 < len mod 32 \<longleftrightarrow> i < len"
      using div_mult_mod_eq [of i 32] div_mult_mod_eq [of len 32] by linarith
    moreover have "i div 32 < len div 32 \<Longrightarrow> i < len"
      using div_le_mono [of len i 32] by linarith
    moreover have "bit_at words i \<Longrightarrow> i div 32 \<le> len div 32"
      using n by (auto simp: bit_at_def div_less_iff_less_mult mult.commute)
    moreover have "bit_at ?ws i \<longleftrightarrow> bit_at words i \<and> (i div 32 = len div 32 \<longrightarrow> i mod 32 < len mod 32)"
      using True n bit_at_from_words [of words "push_bit (len mod 32) 1 - 1" i]
      by (simp add: bit_low_mask)
    ultimately show ?thesis by (meson le_neq_implies_less)
  qed
  have "length ?ws = div_ceil len 32" using assms n by simp
  then have "bm_ok \<lparr>bm_len = len, bm_words = ?ws\<rparr>"
    unfolding bm_ok_def by (simp only: bitmap.select_convs at) simp
  moreover have "bm_bits \<lparr>bm_len = len, bm_words = ?ws\<rparr> = {i. i < len \<and> bit_at words i}"
    unfolding bm_bits_def by (simp only: bitmap.select_convs at) auto
  moreover have "bitmap_from_words len words = Inr \<lparr>bm_len = len, bm_words = ?ws\<rparr>"
    using True assms by (simp add: bitmap_from_words_def)
  ultimately show ?thesis by simp
next
  case False
  have "bit_at words i \<Longrightarrow> i < len" for i
  proof -
    assume "bit_at words i"
    then have i: "i < 32 * length words" by (simp add: bit_at_def)
    then have "words \<noteq> []" by auto
    then have "len mod 32 = 0" using False by simp
    then have "32 * length words = len" using assms by (simp add: div_ceil_def) presburger
    with i show "i < len" by simp
  qed
  then have "\<forall>i. len \<le> i \<longrightarrow> \<not> bit_at words i" by (meson not_le)
  with False assms show ?thesis by (auto simp: bitmap_from_words_def bm_ok_def bm_bits_def)
qed

lemma bitmap_words_eqI:
  assumes "length ws = length vs" and "\<And>i. bit_at ws i \<longleftrightarrow> bit_at vs i"
  shows "ws = vs"
proof (rule nth_equalityI [OF assms(1)])
  fix k assume k: "k < length ws"
  have "bit (ws ! k) j \<longleftrightarrow> bit (vs ! k) j" if "j < 32" for j
  proof -
    have "(32 * k + j) div 32 = k" and "(32 * k + j) mod 32 = j"
      and "32 * k + j < 32 * length ws"
      using that k by auto
    then show ?thesis using assms(2) [of "32 * k + j"] assms(1) by (simp add: bit_at_def)
  qed
  then show "ws ! k = vs ! k" by (auto intro: bit_word_eqI)
qed

lemma bitmap_eqI:
  assumes "bm_ok a" and "bm_ok b" and "bm_len a = bm_len b" and "bm_bits a = bm_bits b"
  shows "a = (b :: bitmap)"
proof -
  have "bm_words a = bm_words b"
    using assms by (intro bitmap_words_eqI) (auto simp: bm_okD_len simp flip: bm_bits_iff)
  then show ?thesis using assms(3) by simp
qed


section \<open>The contract of the clients\<close>

text \<open>
  What an allocator built on a bitmap relies on: the five operations act on a set of indices below
  a fixed capacity, an index outside it panics, and the search returns the least free index.
\<close>

locale bit_allocator =
  fixes new :: "nat \<Rightarrow> 'b"
    and mark :: "'b \<Rightarrow> nat \<Rightarrow> 'b option"
    and unmark :: "'b \<Rightarrow> nat \<Rightarrow> 'b option"
    and test :: "'b \<Rightarrow> nat \<Rightarrow> bool option"
    and first_free :: "'b \<Rightarrow> nat option"
    and bits :: "'b \<Rightarrow> nat set"
    and cap :: "'b \<Rightarrow> nat"
    and invar :: "'b \<Rightarrow> bool"
  assumes new: "invar (new n)" "cap (new n) = n" "bits (new n) = {}"
    and bits_cap: "bits b \<subseteq> {..<cap b}"
    and mark: "invar b \<Longrightarrow> i < cap b \<Longrightarrow>
      \<exists>b'. mark b i = Some b' \<and> invar b' \<and> cap b' = cap b \<and> bits b' = insert i (bits b)"
    and unmark: "invar b \<Longrightarrow> i < cap b \<Longrightarrow>
      \<exists>b'. unmark b i = Some b' \<and> invar b' \<and> cap b' = cap b \<and> bits b' = bits b - {i}"
    and test: "invar b \<Longrightarrow> i < cap b \<Longrightarrow> test b i = Some (i \<in> bits b)"
    and out_of_range: "cap b \<le> i \<Longrightarrow> mark b i = None \<and> unmark b i = None \<and> test b i = None"
    and first_free_Some: "invar b \<Longrightarrow> first_free b = Some i \<Longrightarrow>
      i < cap b \<and> i \<notin> bits b \<and> (\<forall>j<i. j \<in> bits b)"
    and first_free_None: "invar b \<Longrightarrow> first_free b = None \<longleftrightarrow> bits b = {..<cap b}"
begin

text \<open>Claiming the first free index: search, then mark. The client gets a fresh index.\<close>

lemma claim_fresh:
  assumes "invar b" and "first_free b = Some i"
  shows "\<exists>b'. mark b i = Some b' \<and> invar b' \<and> cap b' = cap b \<and> i \<notin> bits b \<and> i < cap b \<and>
    bits b' = insert i (bits b) \<and> card (bits b') = Suc (card (bits b))"
proof -
  from first_free_Some [OF assms] have i: "i < cap b" "i \<notin> bits b" by auto
  have "finite (bits b)" using bits_cap finite_subset by blast
  with mark [OF assms(1) i(1)] i show ?thesis by auto
qed

text \<open>A search fails only when every index is taken, so capacity is never lost.\<close>

lemma claim_exhausted:
  assumes "invar b"
  shows "first_free b = None \<longleftrightarrow> card (bits b) = cap b"
proof
  assume "first_free b = None"
  then show "card (bits b) = cap b" using first_free_None [OF assms] by simp
next
  assume "card (bits b) = cap b"
  then have "bits b = {..<cap b}" using bits_cap by (metis card_lessThan card_subset_eq finite_lessThan)
  then show "first_free b = None" using first_free_None [OF assms] by simp
qed

text \<open>Releasing a claimed index makes it available again.\<close>

lemma release_available:
  assumes "invar b" and "unmark b i = Some b'"
  shows "invar b' \<and> cap b' = cap b \<and> bits b' = bits b - {i} \<and> i < cap b \<and> first_free b' \<noteq> None"
proof -
  have i: "i < cap b" using assms(2) out_of_range by (metis not_le option.distinct(1))
  from unmark [OF assms(1) i] assms(2) have b': "invar b'" "cap b' = cap b" "bits b' = bits b - {i}" by auto
  then have "bits b' \<noteq> {..<cap b'}" using i by auto
  then show ?thesis using b' i first_free_None by auto
qed

end

interpretation bm: bit_allocator bitmap_new bitmap_set bitmap_unset bitmap_is_set bitmap_find_free
  bm_bits bm_len bm_ok
  by unfold_locales
    (simp_all add: bitmap_new_ok bitmap_new_len bitmap_new_bits bm_bits_subset bitmap_set_Some
      bitmap_unset_Some bitmap_is_set_Some bitmap_oob bitmap_find_free_None bitmap_find_free_Some)

section \<open>Properties\<close>

text \<open>
  The bitmap refines a set of indices below its capacity. In range, \<open>set\<close>, \<open>unset\<close> and \<open>is_set\<close>
  succeed and are insertion, deletion and membership, and the representation invariant is kept;
  out of range each of them panics.
\<close>

theorem bitmap_refines_index_set:
  assumes "bm_ok b"
  shows "(if i < bm_len b then
      (\<exists>s u. bitmap_set b i = Some s \<and> bm_ok s \<and> bm_len s = bm_len b \<and> bm_bits s = insert i (bm_bits b) \<and>
             bitmap_unset b i = Some u \<and> bm_ok u \<and> bm_len u = bm_len b \<and> bm_bits u = bm_bits b - {i}) \<and>
      bitmap_is_set b i = Some (i \<in> bm_bits b)
    else bitmap_set b i = None \<and> bitmap_unset b i = None \<and> bitmap_is_set b i = None)"
proof (cases "i < bm_len b")
  case True
  with bm.mark [OF assms True] bm.unmark [OF assms True] bm.test [OF assms True] show ?thesis
    by auto
qed (simp add: bm.out_of_range)

theorem bitmap_refines_index_set_witness:
  "bm_ok (bitmap_new 40) \<and> (\<exists>s. bitmap_set (bitmap_new 40) 33 = Some s \<and> bm_bits s = {33})
    \<and> bitmap_set (bitmap_new 40) 40 = None"
  using bitmap_refines_index_set [OF bm.new(1), of 33 40] bitmap_refines_index_set [OF bm.new(1), of 40 40]
  by (auto simp: bm.new)

text \<open>
  \<open>find_free\<close> returns the least clear index below the capacity, and \<open>None\<close> exactly when every
  index is set; the bits past the capacity in the last word are never handed out.
\<close>

theorem bitmap_find_free_least:
  assumes "bm_ok b"
  shows "bitmap_find_free b =
    (if bm_bits b = {..<bm_len b} then None else Some (LEAST i. i \<notin> bm_bits b))"
proof (cases "bitmap_find_free b")
  case None
  then show ?thesis using bm.first_free_None [OF assms] by simp
next
  case (Some i)
  from bm.first_free_Some [OF assms Some] have "(LEAST i. i \<notin> bm_bits b) = i"
    by (intro Least_equality) (auto simp: not_le [symmetric])
  then show ?thesis using Some bm.first_free_None [OF assms] by auto
qed

theorem bitmap_find_free_least_witness:
  "bm_ok \<lparr>bm_len = 33, bm_words = [- 1, 0]\<rparr> \<and> bitmap_find_free \<lparr>bm_len = 33, bm_words = [- 1, 0]\<rparr> = Some 32
    \<and> (LEAST i. i \<notin> bm_bits \<lparr>bm_len = 33, bm_words = [- 1, 0]\<rparr>) = 32"
proof -
  let ?b = "\<lparr>bm_len = 33, bm_words = [- 1, 0]\<rparr>"
  have ok: "bm_ok ?b" by (auto simp: bm_ok_def bit_at_def div_ceil_def not_less)
  have free: "bitmap_find_free ?b = Some 32" by code_simp
  show ?thesis using ok free bitmap_find_free_least [OF ok] by (auto split: if_splits)
qed

text \<open>
  Running the \<open>drain_ones\<close> iterator to its end yields every set index exactly once, in
  increasing order, and leaves the bitmap empty with its capacity and invariant intact.
\<close>

theorem bitmap_drain_ones_exact:
  assumes "bm_ok b"
  shows "bitmap_drain_ones b = (sorted_list_of_set (bm_bits b), bitmap_new (bm_len b))"
proof (rule prod_eqI)
  show "snd (bitmap_drain_ones b) = snd (sorted_list_of_set (bm_bits b), bitmap_new (bm_len b))"
    using bitmap_drain_ones_spec [OF assms] by (simp add: bitmap_eqI bm.new)
qed (simp add: bitmap_drain_ones_spec [OF assms])

theorem bitmap_drain_ones_exact_witness:
  "bm_ok \<lparr>bm_len = 40, bm_words = [5, 2]\<rparr> \<and>
    bitmap_drain_ones \<lparr>bm_len = 40, bm_words = [5, 2]\<rparr> =
      (sorted_list_of_set (bm_bits \<lparr>bm_len = 40, bm_words = [5, 2]\<rparr>), \<lparr>bm_len = 40, bm_words = [0, 0]\<rparr>)"
proof -
  have "bm_ok \<lparr>bm_len = 40, bm_words = [5, 2]\<rparr>"
    by (simp add: bm_ok_def div_ceil_def atLeastLessThan_nat_numeral bit_at_def)
  moreover have "bitmap_new 40 = \<lparr>bm_len = 40, bm_words = [0, 0]\<rparr>" by code_simp
  ultimately show ?thesis using bitmap_drain_ones_exact [of "\<lparr>bm_len = 40, bm_words = [5, 2]\<rparr>"] by simp
qed

text \<open>
  \<open>from_words\<close> accepts a word list exactly when its length fits the capacity, reports both
  counts otherwise, and masks the unused bits of the last word: whatever was stored there, the
  result satisfies the invariant and has exactly the stored bits below the capacity. The words of
  a well-formed bitmap are read back unchanged.
\<close>

theorem bitmap_from_words_roundtrip:
  "(length words \<noteq> div_ceil len 32 \<longrightarrow>
      bitmap_from_words len words = Inl \<lparr>iwc_expected = div_ceil len 32, iwc_actual = length words\<rparr>) \<and>
   (length words = div_ceil len 32 \<longrightarrow>
      (\<exists>b. bitmap_from_words len words = Inr b \<and> bm_ok b \<and> bm_len b = len \<and>
           bm_bits b = {i. i < len \<and> bit_at words i})) \<and>
   (bm_ok b0 \<longrightarrow> bitmap_from_words (bm_len b0) (bm_words b0) = Inr b0)"
proof (intro conjI impI)
  show "bitmap_from_words len words = Inl \<lparr>iwc_expected = div_ceil len 32, iwc_actual = length words\<rparr>"
    if "length words \<noteq> div_ceil len 32"
    using that by (simp add: bitmap_from_words_def)
  show "\<exists>b. bitmap_from_words len words = Inr b \<and> bm_ok b \<and> bm_len b = len \<and>
           bm_bits b = {i. i < len \<and> bit_at words i}" if "length words = div_ceil len 32"
    using that by (rule bitmap_from_words_Inr)
  assume ok: "bm_ok b0"
  from bitmap_from_words_Inr [OF bm_okD_len [OF ok]] obtain b where
    b: "bitmap_from_words (bm_len b0) (bm_words b0) = Inr b" "bm_ok b" "bm_len b = bm_len b0"
      "bm_bits b = bm_bits b0" by (auto simp: bm_bits_def)
  then show "bitmap_from_words (bm_len b0) (bm_words b0) = Inr b0" using bitmap_eqI [OF b(2) ok] by simp
qed

theorem bitmap_from_words_roundtrip_witness:
  "(\<exists>b. bitmap_from_words 33 [7, - 1] = Inr b \<and> bm_ok b \<and> bm_len b = 33) \<and>
   bitmap_from_words 33 [7] = Inl \<lparr>iwc_expected = 2, iwc_actual = 1\<rparr> \<and>
   bitmap_from_words 33 [0, 0] = Inr (bitmap_new 33)"
proof -
  have n: "div_ceil 33 32 = 2" by code_simp
  have z: "bm_words (bitmap_new 33) = [0, 0]" by code_simp
  show ?thesis
    using bitmap_from_words_roundtrip [of "[7, - 1]" 33 "bitmap_new 33"]
      bitmap_from_words_roundtrip [of "[7]" 33 "bitmap_new 33"] n
    by (auto simp: bm.new z)
qed

end
