(* ===== verification/Phys_Range.thy ===== *)
theory Phys_Range
  imports Kernel_Prelude
begin

text \<open>
  Physical address ranges (\<open>virtual_memory/src/physical_range.rs\<close>): construction, page rounding,
  normalisation of a list of ranges, and the computation of the usable page frames from RAM and
  reservations. The device tree produces the inputs, the page-frame allocator builds its arenas
  from the result.
\<close>

section \<open>Model\<close>

definition PAGE_SIZE :: usize where
  "PAGE_SIZE = 4096"

record phys_range =
  pr_start :: usize
  pr_end :: usize

datatype phys_range_error = AddressOverflow | EmptyRange

definition from_start_size :: "usize \<Rightarrow> usize \<Rightarrow> phys_range_error + phys_range" where
  "from_start_size start sz =
     (case checked_add start sz of
        None \<Rightarrow> Inl AddressOverflow
      | Some e \<Rightarrow> if start \<ge> e then Inl EmptyRange else Inr \<lparr>pr_start = start, pr_end = e\<rparr>)"

definition pr_size :: "phys_range \<Rightarrow> usize panics" where
  "pr_size r = sub_usize (pr_end r) (pr_start r)"

text \<open>The option of \<open>align_up\<close> is the code's own \<open>Option\<close>, not a panic.\<close>

definition pr_align_up :: "usize \<Rightarrow> usize option" where
  "pr_align_up addr =
     map_option (\<lambda>addr. addr AND not_usize (PAGE_SIZE - 1)) (checked_add addr (PAGE_SIZE - 1))"

definition pr_align_down :: "usize \<Rightarrow> usize" where
  "pr_align_down addr = addr AND not_usize (PAGE_SIZE - 1)"

definition covering_pages :: "phys_range \<Rightarrow> phys_range_error + phys_range" where
  "covering_pages r =
     (let start = pr_align_down (pr_start r)
      in case pr_align_up (pr_end r) of
           None \<Rightarrow> Inl AddressOverflow
         | Some e \<Rightarrow> Inr \<lparr>pr_start = start, pr_end = e\<rparr>)"

text \<open>The merging loop of \<open>normalize_ranges\<close>; the accumulator is the vector \<open>normalized\<close>.\<close>

fun normalize_loop :: "phys_range list \<Rightarrow> phys_range list \<Rightarrow> phys_range list" where
  "normalize_loop normalized [] = normalized"
| "normalize_loop normalized (rng # ranges) =
     (if normalized \<noteq> [] \<and> pr_start rng \<le> pr_end (last normalized)
      then normalize_loop
             (butlast normalized @
                [(last normalized)\<lparr>pr_end := max (pr_end (last normalized)) (pr_end rng)\<rparr>]) ranges
      else normalize_loop (normalized @ [rng]) ranges)"

definition normalize_ranges :: "phys_range list \<Rightarrow> phys_range list" where
  "normalize_ranges ranges = normalize_loop [] (sort_key pr_start ranges)"

text \<open>What one fragment contributes to \<open>next\<close> for one reserved range.\<close>

definition subtract_fragment :: "phys_range \<Rightarrow> phys_range \<Rightarrow> phys_range list" where
  "subtract_fragment reserved fragment =
     (if pr_end reserved \<le> pr_start fragment \<or> pr_start reserved \<ge> pr_end fragment then [fragment]
      else (if pr_start fragment < pr_start reserved
            then [\<lparr>pr_start = pr_start fragment, pr_end = min (pr_start reserved) (pr_end fragment)\<rparr>]
            else []) @
           (if pr_end reserved < pr_end fragment
            then [\<lparr>pr_start = max (pr_end reserved) (pr_start fragment), pr_end = pr_end fragment\<rparr>]
            else []))"

definition subtract_reserved :: "phys_range \<Rightarrow> phys_range list \<Rightarrow> phys_range list" where
  "subtract_reserved reserved fragments = concat (map (subtract_fragment reserved) fragments)"

definition trim_to_pages :: "phys_range \<Rightarrow> phys_range list" where
  "trim_to_pages fragment =
     (case pr_align_up (pr_start fragment) of
        None \<Rightarrow> []
      | Some start \<Rightarrow>
          let e = pr_align_down (pr_end fragment)
          in if start < e then [\<lparr>pr_start = start, pr_end = e\<rparr>] else [])"

definition usable_memory_ranges :: "phys_range list \<Rightarrow> phys_range list \<Rightarrow> phys_range list" where
  "usable_memory_ranges memory reserved =
     (let memory = normalize_ranges memory; reserved = normalize_ranges reserved
      in sort_key pr_start
           (concat (map (\<lambda>memory_range.
              concat (map trim_to_pages (fold subtract_reserved reserved [memory_range]))) memory)))"

section \<open>Addresses, well-formed ranges, separation\<close>

text \<open>
  A range built by \<open>from_start_size\<close> is non-empty and ends inside the address space. The meaning of a
  list of ranges is its set of addresses. Two ranges are separated when at least one address lies
  between them.
\<close>

definition pr_ok :: "phys_range \<Rightarrow> bool" where
  "pr_ok r \<longleftrightarrow> pr_start r < pr_end r \<and> pr_end r < usize_limit"

definition pr_addrs :: "phys_range \<Rightarrow> nat set" where
  "pr_addrs r = {pr_start r ..< pr_end r}"

definition ranges_addrs :: "phys_range list \<Rightarrow> nat set" where
  "ranges_addrs rs = (\<Union>r \<in> set rs. pr_addrs r)"

definition separated :: "phys_range list \<Rightarrow> bool" where
  "separated rs \<longleftrightarrow> sorted_wrt (\<lambda>a b. pr_end a < pr_start b) rs"

definition page :: "nat \<Rightarrow> nat set" where
  "page p = {p * PAGE_SIZE ..< p * PAGE_SIZE + PAGE_SIZE}"

definition page_aligned :: "phys_range \<Rightarrow> bool" where
  "page_aligned r \<longleftrightarrow> PAGE_SIZE dvd pr_start r \<and> PAGE_SIZE dvd pr_end r"

lemma ranges_addrs_simps [simp]:
  "ranges_addrs [] = {}" "ranges_addrs (r # rs) = pr_addrs r \<union> ranges_addrs rs"
  "ranges_addrs (rs @ ts) = ranges_addrs rs \<union> ranges_addrs ts"
  by (auto simp: ranges_addrs_def)

lemma ranges_addrs_set: "set rs = set ts \<Longrightarrow> ranges_addrs rs = ranges_addrs ts"
  by (simp add: ranges_addrs_def)

lemma ranges_addrs_concat: "ranges_addrs (concat (map f xs)) = (\<Union>x \<in> set xs. ranges_addrs (f x))"
  by (induction xs) auto

lemma separated_simps [simp]:
  "separated []"
  "separated (r # rs) \<longleftrightarrow> (\<forall>b \<in> set rs. pr_end r < pr_start b) \<and> separated rs"
  "separated (rs @ ts) \<longleftrightarrow> separated rs \<and> separated ts \<and>
     (\<forall>a \<in> set rs. \<forall>b \<in> set ts. pr_end a < pr_start b)"
  by (auto simp: separated_def sorted_wrt_append)

lemma from_start_size_Inr:
  "from_start_size start sz = Inr r \<longleftrightarrow>
     0 < sz \<and> start + sz < usize_limit \<and> r = \<lparr>pr_start = start, pr_end = start + sz\<rparr>"
  by (auto simp: from_start_size_def split: option.splits if_splits)

lemma from_start_size_ok: "from_start_size start sz = Inr r \<Longrightarrow> pr_ok r"
  by (auto simp: from_start_size_Inr pr_ok_def)

lemma pr_align_down_eq: "a < usize_limit \<Longrightarrow> pr_align_down a = a div PAGE_SIZE * PAGE_SIZE"
  using and_not_usize_mask [of a 12] by (simp add: pr_align_down_def PAGE_SIZE_def)

lemma pr_align_up_Some:
  "pr_align_up a = Some b \<longleftrightarrow>
     a + PAGE_SIZE - 1 < usize_limit \<and> b = (a + PAGE_SIZE - 1) div PAGE_SIZE * PAGE_SIZE"
  using and_not_usize_mask [of "a + 4095" 12]
  by (auto simp: pr_align_up_def PAGE_SIZE_def)

lemma pr_align_up_None: "pr_align_up a = None \<longleftrightarrow> usize_limit \<le> a + PAGE_SIZE - 1"
  by (auto simp: pr_align_up_def PAGE_SIZE_def)

text \<open>Rounding in terms of pages: the next boundary above, the last boundary below.\<close>

lemma round_up_le_iff: "0 < c \<Longrightarrow> (a + c - 1) div c * c \<le> p * c \<longleftrightarrow> a \<le> p * (c::nat)"
proof -
  assume c: "0 < c"
  have "(a + c - 1) div c * c \<le> p * c \<longleftrightarrow> (a + c - 1) div c < Suc p"
    using c by (simp add: less_Suc_eq_le)
  also have "\<dots> \<longleftrightarrow> a + c - 1 < Suc p * c" using c by (rule div_less_iff_less_mult)
  also have "\<dots> \<longleftrightarrow> a \<le> p * c" using c by auto
  finally show ?thesis .
qed

lemma le_round_down_iff: "0 < c \<Longrightarrow> p * c \<le> a div c * c \<longleftrightarrow> p * c \<le> (a::nat)"
  by (simp add: less_eq_div_iff_mult_less_eq)

section \<open>Normalisation\<close>

lemma normalize_loop_spec:
  assumes "separated acc" and "\<forall>r \<in> set (acc @ rs). pr_ok r"
    and "sorted (map pr_start rs)"
    and "acc \<noteq> [] \<Longrightarrow> \<forall>r \<in> set rs. pr_start (last acc) \<le> pr_start r"
  shows "separated (normalize_loop acc rs) \<and> (\<forall>r \<in> set (normalize_loop acc rs). pr_ok r) \<and>
    ranges_addrs (normalize_loop acc rs) = ranges_addrs acc \<union> ranges_addrs rs"
  using assms
proof (induction acc rs rule: normalize_loop.induct)
  case (1 acc)
  then show ?case by simp
next
  case (2 acc r rs)
  show ?case
  proof (cases "acc \<noteq> [] \<and> pr_start r \<le> pr_end (last acc)")
    case True
    then obtain bs l where acc: "acc = bs @ [l]" by (metis rev_exhaust)
    let ?m = "l\<lparr>pr_end := max (pr_end l) (pr_end r)\<rparr>"
    have le: "pr_start l \<le> pr_start r" "pr_start r \<le> pr_end l" using "2.prems"(4) True acc by auto
    have un: "pr_addrs ?m = pr_addrs l \<union> pr_addrs r"
      using le "2.prems"(2) by (auto simp: pr_addrs_def pr_ok_def acc)
    have "separated (normalize_loop (bs @ [?m]) rs) \<and>
        (\<forall>r \<in> set (normalize_loop (bs @ [?m]) rs). pr_ok r) \<and>
        ranges_addrs (normalize_loop (bs @ [?m]) rs) = ranges_addrs (bs @ [?m]) \<union> ranges_addrs rs"
    proof (rule "2.IH"(1) [OF True, unfolded acc butlast_snoc last_snoc])
      show "separated (bs @ [?m])" using "2.prems"(1) acc by simp
      show "\<forall>x \<in> set ((bs @ [?m]) @ rs). pr_ok x" using "2.prems"(2) acc by (auto simp: pr_ok_def)
      show "sorted (map pr_start rs)" using "2.prems"(3) by simp
      show "\<forall>x \<in> set rs. pr_start ?m \<le> pr_start x" using "2.prems"(4) acc by simp
    qed
    then show ?thesis using True acc un by auto
  next
    case False
    have "separated (acc @ [r])"
      using "2.prems"(1,2) False
    proof (cases acc rule: rev_cases)
      case (snoc bs l)
      then have "pr_end l < pr_start r" using False by auto
      moreover have "\<forall>a \<in> set bs. pr_end a < pr_end l"
        using "2.prems"(1,2) snoc by (fastforce simp: pr_ok_def)
      ultimately show ?thesis using "2.prems"(1) snoc by force
    qed simp
    with "2.IH"(2) [OF False] "2.prems" False show ?thesis by auto
  qed
qed

lemma normalize_ranges_spec:
  assumes "\<forall>r \<in> set rs. pr_ok r"
  shows "separated (normalize_ranges rs)" and "\<forall>r \<in> set (normalize_ranges rs). pr_ok r"
    and "ranges_addrs (normalize_ranges rs) = ranges_addrs rs"
  using normalize_loop_spec [of "[]" "sort_key pr_start rs"] assms
    ranges_addrs_set [of "sort_key pr_start rs" rs]
  by (simp_all add: normalize_ranges_def)

section \<open>Subtraction of the reservations\<close>

lemma subtract_fragment_spec:
  assumes "pr_ok v" and "pr_ok f"
  shows "ranges_addrs (subtract_fragment v f) = pr_addrs f - pr_addrs v"
    and "separated (subtract_fragment v f)"
    and "\<forall>g \<in> set (subtract_fragment v f). pr_ok g \<and> pr_start f \<le> pr_start g \<and> pr_end g \<le> pr_end f"
  using assms by (auto simp: subtract_fragment_def pr_addrs_def pr_ok_def)

lemma separated_concat_map:
  assumes "separated fs"
    and "\<And>f. f \<in> set fs \<Longrightarrow> separated (g f)"
    and "\<And>f h. f \<in> set fs \<Longrightarrow> h \<in> set (g f) \<Longrightarrow> pr_start f \<le> pr_start h \<and> pr_end h \<le> pr_end f"
  shows "separated (concat (map g fs))"
  using assms
proof (induction fs)
  case (Cons f fs)
  have "pr_end a < pr_start b" if "a \<in> set (g f)" "b \<in> set (g x)" "x \<in> set fs" for a b x
  proof -
    have "pr_end a \<le> pr_end f" using Cons.prems(3) that(1) by simp
    also have "\<dots> < pr_start x" using Cons.prems(1) that(3) by simp
    also have "\<dots> \<le> pr_start b" using Cons.prems(3) that(2,3) by simp
    finally show ?thesis .
  qed
  with Cons show ?case by auto
qed simp

lemma fold_subtract_spec:
  assumes "\<forall>v \<in> set vs. pr_ok v" and "\<forall>f \<in> set fs. pr_ok f" and "separated fs"
  shows "ranges_addrs (fold subtract_reserved vs fs) = ranges_addrs fs - ranges_addrs vs \<and>
    separated (fold subtract_reserved vs fs) \<and> (\<forall>g \<in> set (fold subtract_reserved vs fs). pr_ok g) \<and>
    (\<forall>g \<in> set (fold subtract_reserved vs fs).
       \<exists>f \<in> set fs. pr_start f \<le> pr_start g \<and> pr_end g \<le> pr_end f)"
  using assms
proof (induction vs arbitrary: fs)
  case (Cons v vs)
  let ?fs = "subtract_reserved v fs"
  have v: "pr_ok v" using Cons.prems(1) by simp
  have part: "pr_ok g \<and> pr_start f \<le> pr_start g \<and> pr_end g \<le> pr_end f"
    if "f \<in> set fs" "g \<in> set (subtract_fragment v f)" for f g
    using subtract_fragment_spec(3) [OF v] Cons.prems(2) that by blast
  have addrs: "ranges_addrs ?fs = ranges_addrs fs - pr_addrs v"
    using subtract_fragment_spec(1) [OF v] Cons.prems(2)
    by (auto simp: subtract_reserved_def ranges_addrs_concat ranges_addrs_def [of fs])
  have sep: "separated ?fs"
    unfolding subtract_reserved_def
    using Cons.prems(2,3) part subtract_fragment_spec(2) [OF v] by (intro separated_concat_map) auto
  have inside: "\<forall>g \<in> set ?fs. pr_ok g \<and> (\<exists>f \<in> set fs. pr_start f \<le> pr_start g \<and> pr_end g \<le> pr_end f)"
    using part by (force simp: subtract_reserved_def)
  have ok: "\<forall>f \<in> set ?fs. pr_ok f" "\<forall>v \<in> set vs. pr_ok v" using inside Cons.prems(1) by simp_all
  note step = Cons.IH [OF ok(2,1) sep]
  from step have IH: "ranges_addrs (fold subtract_reserved vs ?fs) = ranges_addrs ?fs - ranges_addrs vs"
    "separated (fold subtract_reserved vs ?fs)" "\<forall>g \<in> set (fold subtract_reserved vs ?fs). pr_ok g"
    "\<forall>g \<in> set (fold subtract_reserved vs ?fs). \<exists>f \<in> set ?fs. pr_start f \<le> pr_start g \<and> pr_end g \<le> pr_end f"
    by blast+
  have "\<exists>f \<in> set fs. pr_start f \<le> pr_start g \<and> pr_end g \<le> pr_end f"
    if "g \<in> set (fold subtract_reserved vs ?fs)" for g
  proof -
    from IH(4) that obtain h where h: "h \<in> set ?fs" "pr_start h \<le> pr_start g" "pr_end g \<le> pr_end h"
      by blast
    from inside h(1) obtain f where "f \<in> set fs" "pr_start f \<le> pr_start h" "pr_end h \<le> pr_end f" by blast
    with h(2,3) show ?thesis by (meson order_trans)
  qed
  then show ?case using IH(1-3) addrs by auto
qed auto

section \<open>Whole pages\<close>

lemma page_subset_iff: "page p \<subseteq> pr_addrs f \<longleftrightarrow> pr_start f \<le> p * PAGE_SIZE \<and> (p + 1) * PAGE_SIZE \<le> pr_end f"
proof
  assume sub: "page p \<subseteq> pr_addrs f"
  have "p * PAGE_SIZE \<in> page p" and "p * PAGE_SIZE + (PAGE_SIZE - 1) \<in> page p"
    by (simp_all add: page_def PAGE_SIZE_def)
  with sub have "p * PAGE_SIZE \<in> pr_addrs f" "p * PAGE_SIZE + (PAGE_SIZE - 1) \<in> pr_addrs f" by blast+
  then show "pr_start f \<le> p * PAGE_SIZE \<and> (p + 1) * PAGE_SIZE \<le> pr_end f"
    by (auto simp: pr_addrs_def PAGE_SIZE_def)
next
  assume "pr_start f \<le> p * PAGE_SIZE \<and> (p + 1) * PAGE_SIZE \<le> pr_end f"
  then show "page p \<subseteq> pr_addrs f" by (auto simp: page_def pr_addrs_def)
qed

lemma pages_between: "(\<Union>p \<in> {k..<m}. page p) = {k * PAGE_SIZE ..< m * PAGE_SIZE}"
proof -
  have "x \<in> page (x div PAGE_SIZE)" for x
    using div_mult_mod_eq [of x PAGE_SIZE] mod_less_divisor [of PAGE_SIZE x]
    by (simp only: page_def atLeastLessThan_iff) (simp add: PAGE_SIZE_def)
  moreover have "x div PAGE_SIZE \<in> {k..<m}" if "x \<in> {k * PAGE_SIZE ..< m * PAGE_SIZE}" for x
    using that by (simp add: PAGE_SIZE_def less_eq_div_iff_mult_less_eq div_less_iff_less_mult)
  moreover have "page p \<subseteq> {k * PAGE_SIZE ..< m * PAGE_SIZE}" if "p \<in> {k..<m}" for p
    using that by (auto simp: page_def PAGE_SIZE_def)
  ultimately show ?thesis by blast
qed

lemma trim_to_pages_cases:
  assumes "pr_ok f"
  obtains "trim_to_pages f = []" and "\<And>p. \<not> page p \<subseteq> pr_addrs f"
  | k m where "trim_to_pages f = [\<lparr>pr_start = k * PAGE_SIZE, pr_end = m * PAGE_SIZE\<rparr>]"
      and "k < m" and "pr_start f \<le> k * PAGE_SIZE" and "m * PAGE_SIZE \<le> pr_end f"
      and "\<And>p. page p \<subseteq> pr_addrs f \<longleftrightarrow> p \<in> {k..<m}"
proof (cases "pr_align_up (pr_start f)")
  case None
  have "\<not> page p \<subseteq> pr_addrs f" for p
    using None assms by (auto simp: pr_align_up_None page_subset_iff pr_ok_def PAGE_SIZE_def)
  with None show thesis by (intro that(1)) (simp_all add: trim_to_pages_def)
next
  case (Some s)
  define k m where "k = (pr_start f + PAGE_SIZE - 1) div PAGE_SIZE" and "m = pr_end f div PAGE_SIZE"
  have c: "0 < PAGE_SIZE" by (simp add: PAGE_SIZE_def)
  have s: "s = k * PAGE_SIZE" using Some by (simp add: pr_align_up_Some k_def)
  have e: "pr_align_down (pr_end f) = m * PAGE_SIZE"
    using assms by (simp add: pr_align_down_eq pr_ok_def m_def)
  have in_f: "page p \<subseteq> pr_addrs f \<longleftrightarrow> p \<in> {k..<m}" for p
  proof -
    have "pr_start f \<le> p * PAGE_SIZE \<longleftrightarrow> k * PAGE_SIZE \<le> p * PAGE_SIZE"
      unfolding k_def using round_up_le_iff [OF c] by simp
    moreover have "(p + 1) * PAGE_SIZE \<le> pr_end f \<longleftrightarrow> (p + 1) * PAGE_SIZE \<le> m * PAGE_SIZE"
      unfolding m_def using le_round_down_iff [OF c, of "p + 1"] by simp
    moreover have "(p + 1) * PAGE_SIZE \<le> m * PAGE_SIZE \<longleftrightarrow> p + 1 \<le> m"
      and "k * PAGE_SIZE \<le> p * PAGE_SIZE \<longleftrightarrow> k \<le> p"
      using c by (simp_all only: mult_le_cancel2) simp_all
    ultimately show ?thesis by (simp only: page_subset_iff) auto
  qed
  show thesis
  proof (cases "k < m")
    case True
    have "pr_start f \<le> k * PAGE_SIZE" using round_up_le_iff [OF c, of "pr_start f" k] by (simp add: k_def)
    moreover have "m * PAGE_SIZE \<le> pr_end f" by (simp add: m_def)
    ultimately show thesis
      using True Some s e in_f c by (intro that(2) [of k m]) (simp_all add: trim_to_pages_def)
  next
    case False
    then show thesis
      using Some s e in_f c by (intro that(1)) (simp_all add: trim_to_pages_def)
  qed
qed

lemma trim_to_pages_spec:
  assumes "pr_ok f"
  shows "ranges_addrs (trim_to_pages f) = \<Union> {page p |p. page p \<subseteq> pr_addrs f}"
    and "separated (trim_to_pages f)"
    and "\<forall>g \<in> set (trim_to_pages f). pr_ok g \<and> page_aligned g \<and>
           pr_start f \<le> pr_start g \<and> pr_end g \<le> pr_end f"
proof -
  have "ranges_addrs (trim_to_pages f) = \<Union> {page p |p. page p \<subseteq> pr_addrs f} \<and>
    separated (trim_to_pages f) \<and>
    (\<forall>g \<in> set (trim_to_pages f). pr_ok g \<and> page_aligned g \<and>
       pr_start f \<le> pr_start g \<and> pr_end g \<le> pr_end f)"
    using assms
  proof (cases rule: trim_to_pages_cases)
    case 1
    then show ?thesis by simp
  next
    case (2 k m)
    have "{page p |p. page p \<subseteq> pr_addrs f} = page ` {k..<m}" using "2"(5) by auto
    then have "\<Union> {page p |p. page p \<subseteq> pr_addrs f} = {k * PAGE_SIZE ..< m * PAGE_SIZE}"
      using pages_between [of k m] by simp
    with "2"(1-4) assms show ?thesis
      by (auto simp: pr_addrs_def pr_ok_def page_aligned_def PAGE_SIZE_def)
  qed
  then show "ranges_addrs (trim_to_pages f) = \<Union> {page p |p. page p \<subseteq> pr_addrs f}"
    and "separated (trim_to_pages f)"
    and "\<forall>g \<in> set (trim_to_pages f). pr_ok g \<and> page_aligned g \<and>
           pr_start f \<le> pr_start g \<and> pr_end g \<le> pr_end f"
    by auto
qed

text \<open>An interval covered by separated ranges lies inside one of them.\<close>

lemma separated_lt:
  assumes "separated rs" "\<forall>r \<in> set rs. pr_ok r" "f \<in> set rs" "g \<in> set rs" "f \<noteq> g"
  shows "pr_end f < pr_start g \<or> pr_end g < pr_start f"
  using assms by (induction rs) auto

lemma interval_in_one:
  assumes "separated rs" "\<forall>r \<in> set rs. pr_ok r" "a < b" "{a..<b} \<subseteq> ranges_addrs rs"
  shows "\<exists>r \<in> set rs. {a..<b} \<subseteq> pr_addrs r"
proof -
  from assms(3,4) obtain f where f: "f \<in> set rs" "a \<in> pr_addrs f" by (auto simp: ranges_addrs_def)
  have "b \<le> pr_end f"
  proof (rule ccontr)
    assume "\<not> b \<le> pr_end f"
    then have "pr_end f \<in> {a..<b}" using f by (auto simp: pr_addrs_def)
    then obtain g where g: "g \<in> set rs" "pr_end f \<in> pr_addrs g"
      using assms(4) by (auto simp: ranges_addrs_def)
    then have "f \<noteq> g" by (auto simp: pr_addrs_def)
    then show False
      using separated_lt [OF assms(1,2) f(1) g(1)] f(2) g(2) by (auto simp: pr_addrs_def)
  qed
  then show ?thesis using f by (auto simp: pr_addrs_def)
qed

section \<open>The usable frames\<close>

text \<open>The fragments before trimming: separated, and exactly the unreserved RAM.\<close>

definition free_fragments :: "phys_range list \<Rightarrow> phys_range list \<Rightarrow> phys_range list" where
  "free_fragments memory reserved =
     concat (map (\<lambda>m. fold subtract_reserved (normalize_ranges reserved) [m]) (normalize_ranges memory))"

lemma free_fragments_spec:
  assumes "\<forall>r \<in> set mem. pr_ok r" and "\<forall>r \<in> set res. pr_ok r"
  shows "separated (free_fragments mem res)" and "\<forall>r \<in> set (free_fragments mem res). pr_ok r"
    and "ranges_addrs (free_fragments mem res) = ranges_addrs mem - ranges_addrs res"
proof -
  note nm = normalize_ranges_spec [OF assms(1)] and nr = normalize_ranges_spec [OF assms(2)]
  have one: "ranges_addrs (fold subtract_reserved (normalize_ranges res) [m]) = pr_addrs m - ranges_addrs res \<and>
      separated (fold subtract_reserved (normalize_ranges res) [m]) \<and>
      (\<forall>g \<in> set (fold subtract_reserved (normalize_ranges res) [m]).
         pr_ok g \<and> pr_start m \<le> pr_start g \<and> pr_end g \<le> pr_end m)"
    if "m \<in> set (normalize_ranges mem)" for m
    using fold_subtract_spec [OF nr(2), of "[m]"] nm(2) nr(3) that by auto
  show "separated (free_fragments mem res)"
    unfolding free_fragments_def by (rule separated_concat_map [OF nm(1)]) (use one in blast)+
  show "\<forall>r \<in> set (free_fragments mem res). pr_ok r"
    using one by (auto simp: free_fragments_def)
  show "ranges_addrs (free_fragments mem res) = ranges_addrs mem - ranges_addrs res"
    using one nm(3) by (auto simp: free_fragments_def ranges_addrs_concat ranges_addrs_def [of "normalize_ranges mem"])
qed

lemma concat_map_concat:
  "concat (map g (concat (map f xs))) = concat (map (\<lambda>x. concat (map g (f x))) xs)"
  by (induction xs) simp_all

lemma separated_sorted: "separated rs \<Longrightarrow> \<forall>r \<in> set rs. pr_ok r \<Longrightarrow> sorted (map pr_start rs)"
  by (induction rs) (auto simp: pr_ok_def dest: order_less_trans intro: less_imp_le)

lemma usable_memory_ranges_eq:
  assumes "\<forall>r \<in> set mem. pr_ok r" and "\<forall>r \<in> set res. pr_ok r"
  shows "usable_memory_ranges mem res = concat (map trim_to_pages (free_fragments mem res))"
    and "separated (usable_memory_ranges mem res)"
    and "\<forall>r \<in> set (usable_memory_ranges mem res). pr_ok r \<and> page_aligned r"
proof -
  let ?u = "concat (map trim_to_pages (free_fragments mem res))"
  note ff = free_fragments_spec [OF assms]
  have trim: "separated (trim_to_pages f) \<and> (\<forall>g \<in> set (trim_to_pages f). pr_ok g \<and> page_aligned g \<and>
           pr_start f \<le> pr_start g \<and> pr_end g \<le> pr_end f)" if "f \<in> set (free_fragments mem res)" for f
    using trim_to_pages_spec(2,3) [of f] ff(2) that by simp
  have sep: "separated ?u" by (rule separated_concat_map [OF ff(1)]) (use trim in blast)+
  have ok: "\<forall>r \<in> set ?u. pr_ok r \<and> page_aligned r" using trim by auto
  have "usable_memory_ranges mem res = sort_key pr_start ?u"
    by (simp only: usable_memory_ranges_def free_fragments_def Let_def concat_map_concat)
  also have "\<dots> = ?u" using separated_sorted [OF sep] ok by (simp add: sort_key_id_if_sorted)
  finally show eq: "usable_memory_ranges mem res = ?u" .
  show "separated (usable_memory_ranges mem res)" using sep eq by simp
  show "\<forall>r \<in> set (usable_memory_ranges mem res). pr_ok r \<and> page_aligned r" using ok eq by simp
qed

lemma usable_memory_ranges_pages:
  assumes "\<forall>r \<in> set mem. pr_ok r" and "\<forall>r \<in> set res. pr_ok r"
  shows "ranges_addrs (usable_memory_ranges mem res) =
    \<Union> {page p |p. page p \<subseteq> ranges_addrs mem - ranges_addrs res}"
proof -
  note ff = free_fragments_spec [OF assms]
  have "page p \<subseteq> ranges_addrs mem - ranges_addrs res \<longleftrightarrow>
      (\<exists>f \<in> set (free_fragments mem res). page p \<subseteq> pr_addrs f)" for p
  proof
    assume "page p \<subseteq> ranges_addrs mem - ranges_addrs res"
    then show "\<exists>f \<in> set (free_fragments mem res). page p \<subseteq> pr_addrs f"
      using interval_in_one [OF ff(1,2), of "p * PAGE_SIZE" "p * PAGE_SIZE + PAGE_SIZE"] ff(3)
      by (simp add: page_def PAGE_SIZE_def)
  next
    assume "\<exists>f \<in> set (free_fragments mem res). page p \<subseteq> pr_addrs f"
    then show "page p \<subseteq> ranges_addrs mem - ranges_addrs res"
      using ff(3) by (force simp: ranges_addrs_def [of "free_fragments mem res"])
  qed
  then have "\<Union> {page p |p. page p \<subseteq> ranges_addrs mem - ranges_addrs res} =
      \<Union> {page p |p. \<exists>f \<in> set (free_fragments mem res). page p \<subseteq> pr_addrs f}"
    by (simp only:)
  also have "\<dots> = (\<Union>f \<in> set (free_fragments mem res). \<Union> {page p |p. page p \<subseteq> pr_addrs f})"
    by auto
  also have "\<dots> = ranges_addrs (usable_memory_ranges mem res)"
    using trim_to_pages_spec(1) ff(2) by (simp add: usable_memory_ranges_eq [OF assms] ranges_addrs_concat)
  finally show ?thesis by simp
qed

lemma normalize_loop_separated: "separated (acc @ rs) \<Longrightarrow> normalize_loop acc rs = acc @ rs"
proof (induction rs arbitrary: acc)
  case (Cons r rs)
  have "acc \<noteq> [] \<Longrightarrow> pr_end (last acc) < pr_start r" using Cons.prems by simp
  then have "normalize_loop acc (r # rs) = normalize_loop (acc @ [r]) rs" by auto
  then show ?case using Cons.IH [of "acc @ [r]"] Cons.prems by simp
qed simp

lemma normalize_ranges_separated:
  "separated rs \<Longrightarrow> \<forall>r \<in> set rs. pr_ok r \<Longrightarrow> normalize_ranges rs = rs"
  using normalize_loop_separated [of "[]" rs] separated_sorted [of rs]
  by (simp add: normalize_ranges_def sort_key_id_if_sorted)

section \<open>Properties\<close>

text \<open>
  \<open>usable_memory_ranges\<close> is exact. From well-formed memory and reservation lists, in any order
  and overlapping in any way, it computes a strictly separated list of page-aligned ranges whose
  bytes are exactly the whole pages that lie in memory and meet no reservation: no page is lost
  and none is handed out that is partly reserved.
\<close>

theorem usable_memory_exact:
  assumes "\<forall>r \<in> set mem. pr_ok r" and "\<forall>r \<in> set res. pr_ok r"
  shows "separated (usable_memory_ranges mem res) \<and>
    (\<forall>r \<in> set (usable_memory_ranges mem res). pr_ok r \<and> page_aligned r) \<and>
    ranges_addrs (usable_memory_ranges mem res) =
      \<Union> {page p |p. page p \<subseteq> ranges_addrs mem - ranges_addrs res}"
  using usable_memory_ranges_eq(2,3) [OF assms] usable_memory_ranges_pages [OF assms] by simp

theorem usable_memory_exact_witness:
  "usable_memory_ranges [\<lparr>pr_start = 8192, pr_end = 20480\<rparr>] [\<lparr>pr_start = 13000, pr_end = 13001\<rparr>] =
      [\<lparr>pr_start = 8192, pr_end = 12288\<rparr>, \<lparr>pr_start = 16384, pr_end = 20480\<rparr>] \<and>
   separated (usable_memory_ranges [\<lparr>pr_start = 8192, pr_end = 20480\<rparr>] [\<lparr>pr_start = 13000, pr_end = 13001\<rparr>])"
proof -
  have "usable_memory_ranges [\<lparr>pr_start = 8192, pr_end = 20480\<rparr>] [\<lparr>pr_start = 13000, pr_end = 13001\<rparr>] =
      [\<lparr>pr_start = 8192, pr_end = 12288\<rparr>, \<lparr>pr_start = 16384, pr_end = 20480\<rparr>]"
    by (simp add: usable_memory_ranges_def normalize_ranges_def subtract_reserved_def subtract_fragment_def
        trim_to_pages_def pr_align_down_eq pr_align_up_def checked_add_def not_usize_def PAGE_SIZE_def)
  moreover have "separated (usable_memory_ranges [\<lparr>pr_start = 8192, pr_end = 20480\<rparr>]
      [\<lparr>pr_start = 13000, pr_end = 13001\<rparr>])"
    using usable_memory_exact [of "[\<lparr>pr_start = 8192, pr_end = 20480\<rparr>]" "[\<lparr>pr_start = 13000, pr_end = 13001\<rparr>]"]
    by (simp add: pr_ok_def)
  ultimately show ?thesis by simp
qed

text \<open>
  \<open>normalize_ranges\<close> sorts and merges without losing or inventing an address: its result is
  strictly separated (neighbours are not even adjacent), well formed, covers exactly the input's
  bytes, and normalising again changes nothing.
\<close>

theorem normalize_ranges_canonical:
  assumes "\<forall>r \<in> set rs. pr_ok r"
  shows "separated (normalize_ranges rs) \<and> (\<forall>r \<in> set (normalize_ranges rs). pr_ok r) \<and>
    ranges_addrs (normalize_ranges rs) = ranges_addrs rs \<and>
    normalize_ranges (normalize_ranges rs) = normalize_ranges rs"
  using normalize_ranges_spec [OF assms]
  by (simp add: normalize_ranges_separated)

theorem normalize_ranges_canonical_witness:
  "normalize_ranges [\<lparr>pr_start = 20, pr_end = 30\<rparr>, \<lparr>pr_start = 0, pr_end = 5\<rparr>, \<lparr>pr_start = 5, pr_end = 8\<rparr>] =
     [\<lparr>pr_start = 0, pr_end = 8\<rparr>, \<lparr>pr_start = 20, pr_end = 30\<rparr>] \<and>
   separated (normalize_ranges [\<lparr>pr_start = 20, pr_end = 30\<rparr>, \<lparr>pr_start = 0, pr_end = 5\<rparr>, \<lparr>pr_start = 5, pr_end = 8\<rparr>])"
proof -
  let ?rs = "[\<lparr>pr_start = 20, pr_end = 30\<rparr>, \<lparr>pr_start = 0, pr_end = 5\<rparr>, \<lparr>pr_start = 5, pr_end = 8\<rparr>]"
  have "normalize_ranges ?rs = [\<lparr>pr_start = 0, pr_end = 8\<rparr>, \<lparr>pr_start = 20, pr_end = 30\<rparr>]" by code_simp
  moreover have "separated (normalize_ranges ?rs)"
    using normalize_ranges_canonical [of ?rs] by (simp add: pr_ok_def)
  ultimately show ?thesis by simp
qed

end
