(* ===== verification/Device_Tree.thy ===== *)
theory Device_Tree
  imports Phys_Range
begin

text \<open>
  System discovery (\<open>src/device_tree.rs\<close>): the kernel reads its memory map, its MMIO windows and the
  block device address from the flattened device tree. The \<open>fdt\<close> crate that parses the blob is not
  part of the repository; a value of type \<open>fdt\<close> holds what its accessors return, the parser itself
  is the argument \<open>from_ptr\<close>, and the volatile register read is the argument \<open>read_volatile\<close>.
\<close>

section \<open>The view of the device tree\<close>

record fdt_region =
  starting_address :: usize
  region_size :: "usize option"

text \<open>
  A node with the result of each query the code makes: the string properties \<open>status\<close> and
  \<open>device_type\<close>, the \<open>compatible\<close> list, the \<open>reg\<close> list, whether a \<open>size\<close> property exists, and the
  children.
\<close>

datatype fdt_node = FdtNode
  (prop_status: "string option") (prop_device_type: "string option")
  (prop_compatible: "string list option") (prop_reg: "fdt_region list option")
  (prop_has_size: bool) (node_children: "fdt_node list")

record fdt_cpu =
  riscv_isa :: "bytes option"
  timebase_frequency :: usize

record fdt =
  all_nodes :: "fdt_node list"
  memory_reservations :: "(usize \<times> usize) list"
  reserved_memory_node :: "fdt_node option"
  total_size :: usize
  fdt_cpus :: "fdt_cpu list"

section \<open>Model\<close>

datatype device_tree_error =
    InvalidFdt | DtAddressOverflow | DtEmptyRange | MissingMemoryReg | MissingRegionSize
  | NoMemoryRegions | MalformedReservedMemory | DynamicReservedMemoryUnsupported
  | MissingMmioReg | NoMmioRegions | MissingCpu | MissingCpuIsa | InvalidCpuIsa
  | MissingBlockDevice | AlreadyInitialized

fun dt_from_range_error :: "phys_range_error \<Rightarrow> device_tree_error" where
  "dt_from_range_error AddressOverflow = DtAddressOverflow"
| "dt_from_range_error EmptyRange = DtEmptyRange"

record system_info =
  si_timer_frequency :: usize
  si_cpus :: usize
  si_cpu_isa :: bytes
  si_memory_regions :: "phys_range list"
  si_reserved_memory_regions :: "phys_range list"
  si_mmio_regions :: "phys_range list"
  si_fdt_range :: phys_range
  si_total_memory :: usize
  si_block_device_addr :: usize

definition node_is_enabled :: "fdt_node \<Rightarrow> bool" where
  "node_is_enabled node \<longleftrightarrow>
     prop_status node = None \<or> prop_status node = Some ''okay'' \<or> prop_status node = Some ''ok''"

definition node_has_compatible :: "fdt_node \<Rightarrow> string \<Rightarrow> bool" where
  "node_has_compatible node expected =
     (case prop_compatible node of None \<Rightarrow> False | Some compatible \<Rightarrow> list_ex (\<lambda>v. v = expected) compatible)"

definition node_is_kernel_mmio_device :: "fdt_node \<Rightarrow> bool" where
  "node_is_kernel_mmio_device node \<longleftrightarrow>
     node_has_compatible node ''ns16550a'' \<or> node_has_compatible node ''virtio,mmio''"

text \<open>The range of one \<open>reg\<close> entry, and the inner loops that push every entry of a node.\<close>

definition region_range :: "fdt_region \<Rightarrow> device_tree_error + phys_range" where
  "region_range region =
     and_then (ok_or MissingRegionSize (region_size region))
       (\<lambda>sz. map_err dt_from_range_error (from_start_size (starting_address region) sz))"

fun push_regions ::
  "(fdt_region \<Rightarrow> device_tree_error + phys_range) \<Rightarrow> fdt_region list \<Rightarrow> phys_range list \<Rightarrow>
     device_tree_error + phys_range list" where
  "push_regions rng [] ranges = Inr ranges"
| "push_regions rng (region # regions) ranges =
     and_then (rng region) (\<lambda>r. push_regions rng regions (ranges @ [r]))"

fun memory_loop :: "fdt_node list \<Rightarrow> phys_range list \<Rightarrow> device_tree_error + phys_range list" where
  "memory_loop [] ranges = Inr ranges"
| "memory_loop (node # nodes) ranges =
     (if prop_device_type node \<noteq> Some ''memory'' then memory_loop nodes ranges
      else and_then (ok_or MissingMemoryReg (prop_reg node)) (\<lambda>regions.
           and_then (push_regions region_range regions ranges) (memory_loop nodes)))"

definition collect_memory_regions :: "fdt \<Rightarrow> device_tree_error + phys_range list" where
  "collect_memory_regions t =
     and_then (memory_loop (filter node_is_enabled (all_nodes t)) []) (\<lambda>ranges.
       if ranges = [] then Inl NoMemoryRegions else Inr (normalize_ranges ranges))"

fun reservation_loop :: "(usize \<times> usize) list \<Rightarrow> phys_range list \<Rightarrow> device_tree_error + phys_range list" where
  "reservation_loop [] ranges = Inr ranges"
| "reservation_loop ((address, sz) # rest) ranges =
     and_then (map_err dt_from_range_error (from_start_size address sz))
       (\<lambda>r. reservation_loop rest (ranges @ [r]))"

fun reserved_child_loop :: "fdt_node list \<Rightarrow> phys_range list \<Rightarrow> device_tree_error + phys_range list" where
  "reserved_child_loop [] ranges = Inr ranges"
| "reserved_child_loop (child # children) ranges =
     (case prop_reg child of
        Some regions \<Rightarrow> and_then (push_regions region_range regions ranges) (reserved_child_loop children)
      | None \<Rightarrow> if prop_has_size child then Inl DynamicReservedMemoryUnsupported
                else Inl MalformedReservedMemory)"

definition collect_reserved_memory_regions :: "fdt \<Rightarrow> device_tree_error + phys_range list" where
  "collect_reserved_memory_regions t =
     and_then (reservation_loop (memory_reservations t) []) (\<lambda>ranges.
     and_then
       (case reserved_memory_node t of
          Some parent \<Rightarrow>
            if node_is_enabled parent
            then reserved_child_loop (filter node_is_enabled (node_children parent)) ranges
            else Inr ranges
        | None \<Rightarrow> Inr ranges)
       (\<lambda>ranges. Inr (normalize_ranges ranges)))"

definition mmio_region_range :: "fdt_region \<Rightarrow> device_tree_error + phys_range" where
  "mmio_region_range region =
     and_then (region_range region) (\<lambda>r. map_err dt_from_range_error (covering_pages r))"

fun mmio_loop :: "fdt_node list \<Rightarrow> phys_range list \<Rightarrow> device_tree_error + phys_range list" where
  "mmio_loop [] ranges = Inr ranges"
| "mmio_loop (node # nodes) ranges =
     and_then (ok_or MissingMmioReg (prop_reg node)) (\<lambda>regions.
     and_then (push_regions mmio_region_range regions ranges) (mmio_loop nodes))"

definition collect_mmio_regions :: "fdt \<Rightarrow> device_tree_error + phys_range list" where
  "collect_mmio_regions t =
     and_then (mmio_loop (filter node_is_kernel_mmio_device (filter node_is_enabled (all_nodes t))) [])
       (\<lambda>ranges. if ranges = [] then Inl NoMmioRegions else Inr (normalize_ranges ranges))"

text \<open>\<open>try_fold\<close> over the region sizes: an arithmetic overflow is an error, an inverted range a panic.\<close>

fun total_memory_loop :: "phys_range list \<Rightarrow> usize \<Rightarrow> (device_tree_error + usize) panics" where
  "total_memory_loop [] tot = Some (Inr tot)"
| "total_memory_loop (r # rs) tot = do {
     sz \<leftarrow> pr_size r;
     case checked_add tot sz of
       None \<Rightarrow> Some (Inl DtAddressOverflow)
     | Some tot \<Rightarrow> total_memory_loop rs tot
   }"

text \<open>The last enabled VirtIO transport whose device id register (offset 8) reads 2 wins.\<close>

fun block_device_loop ::
  "(usize \<Rightarrow> u32) \<Rightarrow> fdt_node list \<Rightarrow> usize option \<Rightarrow> usize option panics" where
  "block_device_loop read_volatile [] found = Some found"
| "block_device_loop read_volatile (node # nodes) found =
     (if node_has_compatible node ''virtio,mmio'' then
        case prop_reg node of
          Some (region # _) \<Rightarrow> do {
            let addr = starting_address region;
            reg \<leftarrow> add_usize addr 8;
            block_device_loop read_volatile nodes (if read_volatile reg = 2 then Some addr else found)
          }
        | _ \<Rightarrow> block_device_loop read_volatile nodes found
      else block_device_loop read_volatile nodes found)"

definition base_isa :: "fdt_cpu \<Rightarrow> device_tree_error + bytes" where
  "base_isa cpu =
     and_then (ok_or MissingCpuIsa (riscv_isa cpu)) (\<lambda>isa.
     and_then (if valid_utf8 isa then Inr isa else Inl InvalidCpuIsa) (\<lambda>isa.
     and_then (ok_or InvalidCpuIsa (split_once (of_char CHR ''_'') isa)) (\<lambda>(base, _). Inr base)))"

definition system_info_new ::
  "(usize \<Rightarrow> fdt option) \<Rightarrow> (usize \<Rightarrow> u32) \<Rightarrow> usize \<Rightarrow> (device_tree_error + system_info) panics" where
  "system_info_new from_ptr read_volatile fdt_addr =
     (case from_ptr fdt_addr of
        None \<Rightarrow> Some (Inl InvalidFdt)
      | Some t \<Rightarrow>
          case collect_memory_regions t of Inl e \<Rightarrow> Some (Inl e) | Inr mem_regions \<Rightarrow>
          case collect_reserved_memory_regions t of Inl e \<Rightarrow> Some (Inl e) | Inr res_regions \<Rightarrow>
          case collect_mmio_regions t of Inl e \<Rightarrow> Some (Inl e) | Inr mmio \<Rightarrow>
          case map_err dt_from_range_error (from_start_size fdt_addr (total_size t)) of
            Inl e \<Rightarrow> Some (Inl e) | Inr fdt_rng \<Rightarrow> do {
          tot \<leftarrow> total_memory_loop mem_regions 0;
          case tot of Inl e \<Rightarrow> Some (Inl e) | Inr tot_mem \<Rightarrow> do {
          block_addr \<leftarrow>
            block_device_loop read_volatile (filter node_is_enabled (all_nodes t)) None;
          Some (case fdt_cpus t of
              [] \<Rightarrow> Inl MissingCpu
            | cpu # _ \<Rightarrow>
                and_then (base_isa cpu) (\<lambda>isa.
                and_then (ok_or MissingBlockDevice block_addr) (\<lambda>addr.
                  Inr \<lparr>si_timer_frequency = timebase_frequency cpu, si_cpus = length (fdt_cpus t),
                       si_cpu_isa = isa, si_memory_regions = mem_regions,
                       si_reserved_memory_regions = res_regions,
                       si_mmio_regions = mmio, si_fdt_range = fdt_rng,
                       si_total_memory = tot_mem, si_block_device_addr = addr\<rparr>)))
          }})"

text \<open>
  \<open>SYSINFO\<close> is a \<open>spin::Once\<close>: set at most once, by the first \<open>init\<close> that succeeds. An accessor
  before that panics.
\<close>

definition device_tree_init ::
  "(usize \<Rightarrow> fdt option) \<Rightarrow> (usize \<Rightarrow> u32) \<Rightarrow> system_info option \<Rightarrow> usize \<Rightarrow>
     (system_info option \<times> (device_tree_error + unit)) panics" where
  "device_tree_init from_ptr read_volatile sysinfo fdt_addr =
     (if sysinfo \<noteq> None then Some (sysinfo, Inl AlreadyInitialized)
      else do {
        r \<leftarrow> system_info_new from_ptr read_volatile fdt_addr;
        Some (case r of Inl e \<Rightarrow> (None, Inl e) | Inr info \<Rightarrow> (Some info, Inr ()))
      })"

text \<open>The accessors read the initialised \<open>SYSINFO\<close>; each panics before initialisation.\<close>

definition timer_frequency :: "system_info option \<Rightarrow> usize panics" where
  "timer_frequency sysinfo = map_option si_timer_frequency sysinfo"

definition cpus :: "system_info option \<Rightarrow> usize panics" where
  "cpus sysinfo = map_option si_cpus sysinfo"

definition memory_regions :: "system_info option \<Rightarrow> phys_range list panics" where
  "memory_regions sysinfo = map_option si_memory_regions sysinfo"

definition reserved_memory_regions :: "system_info option \<Rightarrow> phys_range list panics" where
  "reserved_memory_regions sysinfo = map_option si_reserved_memory_regions sysinfo"

definition system_mmio_regions :: "system_info option \<Rightarrow> phys_range list panics" where
  "system_mmio_regions sysinfo = map_option si_mmio_regions sysinfo"

definition fdt_range :: "system_info option \<Rightarrow> phys_range panics" where
  "fdt_range sysinfo = map_option si_fdt_range sysinfo"

definition total_memory :: "system_info option \<Rightarrow> usize panics" where
  "total_memory sysinfo = map_option si_total_memory sysinfo"

definition cpu_isa :: "system_info option \<Rightarrow> bytes panics" where
  "cpu_isa sysinfo = map_option si_cpu_isa sysinfo"

definition block_device_addr :: "system_info option \<Rightarrow> usize panics" where
  "block_device_addr sysinfo = map_option si_block_device_addr sysinfo"

definition mmio_regions :: "(usize \<Rightarrow> fdt option) \<Rightarrow> usize \<Rightarrow> device_tree_error + phys_range list" where
  "mmio_regions from_ptr fdt_addr =
     and_then (ok_or InvalidFdt (from_ptr fdt_addr)) collect_mmio_regions"

fun virtio_device_loop :: "fdt_node list \<Rightarrow> usize list" where
  "virtio_device_loop [] = []"
| "virtio_device_loop (node # nodes) =
     (if node_has_compatible node ''virtio,mmio'' then
        case prop_reg node of
          Some (region # _) \<Rightarrow> starting_address region # virtio_device_loop nodes
        | _ \<Rightarrow> virtio_device_loop nodes
      else virtio_device_loop nodes)"

definition virtio_mmio_devices :: "(usize \<Rightarrow> fdt option) \<Rightarrow> usize \<Rightarrow> usize list panics" where
  "virtio_mmio_devices from_ptr fdt_addr =
     map_option (\<lambda>t. virtio_device_loop (filter node_is_enabled (all_nodes t))) (from_ptr fdt_addr)"

section \<open>What a successful discovery guarantees\<close>

text \<open>The bytes one \<open>reg\<close> entry describes; an entry without a size describes none.\<close>

definition reg_addrs :: "fdt_region \<Rightarrow> nat set" where
  "reg_addrs r =
     (case region_size r of None \<Rightarrow> {} | Some sz \<Rightarrow> {starting_address r ..< starting_address r + sz})"

definition node_addrs :: "fdt_node \<Rightarrow> nat set" where
  "node_addrs node = (case prop_reg node of None \<Rightarrow> {} | Some regions \<Rightarrow> (\<Union>r \<in> set regions. reg_addrs r))"

lemma region_range_Inr:
  assumes "region_range region = Inr r"
  shows "pr_ok r" and "pr_addrs r = reg_addrs region"
  using assms by (auto simp: region_range_def reg_addrs_def pr_ok_def pr_addrs_def from_start_size_Inr)

lemma push_regions_Inr:
  assumes "push_regions rng regions ranges = Inr res" and "\<forall>r \<in> set ranges. P r"
    and "\<And>region r. region \<in> set regions \<Longrightarrow> rng region = Inr r \<Longrightarrow> P r \<and> pr_addrs r = f region"
  shows "(\<forall>r \<in> set res. P r) \<and> ranges_addrs res = ranges_addrs ranges \<union> (\<Union>x \<in> set regions. f x)"
  using assms
proof (induction rng regions ranges rule: push_regions.induct)
  case (2 rng region regions ranges)
  then obtain r where r: "rng region = Inr r" and rest: "push_regions rng regions (ranges @ [r]) = Inr res"
    by auto
  have "P r \<and> pr_addrs r = f region" by (rule "2.prems"(3) [OF _ r]) simp
  with "2.IH" [OF rest] "2.prems"(2,3) show ?case by auto
qed simp

lemma memory_loop_Inr:
  assumes "memory_loop nodes ranges = Inr res" and "\<forall>r \<in> set ranges. pr_ok r"
  shows "(\<forall>r \<in> set res. pr_ok r) \<and> ranges_addrs res =
    ranges_addrs ranges \<union> (\<Union>n \<in> {n \<in> set nodes. prop_device_type n = Some ''memory''}. node_addrs n)"
  using assms
proof (induction nodes ranges rule: memory_loop.induct)
  case (2 node nodes ranges)
  show ?case
  proof (cases "prop_device_type node = Some ''memory''")
    case False
    have "{n \<in> set (node # nodes). prop_device_type n = Some ''memory''} =
        {n \<in> set nodes. prop_device_type n = Some ''memory''}" using False by auto
    then show ?thesis using "2.IH"(1) "2.prems" False by simp
  next
    case True
    with "2.prems"(1) obtain regions mid where regs: "prop_reg node = Some regions"
      and push: "push_regions region_range regions ranges = Inr mid"
      and rest: "memory_loop nodes mid = Inr res" by auto
    have mid: "(\<forall>r \<in> set mid. pr_ok r) \<and> ranges_addrs mid = ranges_addrs ranges \<union> (\<Union>x \<in> set regions. reg_addrs x)"
      using push_regions_Inr [OF push "2.prems"(2), of reg_addrs] region_range_Inr by simp
    have "{n \<in> set (node # nodes). prop_device_type n = Some ''memory''} =
        insert node {n \<in> set nodes. prop_device_type n = Some ''memory''}" using True by auto
    moreover have "(\<forall>r \<in> set res. pr_ok r) \<and> ranges_addrs res = ranges_addrs mid \<union>
        (\<Union>n \<in> {n \<in> set nodes. prop_device_type n = Some ''memory''}. node_addrs n)"
      using "2.IH"(2) mid rest True by simp
    ultimately show ?thesis using mid regs by (simp add: node_addrs_def Un_assoc)
  qed
qed simp

lemma collect_memory_regions_Inr:
  assumes "collect_memory_regions t = Inr rs"
  shows "separated rs" and "\<forall>r \<in> set rs. pr_ok r" and "rs \<noteq> []"
    and "ranges_addrs rs =
      (\<Union>n \<in> {n \<in> set (all_nodes t). node_is_enabled n \<and> prop_device_type n = Some ''memory''}. node_addrs n)"
proof -
  from assms obtain res where loop: "memory_loop (filter node_is_enabled (all_nodes t)) [] = Inr res"
    and ne: "res \<noteq> []" and rs: "rs = normalize_ranges res"
    by (auto simp: collect_memory_regions_def split: if_splits)
  from memory_loop_Inr [OF loop] have res: "\<forall>r \<in> set res. pr_ok r"
    and addrs: "ranges_addrs res = (\<Union>n \<in> {n \<in> set (filter node_is_enabled (all_nodes t)).
      prop_device_type n = Some ''memory''}. node_addrs n)" by simp_all
  note n = normalize_ranges_spec [OF res]
  show "separated rs" and "\<forall>r \<in> set rs. pr_ok r" using n rs by simp_all
  have "ranges_addrs res \<noteq> {}" using ne res by (cases res) (auto simp: pr_addrs_def pr_ok_def)
  then show "rs \<noteq> []" using n(3) rs by auto
  show "ranges_addrs rs =
      (\<Union>n \<in> {n \<in> set (all_nodes t). node_is_enabled n \<and> prop_device_type n = Some ''memory''}. node_addrs n)"
    using n(3) rs addrs by (simp add: conj_assoc)
qed

lemma reservation_loop_Inr:
  "reservation_loop xs ranges = Inr res \<Longrightarrow> \<forall>r \<in> set ranges. pr_ok r \<Longrightarrow>
     (\<forall>r \<in> set res. pr_ok r) \<and>
     ranges_addrs res = ranges_addrs ranges \<union> (\<Union>(a, sz) \<in> set xs. {a ..< a + sz})"
proof (induction xs ranges rule: reservation_loop.induct)
  case (2 a sz rest ranges)
  then obtain r where r: "from_start_size a sz = Inr r" and "reservation_loop rest (ranges @ [r]) = Inr res"
    by auto
  with "2.IH" [of r] "2.prems"(2) from_start_size_ok [OF r] show ?case
    by (auto simp: from_start_size_Inr pr_addrs_def)
qed simp

lemma reserved_child_loop_Inr:
  "reserved_child_loop nodes ranges = Inr res \<Longrightarrow> \<forall>r \<in> set ranges. pr_ok r \<Longrightarrow>
     (\<forall>r \<in> set res. pr_ok r) \<and> ranges_addrs res = ranges_addrs ranges \<union> (\<Union>n \<in> set nodes. node_addrs n)"
proof (induction nodes ranges rule: reserved_child_loop.induct)
  case (2 node nodes ranges)
  then obtain regions mid where regs: "prop_reg node = Some regions"
    and push: "push_regions region_range regions ranges = Inr mid"
    and rest: "reserved_child_loop nodes mid = Inr res" by (auto split: option.splits if_splits)
  have mid: "(\<forall>r \<in> set mid. pr_ok r) \<and> ranges_addrs mid = ranges_addrs ranges \<union> (\<Union>x \<in> set regions. reg_addrs x)"
    using push_regions_Inr [OF push "2.prems"(2), of reg_addrs] region_range_Inr by simp
  with "2.IH" [OF regs rest] regs show ?case by (auto simp: node_addrs_def)
qed simp

lemma collect_reserved_memory_regions_Inr:
  assumes "collect_reserved_memory_regions t = Inr rs"
  shows "separated rs" and "\<forall>r \<in> set rs. pr_ok r"
    and "(\<Union>(a, sz) \<in> set (memory_reservations t). {a ..< a + sz}) \<subseteq> ranges_addrs rs"
    and "reserved_memory_node t = Some parent \<Longrightarrow> node_is_enabled parent \<Longrightarrow>
      child \<in> set (node_children parent) \<Longrightarrow> node_is_enabled child \<Longrightarrow> node_addrs child \<subseteq> ranges_addrs rs"
proof -
  from assms obtain mid res where loop: "reservation_loop (memory_reservations t) [] = Inr mid"
    and child: "(case reserved_memory_node t of
          Some parent \<Rightarrow>
            if node_is_enabled parent
            then reserved_child_loop (filter node_is_enabled (node_children parent)) mid
            else Inr mid
        | None \<Rightarrow> Inr mid) = Inr res" and rs: "rs = normalize_ranges res"
    by (auto simp: collect_reserved_memory_regions_def)
  note mid = reservation_loop_Inr [OF loop, simplified]
  have res: "(\<forall>r \<in> set res. pr_ok r) \<and> ranges_addrs mid \<subseteq> ranges_addrs res"
    using child mid by (auto split: option.splits if_splits dest!: reserved_child_loop_Inr)
  note n = normalize_ranges_spec [OF conjunct1 [OF res]]
  show "separated rs" and "\<forall>r \<in> set rs. pr_ok r" using n rs by simp_all
  show "(\<Union>(a, sz) \<in> set (memory_reservations t). {a ..< a + sz}) \<subseteq> ranges_addrs rs"
    using n(3) rs res mid by auto
  show "node_addrs child \<subseteq> ranges_addrs rs" if "reserved_memory_node t = Some parent"
    "node_is_enabled parent" "child \<in> set (node_children parent)" "node_is_enabled child"
  proof -
    have "reserved_child_loop (filter node_is_enabled (node_children parent)) mid = Inr res"
      using child that by simp
    from reserved_child_loop_Inr [OF this] mid that show ?thesis using n(3) rs by auto
  qed
qed

lemma covering_pages_Inr:
  assumes "covering_pages r = Inr c" and "pr_ok r"
  shows "pr_ok c" and "page_aligned c" and "pr_addrs r \<subseteq> pr_addrs c"
proof -
  from assms(1) obtain e where e: "pr_align_up (pr_end r) = Some e"
    and c: "c = \<lparr>pr_start = pr_align_down (pr_start r), pr_end = e\<rparr>"
    by (auto simp: covering_pages_def Let_def split: option.splits)
  have s: "pr_align_down (pr_start r) = pr_start r div PAGE_SIZE * PAGE_SIZE"
    using assms(2) by (simp add: pr_align_down_eq pr_ok_def)
  from e have lim: "pr_end r + PAGE_SIZE - 1 < usize_limit"
    and e': "e = (pr_end r + PAGE_SIZE - 1) div PAGE_SIZE * PAGE_SIZE" by (simp_all add: pr_align_up_Some)
  have le: "pr_end r \<le> e"
    using round_up_le_iff [of PAGE_SIZE "pr_end r" "(pr_end r + PAGE_SIZE - 1) div PAGE_SIZE"]
    by (simp add: e' PAGE_SIZE_def)
  have le': "pr_start r div PAGE_SIZE * PAGE_SIZE \<le> pr_start r" by simp
  have "e \<le> pr_end r + PAGE_SIZE - 1" by (simp add: e')
  then have "e < usize_limit" using lim by (rule le_less_trans)
  moreover have "pr_start r div PAGE_SIZE * PAGE_SIZE < e"
    using le le' assms(2) unfolding pr_ok_def by linarith
  ultimately show "pr_ok c" by (simp add: c s pr_ok_def)
  show "page_aligned c" by (simp add: c s e' page_aligned_def)
  show "pr_addrs r \<subseteq> pr_addrs c" using le le' by (auto simp: c s pr_addrs_def)
qed

text \<open>The accumulated size is the number of RAM bytes, and it cannot overflow.\<close>

lemma separated_card:
  "separated rs \<Longrightarrow> \<forall>r \<in> set rs. pr_ok r \<Longrightarrow>
     card (ranges_addrs rs) = (\<Sum>r \<leftarrow> rs. pr_end r - pr_start r) \<and> finite (ranges_addrs rs)"
proof (induction rs)
  case (Cons r rs)
  have "pr_addrs r \<inter> ranges_addrs rs = {}"
    using Cons.prems by (fastforce simp: pr_addrs_def ranges_addrs_def)
  with Cons show ?case by (simp add: card_Un_disjoint pr_addrs_def)
qed simp

lemma total_memory_loop_eq:
  "\<forall>r \<in> set rs. pr_ok r \<Longrightarrow> acc < usize_limit \<Longrightarrow>
     total_memory_loop rs acc =
       Some (if acc + (\<Sum>r \<leftarrow> rs. pr_end r - pr_start r) < usize_limit
             then Inr (acc + (\<Sum>r \<leftarrow> rs. pr_end r - pr_start r)) else Inl DtAddressOverflow)"
proof (induction rs arbitrary: acc)
  case (Cons r rs)
  have "pr_size r = Some (pr_end r - pr_start r)" using Cons.prems(1) by (simp add: pr_size_def pr_ok_def)
  then show ?case using Cons by (auto simp: checked_add_def add.assoc)
qed simp

lemma total_memory_exact:
  assumes "separated rs" and "\<forall>r \<in> set rs. pr_ok r"
  shows "total_memory_loop rs 0 = Some (Inr (card (ranges_addrs rs)))"
proof -
  have "ranges_addrs rs \<subseteq> {..<usize_limit - 1}"
    using assms(2) by (auto simp: ranges_addrs_def pr_addrs_def pr_ok_def)
  then have "card (ranges_addrs rs) \<le> usize_limit - 1"
    using card_mono [OF finite_lessThan] by fastforce
  then show ?thesis
    using total_memory_loop_eq [OF assms(2), of 0] separated_card [OF assms] by simp
qed

lemma mmio_region_range_Inr:
  assumes "mmio_region_range region = Inr r"
  shows "pr_ok r" and "page_aligned r" and "reg_addrs region \<subseteq> pr_addrs r"
proof -
  from assms obtain u where u: "region_range region = Inr u" "covering_pages u = Inr r"
    by (auto simp: mmio_region_range_def)
  from covering_pages_Inr [OF u(2) region_range_Inr(1) [OF u(1)]] region_range_Inr(2) [OF u(1)]
  show "pr_ok r" and "page_aligned r" and "reg_addrs region \<subseteq> pr_addrs r" by simp_all
qed

lemma mmio_push_Inr:
  "push_regions mmio_region_range regions ranges = Inr res \<Longrightarrow> \<forall>r \<in> set ranges. pr_ok r \<and> page_aligned r \<Longrightarrow>
     (\<forall>r \<in> set res. pr_ok r \<and> page_aligned r) \<and>
     ranges_addrs ranges \<union> (\<Union>x \<in> set regions. reg_addrs x) \<subseteq> ranges_addrs res"
proof (induction regions arbitrary: ranges)
  case (Cons region regions)
  then obtain r where r: "mmio_region_range region = Inr r"
    and rest: "push_regions mmio_region_range regions (ranges @ [r]) = Inr res" by auto
  note rr = mmio_region_range_Inr [OF r]
  have "\<forall>x \<in> set (ranges @ [r]). pr_ok x \<and> page_aligned x" using rr Cons.prems(2) by auto
  from Cons.IH [OF rest this] rr(3) show ?case by auto
qed simp

lemma mmio_loop_Inr:
  "mmio_loop nodes ranges = Inr res \<Longrightarrow> \<forall>r \<in> set ranges. pr_ok r \<and> page_aligned r \<Longrightarrow>
     (\<forall>r \<in> set res. pr_ok r \<and> page_aligned r) \<and>
     ranges_addrs ranges \<union> (\<Union>n \<in> set nodes. node_addrs n) \<subseteq> ranges_addrs res"
proof (induction nodes ranges rule: mmio_loop.induct)
  case (2 node nodes ranges)
  then obtain regions mid where regs: "prop_reg node = Some regions"
    and push: "push_regions mmio_region_range regions ranges = Inr mid"
    and rest: "mmio_loop nodes mid = Inr res" by auto
  from mmio_push_Inr [OF push "2.prems"(2)] have mid: "\<forall>r \<in> set mid. pr_ok r \<and> page_aligned r"
    "ranges_addrs ranges \<union> (\<Union>x \<in> set regions. reg_addrs x) \<subseteq> ranges_addrs mid" by simp_all
  have "(\<forall>r \<in> set res. pr_ok r \<and> page_aligned r) \<and>
      ranges_addrs mid \<union> (\<Union>n \<in> set nodes. node_addrs n) \<subseteq> ranges_addrs res"
    using "2.IH" [OF rest mid(1)] .
  then show ?case using mid(2) regs by (auto simp: node_addrs_def)
qed simp

lemma collect_mmio_regions_Inr:
  assumes "collect_mmio_regions t = Inr rs"
  shows "separated rs" and "\<forall>r \<in> set rs. pr_ok r"
    and "n \<in> set (all_nodes t) \<Longrightarrow> node_is_enabled n \<Longrightarrow> node_is_kernel_mmio_device n \<Longrightarrow>
      node_addrs n \<subseteq> ranges_addrs rs"
proof -
  let ?ns = "filter node_is_kernel_mmio_device (filter node_is_enabled (all_nodes t))"
  from assms obtain res where loop: "mmio_loop ?ns [] = Inr res" and rs: "rs = normalize_ranges res"
    by (auto simp: collect_mmio_regions_def split: if_splits)
  from mmio_loop_Inr [OF loop] have res: "\<forall>r \<in> set res. pr_ok r"
    and cover: "(\<Union>n \<in> set ?ns. node_addrs n) \<subseteq> ranges_addrs res" by auto
  note n = normalize_ranges_spec [OF res]
  show "separated rs" and "\<forall>r \<in> set rs. pr_ok r" using n rs by simp_all
  show "node_addrs n \<subseteq> ranges_addrs rs"
    if "n \<in> set (all_nodes t)" "node_is_enabled n" "node_is_kernel_mmio_device n"
  proof -
    have "n \<in> set ?ns" using that by simp
    then have "node_addrs n \<subseteq> ranges_addrs res" using cover by blast
    then show ?thesis using n(3) rs by simp
  qed
qed

text \<open>What the accepted tree gives the rest of the kernel, in one statement about \<open>SystemInfo::new\<close>.\<close>

lemma system_info_new_Inr:
  assumes "system_info_new from_ptr rd addr = Some (Inr info)"
  shows "\<exists>t. from_ptr addr = Some t \<and> collect_memory_regions t = Inr (si_memory_regions info) \<and>
    collect_reserved_memory_regions t = Inr (si_reserved_memory_regions info) \<and>
    collect_mmio_regions t = Inr (si_mmio_regions info) \<and>
    from_start_size addr (total_size t) = Inr (si_fdt_range info) \<and>
    total_memory_loop (si_memory_regions info) 0 = Some (Inr (si_total_memory info))"
  using assms
  by (auto simp: system_info_new_def split: option.splits sum.splits Option.bind_splits list.splits)

text \<open>The block device that discovery picks lies in the MMIO regions.\<close>

lemma push_regions_all:
  "push_regions rng rgs ranges = Inr res \<Longrightarrow> rg \<in> set rgs \<Longrightarrow> \<exists>r. rng rg = Inr r"
  by (induction rng rgs ranges rule: push_regions.induct) auto

lemma mmio_loop_all:
  "mmio_loop nodes ranges = Inr res \<Longrightarrow> n \<in> set nodes \<Longrightarrow> prop_reg n = Some rgs \<Longrightarrow> rg \<in> set rgs \<Longrightarrow>
     \<exists>r. mmio_region_range rg = Inr r"
  by (induction nodes ranges rule: mmio_loop.induct) (auto dest: push_regions_all)

lemma block_device_loop_Some:
  "block_device_loop rd nodes found = Some (Some a) \<Longrightarrow>
   found = Some a \<or> (\<exists>n \<in> set nodes. \<exists>rg rs. node_has_compatible n ''virtio,mmio'' \<and> prop_reg n = Some (rg # rs) \<and>
     a = starting_address rg \<and> rd (a + 8) = 2)"
proof (induction nodes arbitrary: found)
  case (Cons n nodes)
  show ?case
  proof (cases "node_has_compatible n ''virtio,mmio'' \<and> (\<exists>rg rs. prop_reg n = Some (rg # rs))")
    case True
    then obtain rg rs where rg: "node_has_compatible n ''virtio,mmio''" "prop_reg n = Some (rg # rs)" by blast
    let ?a = "starting_address rg"
    have "block_device_loop rd nodes (if rd (?a + 8) = 2 then Some ?a else found) = Some (Some a)"
      using Cons.prems rg by (simp add: add_usize_def Let_def split: if_splits)
    from Cons.IH [OF this] rg show ?thesis by (auto split: if_splits)
  next
    case False
    then have "block_device_loop rd nodes found = Some (Some a)"
      using Cons.prems by (auto split: if_splits option.splits list.splits)
    from Cons.IH [OF this] show ?thesis by auto
  qed
qed simp

lemma block_device_in_mmio:
  assumes "system_info_new from_ptr rd addr = Some (Inr info)"
  shows "si_block_device_addr info \<in> ranges_addrs (si_mmio_regions info)"
proof -
  from assms obtain t where t: "collect_mmio_regions t = Inr (si_mmio_regions info)"
    "block_device_loop rd (filter node_is_enabled (all_nodes t)) None = Some (Some (si_block_device_addr info))"
    by (auto simp: system_info_new_def split: option.splits sum.splits Option.bind_splits list.splits)
  from block_device_loop_Some [OF t(2)] obtain n rg rs where
    n: "n \<in> set (all_nodes t)" "node_is_enabled n" "node_has_compatible n ''virtio,mmio''" "prop_reg n = Some (rg # rs)"
      "si_block_device_addr info = starting_address rg" by auto
  then have k: "node_is_kernel_mmio_device n" by (simp add: node_is_kernel_mmio_device_def)
  from t(1) obtain res where "mmio_loop (filter node_is_kernel_mmio_device (filter node_is_enabled (all_nodes t))) [] = Inr res"
    by (auto simp: collect_mmio_regions_def)
  from mmio_loop_all [OF this _ n(4)] n k obtain r where "mmio_region_range rg = Inr r" by auto
  then have "starting_address rg \<in> reg_addrs rg"
    by (auto simp: mmio_region_range_def region_range_def reg_addrs_def from_start_size_Inr)
  then show ?thesis using collect_mmio_regions_Inr(3) [OF t(1) n(1,2) k] n(4,5) by (auto simp: node_addrs_def)
qed

section \<open>Properties\<close>


text \<open>A small machine: 64 KiB of RAM, one reservation, a UART and a VirtIO block device.\<close>

definition sample_tree :: fdt where
  "sample_tree = \<lparr>
     all_nodes = [
       FdtNode None (Some ''memory'') None
         (Some [\<lparr>starting_address = 0x80000000, region_size = Some 0x10000\<rparr>]) False [],
       FdtNode (Some ''okay'') None (Some [''ns16550a''])
         (Some [\<lparr>starting_address = 0x10000000, region_size = Some 0x100\<rparr>]) False [],
       FdtNode None None (Some [''virtio,mmio''])
         (Some [\<lparr>starting_address = 0x10001000, region_size = Some 0x1000\<rparr>]) False []],
     memory_reservations = [(0x80008000, 0x1000)], reserved_memory_node = None, total_size = 0x1000,
     fdt_cpus = [\<lparr>riscv_isa = Some (str_lit ''rv64imafdc_zicsr''), timebase_frequency = 10000000\<rparr>]\<rparr>"

definition sample_info :: system_info where
  "sample_info = \<lparr>si_timer_frequency = 10000000, si_cpus = 1, si_cpu_isa = str_lit ''rv64imafdc'',
     si_memory_regions = [\<lparr>pr_start = 0x80000000, pr_end = 0x80010000\<rparr>],
     si_reserved_memory_regions = [\<lparr>pr_start = 0x80008000, pr_end = 0x80009000\<rparr>],
     si_mmio_regions = [\<lparr>pr_start = 0x10000000, pr_end = 0x10002000\<rparr>],
     si_fdt_range = \<lparr>pr_start = 0x8000E000, pr_end = 0x8000F000\<rparr>, si_total_memory = 0x10000,
     si_block_device_addr = 0x10001000\<rparr>"

lemmas discovery_defs = system_info_new_def collect_memory_regions_def collect_reserved_memory_regions_def
  collect_mmio_regions_def node_is_enabled_def node_has_compatible_def node_is_kernel_mmio_device_def
  region_range_def mmio_region_range_def covering_pages_def normalize_ranges_def from_start_size_def
  pr_align_down_def pr_align_up_def not_usize_def pr_size_def base_isa_def PAGE_SIZE_def usize_defs

lemma sample_discovery:
  "system_info_new (\<lambda>a. if a = 0x8000E000 then Some sample_tree else None) (\<lambda>_. 2) 0x8000E000 =
     Some (Inr sample_info)"
  by (simp add: sample_tree_def sample_info_def discovery_defs str_lit_def utf8_cont_def)


end
