(* ===== verification/Page_Frames.thy ===== *)
theory Page_Frames
  imports Bitmap Device_Tree
begin

text \<open>
  The page-frame allocator (\<open>src/page_frame_allocator.rs\<close>) and the linker-label record it starts from
  (\<open>src/kernel_layout.rs\<close>). One bitmap per arena, one arena per usable range; the allocator hands out
  whole frames of RAM outside the kernel image, the live FDT and the firmware reservations.
\<close>

section \<open>Model\<close>

record kernel_layout =
  kernel_start :: usize
  kernel_end :: usize
  heap_start :: usize
  heap_end :: usize
  trap_stack_top :: usize

record frame_arena =
  fa_range :: phys_range
  fa_used :: bitmap

definition arena_new :: "phys_range \<Rightarrow> frame_arena panics" where
  "arena_new r =
     (if pr_start r mod PAGE_SIZE = 0 \<and> pr_end r mod PAGE_SIZE = 0 then do {
        sz \<leftarrow> pr_size r;
        Some \<lparr>fa_range = r, fa_used = bitmap_new (sz div PAGE_SIZE)\<rparr>
      } else None)"

definition arena_alloc :: "frame_arena \<Rightarrow> (usize option \<times> frame_arena) panics" where
  "arena_alloc a =
     (case bitmap_find_free (fa_used a) of
        None \<Rightarrow> Some (None, a)
      | Some index \<Rightarrow> do {
          used \<leftarrow> bitmap_set (fa_used a) index;
          offset \<leftarrow> mul_usize index PAGE_SIZE;
          addr \<leftarrow> add_usize (pr_start (fa_range a)) offset;
          Some (Some addr, a\<lparr>fa_used := used\<rparr>)
        })"

definition arena_contains :: "frame_arena \<Rightarrow> usize \<Rightarrow> bool" where
  "arena_contains a addr \<longleftrightarrow> pr_start (fa_range a) \<le> addr \<and> addr < pr_end (fa_range a)"

definition arena_free :: "frame_arena \<Rightarrow> usize \<Rightarrow> (bool \<times> frame_arena) panics" where
  "arena_free a addr =
     (if addr mod PAGE_SIZE \<noteq> 0 then Some (False, a)
      else if \<not> arena_contains a addr then Some (False, a)
      else do {
        offset \<leftarrow> sub_usize addr (pr_start (fa_range a));
        let index = offset div PAGE_SIZE;
        is_used \<leftarrow> bitmap_is_set (fa_used a) index;
        if \<not> is_used then Some (False, a)
        else do {
          used \<leftarrow> bitmap_unset (fa_used a) index;
          Some (True, a\<lparr>fa_used := used\<rparr>)
        }
      })"

record page_frame_allocator =
  pfa_arenas :: "frame_arena list"

text \<open>The kernel discovers the machine before it creates the allocator; \<open>info\<close> is what the accessors read.\<close>

definition fixup_reserved_memory_regions :: "system_info \<Rightarrow> kernel_layout \<Rightarrow> phys_range list panics" where
  "fixup_reserved_memory_regions info layout = do {
     let reserved = si_reserved_memory_regions info @ [si_fdt_range info];
     sz \<leftarrow> sub_usize (kernel_end layout) (kernel_start layout);
     case from_start_size (kernel_start layout) sz of
       Inl _ \<Rightarrow> None
     | Inr kern \<Rightarrow> Some (reserved @ [kern])
   }"

fun arenas_new :: "phys_range list \<Rightarrow> frame_arena list panics" where
  "arenas_new [] = Some []"
| "arenas_new (r # rs) = do { a \<leftarrow> arena_new r; as \<leftarrow> arenas_new rs; Some (a # as) }"

definition pfa_new :: "system_info \<Rightarrow> kernel_layout \<Rightarrow> page_frame_allocator panics" where
  "pfa_new info layout = do {
     reserved \<leftarrow> fixup_reserved_memory_regions info layout;
     let usable = usable_memory_ranges (si_memory_regions info) reserved;
     arenas \<leftarrow> arenas_new usable;
     Some \<lparr>pfa_arenas = arenas\<rparr>
   }"

text \<open>\<open>find_map\<close> over the arenas: the first arena with a free frame serves the request.\<close>

fun arenas_alloc :: "frame_arena list \<Rightarrow> (usize option \<times> frame_arena list) panics" where
  "arenas_alloc [] = Some (None, [])"
| "arenas_alloc (a # as) = do {
     (r, a') \<leftarrow> arena_alloc a;
     case r of
       Some addr \<Rightarrow> Some (Some addr, a' # as)
     | None \<Rightarrow> do { (r', as') \<leftarrow> arenas_alloc as; Some (r', a' # as') }
   }"

definition pfa_alloc :: "page_frame_allocator \<Rightarrow> (usize option \<times> page_frame_allocator) panics" where
  "pfa_alloc p = do {
     (r, as) \<leftarrow> arenas_alloc (pfa_arenas p);
     Some (r, p\<lparr>pfa_arenas := as\<rparr>)
   }"

fun arenas_free :: "frame_arena list \<Rightarrow> usize \<Rightarrow> (bool \<times> frame_arena list) panics" where
  "arenas_free [] addr = Some (False, [])"
| "arenas_free (a # as) addr =
     (if arena_contains a addr then do { (r, a') \<leftarrow> arena_free a addr; Some (r, a' # as) }
      else do { (r, as') \<leftarrow> arenas_free as addr; Some (r, a # as') })"

definition pfa_free :: "page_frame_allocator \<Rightarrow> usize \<Rightarrow> (bool \<times> page_frame_allocator) panics" where
  "pfa_free p addr = do {
     (r, as) \<leftarrow> arenas_free (pfa_arenas p) addr;
     Some (r, p\<lparr>pfa_arenas := as\<rparr>)
   }"

definition pfa_ranges :: "page_frame_allocator \<Rightarrow> phys_range list" where
  "pfa_ranges p = map fa_range (pfa_arenas p)"

text \<open>The global \<open>PAGE_FRAME_ALLOCATOR\<close>: an option behind a mutex; every access before \<open>init\<close> panics.\<close>

definition alloc_frame ::
  "page_frame_allocator option \<Rightarrow> (usize option \<times> page_frame_allocator option) panics" where
  "alloc_frame g = do { p \<leftarrow> g; (r, p') \<leftarrow> pfa_alloc p; Some (r, Some p') }"

definition free_frame :: "page_frame_allocator option \<Rightarrow> usize \<Rightarrow> page_frame_allocator option panics" where
  "free_frame g addr = do { p \<leftarrow> g; (r, p') \<leftarrow> pfa_free p addr; Some (Some p') }"

definition managed_ranges :: "page_frame_allocator option \<Rightarrow> phys_range list panics" where
  "managed_ranges g = do { p \<leftarrow> g; Some (pfa_ranges p) }"

definition page_frame_allocator_init ::
  "page_frame_allocator option \<Rightarrow> system_info \<Rightarrow> kernel_layout \<Rightarrow> page_frame_allocator option panics" where
  "page_frame_allocator_init g info layout =
     (case g of
        None \<Rightarrow> do { p \<leftarrow> pfa_new info layout; Some (Some p) }
      | Some p \<Rightarrow> Some (Some p))"

section \<open>Frames of an arena\<close>

definition fa_ok :: "frame_arena \<Rightarrow> bool" where
  "fa_ok a \<longleftrightarrow> pr_ok (fa_range a) \<and> page_aligned (fa_range a) \<and> bm_ok (fa_used a) \<and>
     bm_len (fa_used a) = (pr_end (fa_range a) - pr_start (fa_range a)) div PAGE_SIZE"

definition frame_addr :: "frame_arena \<Rightarrow> nat \<Rightarrow> usize" where
  "frame_addr a i = pr_start (fa_range a) + i * PAGE_SIZE"

definition fa_frames :: "frame_arena \<Rightarrow> usize set" where
  "fa_frames a = frame_addr a ` {..<bm_len (fa_used a)}"

definition fa_taken :: "frame_arena \<Rightarrow> usize set" where
  "fa_taken a = frame_addr a ` bm_bits (fa_used a)"

lemma PAGE_SIZE_pos [simp]: "0 < PAGE_SIZE"
  by (simp add: PAGE_SIZE_def)

lemma frame_addr_upd [simp]: "frame_addr (a\<lparr>fa_used := u\<rparr>) = frame_addr a"
  by (simp add: fun_eq_iff frame_addr_def)

lemma inj_frame_addr: "inj (frame_addr a)"
  by (auto simp: inj_def frame_addr_def PAGE_SIZE_def)

lemma fa_end: "fa_ok a \<Longrightarrow> pr_end (fa_range a) = frame_addr a (bm_len (fa_used a))"
proof -
  assume ok: "fa_ok a"
  then have "PAGE_SIZE dvd pr_end (fa_range a) - pr_start (fa_range a)"
    by (auto simp: fa_ok_def page_aligned_def dvd_diff_nat)
  then show ?thesis using ok by (simp add: fa_ok_def pr_ok_def frame_addr_def)
qed

lemma frame_addr_less: "fa_ok a \<Longrightarrow> i < bm_len (fa_used a) \<Longrightarrow> frame_addr a i + PAGE_SIZE \<le> pr_end (fa_range a)"
proof -
  assume "fa_ok a" "i < bm_len (fa_used a)"
  then have "(i + 1) * PAGE_SIZE \<le> bm_len (fa_used a) * PAGE_SIZE" by (intro mult_le_mono1) simp
  then show ?thesis using fa_end [OF \<open>fa_ok a\<close>] by (simp add: frame_addr_def)
qed

lemma frame_addr_aligned: "fa_ok a \<Longrightarrow> PAGE_SIZE dvd frame_addr a i"
  by (simp add: fa_ok_def page_aligned_def frame_addr_def)

lemma fa_frames_iff:
  assumes "fa_ok a"
  shows "addr \<in> fa_frames a \<longleftrightarrow> PAGE_SIZE dvd addr \<and> arena_contains a addr"
proof
  assume "addr \<in> fa_frames a"
  then obtain i where i: "i < bm_len (fa_used a)" "addr = frame_addr a i" by (auto simp: fa_frames_def)
  then show "PAGE_SIZE dvd addr \<and> arena_contains a addr"
    using frame_addr_aligned [OF assms] frame_addr_less [OF assms i(1)] PAGE_SIZE_pos
    by (simp add: arena_contains_def) (simp add: frame_addr_def PAGE_SIZE_def)
next
  assume addr: "PAGE_SIZE dvd addr \<and> arena_contains a addr"
  have "PAGE_SIZE dvd addr - pr_start (fa_range a)"
    using addr assms by (auto simp: fa_ok_def page_aligned_def dvd_diff_nat)
  then have eq: "addr = frame_addr a ((addr - pr_start (fa_range a)) div PAGE_SIZE)"
    using addr by (simp add: frame_addr_def arena_contains_def)
  have "addr < pr_end (fa_range a)" using addr by (simp add: arena_contains_def)
  then have "frame_addr a ((addr - pr_start (fa_range a)) div PAGE_SIZE) < frame_addr a (bm_len (fa_used a))"
    using fa_end [OF assms] eq by simp
  then have "(addr - pr_start (fa_range a)) div PAGE_SIZE < bm_len (fa_used a)"
    by (simp add: frame_addr_def)
  with eq show "addr \<in> fa_frames a" by (auto simp: fa_frames_def)
qed

lemma fa_taken_subset: "fa_taken a \<subseteq> fa_frames a"
  using bm_bits_subset by (auto simp: fa_taken_def fa_frames_def)

lemma arena_new_ok:
  assumes "pr_ok r" and "page_aligned r"
  shows "\<exists>a. arena_new r = Some a \<and> fa_ok a \<and> fa_range a = r \<and> fa_taken a = {}"
  using assms
  by (auto simp: arena_new_def page_aligned_def mod_eq_0_iff_dvd pr_size_def pr_ok_def fa_ok_def
      bm.new fa_taken_def sub_usize_def)

lemma arena_alloc_spec:
  assumes ok: "fa_ok a"
  shows "(fa_taken a = fa_frames a \<and> arena_alloc a = Some (None, a)) \<or>
    (\<exists>addr a'. arena_alloc a = Some (Some addr, a') \<and> fa_ok a' \<and> fa_range a' = fa_range a \<and>
       fa_frames a' = fa_frames a \<and> addr \<in> fa_frames a - fa_taken a \<and> fa_taken a' = insert addr (fa_taken a))"
proof (cases "bitmap_find_free (fa_used a)")
  case None
  then have "bm_bits (fa_used a) = {..<bm_len (fa_used a)}"
    using ok bm.first_free_None by (simp add: fa_ok_def)
  then show ?thesis using None by (simp add: fa_taken_def fa_frames_def arena_alloc_def)
next
  case (Some i)
  have bok: "bm_ok (fa_used a)" using ok by (simp add: fa_ok_def)
  from bm.claim_fresh [OF bok Some] obtain u where u: "bitmap_set (fa_used a) i = Some u" "bm_ok u"
    "bm_len u = bm_len (fa_used a)" "i \<notin> bm_bits (fa_used a)" "i < bm_len (fa_used a)"
    "bm_bits u = insert i (bm_bits (fa_used a))" by blast
  let ?a = "a\<lparr>fa_used := u\<rparr>"
  have lim: "frame_addr a i < usize_limit"
    using frame_addr_less [OF ok u(5)] ok by (simp add: fa_ok_def pr_ok_def)
  have alloc: "arena_alloc a = Some (Some (frame_addr a i), ?a)"
    using Some u(1) lim by (simp add: arena_alloc_def mul_usize_def add_usize_def frame_addr_def)
  have "fa_ok ?a" using ok u(2,3) by (simp add: fa_ok_def)
  moreover have "fa_frames ?a = fa_frames a" using u(3) by (simp add: fa_frames_def frame_addr_def)
  moreover have "frame_addr a i \<in> fa_frames a - fa_taken a"
    using u(4,5) inj_frame_addr [of a] by (auto simp: fa_frames_def fa_taken_def inj_def)
  moreover have "fa_taken ?a = insert (frame_addr a i) (fa_taken a)"
    using u(6) by (simp add: fa_taken_def frame_addr_def)
  ultimately show ?thesis using alloc by simp
qed

lemma arena_free_spec:
  assumes ok: "fa_ok a"
  shows "(addr \<notin> fa_taken a \<and> arena_free a addr = Some (False, a)) \<or>
    (addr \<in> fa_taken a \<and> (\<exists>a'. arena_free a addr = Some (True, a') \<and> fa_ok a' \<and>
       fa_range a' = fa_range a \<and> fa_frames a' = fa_frames a \<and> fa_taken a' = fa_taken a - {addr}))"
proof (cases "addr \<in> fa_frames a")
  case False
  then have "addr \<notin> fa_taken a" using fa_taken_subset by blast
  then show ?thesis
    using False ok by (auto simp: arena_free_def fa_frames_iff mod_eq_0_iff_dvd)
next
  case True
  then obtain i where i: "i < bm_len (fa_used a)" and addr: "addr = frame_addr a i"
    by (auto simp: fa_frames_def)
  have bok: "bm_ok (fa_used a)" using ok by (simp add: fa_ok_def)
  from True ok have guard: "addr mod PAGE_SIZE = 0" "arena_contains a addr"
    by (auto simp: fa_frames_iff mod_eq_0_iff_dvd)
  have idx: "sub_usize addr (pr_start (fa_range a)) = Some (i * PAGE_SIZE)"
    by (simp add: addr frame_addr_def sub_usize_def)
  have taken: "addr \<in> fa_taken a \<longleftrightarrow> i \<in> bm_bits (fa_used a)"
    using inj_frame_addr [of a] by (auto simp: fa_taken_def addr inj_def)
  from bm.unmark [OF bok i] obtain u where u: "bitmap_unset (fa_used a) i = Some u" "bm_ok u"
    "bm_len u = bm_len (fa_used a)" "bm_bits u = bm_bits (fa_used a) - {i}" by blast
  have free: "arena_free a addr =
      (if addr \<in> fa_taken a then Some (True, a\<lparr>fa_used := u\<rparr>) else Some (False, a))"
    using guard bm.test [OF bok i] u(1) taken by (simp add: arena_free_def idx)
  have "fa_taken (a\<lparr>fa_used := u\<rparr>) = fa_taken a - {addr}"
    unfolding fa_taken_def addr
    by (simp add: u(4) image_set_diff [OF inj_frame_addr] frame_addr_upd)
  moreover have "fa_ok (a\<lparr>fa_used := u\<rparr>)" using ok u(2,3) by (simp add: fa_ok_def)
  ultimately show ?thesis using free u(3) by (simp add: fa_frames_def frame_addr_def)
qed

section \<open>The whole allocator\<close>

definition pfa_ok :: "page_frame_allocator \<Rightarrow> bool" where
  "pfa_ok p \<longleftrightarrow> (\<forall>a \<in> set (pfa_arenas p). fa_ok a) \<and> separated (pfa_ranges p)"

definition pfa_frames :: "page_frame_allocator \<Rightarrow> usize set" where
  "pfa_frames p = (\<Union>a \<in> set (pfa_arenas p). fa_frames a)"

definition pfa_taken :: "page_frame_allocator \<Rightarrow> usize set" where
  "pfa_taken p = (\<Union>a \<in> set (pfa_arenas p). fa_taken a)"

lemma pfa_frames_iff:
  assumes "pfa_ok p"
  shows "addr \<in> pfa_frames p \<longleftrightarrow> PAGE_SIZE dvd addr \<and> addr \<in> ranges_addrs (pfa_ranges p)"
  using assms fa_frames_iff
  by (auto simp: pfa_ok_def pfa_frames_def ranges_addrs_def pfa_ranges_def pr_addrs_def arena_contains_def)

lemma pfa_frame_page:
  assumes "pfa_ok p" and "addr \<in> pfa_frames p"
  shows "\<exists>n. addr = n * PAGE_SIZE \<and> page n \<subseteq> ranges_addrs (pfa_ranges p)"
proof -
  from assms(2) obtain a i where a: "a \<in> set (pfa_arenas p)" "i < bm_len (fa_used a)" "addr = frame_addr a i"
    by (auto simp: pfa_frames_def fa_frames_def)
  have ok: "fa_ok a" using assms(1) a(1) by (simp add: pfa_ok_def)
  from frame_addr_aligned [OF ok, of i] a(3) obtain n where n: "addr = n * PAGE_SIZE"
    by (metis dvd_def mult.commute)
  have "page n \<subseteq> pr_addrs (fa_range a)"
    using frame_addr_less [OF ok a(2)] n a(3) by (auto simp: page_def pr_addrs_def frame_addr_def)
  then show ?thesis using n a(1) by (auto simp: ranges_addrs_def pfa_ranges_def)
qed

text \<open>
  Separated arenas have disjoint frames, so a change of one arena is a change of the whole by the
  same frame.
\<close>

lemma arena_disjoint:
  assumes "separated (map fa_range (a # as))" and "\<forall>b \<in> set (a # as). fa_ok b" and "b \<in> set as"
  shows "fa_frames a \<inter> fa_frames b = {}" and "arena_contains a x \<Longrightarrow> \<not> arena_contains b x"
proof -
  have "pr_end (fa_range a) < pr_start (fa_range b)" using assms(1,3) by simp
  then have no: "\<not> (arena_contains a x \<and> arena_contains b x)" for x by (auto simp: arena_contains_def)
  then show "arena_contains a x \<Longrightarrow> \<not> arena_contains b x" by blast
  show "fa_frames a \<inter> fa_frames b = {}" using no fa_frames_iff assms(2,3) by auto
qed

lemma arenas_alloc_spec:
  assumes "\<forall>a \<in> set as. fa_ok a" and "separated (map fa_range as)"
  shows "((\<Union>a \<in> set as. fa_taken a) = (\<Union>a \<in> set as. fa_frames a) \<and> arenas_alloc as = Some (None, as)) \<or>
    (\<exists>addr as'. arenas_alloc as = Some (Some addr, as') \<and> (\<forall>a \<in> set as'. fa_ok a) \<and>
       map fa_range as' = map fa_range as \<and>
       (\<Union>a \<in> set as'. fa_frames a) = (\<Union>a \<in> set as. fa_frames a) \<and>
       addr \<in> (\<Union>a \<in> set as. fa_frames a) - (\<Union>a \<in> set as. fa_taken a) \<and>
       (\<Union>a \<in> set as'. fa_taken a) = insert addr (\<Union>a \<in> set as. fa_taken a))"
  using assms
proof (induction as)
  case (Cons a as)
  have ok: "fa_ok a" using Cons.prems(1) by simp
  have disj: "fa_frames a \<inter> (\<Union>b \<in> set as. fa_frames b) = {}"
    using arena_disjoint(1) [OF Cons.prems(2,1)] by auto
  have sub: "(\<Union>b \<in> set as. fa_taken b) \<subseteq> (\<Union>b \<in> set as. fa_frames b)" using fa_taken_subset by blast
  note sub_a = fa_taken_subset [of a]
  from arena_alloc_spec [OF ok] show ?case
  proof (elim disjE exE conjE)
    fix addr a'
    assume a': "arena_alloc a = Some (Some addr, a')" "fa_ok a'" "fa_range a' = fa_range a"
      "fa_frames a' = fa_frames a" "addr \<in> fa_frames a - fa_taken a" "fa_taken a' = insert addr (fa_taken a)"
    have "arenas_alloc (a # as) = Some (Some addr, a' # as)" using a'(1) by simp
    moreover have "addr \<notin> (\<Union>b \<in> set as. fa_taken b)" using disj sub a'(5) by blast
    ultimately show ?thesis using a' Cons.prems(1)
      by (intro disjI2 exI [of _ addr] exI [of _ "a' # as"]) simp
  next
    assume full: "fa_taken a = fa_frames a" "arena_alloc a = Some (None, a)"
    have tl: "\<forall>a \<in> set as. fa_ok a" "separated (map fa_range as)" using Cons.prems by simp_all
    from Cons.IH [OF tl] show ?thesis
    proof (elim disjE exE conjE)
      fix addr as'
      assume as': "arenas_alloc as = Some (Some addr, as')" "\<forall>a \<in> set as'. fa_ok a"
        "map fa_range as' = map fa_range as" "(\<Union>a \<in> set as'. fa_frames a) = (\<Union>a \<in> set as. fa_frames a)"
        "addr \<in> (\<Union>a \<in> set as. fa_frames a) - (\<Union>a \<in> set as. fa_taken a)"
        "(\<Union>a \<in> set as'. fa_taken a) = insert addr (\<Union>a \<in> set as. fa_taken a)"
      have "arenas_alloc (a # as) = Some (Some addr, a # as')" using full(2) as'(1) by simp
      moreover have "addr \<notin> fa_taken a" using disj sub_a as'(5) by blast
      ultimately show ?thesis using as' ok
        by (intro disjI2 exI [of _ addr] exI [of _ "a # as'"]) auto
    next
      assume "(\<Union>a \<in> set as. fa_taken a) = (\<Union>a \<in> set as. fa_frames a)" "arenas_alloc as = Some (None, as)"
      with full show ?thesis by (intro disjI1) simp
    qed
  qed
qed simp

lemma arenas_free_spec:
  assumes "\<forall>a \<in> set as. fa_ok a" and "separated (map fa_range as)"
  shows "(addr \<notin> (\<Union>a \<in> set as. fa_taken a) \<and> arenas_free as addr = Some (False, as)) \<or>
    (addr \<in> (\<Union>a \<in> set as. fa_taken a) \<and>
     (\<exists>as'. arenas_free as addr = Some (True, as') \<and> (\<forall>a \<in> set as'. fa_ok a) \<and>
       map fa_range as' = map fa_range as \<and>
       (\<Union>a \<in> set as'. fa_frames a) = (\<Union>a \<in> set as. fa_frames a) \<and>
       (\<Union>a \<in> set as'. fa_taken a) = (\<Union>a \<in> set as. fa_taken a) - {addr}))"
  using assms
proof (induction as)
  case (Cons a as)
  have ok: "fa_ok a" using Cons.prems(1) by simp
  have in_a: "arena_contains a addr" if "addr \<in> fa_taken a"
    using that fa_taken_subset [of a] fa_frames_iff [OF ok] by auto
  have in_as: "\<exists>b \<in> set as. arena_contains b addr" if "addr \<in> (\<Union>b \<in> set as. fa_taken b)"
  proof -
    from that obtain b where b: "b \<in> set as" "addr \<in> fa_frames b" using fa_taken_subset by blast
    then show ?thesis using Cons.prems(1) fa_frames_iff [of b addr] by auto
  qed
  show ?case
  proof (cases "arena_contains a addr")
    case True
    then have out: "addr \<notin> (\<Union>b \<in> set as. fa_taken b)"
      using in_as arena_disjoint(2) [OF Cons.prems(2,1)] by blast
    from arena_free_spec [OF ok, of addr] show ?thesis
      using True out Cons.prems(1) by (elim disjE exE conjE) auto
  next
    case False
    then have out: "addr \<notin> fa_taken a" using in_a by blast
    have tl: "\<forall>a \<in> set as. fa_ok a" "separated (map fa_range as)" using Cons.prems by simp_all
    from Cons.IH [OF tl] show ?thesis
      using False out ok by (elim disjE exE conjE) auto
  qed
qed simp

lemma pfa_alloc_spec:
  assumes "pfa_ok p"
  shows "(pfa_taken p = pfa_frames p \<and> pfa_alloc p = Some (None, p)) \<or>
    (\<exists>addr p'. pfa_alloc p = Some (Some addr, p') \<and> pfa_ok p' \<and> pfa_ranges p' = pfa_ranges p \<and>
       pfa_frames p' = pfa_frames p \<and> addr \<in> pfa_frames p - pfa_taken p \<and>
       pfa_taken p' = insert addr (pfa_taken p))"
  using arenas_alloc_spec [of "pfa_arenas p"] assms
  by (auto simp: pfa_ok_def pfa_alloc_def pfa_taken_def pfa_frames_def pfa_ranges_def)

lemma pfa_free_spec:
  assumes "pfa_ok p"
  shows "(addr \<notin> pfa_taken p \<and> pfa_free p addr = Some (False, p)) \<or>
    (addr \<in> pfa_taken p \<and> (\<exists>p'. pfa_free p addr = Some (True, p') \<and> pfa_ok p' \<and>
       pfa_ranges p' = pfa_ranges p \<and> pfa_frames p' = pfa_frames p \<and> pfa_taken p' = pfa_taken p - {addr}))"
  using arenas_free_spec [of "pfa_arenas p" addr] assms
  by (auto simp: pfa_ok_def pfa_free_def pfa_taken_def pfa_frames_def pfa_ranges_def)

lemma arenas_new_spec:
  assumes "\<forall>r \<in> set rs. pr_ok r \<and> page_aligned r"
  shows "\<exists>as. arenas_new rs = Some as \<and> (\<forall>a \<in> set as. fa_ok a \<and> fa_taken a = {}) \<and> map fa_range as = rs"
  using assms
proof (induction rs)
  case (Cons r rs)
  with arena_new_ok [of r] show ?case by force
qed simp

text \<open>The well-formedness that a successful discovery establishes, and the kernel image's.\<close>

definition info_ok :: "system_info \<Rightarrow> bool" where
  "info_ok info \<longleftrightarrow> (\<forall>r \<in> set (si_memory_regions info). pr_ok r) \<and>
     (\<forall>r \<in> set (si_reserved_memory_regions info). pr_ok r) \<and> pr_ok (si_fdt_range info)"

definition kernel_image :: "kernel_layout \<Rightarrow> nat set" where
  "kernel_image layout = {kernel_start layout ..< kernel_end layout}"

definition free_ram :: "system_info \<Rightarrow> kernel_layout \<Rightarrow> nat set" where
  "free_ram info layout = ranges_addrs (si_memory_regions info) -
     (ranges_addrs (si_reserved_memory_regions info) \<union> pr_addrs (si_fdt_range info) \<union> kernel_image layout)"

lemma pfa_new_spec:
  assumes "info_ok info" and "kernel_start layout < kernel_end layout" and "kernel_end layout < usize_limit"
  shows "\<exists>p. pfa_new info layout = Some p \<and> pfa_ok p \<and> pfa_taken p = {} \<and>
    ranges_addrs (pfa_ranges p) = \<Union> {page n |n. page n \<subseteq> free_ram info layout}"
proof -
  let ?k = "\<lparr>pr_start = kernel_start layout, pr_end = kernel_end layout\<rparr>"
  let ?res = "si_reserved_memory_regions info @ [si_fdt_range info] @ [?k]"
  let ?u = "usable_memory_ranges (si_memory_regions info) ?res"
  have "from_start_size (kernel_start layout) (kernel_end layout - kernel_start layout) = Inr ?k"
    using assms(2,3) by (simp add: from_start_size_Inr)
  then have fix_eq: "fixup_reserved_memory_regions info layout = Some ?res"
    using assms(2) by (simp add: fixup_reserved_memory_regions_def sub_usize_def)
  have ok: "\<forall>r \<in> set (si_memory_regions info). pr_ok r" "\<forall>r \<in> set ?res. pr_ok r"
    using assms by (auto simp: info_ok_def pr_ok_def)
  from arenas_new_spec [OF usable_memory_ranges_eq(3) [OF ok]] obtain as where
    as: "arenas_new ?u = Some as" "\<forall>a \<in> set as. fa_ok a \<and> fa_taken a = {}" "map fa_range as = ?u" by blast
  have "pfa_new info layout = Some \<lparr>pfa_arenas = as\<rparr>" using fix_eq as(1) by (simp add: pfa_new_def)
  moreover have "pfa_ok \<lparr>pfa_arenas = as\<rparr>" "pfa_ranges \<lparr>pfa_arenas = as\<rparr> = ?u"
    using as usable_memory_ranges_eq(2) [OF ok] by (simp_all add: pfa_ok_def pfa_ranges_def)
  moreover have "pfa_taken \<lparr>pfa_arenas = as\<rparr> = {}" using as(2) by (simp add: pfa_taken_def)
  moreover have "ranges_addrs (si_memory_regions info) - ranges_addrs ?res = free_ram info layout"
    by (auto simp: free_ram_def kernel_image_def pr_addrs_def)
  then have "ranges_addrs ?u = \<Union> {page n |n. page n \<subseteq> free_ram info layout}"
    using usable_memory_ranges_pages [OF ok] by simp
  ultimately show ?thesis by metis
qed

section \<open>Every history of requests\<close>

text \<open>
  The allocator as a machine: it starts from \<open>init\<close>, and each step is one call of \<open>alloc_frame\<close> or
  \<open>free_frame\<close> with any argument.
\<close>

inductive pfa_step :: "page_frame_allocator \<Rightarrow> page_frame_allocator \<Rightarrow> bool" where
  step_alloc: "pfa_alloc p = Some (r, p') \<Longrightarrow> pfa_step p p'"
| step_free: "pfa_free p addr = Some (b, p') \<Longrightarrow> pfa_step p p'"

inductive pfa_reach :: "system_info \<Rightarrow> kernel_layout \<Rightarrow> page_frame_allocator \<Rightarrow> bool"
  for info layout where
  reach_init: "pfa_new info layout = Some p \<Longrightarrow> pfa_reach info layout p"
| reach_step: "pfa_reach info layout p \<Longrightarrow> pfa_step p p' \<Longrightarrow> pfa_reach info layout p'"

inductive_cases pfa_stepE: "pfa_step p p'"

lemma pfa_step_inv:
  assumes "pfa_step p p'" and "pfa_ok p"
  shows "pfa_ok p'" and "pfa_ranges p' = pfa_ranges p"
proof -
  from assms(1) have "pfa_ok p' \<and> pfa_ranges p' = pfa_ranges p"
  proof cases
    case (step_alloc r)
    with pfa_alloc_spec [OF assms(2)] assms(2) show ?thesis by (elim disjE exE conjE) simp_all
  next
    case (step_free addr b)
    with pfa_free_spec [OF assms(2), of addr] assms(2) show ?thesis by (elim disjE exE conjE) simp_all
  qed
  then show "pfa_ok p'" "pfa_ranges p' = pfa_ranges p" by simp_all
qed

lemma pfa_reach_inv:
  assumes "pfa_reach info layout p" and "info_ok info"
    and "kernel_start layout < kernel_end layout" and "kernel_end layout < usize_limit"
  shows "pfa_ok p \<and> ranges_addrs (pfa_ranges p) = \<Union> {page n |n. page n \<subseteq> free_ram info layout}"
  using assms(1)
proof (induction rule: pfa_reach.induct)
  case (reach_init p)
  then show ?case using pfa_new_spec [OF assms(2-4)] by auto
next
  case (reach_step p p')
  then show ?case using pfa_step_inv by metis
qed

lemma page_inj_overlap: "page n \<inter> page m \<noteq> {} \<Longrightarrow> n = m"
proof -
  assume "page n \<inter> page m \<noteq> {}"
  then obtain x where "x \<in> page n" "x \<in> page m" by blast
  then have "x div PAGE_SIZE = n" "x div PAGE_SIZE = m"
    by (auto simp: page_def PAGE_SIZE_def div_nat_eqI)
  then show ?thesis by simp
qed

lemma free_page_frame:
  assumes "pfa_ok p" and "ranges_addrs (pfa_ranges p) = \<Union> {page n |n. page n \<subseteq> R}"
    and "addr \<in> pfa_frames p"
  shows "\<exists>n. addr = n * PAGE_SIZE \<and> page n \<subseteq> R"
proof -
  from pfa_frame_page [OF assms(1,3)] obtain n where n: "addr = n * PAGE_SIZE"
    "page n \<subseteq> \<Union> {page n |n. page n \<subseteq> R}" using assms(2) by auto
  then have "page n \<subseteq> R" by blast
  with n(1) show ?thesis by blast
qed

lemma free_page_is_frame:
  assumes "pfa_ok p" and "ranges_addrs (pfa_ranges p) = \<Union> {page n |n. page n \<subseteq> R}" and "page n \<subseteq> R"
  shows "n * PAGE_SIZE \<in> pfa_frames p"
proof -
  have "n * PAGE_SIZE \<in> page n" by (simp add: page_def)
  then have "n * PAGE_SIZE \<in> ranges_addrs (pfa_ranges p)" using assms(2,3) by blast
  then show ?thesis using pfa_frames_iff [OF assms(1)] by simp
qed

section \<open>Properties\<close>

text \<open>
  C27: in every state a history of \<open>alloc\<close> and \<open>free\<close> calls can reach, \<open>alloc\<close> does not panic. It
  answers \<open>None\<close> only when every whole page of free RAM is handed out; otherwise the frame it
  returns is a page-aligned whole page of RAM that meets neither a reservation, nor the FDT, nor
  the kernel image, nor any frame handed out before, and exactly that frame becomes taken.
\<close>

theorem alloc_frame_safe:
  assumes "pfa_reach info layout p" and "info_ok info"
    and "kernel_start layout < kernel_end layout" and "kernel_end layout < usize_limit"
  shows "\<exists>r p'. pfa_alloc p = Some (r, p') \<and> pfa_reach info layout p' \<and>
    (case r of
       None \<Rightarrow> p' = p \<and> (\<forall>n. page n \<subseteq> free_ram info layout \<longrightarrow> n * PAGE_SIZE \<in> pfa_taken p)
     | Some addr \<Rightarrow> \<exists>n. addr = n * PAGE_SIZE \<and> page n \<subseteq> free_ram info layout \<and>
         (\<forall>m. m * PAGE_SIZE \<in> pfa_taken p \<longrightarrow> page n \<inter> page m = {}) \<and>
         pfa_taken p' = insert addr (pfa_taken p))"
proof -
  from pfa_reach_inv [OF assms] have ok: "pfa_ok p"
    and ram: "ranges_addrs (pfa_ranges p) = \<Union> {page n |n. page n \<subseteq> free_ram info layout}" by simp_all
  from pfa_alloc_spec [OF ok] show ?thesis
  proof (elim disjE exE conjE)
    assume full: "pfa_taken p = pfa_frames p" and none: "pfa_alloc p = Some (None, p)"
    have "n * PAGE_SIZE \<in> pfa_taken p" if "page n \<subseteq> free_ram info layout" for n
      using that free_page_is_frame [OF ok ram] full by simp
    with none assms(1) show ?thesis by (intro exI [of _ None] exI [of _ p]) simp
  next
    fix addr p'
    assume a: "pfa_alloc p = Some (Some addr, p')" "addr \<in> pfa_frames p - pfa_taken p"
      "pfa_taken p' = insert addr (pfa_taken p)"
    from free_page_frame [OF ok ram] a(2) obtain n where n: "addr = n * PAGE_SIZE" "page n \<subseteq> free_ram info layout"
      by blast
    have "page n \<inter> page m = {}" if "m * PAGE_SIZE \<in> pfa_taken p" for m
      using page_inj_overlap [of n m] that a(2) n(1) by auto
    moreover have "pfa_reach info layout p'" using assms(1) a(1) step_alloc reach_step by metis
    ultimately show ?thesis using a n by (intro exI [of _ "Some addr"] exI [of _ p']) auto
  qed
qed

text \<open>The boot of the small machine: the kernel image takes the first two of its sixteen pages.\<close>

definition sample_layout :: kernel_layout where
  "sample_layout = \<lparr>kernel_start = 0x80000000, kernel_end = 0x80002000, heap_start = 0x80001000,
     heap_end = 0x80002000, trap_stack_top = 0x80001000\<rparr>"

definition sample_arenas :: page_frame_allocator where
  "sample_arenas = \<lparr>pfa_arenas = [
     \<lparr>fa_range = \<lparr>pr_start = 0x80002000, pr_end = 0x80008000\<rparr>, fa_used = bitmap_new 6\<rparr>,
     \<lparr>fa_range = \<lparr>pr_start = 0x80009000, pr_end = 0x8000E000\<rparr>, fa_used = bitmap_new 5\<rparr>,
     \<lparr>fa_range = \<lparr>pr_start = 0x8000F000, pr_end = 0x80010000\<rparr>, fa_used = bitmap_new 1\<rparr>]\<rparr>"

lemma sample_ok:
  "info_ok sample_info" "kernel_start sample_layout < kernel_end sample_layout"
  "kernel_end sample_layout < usize_limit"
  by (simp_all add: info_ok_def sample_info_def sample_layout_def pr_ok_def)

lemma sample_boot: "pfa_new sample_info sample_layout = Some sample_arenas"
  by (simp add: pfa_new_def fixup_reserved_memory_regions_def sample_info_def sample_layout_def
      sample_arenas_def usable_memory_ranges_def subtract_reserved_def subtract_fragment_def
      trim_to_pages_def arena_new_def discovery_defs)

theorem alloc_frame_safe_witness:
  "pfa_reach sample_info sample_layout sample_arenas \<and>
   (\<exists>r p'. pfa_alloc sample_arenas = Some (r, p') \<and> pfa_reach sample_info sample_layout p')"
  using alloc_frame_safe [OF reach_init [OF sample_boot] sample_ok] reach_init [OF sample_boot] by blast

text \<open>
  C28: \<open>free\<close> never panics and frees exactly the frames handed out. It answers true precisely for
  an address that is currently taken; a misaligned or foreign address, or a second free of the
  same frame, answers false and leaves the allocator unchanged.
\<close>

theorem free_frame_exact:
  assumes "pfa_reach info layout p" and "info_ok info"
    and "kernel_start layout < kernel_end layout" and "kernel_end layout < usize_limit"
  shows "\<exists>p'. pfa_free p addr = Some (addr \<in> pfa_taken p, p') \<and>
    pfa_taken p' = pfa_taken p - {addr} \<and> (addr \<notin> pfa_taken p \<longrightarrow> p' = p) \<and>
    pfa_free p' addr = Some (False, p')"
proof -
  from pfa_reach_inv [OF assms] have ok: "pfa_ok p" by simp
  from pfa_free_spec [OF ok, of addr] show ?thesis
  proof (elim disjE exE conjE)
    fix p' assume p': "pfa_free p addr = Some (True, p')" "pfa_ok p'" "pfa_taken p' = pfa_taken p - {addr}"
      and taken: "addr \<in> pfa_taken p"
    then show ?thesis using pfa_free_spec [OF p'(2), of addr] by (intro exI [of _ p']) auto
  qed simp
qed

theorem free_frame_exact_witness:
  "pfa_free sample_arenas 0x80003000 = Some (False, sample_arenas) \<and> 0x80003000 \<notin> pfa_taken sample_arenas"
proof -
  have "0x80003000 \<notin> pfa_taken sample_arenas"
    by (simp add: pfa_taken_def fa_taken_def sample_arenas_def bm.new)
  with free_frame_exact [OF reach_init [OF sample_boot] sample_ok, of "0x80003000"] show ?thesis by auto
qed

end
