(* ===== verification/Virtual_Memory.thy ===== *)
theory Virtual_Memory
  imports Page_Frames
begin

text \<open>
  Sv39 virtual memory (\<open>virtual_memory/src/lib.rs\<close>): virtual addresses, page-table entries, page
  tables and \<open>PageTable::map\<close>. Physical memory is seen as the page tables it holds: \<open>m a\<close> is the
  512-entry table in the frame at address \<open>a\<close>. The code only forms table pointers from
  \<open>PageTableEntry::ppn\<close> (a multiple of 4096), from the 4096-aligned root and from the frame source,
  whose contract asks for aligned frames, so two table pointers are equal or do not overlap.
  The frame source is the locale \<open>frame_source\<close>; the page-frame allocator behind
  \<open>alloc_frame().unwrap()\<close> is its instance.
\<close>

section \<open>Virtual addresses\<close>

datatype level = L0 | L1 | L2

definition vpn :: "usize \<Rightarrow> level \<Rightarrow> usize" where
  "vpn val l =
     (case l of
        L0 \<Rightarrow> drop_bit 12 val AND 0x1FF
      | L1 \<Rightarrow> drop_bit 21 val AND 0x1FF
      | L2 \<Rightarrow> drop_bit 30 val AND 0x1FF)"

definition va_offset :: "usize \<Rightarrow> usize" where
  "va_offset val = val AND 0xFFF"

text \<open>Bits shifted beyond bit 63 are lost.\<close>

definition from_parts :: "usize \<Rightarrow> usize \<Rightarrow> usize \<Rightarrow> usize \<Rightarrow> usize" where
  "from_parts l2 l1 l0 offset =
     take_bit 64 (push_bit 30 l2) OR take_bit 64 (push_bit 21 l1) OR take_bit 64 (push_bit 12 l0) OR offset"

section \<open>Page-table entries\<close>

definition VALID :: u64 where "VALID = 1"
definition READ :: u64 where "READ = push_bit 1 1"
definition WRITE :: u64 where "WRITE = push_bit 2 1"
definition EXECUTE :: u64 where "EXECUTE = push_bit 3 1"
definition USER :: u64 where "USER = push_bit 4 1"
definition GLOBAL :: u64 where "GLOBAL = push_bit 5 1"
definition ACCESSED :: u64 where "ACCESSED = push_bit 6 1"
definition DIRTY :: u64 where "DIRTY = push_bit 7 1"

lemmas pte_flag_defs = VALID_def READ_def WRITE_def EXECUTE_def USER_def GLOBAL_def ACCESSED_def DIRTY_def

definition pte_new_leaf :: "usize \<Rightarrow> u64 \<Rightarrow> u64" where
  "pte_new_leaf addr flags = push_bit 10 (drop_bit 12 (of_nat addr)) OR flags OR VALID"

definition pte_new_branch :: "usize \<Rightarrow> u64" where
  "pte_new_branch addr = push_bit 10 (drop_bit 12 (of_nat addr)) OR VALID"

definition pte_is_valid :: "u64 \<Rightarrow> bool" where
  "pte_is_valid e \<longleftrightarrow> e AND VALID = VALID"

definition pte_is_leaf :: "u64 \<Rightarrow> bool" where
  "pte_is_leaf e \<longleftrightarrow> e AND (READ OR WRITE OR EXECUTE) \<noteq> 0"

definition pte_ppn :: "u64 \<Rightarrow> usize" where
  "pte_ppn e = unat (push_bit 12 (drop_bit 10 e))"

section \<open>Page tables\<close>

record page_table =
  pt_entries :: "u64 list"

definition page_table_new :: page_table where
  "page_table_new = \<lparr>pt_entries = replicate 512 0\<rparr>"

type_synonym table_mem = "usize \<Rightarrow> page_table"

text \<open>
  \<open>get_mut\<close> indexes the entry array and panics beyond it; the reference it returns is read with
  \<open>get_entry\<close> and assigned through with \<open>put_entry\<close>.
\<close>

definition get_entry :: "table_mem \<Rightarrow> usize \<Rightarrow> usize \<Rightarrow> u64 panics" where
  "get_entry m t idx = (if idx < length (pt_entries (m t)) then Some (pt_entries (m t) ! idx) else None)"

definition put_entry :: "table_mem \<Rightarrow> usize \<Rightarrow> usize \<Rightarrow> u64 \<Rightarrow> table_mem" where
  "put_entry m t idx e = m(t := (m t)\<lparr>pt_entries := (pt_entries (m t))[idx := e]\<rparr>)"

definition new_table :: "('s \<Rightarrow> (usize \<times> 's) panics) \<Rightarrow> table_mem \<times> 's \<Rightarrow> (usize \<times> table_mem \<times> 's) panics" where
  "new_table alloc = (\<lambda>(m, s). do {
     (frame, s') \<leftarrow> alloc s;
     Some (frame, m(frame := page_table_new), s')
   })"

text \<open>One level of the descent in \<open>map\<close>: the entry's next table, created when the entry is not valid.\<close>

definition next_table ::
  "('s \<Rightarrow> (usize \<times> 's) panics) \<Rightarrow> usize \<Rightarrow> usize \<Rightarrow> table_mem \<times> 's \<Rightarrow> (usize \<times> table_mem \<times> 's) panics" where
  "next_table alloc t idx = (\<lambda>(m, s). do {
     entry \<leftarrow> get_entry m t idx;
     if \<not> pte_is_valid entry then do {
       (frame, m1, s1) \<leftarrow> new_table alloc (m, s);
       let entry' = pte_new_branch frame;
       Some (pte_ppn entry', put_entry m1 t idx entry', s1)
     } else Some (pte_ppn entry, m, s)
   })"

definition map_page ::
  "('s \<Rightarrow> (usize \<times> 's) panics) \<Rightarrow> usize \<Rightarrow> usize \<Rightarrow> usize \<Rightarrow> u64 \<Rightarrow> table_mem \<times> 's \<Rightarrow> (table_mem \<times> 's) panics" where
  "map_page alloc self virt phys flags ms = do {
     (l1_table, ms1) \<leftarrow> next_table alloc self (vpn virt L2) ms;
     (l0_table, ms2) \<leftarrow> next_table alloc l1_table (vpn virt L1) ms1;
     l0_entry \<leftarrow> get_entry (fst ms2) l0_table (vpn virt L0);
     if pte_is_valid l0_entry then None
     else Some (put_entry (fst ms2) l0_table (vpn virt L0) (pte_new_leaf phys flags), snd ms2)
   }"

section \<open>Addresses and entries at the bit level\<close>

lemma and_1FF: "(a::nat) AND 0x1FF = a mod 512"
  using take_bit_eq_mask [of 9 a] by (simp add: take_bit_eq_mod mask_eq_exp_minus_1)

lemma and_FFF: "(a::nat) AND 0xFFF = a mod 4096"
  using take_bit_eq_mask [of 12 a] by (simp add: take_bit_eq_mod mask_eq_exp_minus_1)

lemma vpn_simps:
  "vpn v L0 = v div 4096 mod 512" "vpn v L1 = v div 2097152 mod 512" "vpn v L2 = v div 1073741824 mod 512"
  by (simp_all add: vpn_def and_1FF drop_bit_eq_div)

lemma vpn_less [simp]: "vpn v l < 512"
  by (cases l) (simp_all add: vpn_simps)

lemma va_offset_mod: "va_offset v = v mod 4096"
  by (simp add: va_offset_def and_FFF)

lemma bit_READ [simp]: "bit READ n \<longleftrightarrow> n = 1"
  by (auto simp: READ_def bit_simps)

lemma bit_WRITE [simp]: "bit WRITE n \<longleftrightarrow> n = 2"
  by (auto simp: WRITE_def bit_simps)

lemma bit_EXECUTE [simp]: "bit EXECUTE n \<longleftrightarrow> n = 3"
  by (auto simp: EXECUTE_def bit_simps)

lemma bit_VALID [simp]: "bit VALID n \<longleftrightarrow> n = 0"
  by (auto simp: VALID_def bit_simps)

lemma pte_is_valid_iff: "pte_is_valid e \<longleftrightarrow> bit e 0"
proof
  assume "pte_is_valid e"
  then have "bit (e AND VALID) 0 = bit VALID 0" by (simp add: pte_is_valid_def)
  then show "bit e 0" by (simp add: bit_and_iff)
qed (auto simp: pte_is_valid_def bit_and_iff intro!: bit_eqI)

lemma pte_is_leaf_iff: "pte_is_leaf e \<longleftrightarrow> bit e 1 \<or> bit e 2 \<or> bit e 3"
proof
  assume "bit e 1 \<or> bit e 2 \<or> bit e 3"
  then have "bit (e AND (READ OR WRITE OR EXECUTE)) 1 \<or> bit (e AND (READ OR WRITE OR EXECUTE)) 2 \<or>
      bit (e AND (READ OR WRITE OR EXECUTE)) 3" by (auto simp: bit_and_iff bit_or_iff)
  then show "pte_is_leaf e" by (auto simp: pte_is_leaf_def)
next
  assume "pte_is_leaf e"
  then obtain n where "bit (e AND (READ OR WRITE OR EXECUTE)) n"
    unfolding pte_is_leaf_def by (metis bit_eqI bit_0_eq bot_apply bot_bool_def)
  then show "bit e 1 \<or> bit e 2 \<or> bit e 3" by (auto simp: bit_and_iff bit_or_iff)
qed

text \<open>Permission flags of a mapping occupy the ten low bits of an entry.\<close>

definition flags_ok :: "u64 \<Rightarrow> bool" where
  "flags_ok f \<longleftrightarrow> take_bit 10 f = f"

lemma flags_ok_bit: "flags_ok f \<Longrightarrow> bit f n \<Longrightarrow> n < 10"
  unfolding flags_ok_def by (metis bit_take_bit_iff)

lemma bit_new_leaf:
  "bit (pte_new_leaf a f) n \<longleftrightarrow> (10 \<le> n \<and> n < 64 \<and> bit (of_nat a :: u64) (n + 2)) \<or> bit f n \<or> n = 0"
  by (auto simp: pte_new_leaf_def bit_simps dest: bit_imp_le_length)

lemma pte_new_branch_leaf: "pte_new_branch a = pte_new_leaf a 0"
  by (simp add: pte_new_branch_def pte_new_leaf_def)

lemma new_leaf_valid [simp]: "pte_is_valid (pte_new_leaf a f)" "pte_is_valid (pte_new_branch a)"
  by (simp_all add: pte_is_valid_iff bit_new_leaf pte_new_branch_leaf)

lemma new_branch_not_leaf [simp]: "\<not> pte_is_leaf (pte_new_branch a)"
  by (simp add: pte_is_leaf_iff pte_new_branch_leaf bit_new_leaf)

lemma zero_not_valid [simp]: "\<not> pte_is_valid 0"
  by (simp add: pte_is_valid_iff)

lemma aligned_bit: "4096 dvd a \<Longrightarrow> n < 12 \<Longrightarrow> \<not> bit (of_nat a :: u64) n"
proof -
  assume a: "4096 dvd a" and n: "n < 12"
  from a have "take_bit 12 a = 0" by (simp add: take_bit_eq_mod)
  with n have "\<not> bit a n" by (metis bit_take_bit_iff bit_0_eq bot_apply bot_bool_def)
  then show ?thesis by (simp add: bit_simps)
qed

lemma pte_ppn_new_leaf:
  assumes "4096 dvd a" and "a < usize_limit" and "flags_ok f"
  shows "pte_ppn (pte_new_leaf a f) = a"
proof -
  have "push_bit 12 (drop_bit 10 (pte_new_leaf a f)) = (of_nat a :: u64)"
  proof (rule bit_eqI)
    fix n assume "possible_bit TYPE(u64) n"
    then have "n < 64" by simp
    then show "bit (push_bit 12 (drop_bit 10 (pte_new_leaf a f))) n \<longleftrightarrow> bit (of_nat a :: u64) n"
      using aligned_bit [OF assms(1), of n] flags_ok_bit [OF assms(3), of "n - 2"]
      by (cases "n < 12") (auto simp: bit_simps bit_new_leaf Suc_diff_Suc simp flip: add_2_eq_Suc')
  qed
  then show ?thesis using assms(2) by (simp add: pte_ppn_def unat_of_nat)
qed

lemma pte_ppn_new_branch [simp]: "4096 dvd a \<Longrightarrow> a < usize_limit \<Longrightarrow> pte_ppn (pte_new_branch a) = a"
  by (simp add: pte_new_branch_leaf pte_ppn_new_leaf flags_ok_def)

section \<open>The tree of tables\<close>

text \<open>
  \<open>table_at m r p\<close> follows the indices \<open>p\<close> from the root \<open>r\<close>. Tables sit at paths of length at most
  two; the entries of a table at a path of length two are leaves.
\<close>

abbreviation ent :: "table_mem \<Rightarrow> usize \<Rightarrow> nat \<Rightarrow> u64" where
  "ent m t i \<equiv> pt_entries (m t) ! i"

fun table_at :: "table_mem \<Rightarrow> usize \<Rightarrow> nat list \<Rightarrow> usize option" where
  "table_at m t [] = Some t"
| "table_at m t (i # p) =
     (if i < 512 \<and> pte_is_valid (ent m t i) then table_at m (pte_ppn (ent m t i)) p else None)"

definition tables :: "table_mem \<Rightarrow> usize \<Rightarrow> usize set" where
  "tables m r = {a. \<exists>p. length p \<le> 2 \<and> table_at m r p = Some a}"

text \<open>The tables in use, by their paths, and the paths a mapping of a page needs.\<close>

definition paths :: "table_mem \<Rightarrow> usize \<Rightarrow> nat list set" where
  "paths m r = {p. p \<noteq> [] \<and> length p \<le> 2 \<and> table_at m r p \<noteq> None}"

definition page_paths :: "usize \<Rightarrow> nat list set" where
  "page_paths v = {[vpn v L2], [vpn v L2, vpn v L1]}"

definition pt_ok :: "table_mem \<Rightarrow> usize \<Rightarrow> bool" where
  "pt_ok m r \<longleftrightarrow>
     (\<forall>a \<in> tables m r. length (pt_entries (m a)) = 512) \<and>
     (\<forall>p a i. length p < 2 \<and> table_at m r p = Some a \<and> i < 512 \<and> pte_is_valid (ent m a i) \<longrightarrow>
        \<not> pte_is_leaf (ent m a i) \<and> take_bit 54 (ent m a i) = ent m a i) \<and>
     (\<forall>p q a. length p \<le> 2 \<and> length q \<le> 2 \<and> table_at m r p = Some a \<and> table_at m r q = Some a \<longrightarrow> p = q)"

text \<open>What the tables map: the valid leaf entry at a triple of indices.\<close>

definition pt_leaf :: "table_mem \<Rightarrow> usize \<Rightarrow> nat \<times> nat \<times> nat \<Rightarrow> u64 option" where
  "pt_leaf m r = (\<lambda>(i, j, k).
     case table_at m r [i, j] of
       None \<Rightarrow> None
     | Some t \<Rightarrow> if k < 512 \<and> pte_is_valid (ent m t k) then Some (ent m t k) else None)"

definition page_index :: "usize \<Rightarrow> nat \<times> nat \<times> nat" where
  "page_index v = (vpn v L2, vpn v L1, vpn v L0)"

lemma table_at_snoc:
  "table_at m t (p @ [i]) =
     (case table_at m t p of None \<Rightarrow> None
      | Some a \<Rightarrow> if i < 512 \<and> pte_is_valid (ent m a i) then Some (pte_ppn (ent m a i)) else None)"
  by (induction p arbitrary: t) auto

lemma tablesI: "table_at m r p = Some a \<Longrightarrow> length p \<le> 2 \<Longrightarrow> a \<in> tables m r"
  by (auto simp: tables_def)

lemma root_in_tables [simp]: "r \<in> tables m r"
  using tablesI [of m r "[]"] by simp

lemma pt_ok_len: "pt_ok m r \<Longrightarrow> table_at m r p = Some a \<Longrightarrow> length p \<le> 2 \<Longrightarrow> length (pt_entries (m a)) = 512"
  by (auto simp: pt_ok_def tables_def)

lemma pt_ok_inj:
  "pt_ok m r \<Longrightarrow> table_at m r p = Some a \<Longrightarrow> table_at m r q = Some a \<Longrightarrow> length p \<le> 2 \<Longrightarrow> length q \<le> 2 \<Longrightarrow> p = q"
  unfolding pt_ok_def by blast

lemma pt_ok_branch:
  "pt_ok m r \<Longrightarrow> table_at m r p = Some a \<Longrightarrow> length p < 2 \<Longrightarrow> i < 512 \<Longrightarrow> pte_is_valid (ent m a i) \<Longrightarrow>
     \<not> pte_is_leaf (ent m a i) \<and> take_bit 54 (ent m a i) = ent m a i"
  unfolding pt_ok_def by blast

lemma put_entry_same: "ent (put_entry m t i e) t k = (if k = i \<and> i < length (pt_entries (m t)) then e else ent m t k)"
  by (cases "i < length (pt_entries (m t))") (auto simp: put_entry_def nth_list_update list_update_beyond)

lemma put_entry_other [simp]: "t \<noteq> b \<Longrightarrow> put_entry m t i e b = m b"
  by (simp add: put_entry_def)

lemma put_entry_len [simp]: "length (pt_entries (put_entry m t i e b)) = length (pt_entries (m b))"
  by (simp add: put_entry_def)

lemma page_table_new_ent [simp]: "i < 512 \<Longrightarrow> pt_entries page_table_new ! i = 0"
  and page_table_new_len [simp]: "length (pt_entries page_table_new) = 512"
  by (simp_all add: page_table_new_def)

text \<open>Linking a fresh, zeroed frame into the tree adds exactly one path.\<close>

definition linked :: "usize \<Rightarrow> nat \<Rightarrow> usize \<Rightarrow> table_mem \<Rightarrow> table_mem \<Rightarrow> bool" where
  "linked a i f m m' \<longleftrightarrow> (\<forall>b k. k < 512 \<longrightarrow>
     ent m' b k = (if b = f then 0 else if b = a \<and> k = i then pte_new_branch f else ent m b k))"

lemma link_table_at:
  assumes ok: "pt_ok m r" and p: "table_at m r p = Some a" "length p < 2" "i < 512" "\<not> pte_is_valid (ent m a i)"
    and f: "f \<notin> tables m r" "4096 dvd f" "f < usize_limit" and ents: "linked a i f m m'"
    and q: "length q \<le> 2"
  shows "table_at m' r q = (if q = p @ [i] then Some f else table_at m r q)"
  using q
proof (induction q rule: rev_induct)
  case (snoc k q)
  have lq: "length q < 2" using snoc.prems by simp
  have IH: "table_at m' r q = (if q = p @ [i] then Some f else table_at m r q)" using snoc by simp
  note ents = ents [unfolded linked_def, rule_format]
  show ?case
  proof (cases "q = p @ [i]")
    case True
    then have "table_at m r q = None" "table_at m' r q = Some f" "q @ [k] \<noteq> p @ [i]"
      using p IH by (auto simp: table_at_snoc [of m r p i])
    then show ?thesis by (auto simp: table_at_snoc [of _ r q k] ents)
  next
    case False
    show ?thesis
    proof (cases "table_at m r q")
      case None
      then show ?thesis using IH False p(1) by (auto simp: table_at_snoc)
    next
      case (Some b)
      have bf: "b \<noteq> f" using Some f(1) tablesI lq by fastforce
      have "b = a \<longleftrightarrow> q = p" using pt_ok_inj [OF ok Some, of p] p lq Some by auto
      then show ?thesis using IH False Some bf p f by (auto simp: table_at_snoc ents)
    qed
  qed
qed simp

lemma new_branch_bits: "f < 2 ^ 56 \<Longrightarrow> take_bit 54 (pte_new_branch f) = pte_new_branch f"
proof (rule bit_eqI)
  fix n assume f: "f < 2 ^ 56"
  have "bit f (Suc (Suc n)) \<Longrightarrow> n < 54"
  proof (rule ccontr)
    assume b: "bit f (Suc (Suc n))" "\<not> n < 54"
    then have "(2::nat) ^ 56 \<le> 2 ^ Suc (Suc n)" by (intro power_increasing) auto
    then have "f < 2 ^ Suc (Suc n)" using f by simp
    then show False using b(1) by (simp add: bit_iff_odd)
  qed
  then show "bit (take_bit 54 (pte_new_branch f)) n \<longleftrightarrow> bit (pte_new_branch f) n"
    by (auto simp: pte_new_branch_leaf bit_new_leaf bit_take_bit_iff bit_simps)
qed

lemma link_ok:
  assumes ok: "pt_ok m r" and p: "table_at m r p = Some a" "length p < 2" "i < 512" "\<not> pte_is_valid (ent m a i)"
    and f: "f \<notin> tables m r" "4096 dvd f" "f < 2 ^ 56" and ents: "linked a i f m m'"
    and len: "length (pt_entries (m' f)) = 512" "\<And>b. b \<noteq> f \<Longrightarrow> length (pt_entries (m' b)) = length (pt_entries (m b))"
  shows "pt_ok m' r" and "tables m' r = insert f (tables m r)" and "pt_leaf m' r = pt_leaf m r"
    and "table_at m' r (p @ [i]) = Some f" and "paths m' r = insert (p @ [i]) (paths m r)"
proof -
  have f': "f < usize_limit" using f(3) by simp
  note at = link_table_at [OF ok p f(1,2) f' ents]
  note e = ents [unfolded linked_def, rule_format]
  have none: "table_at m r (p @ [i]) = None" using p by (simp add: table_at_snoc)
  have nf: "table_at m r q \<noteq> Some f" if "length q \<le> 2" for q using tablesI [of m r q f] that f(1) by auto
  show "table_at m' r (p @ [i]) = Some f" using at [of "p @ [i]"] p(2) by simp
  have "q \<in> paths m' r \<longleftrightarrow> q = p @ [i] \<or> q \<in> paths m r" for q
    using at [of q] p(2) by (cases "length q \<le> 2") (auto simp: paths_def)
  then show "paths m' r = insert (p @ [i]) (paths m r)" by auto
  have "b \<in> tables m' r \<longleftrightarrow> b = f \<or> b \<in> tables m r" for b
  proof -
    have "length q \<le> 2 \<and> table_at m' r q = Some b \<longleftrightarrow>
        length q \<le> 2 \<and> (if q = p @ [i] then Some f else table_at m r q) = Some b" for q using at [of q] by auto
    then have "b \<in> tables m' r \<longleftrightarrow> (\<exists>q. length q \<le> 2 \<and> (if q = p @ [i] then Some f else table_at m r q) = Some b)"
      by (simp only: tables_def mem_Collect_eq)
    also have "\<dots> \<longleftrightarrow> b = f \<or> b \<in> tables m r"
    proof (cases "b = f")
      case True
      then show ?thesis using p(2) by (auto intro!: exI [of _ "p @ [i]"])
    next
      case False
      then have "(if q = p @ [i] then Some f else table_at m r q) = Some b \<longleftrightarrow> table_at m r q = Some b" for q
        using none by auto
      then show ?thesis using False by (simp add: tables_def)
    qed
    finally show ?thesis .
  qed
  then show tabs: "tables m' r = insert f (tables m r)" by auto
  show "pt_leaf m' r = pt_leaf m r"
  proof (rule ext, clarify)
    fix i' j' k'
    have nz: "k' < 512 \<Longrightarrow> \<not> pte_is_valid (ent m' f k')" by (simp add: e)
    have "ent m' t k' = ent m t k'" if "table_at m r [i', j'] = Some t" "k' < 512" for t
    proof -
      have "t \<noteq> a" using pt_ok_inj [OF ok that(1), of p] p by auto
      then show ?thesis using nf [of "[i', j']"] that by (auto simp: e)
    qed
    then show "pt_leaf m' r (i', j', k') = pt_leaf m r (i', j', k')"
      using at [of "[i', j']"] none nz by (cases "[i', j'] = p @ [i]") (auto simp: pt_leaf_def split: option.splits simp del: table_at.simps)
  qed
  show "pt_ok m' r"
    unfolding pt_ok_def
  proof (intro conjI allI impI ballI)
    fix b assume "b \<in> tables m' r"
    then show "length (pt_entries (m' b)) = 512" using tabs len ok by (cases "b = f") (auto simp: pt_ok_def)
  next
    fix q b k assume *: "length q < 2 \<and> table_at m' r q = Some b \<and> k < 512 \<and> pte_is_valid (ent m' b k)"
    then have "b \<noteq> f" by (auto simp: e)
    then have "table_at m r q = Some b" using * at [of q] by (auto split: if_splits)
    then show "\<not> pte_is_leaf (ent m' b k)" "take_bit 54 (ent m' b k) = ent m' b k"
      using pt_ok_branch [OF ok, of q b k] * \<open>b \<noteq> f\<close> new_branch_bits [OF f(3)] by (auto simp: e split: if_splits)
  next
    fix q q' b assume *: "length q \<le> 2 \<and> length q' \<le> 2 \<and> table_at m' r q = Some b \<and> table_at m' r q' = Some b"
    then show "q = q'" using at [of q] at [of q'] nf [of q] nf [of q'] pt_ok_inj [OF ok, of q b q'] by (auto split: if_splits)
  qed
qed

text \<open>Writing an entry of a table at a path of length two moves no table.\<close>

lemma leaf_table_at:
  assumes ok: "pt_ok m r" and a: "table_at m r [i, j] = Some a"
    and ents: "\<And>b k'. k' < 512 \<Longrightarrow> ent m' b k' = (if b = a \<and> k' = k then e else ent m b k')"
    and q: "length q \<le> 2"
  shows "table_at m' r q = table_at m r q"
  using q
proof (induction q rule: rev_induct)
  case (snoc k' q)
  have "b \<noteq> a" if "table_at m r q = Some b" for b
    using pt_ok_inj [OF ok that, of "[i, j]"] a snoc.prems by auto
  then show ?case using snoc by (auto simp: table_at_snoc ents split: option.splits)
qed simp

lemma leaf_ok:
  assumes ok: "pt_ok m r" and a: "table_at m r [i, j] = Some a" and k: "k < 512" and v: "pte_is_valid e"
    and ents: "\<And>b k'. k' < 512 \<Longrightarrow> ent m' b k' = (if b = a \<and> k' = k then e else ent m b k')"
    and len: "\<And>b. length (pt_entries (m' b)) = length (pt_entries (m b))"
  shows "pt_ok m' r" and "tables m' r = tables m r" and "pt_leaf m' r = (pt_leaf m r)((i, j, k) \<mapsto> e)"
    and "paths m' r = paths m r"
proof -
  note at = leaf_table_at [OF ok a ents]
  have na: "b \<noteq> a" if "table_at m r q = Some b" "length q < 2" for b q
    using pt_ok_inj [OF ok that(1), of "[i, j]"] a that by auto
  have "length q \<le> 2 \<and> table_at m' r q = Some b \<longleftrightarrow> length q \<le> 2 \<and> table_at m r q = Some b" for q b
    using at [of q] by auto
  then show tabs: "tables m' r = tables m r" by (simp add: tables_def)
  have "q \<in> paths m' r \<longleftrightarrow> q \<in> paths m r" for q
    unfolding paths_def using at [of q] by (cases "length q \<le> 2") (simp_all only: mem_Collect_eq simp_thms)
  then show "paths m' r = paths m r" by auto
  show "pt_ok m' r"
    unfolding pt_ok_def
  proof (intro conjI allI impI ballI)
    fix b assume "b \<in> tables m' r"
    then show "length (pt_entries (m' b)) = 512" using tabs len ok by (auto simp: pt_ok_def)
  next
    fix q b k' assume *: "length q < 2 \<and> table_at m' r q = Some b \<and> k' < 512 \<and> pte_is_valid (ent m' b k')"
    then have "table_at m r q = Some b" using at [of q] by simp
    then show "\<not> pte_is_leaf (ent m' b k')" "take_bit 54 (ent m' b k') = ent m' b k'"
      using pt_ok_branch [OF ok, of q b k'] * na [of q b] by (auto simp: ents)
  next
    fix q q' b assume "length q \<le> 2 \<and> length q' \<le> 2 \<and> table_at m' r q = Some b \<and> table_at m' r q' = Some b"
    then show "q = q'" using at [of q] at [of q'] by (intro pt_ok_inj [OF ok, of q b q']) simp_all
  qed
  show "pt_leaf m' r = (pt_leaf m r)((i, j, k) \<mapsto> e)"
  proof (rule ext, clarify)
    fix i' j' k'
    have at': "table_at m' r [i', j'] = table_at m r [i', j']" by (rule at) (simp_all add: numeral_2_eq_2)
    show "pt_leaf m' r (i', j', k') = ((pt_leaf m r)((i, j, k) \<mapsto> e)) (i', j', k')"
    proof (cases "table_at m r [i', j']")
      case None
      then have "(i', j') \<noteq> (i, j)" using a by auto
      then show ?thesis using None at' by (auto simp: pt_leaf_def simp del: table_at.simps)
    next
      case (Some t)
      have "t = a \<longleftrightarrow> i' = i \<and> j' = j"
        using pt_ok_inj [OF ok Some, of "[i, j]"] a Some by (auto simp del: table_at.simps)
      then show ?thesis using Some at' k v
        by (cases "k' < 512") (auto simp: pt_leaf_def ents simp del: table_at.simps)
    qed
  qed
qed

section \<open>Mapping a page with frames from a source\<close>

locale frame_source =
  fixes alloc :: "'s \<Rightarrow> (usize \<times> 's) panics"
    and invar :: "'s \<Rightarrow> bool"
    and free :: "'s \<Rightarrow> usize set"
  assumes alloc_law: "invar s \<Longrightarrow> alloc s = Some (a, s') \<Longrightarrow> a \<in> free s \<and> invar s' \<and> free s' = free s - {a}"
    and alloc_progress: "invar s \<Longrightarrow> free s \<noteq> {} \<Longrightarrow> \<exists>a s'. alloc s = Some (a, s')"
    and free_frame_law: "invar s \<Longrightarrow> a \<in> free s \<Longrightarrow> 4096 dvd a \<and> a < 2 ^ 56"
begin

definition pt_state :: "usize \<Rightarrow> table_mem \<Rightarrow> 's \<Rightarrow> bool" where
  "pt_state r m s \<longleftrightarrow> pt_ok m r \<and> invar s \<and> tables m r \<inter> free s = {}"

text \<open>
  A step that needs tables at the paths \<open>P\<close> takes one frame for each that is missing, turns it into a
  table and touches nothing but tables.
\<close>

definition grows :: "nat list set \<Rightarrow> usize \<Rightarrow> table_mem \<Rightarrow> 's \<Rightarrow> table_mem \<Rightarrow> 's \<Rightarrow> bool" where
  "grows P r m s m' s' \<longleftrightarrow> pt_state r m' s' \<and> tables m r \<subseteq> tables m' r \<and> free s' = free s - tables m' r \<and>
     tables m' r \<subseteq> tables m r \<union> free s \<and> (\<forall>x. x \<notin> tables m' r \<longrightarrow> m' x = m x) \<and>
     paths m' r = paths m r \<union> P \<and> finite P \<and> finite (tables m' r - tables m r) \<and>
     card (tables m' r - tables m r) = card (P - paths m r)"

lemma free_finite: "invar s \<Longrightarrow> finite (free s)"
  using free_frame_law [of s] by (meson finite_lessThan finite_subset lessThan_iff subsetI)

lemma grows_trans:
  assumes "grows P r m s m1 s1" and "grows Q r m1 s1 m2 s2"
  shows "grows (P \<union> Q) r m s m2 s2"
proof -
  have d: "tables m2 r - tables m r = (tables m1 r - tables m r) \<union> (tables m2 r - tables m1 r)"
    using assms by (auto simp: grows_def)
  have fin: "finite (tables m1 r - tables m r)" "finite (tables m2 r - tables m1 r)" "finite P" "finite Q"
    using assms by (simp_all add: grows_def)
  have "card (tables m2 r - tables m r) = card (tables m1 r - tables m r) + card (tables m2 r - tables m1 r)"
    unfolding d using fin assms(1) by (intro card_Un_disjoint) (auto simp: grows_def)
  also have "\<dots> = card (P - paths m r) + card (Q - (paths m r \<union> P))" using assms by (simp add: grows_def)
  also have "\<dots> = card ((P - paths m r) \<union> (Q - (paths m r \<union> P)))"
    using fin by (intro card_Un_disjoint [symmetric]) auto
  also have "(P - paths m r) \<union> (Q - (paths m r \<union> P)) = (P \<union> Q) - paths m r" by auto
  finally have c: "card (tables m2 r - tables m r) = card ((P \<union> Q) - paths m r)" .
  have f: "free s2 = free s - tables m2 r" using assms by (auto simp: grows_def)
  have "finite (tables m2 r - tables m r)" unfolding d using fin by simp
  then show ?thesis using assms c f fin unfolding grows_def by (auto 4 4)
qed

lemma next_table_spec:
  assumes st: "pt_state r m s" and p: "table_at m r p = Some a" "length p < 2" "i < 512"
    and res: "next_table alloc a i (m, s) = Some (t, m', s')"
  shows "grows {p @ [i]} r m s m' s' \<and> pt_leaf m' r = pt_leaf m r \<and> table_at m' r (p @ [i]) = Some t"
proof -
  have ok: "pt_ok m r" and s: "invar s" "tables m r \<inter> free s = {}" using st by (auto simp: pt_state_def)
  have len: "length (pt_entries (m a)) = 512" using pt_ok_len [OF ok p(1)] p(2) by simp
  then have ge: "get_entry m a i = Some (ent m a i)" using p(3) by (simp add: get_entry_def)
  show ?thesis
  proof (cases "pte_is_valid (ent m a i)")
    case True
    then have "m' = m" "s' = s" "t = pte_ppn (ent m a i)" using res ge by (auto simp: next_table_def)
    moreover have "p @ [i] \<in> paths m r" using True p by (simp add: paths_def table_at_snoc)
    ultimately show ?thesis using True p st s by (auto simp: grows_def table_at_snoc)
  next
    case False
    with res ge obtain f where f: "alloc s = Some (f, s')" "t = pte_ppn (pte_new_branch f)"
      "m' = put_entry (m(f := page_table_new)) a i (pte_new_branch f)"
      by (auto simp: next_table_def new_table_def Let_def split: bind_splits)
    note fr = alloc_law [OF s(1) f(1)]
    have f': "f \<notin> tables m r" "4096 dvd f" "f < 2 ^ 56"
      using fr s free_frame_law [OF s(1), of f] by auto
    have af: "a \<noteq> f" using f'(1) tablesI [OF p(1)] p(2) by auto
    have "linked a i f m m'"
      using af p(3) len by (auto simp: linked_def f(3) put_entry_same) (auto simp: put_entry_def)
    from link_ok [OF ok p False f' this] f(3) af
    have l: "pt_ok m' r" "tables m' r = insert f (tables m r)" "pt_leaf m' r = pt_leaf m r"
      "table_at m' r (p @ [i]) = Some f" "paths m' r = insert (p @ [i]) (paths m r)" by auto
    have "t = f" using f(2) f' by simp
    moreover have "p @ [i] \<notin> paths m r" using False p by (simp add: paths_def table_at_snoc)
    then have "grows {p @ [i]} r m s m' s'"
      using l(1,2,5) fr s f'(1) tablesI [OF p(1)] p(2)
      by (auto simp: grows_def pt_state_def f(3) put_entry_def insert_Diff_if)
    ultimately show ?thesis using l by simp
  qed
qed

lemma next_table_iff:
  assumes st: "pt_state r m s" and p: "table_at m r p = Some a" "length p < 2" "i < 512"
  shows "next_table alloc a i (m, s) = None \<longleftrightarrow> p @ [i] \<notin> paths m r \<and> free s = {}"
proof -
  have "length (pt_entries (m a)) = 512" using st pt_ok_len [OF _ p(1)] p(2) by (simp add: pt_state_def)
  then have e: "get_entry m a i = Some (ent m a i)" using p(3) by (simp add: get_entry_def)
  have v: "pte_is_valid (ent m a i) \<longleftrightarrow> p @ [i] \<in> paths m r" using p by (simp add: paths_def table_at_snoc)
  have "alloc s = None \<longleftrightarrow> free s = {}"
    using alloc_progress [of s] alloc_law [of s] st by (cases "alloc s") (auto simp: pt_state_def)
  then show ?thesis using e v by (auto simp: next_table_def new_table_def Let_def split: bind_splits)
qed

end

text \<open>A sequence of mappings, in order: what a loop over pages performs.\<close>

fun map_pages ::
  "('s \<Rightarrow> (usize \<times> 's) panics) \<Rightarrow> usize \<Rightarrow> (usize \<times> usize \<times> u64) list \<Rightarrow> table_mem \<times> 's \<Rightarrow> (table_mem \<times> 's) panics" where
  "map_pages alloc self [] ms = Some ms"
| "map_pages alloc self ((virt, phys, flags) # rs) ms = do {
     ms' \<leftarrow> map_page alloc self virt phys flags ms;
     map_pages alloc self rs ms'
   }"

definition leaf_of :: "usize \<times> usize \<times> u64 \<Rightarrow> (nat \<times> nat \<times> nat) \<times> u64" where
  "leaf_of = (\<lambda>(virt, phys, flags). (page_index virt, pte_new_leaf phys flags))"

lemma leaf_of_simp [simp]: "leaf_of (virt, phys, flags) = (page_index virt, pte_new_leaf phys flags)"
  by (simp add: leaf_of_def)

context frame_source
begin

lemma grows_card:
  assumes "grows P r m s m' s'" and "pt_state r m s"
  shows "card (free s) = card (free s') + card (P - paths m r)"
proof -
  have fin: "finite (free s)" using assms(2) free_finite by (simp add: pt_state_def)
  have "free s \<inter> tables m' r = tables m' r - tables m r" using assms by (auto simp: grows_def pt_state_def)
  moreover have "card (free s) = card (free s - tables m' r) + card (free s \<inter> tables m' r)"
    using fin by (metis Diff_disjoint Int_commute Un_Diff_Int card_Un_disjoint finite_Diff finite_Int inf_le1 Diff_Int_distrib2 Int_Diff)
  ultimately show ?thesis using assms(1) by (simp add: grows_def)
qed

lemma grows_state: "grows n r m s m' s' \<Longrightarrow> pt_state r m' s'"
  by (simp add: grows_def)

lemma map_page_leaf_step:
  assumes st: "pt_state r m s" and t: "table_at m r [i, j] = Some t" and k: "k < 512" and e: "pte_is_valid e"
  shows "grows {} r m s (put_entry m t k e) s \<and> pt_leaf (put_entry m t k e) r = (pt_leaf m r)((i, j, k) \<mapsto> e)"
proof -
  have ok: "pt_ok m r" using st by (simp add: pt_state_def)
  have len: "length (pt_entries (m t)) = 512" using pt_ok_len [OF ok t] by (simp add: numeral_2_eq_2)
  have "ent (put_entry m t k e) b k' = (if b = t \<and> k' = k then e else ent m b k')" for b k'
    using k len by (cases "b = t") (auto simp: put_entry_same)
  from leaf_ok [OF ok t k e this] have l: "pt_ok (put_entry m t k e) r"
    "tables (put_entry m t k e) r = tables m r" "pt_leaf (put_entry m t k e) r = (pt_leaf m r)((i, j, k) \<mapsto> e)"
    "paths (put_entry m t k e) r = paths m r" by simp_all
  have "t \<in> tables m r" using tablesI [OF t] by (simp add: numeral_2_eq_2)
  then show ?thesis using l st by (auto simp: grows_def pt_state_def put_entry_def)
qed

text \<open>The whole operation: it panics exactly on a page that is mapped already or for want of frames.\<close>

lemma map_page_descend:
  assumes st: "pt_state r m s"
    and n1: "next_table alloc r (vpn v L2) (m, s) = Some (t1, m1, s1)"
    and n2: "next_table alloc t1 (vpn v L1) (m1, s1) = Some (t2, m2, s2)"
  shows "grows (page_paths v) r m s m2 s2" and "pt_leaf m2 r = pt_leaf m r"
    and "table_at m2 r [vpn v L2, vpn v L1] = Some t2"
    and "get_entry m2 t2 (vpn v L0) = Some (ent m2 t2 (vpn v L0))"
    and "pte_is_valid (ent m2 t2 (vpn v L0)) \<longleftrightarrow> pt_leaf m r (page_index v) \<noteq> None"
proof -
  have s1: "grows {[vpn v L2]} r m s m1 s1" "pt_leaf m1 r = pt_leaf m r" "table_at m1 r [vpn v L2] = Some t1"
    using next_table_spec [OF st _ _ _ n1, of "[]"] by simp_all
  have s2: "grows {[vpn v L2, vpn v L1]} r m1 s1 m2 s2" "pt_leaf m2 r = pt_leaf m1 r" "table_at m2 r [vpn v L2, vpn v L1] = Some t2"
    using next_table_spec [OF grows_state [OF s1(1)] s1(3) _ _ n2] by simp_all
  show g: "grows (page_paths v) r m s m2 s2"
    using grows_trans [OF s1(1) s2(1)] by (simp add: page_paths_def insert_commute)
  show l: "pt_leaf m2 r = pt_leaf m r" using s1(2) s2(2) by simp
  show t: "table_at m2 r [vpn v L2, vpn v L1] = Some t2" by (rule s2(3))
  have "pt_ok m2 r" using g by (simp add: grows_def pt_state_def)
  from pt_ok_len [OF this t] have "length (pt_entries (m2 t2)) = 512" by (simp add: numeral_2_eq_2)
  then show "get_entry m2 t2 (vpn v L0) = Some (ent m2 t2 (vpn v L0))" by (simp add: get_entry_def)
  show "pte_is_valid (ent m2 t2 (vpn v L0)) \<longleftrightarrow> pt_leaf m r (page_index v) \<noteq> None"
    using t unfolding l [symmetric] by (simp add: pt_leaf_def page_index_def del: table_at.simps)
qed

lemma map_page_spec:
  assumes st: "pt_state r m s" and res: "map_page alloc r v ph fl (m, s) = Some (m', s')"
  shows "pt_leaf m r (page_index v) = None" and "grows (page_paths v) r m s m' s'"
    and "pt_leaf m' r = (pt_leaf m r)(page_index v \<mapsto> pte_new_leaf ph fl)"
proof -
  from res obtain t1 m1 s1 t2 m2 where n: "next_table alloc r (vpn v L2) (m, s) = Some (t1, m1, s1)"
    "next_table alloc t1 (vpn v L1) (m1, s1) = Some (t2, m2, s')"
    and m': "m' = put_entry m2 t2 (vpn v L0) (pte_new_leaf ph fl)"
    by (auto simp: map_page_def split: bind_splits if_splits)
  note d = map_page_descend [OF st n]
  show none: "pt_leaf m r (page_index v) = None"
    using res n d(4,5) by (auto simp: map_page_def split: if_splits)
  from map_page_leaf_step [OF grows_state [OF d(1)] d(3) vpn_less new_leaf_valid(1), folded m']
  have w: "grows {} r m2 s' m' s'" "pt_leaf m' r = (pt_leaf m2 r)((vpn v L2, vpn v L1, vpn v L0) \<mapsto> pte_new_leaf ph fl)"
    unfolding m' by simp_all
  show "grows (page_paths v) r m s m' s'" using grows_trans [OF d(1) w(1)] by simp
  show "pt_leaf m' r = (pt_leaf m r)(page_index v \<mapsto> pte_new_leaf ph fl)"
    using w(2) d(2) by (simp add: page_index_def)
qed

lemma map_page_progress:
  assumes st: "pt_state r m s" and none: "pt_leaf m r (page_index v) = None"
    and c: "card (page_paths v - paths m r) \<le> card (free s)"
  shows "\<exists>m' s'. map_page alloc r v ph fl (m, s) = Some (m', s')"
proof -
  have need: "page_paths v - paths m r = {} \<or> free s \<noteq> {}"
    using c by (auto simp: page_paths_def)
  have "[vpn v L2] \<in> paths m r \<or> free s \<noteq> {}" using need by (auto simp: page_paths_def)
  with next_table_iff [OF st, of "[]" r "vpn v L2"] obtain t1 m1 s1 where
    n1: "next_table alloc r (vpn v L2) (m, s) = Some (t1, m1, s1)"
    by (cases "next_table alloc r (vpn v L2) (m, s)") auto
  from next_table_spec [OF st _ _ _ n1, of "[]"] have s1: "grows {[vpn v L2]} r m s m1 s1" "table_at m1 r [vpn v L2] = Some t1"
    by simp_all
  have "paths m1 r = insert [vpn v L2] (paths m r)" using s1(1) by (auto simp: grows_def)
  moreover have "card (free s) = card (free s1) + card ({[vpn v L2]} - paths m r)" by (rule grows_card [OF s1(1) st])
  ultimately have "[vpn v L2, vpn v L1] \<in> paths m1 r \<or> free s1 \<noteq> {}"
    using c by (cases "[vpn v L2] \<in> paths m r") (auto simp: page_paths_def insert_Diff_if)
  with next_table_iff [OF grows_state [OF s1(1)] s1(2), of "vpn v L1"] obtain t2 m2 s2 where
    n2: "next_table alloc t1 (vpn v L1) (m1, s1) = Some (t2, m2, s2)"
    by (cases "next_table alloc t1 (vpn v L1) (m1, s1)") auto
  note d = map_page_descend [OF st n1 n2]
  show ?thesis using n1 n2 d(4,5) none by (simp add: map_page_def)
qed

lemma map_page_iff:
  assumes st: "pt_state r m s"
  shows "map_page alloc r v ph fl (m, s) \<noteq> None \<longleftrightarrow>
    pt_leaf m r (page_index v) = None \<and> card (page_paths v - paths m r) \<le> card (free s)"
proof
  assume "map_page alloc r v ph fl (m, s) \<noteq> None"
  then obtain m' s' where "map_page alloc r v ph fl (m, s) = Some (m', s')" by auto
  from map_page_spec [OF st this] show
    "pt_leaf m r (page_index v) = None \<and> card (page_paths v - paths m r) \<le> card (free s)"
    using grows_card [OF _ st] by fastforce
next
  assume "pt_leaf m r (page_index v) = None \<and> card (page_paths v - paths m r) \<le> card (free s)"
  with map_page_progress [OF st] show "map_page alloc r v ph fl (m, s) \<noteq> None" by blast
qed

lemma map_pages_spec:
  assumes "pt_state r m s" and "map_pages alloc r rs (m, s) = Some (m', s')"
  shows "grows (\<Union>x \<in> set rs. page_paths (fst x)) r m s m' s' \<and> distinct (map (fst \<circ> leaf_of) rs) \<and>
    fst ` leaf_of ` set rs \<inter> dom (pt_leaf m r) = {} \<and> pt_leaf m' r = pt_leaf m r ++ map_of (map leaf_of rs)"
  using assms
proof (induction rs arbitrary: m s)
  case Nil
  then show ?case by (auto simp: grows_def pt_state_def)
next
  case (Cons x rs)
  obtain v ph fl where x: "x = (v, ph, fl)" by (cases x)
  from Cons.prems(2) x obtain m1 s1 where 1: "map_page alloc r v ph fl (m, s) = Some (m1, s1)"
    and 2: "map_pages alloc r rs (m1, s1) = Some (m', s')" by (auto split: bind_splits)
  note a = map_page_spec [OF Cons.prems(1) 1]
  note IH = Cons.IH [OF grows_state [OF a(2)] 2]
  have dom: "dom (pt_leaf m1 r) = insert (page_index v) (dom (pt_leaf m r))" using a(3) by auto
  have fr: "page_index v \<notin> fst ` leaf_of ` set rs" using IH dom by auto
  then have "map_of (map leaf_of rs) (page_index v) = None"
    by (simp add: map_of_eq_None_iff image_image)
  then have "pt_leaf m' r = pt_leaf m r ++ map_of (map leaf_of (x # rs))"
    using IH a(3) by (simp add: x map_add_upd_left domIff flip: map_add_upd)
      (auto simp: fun_eq_iff map_add_def split: option.splits)
  moreover have "grows (\<Union>x \<in> set (x # rs). page_paths (fst x)) r m s m' s'"
    using grows_trans [OF a(2)] IH by (fastforce simp: x)
  moreover have "distinct (map (fst \<circ> leaf_of) (x # rs))"
    using IH fr by (simp add: x image_image comp_def)
  moreover have "fst ` leaf_of ` set (x # rs) \<inter> dom (pt_leaf m r) = {}"
    using IH dom a(1) by (auto simp: x)
  ultimately show ?case by blast
qed

lemma map_pages_progress:
  assumes "pt_state r m s" and "distinct (map (fst \<circ> leaf_of) rs)"
    and "fst ` leaf_of ` set rs \<inter> dom (pt_leaf m r) = {}" and "card ((\<Union>x \<in> set rs. page_paths (fst x)) - paths m r) \<le> card (free s)"
  shows "\<exists>m' s'. map_pages alloc r rs (m, s) = Some (m', s')"
  using assms
proof (induction rs arbitrary: m s)
  case (Cons x rs)
  obtain v ph fl where x: "x = (v, ph, fl)" by (cases x)
  let ?P = "\<Union>x \<in> set rs. page_paths (fst x)"
  have fin: "finite ?P" "finite (page_paths v)" by (simp_all add: page_paths_def)
  have all: "(\<Union>x \<in> set (x # rs). page_paths (fst x)) - paths m r =
      (page_paths v - paths m r) \<union> (?P - (paths m r \<union> page_paths v))" by (auto simp: x)
  have sum: "card ((\<Union>x \<in> set (x # rs). page_paths (fst x)) - paths m r) =
      card (page_paths v - paths m r) + card (?P - (paths m r \<union> page_paths v))"
    unfolding all using fin by (intro card_Un_disjoint) auto
  from map_page_progress [OF Cons.prems(1), of v ph fl] Cons.prems(3,4) sum obtain m1 s1 where
    1: "map_page alloc r v ph fl (m, s) = Some (m1, s1)" by (auto simp: x)
  note a = map_page_spec [OF Cons.prems(1) 1]
  have "fst ` leaf_of ` set rs \<inter> dom (pt_leaf m1 r) = {}"
    using Cons.prems(2,3) a(3) by (auto simp: x image_image)
  moreover have "card (?P - paths m1 r) \<le> card (free s1)"
    using grows_card [OF a(2) Cons.prems(1)] Cons.prems(4) sum a(2) by (simp add: grows_def)
  ultimately obtain m' s' where "map_pages alloc r rs (m1, s1) = Some (m', s')"
    using Cons.IH [OF grows_state [OF a(2)]] Cons.prems(2) by auto
  then show ?case using 1 by (simp add: x)
qed simp

end

section \<open>The hardware's view\<close>

text \<open>
  The Sv39 translation of the RISC-V privileged architecture, as the specification of what the
  tables mean: an entry that is invalid, write-only or has a reserved bit set faults, a readable or
  executable entry is a leaf (at a higher level a superpage, whose low page-number bits must be
  clear), anything else points to the next table. Accessed and dirty bits are updated by the
  hardware and left out. Addresses must be sign-extended from bit 38.
\<close>

definition sv39_ppn :: "u64 \<Rightarrow> nat" where
  "sv39_ppn e = unat (take_bit 44 (drop_bit 10 e))"

definition sv39_fault :: "u64 \<Rightarrow> bool" where
  "sv39_fault e \<longleftrightarrow> \<not> bit e 0 \<or> (\<not> bit e 1 \<and> bit e 2) \<or> drop_bit 54 e \<noteq> 0"

fun sv39_walk :: "table_mem \<Rightarrow> usize \<Rightarrow> nat \<Rightarrow> usize \<Rightarrow> (usize \<times> u64) option" where
  "sv39_walk m t lvl v =
     (let e = ent m t (v div 2 ^ (12 + 9 * lvl) mod 512) in
      if sv39_fault e then None
      else if bit e 1 \<or> bit e 3 then
        (if sv39_ppn e mod 512 ^ lvl \<noteq> 0 then None
         else Some (sv39_ppn e * 4096 + v mod 2 ^ (12 + 9 * lvl), e))
      else if lvl = 0 then None
      else sv39_walk m (sv39_ppn e * 4096) (lvl - 1) v)"

definition sv39_canonical :: "usize \<Rightarrow> bool" where
  "sv39_canonical v \<longleftrightarrow> v < 2 ^ 38 \<or> (2 ^ 64 - 2 ^ 38 \<le> v \<and> v < 2 ^ 64)"

definition translate :: "table_mem \<Rightarrow> usize \<Rightarrow> usize \<Rightarrow> (usize \<times> u64) option" where
  "translate m r v = (if sv39_canonical v then sv39_walk m r 2 v else None)"

declare sv39_walk.simps [simp del]

lemma sv39_ppn_eq: "drop_bit 54 e = 0 \<Longrightarrow> sv39_ppn e * 4096 = pte_ppn e"
proof -
  assume "drop_bit 54 e = 0"
  then have "drop_bit 54 (unat e) = 0" by (metis unat_drop_bit_eq unsigned_0)
  then have e: "unat e < 2 ^ 54" by (simp add: drop_bit_eq_div div_eq_0_iff)
  define x where "x = drop_bit 10 e"
  have "unat x = unat e div 1024" by (simp add: x_def unat_drop_bit_eq drop_bit_eq_div [of _ "unat e"])
  then have x: "unat x < 2 ^ 44" using e by (simp add: less_mult_imp_div_less)
  have "sv39_ppn e = unat x"
    using x unfolding sv39_ppn_def x_def [symmetric] by (simp only: unsigned_take_bit_eq take_bit_nat_eq_self)
  moreover have "pte_ppn e = take_bit 64 (push_bit 12 (unat x))"
    unfolding pte_ppn_def x_def [symmetric] by (simp only: unsigned_push_bit_eq) simp
  ultimately show ?thesis using x by (simp add: take_bit_eq_mod push_bit_eq_mult)
qed

lemma walk_branch:
  assumes ok: "pt_ok m r" and t: "table_at m r p = Some t" "length p < 2"
    and i: "i = v div 2 ^ (12 + 9 * Suc l) mod 512"
  shows "sv39_walk m t (Suc l) v = (case table_at m r (p @ [i]) of None \<Rightarrow> None | Some t' \<Rightarrow> sv39_walk m t' l v)"
proof (cases "pte_is_valid (ent m t i)")
  case True
  have "i < 512" using i by simp
  note b = pt_ok_branch [OF ok t this True]
  then have "drop_bit 54 (ent m t i) = 0" by (simp flip: take_bit_eq_self_iff_drop_bit_eq_0)
  then show ?thesis
    using True b t i sv39_ppn_eq [of "ent m t i"]
    by (subst sv39_walk.simps) (simp add: table_at_snoc sv39_fault_def pte_is_valid_iff pte_is_leaf_iff Let_def)
next
  case False
  then show ?thesis
    using t i by (subst sv39_walk.simps) (simp add: table_at_snoc sv39_fault_def pte_is_valid_iff Let_def)
qed

text \<open>What the hardware sees of well-formed tables is what \<open>pt_leaf\<close> says.\<close>

lemma translate_pt_leaf:
  assumes ok: "pt_ok m r" and v: "sv39_canonical v"
  shows "translate m r v =
    (case pt_leaf m r (page_index v) of None \<Rightarrow> None
     | Some e \<Rightarrow> if sv39_fault e \<or> \<not> (bit e 1 \<or> bit e 3) then None else Some (sv39_ppn e * 4096 + v mod 4096, e))"
proof -
  have i2: "vpn v L2 = v div 2 ^ (12 + 9 * Suc 1) mod 512" and i1: "vpn v L1 = v div 2 ^ (12 + 9 * Suc 0) mod 512"
    and i0: "vpn v L0 = v div 2 ^ (12 + 9 * 0) mod 512" by (simp_all add: vpn_simps)
  have w2: "sv39_walk m r 2 v = (case table_at m r [vpn v L2] of None \<Rightarrow> None | Some t \<Rightarrow> sv39_walk m t 1 v)"
    using walk_branch [OF ok, of "[]" r "vpn v L2" v 1] i2 by (simp add: numeral_2_eq_2 del: table_at.simps(2))
  have w1: "sv39_walk m t 1 v = (case table_at m r [vpn v L2, vpn v L1] of None \<Rightarrow> None | Some t \<Rightarrow> sv39_walk m t 0 v)"
    if "table_at m r [vpn v L2] = Some t" for t
    using walk_branch [OF ok that, of "vpn v L1" v 0] i1 by (simp del: table_at.simps)
  have w0: "sv39_walk m t 0 v = (if sv39_fault (ent m t (vpn v L0)) \<or> \<not> (bit (ent m t (vpn v L0)) 1 \<or> bit (ent m t (vpn v L0)) 3)
      then None else Some (sv39_ppn (ent m t (vpn v L0)) * 4096 + v mod 4096, ent m t (vpn v L0)))" for t
    by (subst sv39_walk.simps) (simp add: vpn_simps Let_def)
  have sn: "table_at m r [vpn v L2, vpn v L1] = None" if "table_at m r [vpn v L2] = None"
    using that table_at_snoc [of m r "[vpn v L2]" "vpn v L1"] by simp
  show ?thesis
    using v w2 w1 sn
    by (auto simp: translate_def pt_leaf_def page_index_def w0 sv39_fault_def pte_is_valid_iff simp del: table_at.simps
        split: option.splits)
qed

lemma new_leaf_bits: "f < 2 ^ 56 \<Longrightarrow> flags_ok fl \<Longrightarrow> drop_bit 54 (pte_new_leaf f fl) = 0"
proof -
  assume f: "f < 2 ^ 56" and fl: "flags_ok fl"
  have "take_bit 54 (pte_new_branch f) = pte_new_branch f" by (rule new_branch_bits [OF f])
  then have b: "bit (pte_new_branch f) n \<Longrightarrow> n < 54" for n by (metis bit_take_bit_iff)
  have "pte_new_leaf f fl = pte_new_branch f OR fl"
    by (simp add: pte_new_leaf_def pte_new_branch_def or.assoc or.commute or.left_commute)
  then show ?thesis using b flags_ok_bit [OF fl]
    by (intro bit_eqI) (fastforce simp: bit_drop_bit_eq bit_or_iff)
qed

lemma translate_new_leaf:
  assumes "4096 dvd ph" and "ph < 2 ^ 56" and "flags_ok fl" and "bit fl 1"
  shows "\<not> sv39_fault (pte_new_leaf ph fl)" and "bit (pte_new_leaf ph fl) 1"
    and "sv39_ppn (pte_new_leaf ph fl) * 4096 = ph"
  using assms new_leaf_bits [OF assms(2,3)] pte_ppn_new_leaf [OF assms(1) _ assms(3)]
  by (simp_all add: sv39_fault_def bit_new_leaf sv39_ppn_eq)

lemma digit_inject: "a < k \<Longrightarrow> a' < k \<Longrightarrow> a + k * b = a' + k * b' \<longleftrightarrow> a = a' \<and> b = (b' :: nat)"
proof
  assume k: "a < k" "a' < k" and eq: "a + k * b = a' + k * b'"
  from arg_cong [OF eq, of "\<lambda>x. x mod k"] k have "a = a'" by simp
  then show "a = a' \<and> b = b'" using eq k by auto
qed simp

lemma page_index_mod: "page_index v = page_index v' \<longleftrightarrow> v div 4096 mod 2 ^ 27 = v' div 4096 mod 2 ^ 27"
proof -
  have split: "n mod 2 ^ 27 = n mod 512 + 512 * (n div 512 mod 512 + 512 * (n div 262144 mod 512))" for n :: nat
    using mod_mult2_eq [of n 512 "262144"] mod_mult2_eq [of "n div 512" 512 512]
    by (simp add: div_mult2_eq [of n 512 512, simplified])
  have "page_index v = page_index v' \<longleftrightarrow>
      v div 4096 mod 512 = v' div 4096 mod 512 \<and> v div 4096 div 512 mod 512 = v' div 4096 div 512 mod 512 \<and>
      v div 4096 div 262144 mod 512 = v' div 4096 div 262144 mod 512"
    by (auto simp: page_index_def vpn_simps simp flip: div_mult2_eq)
  also have "\<dots> \<longleftrightarrow> v div 4096 mod 2 ^ 27 = v' div 4096 mod 2 ^ 27"
    unfolding split by (simp only: digit_inject mod_less_divisor zero_less_numeral)
  finally show ?thesis .
qed

text \<open>Two canonical addresses share their indices exactly when they lie in the same page.\<close>

lemma canonical_page:
  assumes "sv39_canonical w"
  shows "w div 4096 =
    (if w div 4096 mod 2 ^ 27 < 2 ^ 26 then w div 4096 mod 2 ^ 27 else 2 ^ 52 - 2 ^ 27 + w div 4096 mod 2 ^ 27)"
proof -
  define n where "n = w div 4096"
  from assms consider "n < 2 ^ 26" | "2 ^ 52 - 2 ^ 26 \<le> n" "n < 2 ^ 52"
    unfolding sv39_canonical_def n_def by (auto simp: less_mult_imp_div_less dest: div_le_mono [of _ _ 4096])
  then have "n = (if n mod 2 ^ 27 < 2 ^ 26 then n mod 2 ^ 27 else 2 ^ 52 - 2 ^ 27 + n mod 2 ^ 27)"
  proof cases
    case 2
    then have "n div 2 ^ 27 = 2 ^ 25 - 1" by (intro div_nat_eqI) simp_all
    then have "n = (2 ^ 25 - 1) * 2 ^ 27 + n mod 2 ^ 27" by (metis div_mult_mod_eq)
    then show ?thesis using 2 by simp
  qed simp
  then show ?thesis unfolding n_def .
qed

lemma page_index_canonical:
  assumes "sv39_canonical v" and "sv39_canonical v'"
  shows "page_index v = page_index v' \<longleftrightarrow> v div 4096 = v' div 4096"
  unfolding page_index_mod using canonical_page [OF assms(1)] canonical_page [OF assms(2)] by metis

section \<open>Frames from the page-frame allocator\<close>

text \<open>The closure \<open>|| page_frame_allocator::alloc_frame().unwrap()\<close> that the kernel passes to \<open>map\<close>.\<close>

definition unwrap_frame :: "page_frame_allocator option \<Rightarrow> (usize \<times> page_frame_allocator option) panics" where
  "unwrap_frame g = do { (r, g') \<leftarrow> alloc_frame g; addr \<leftarrow> r; Some (addr, g') }"

definition frames_ok :: "page_frame_allocator option \<Rightarrow> bool" where
  "frames_ok g \<longleftrightarrow> (case g of None \<Rightarrow> True | Some p \<Rightarrow> pfa_ok p \<and> pfa_frames p \<subseteq> {..<2 ^ 56})"

definition frames_free :: "page_frame_allocator option \<Rightarrow> usize set" where
  "frames_free g = (case g of None \<Rightarrow> {} | Some p \<Rightarrow> pfa_frames p - pfa_taken p)"

interpretation kernel_frames: frame_source unwrap_frame frames_ok frames_free
proof unfold_locales
  fix g :: "page_frame_allocator option" and a g'
  assume ok: "frames_ok g" and al: "unwrap_frame g = Some (a, g')"
  from al obtain p where g: "g = Some p" by (auto simp: unwrap_frame_def alloc_frame_def split: bind_splits)
  from pfa_alloc_spec [of p] ok al show "a \<in> frames_free g \<and> frames_ok g' \<and> frames_free g' = frames_free g - {a}"
    by (auto simp: g frames_ok_def frames_free_def unwrap_frame_def alloc_frame_def)
next
  fix g :: "page_frame_allocator option"
  assume ok: "frames_ok g" and ne: "frames_free g \<noteq> {}"
  then obtain p where g: "g = Some p" by (cases g) (auto simp: frames_free_def)
  from pfa_alloc_spec [of p] ok ne show "\<exists>a g'. unwrap_frame g = Some (a, g')"
    by (auto simp: g frames_ok_def frames_free_def unwrap_frame_def alloc_frame_def)
next
  fix g :: "page_frame_allocator option" and a
  assume ok: "frames_ok g" and a: "a \<in> frames_free g"
  then obtain p where g: "g = Some p" by (cases g) (auto simp: frames_free_def)
  then have "PAGE_SIZE dvd a" using pfa_frames_iff [of p a] ok a by (simp add: frames_ok_def frames_free_def)
  then show "4096 dvd a \<and> a < 2 ^ 56" using ok a by (auto simp: g PAGE_SIZE_def frames_ok_def frames_free_def)
qed

text \<open>The kernel's paging state: tables well-formed, frame allocator sound, no table in a free frame.\<close>

definition paging_ok :: "usize \<Rightarrow> table_mem \<Rightarrow> page_frame_allocator option \<Rightarrow> bool" where
  "paging_ok r m g \<longleftrightarrow> pt_ok m r \<and> frames_ok g \<and> tables m r \<inter> frames_free g = {}"

lemma paging_state: "kernel_frames.pt_state r m g = paging_ok r m g"
  by (simp add: kernel_frames.pt_state_def paging_ok_def)

lemma translate_map:
  assumes ok: "pt_ok m r" "pt_ok m' r" and l: "pt_leaf m' r = (pt_leaf m r)(page_index v \<mapsto> pte_new_leaf ph fl)"
    and ph: "4096 dvd ph" "ph < 2 ^ 56" "flags_ok fl" "bit fl 1" and v: "sv39_canonical v"
  shows "translate m' r w =
    (if sv39_canonical w \<and> w div 4096 = v div 4096 then Some (ph + w mod 4096, pte_new_leaf ph fl) else translate m r w)"
proof (cases "sv39_canonical w")
  case True
  then show ?thesis
    using translate_new_leaf [OF ph] page_index_canonical [OF True v]
    by (auto simp: translate_pt_leaf [OF ok(1)] translate_pt_leaf [OF ok(2)] l)
qed (simp add: translate_def)

section \<open>Properties\<close>

text \<open>
  C31: \<open>PageTable::map\<close> with frames from the page-frame allocator, in a consistent paging state. It
  returns exactly when the page is not mapped yet and the allocator has a frame for each of the two
  lower tables that is missing; otherwise it panics. When it returns, the hardware's translation of
  the page is the requested frame with the requested flags, the translation of every other address is
  what it was, nothing is written but page tables and frames that were free, and the state is
  consistent again.
\<close>

theorem map_page_exact:
  assumes "paging_ok r m g" and "sv39_canonical v"
    and "4096 dvd ph" "ph < 2 ^ 56" "flags_ok fl" "bit fl 1"
  shows "(map_page unwrap_frame r v ph fl (m, g) \<noteq> None \<longleftrightarrow>
      pt_leaf m r (page_index v) = None \<and> card (page_paths v - paths m r) \<le> card (frames_free g)) \<and>
    (\<forall>m' g'. map_page unwrap_frame r v ph fl (m, g) = Some (m', g') \<longrightarrow> paging_ok r m' g' \<and>
        (\<forall>w. translate m' r w =
           (if sv39_canonical w \<and> w div 4096 = v div 4096 then Some (ph + w mod 4096, pte_new_leaf ph fl)
            else translate m r w)) \<and>
        (\<forall>a. a \<notin> tables m r \<union> frames_free g \<longrightarrow> m' a = m a) \<and> frames_free g' = frames_free g - tables m' r)"
proof (intro conjI allI impI)
  have st: "kernel_frames.pt_state r m g" using assms(1) by (simp add: paging_state)
  show "map_page unwrap_frame r v ph fl (m, g) \<noteq> None \<longleftrightarrow>
      pt_leaf m r (page_index v) = None \<and> card (page_paths v - paths m r) \<le> card (frames_free g)"
    by (rule kernel_frames.map_page_iff [OF st])
  fix m' g' assume res: "map_page unwrap_frame r v ph fl (m, g) = Some (m', g')"
  note sp = kernel_frames.map_page_spec [OF st res]
  show ok': "paging_ok r m' g'" using kernel_frames.grows_state [OF sp(2)] paging_state by blast
  show "translate m' r w = (if sv39_canonical w \<and> w div 4096 = v div 4096
      then Some (ph + w mod 4096, pte_new_leaf ph fl) else translate m r w)" for w
    using translate_map [OF _ _ sp(3) assms(3-6,2)] assms(1) ok' by (simp add: paging_ok_def)
  show "m' a = m a" if "a \<notin> tables m r \<union> frames_free g" for a
    using that sp(2) by (auto simp: kernel_frames.grows_def)
  show "frames_free g' = frames_free g - tables m' r" using sp(2) by (simp add: kernel_frames.grows_def)
qed

lemma empty_tables:
  assumes "m r = page_table_new"
  shows "tables m r = {r}" and "pt_ok m r" and "pt_leaf m r = Map.empty" and "paths m r = {}"
proof -
  have at: "table_at m r p = (if p = [] then Some r else None)" for p
    using assms by (cases p) auto
  then show t: "tables m r = {r}" by (auto simp: tables_def)
  show "paths m r = {}" by (auto simp: paths_def at split: if_splits)
  have e: "i < 512 \<Longrightarrow> \<not> pte_is_valid (ent m r i)" for i using assms by simp
  show "pt_ok m r"
    unfolding pt_ok_def using assms e by (auto simp: t at split: if_splits)
  show "pt_leaf m r = Map.empty" by (auto simp: fun_eq_iff pt_leaf_def at simp del: table_at.simps)
qed

text \<open>The small machine with an empty root table at the start of the kernel image.\<close>

definition sample_tables :: table_mem where
  "sample_tables = (\<lambda>_. page_table_new)"

lemma sample_frames:
  "frames_free (Some sample_arenas) = pfa_frames sample_arenas"
  "frames_ok (Some sample_arenas)" "2 \<le> card (frames_free (Some sample_arenas))"
  "pfa_frames sample_arenas \<subseteq> {0x80002000..<0x80010000}"
proof -
  have ok: "pfa_ok sample_arenas" using pfa_reach_inv [OF reach_init [OF sample_boot] sample_ok] by simp
  have r: "pfa_ranges sample_arenas = [\<lparr>pr_start = 0x80002000, pr_end = 0x80008000\<rparr>,
      \<lparr>pr_start = 0x80009000, pr_end = 0x8000E000\<rparr>, \<lparr>pr_start = 0x8000F000, pr_end = 0x80010000\<rparr>]"
    by (simp add: pfa_ranges_def sample_arenas_def)
  show fr: "frames_free (Some sample_arenas) = pfa_frames sample_arenas"
    by (simp add: frames_free_def pfa_taken_def fa_taken_def sample_arenas_def bm.new)
  show sub: "pfa_frames sample_arenas \<subseteq> {0x80002000..<0x80010000}"
    using pfa_frames_iff [OF ok] by (auto simp: r ranges_addrs_def pr_addrs_def)
  show "frames_ok (Some sample_arenas)" using ok sub by (auto simp: frames_ok_def)
  have "{0x80002000, 0x80003000} \<subseteq> pfa_frames sample_arenas"
    using pfa_frames_iff [OF ok] by (auto simp: r ranges_addrs_def pr_addrs_def PAGE_SIZE_def)
  from card_mono [OF finite_subset [OF sub] this] show "2 \<le> card (frames_free (Some sample_arenas))"
    by (simp add: fr)
qed

lemma sample_paging: "paging_ok 0x80000000 sample_tables (Some sample_arenas)"
  using sample_frames(2,4) empty_tables [of sample_tables "0x80000000"]
  by (auto simp: paging_ok_def sample_frames(1) sample_tables_def)

lemma flags_RW: "flags_ok (READ OR WRITE)" "bit (READ OR WRITE) 1"
  by (auto simp: flags_ok_def bit_take_bit_iff bit_or_iff intro!: bit_eqI)

theorem map_page_exact_witness:
  "\<exists>m' g'. map_page unwrap_frame 0x80000000 0x80002000 0x80002000 (READ OR WRITE) (sample_tables, Some sample_arenas)
     = Some (m', g') \<and> translate m' 0x80000000 0x80002010 = Some (0x80002010, pte_new_leaf 0x80002000 (READ OR WRITE))"
proof -
  have c: "sv39_canonical 0x80002000" "sv39_canonical 0x80002010" by (simp_all add: sv39_canonical_def)
  have l: "pt_leaf sample_tables 0x80000000 (page_index 0x80002000) = None"
    by (simp add: empty_tables(3) sample_tables_def)
  have "card (page_paths 0x80002000 - paths sample_tables 0x80000000) \<le> card (page_paths 0x80002000)"
    by (intro card_mono) (auto simp: page_paths_def)
  also have "\<dots> \<le> 2" by (simp add: page_paths_def card_insert_if)
  finally have n: "card (page_paths 0x80002000 - paths sample_tables 0x80000000) \<le> card (frames_free (Some sample_arenas))"
    using sample_frames(3) by linarith
  note ex = map_page_exact [OF sample_paging c(1) _ _ flags_RW, of "0x80002000"]
  from ex l n obtain m' g' where r: "map_page unwrap_frame 0x80000000 0x80002000 0x80002000 (READ OR WRITE)
      (sample_tables, Some sample_arenas) = Some (m', g')" by auto
  with ex have "translate m' 0x80000000 0x80002010 = Some (0x80002010, pte_new_leaf 0x80002000 (READ OR WRITE))"
    using c(2) by simp
  with r show ?thesis by blast
qed

lemma push_or_add: "y < 2 ^ n \<Longrightarrow> push_bit n x OR y = x * 2 ^ n + (y :: nat)"
proof -
  assume "y < 2 ^ n"
  then have "n \<le> k \<Longrightarrow> \<not> bit y k" for k by (metis bit_take_bit_iff take_bit_nat_eq_self not_le)
  then have "push_bit n x AND y = 0" by (intro bit_eqI) (auto simp: bit_and_iff bit_push_bit_iff)
  then show ?thesis by (simp add: push_bit_eq_mult flip: disjunctive_add_eq_or)
qed

lemma from_parts_sum:
  assumes "l2 < 512" "l1 < 512" "l0 < 512" "off < 4096"
  shows "from_parts l2 l1 l0 off = off + 4096 * (l0 + 512 * (l1 + 512 * l2))"
proof -
  have "from_parts l2 l1 l0 off = push_bit 30 l2 OR (push_bit 21 l1 OR (push_bit 12 l0 OR off))"
    using assms by (simp add: from_parts_def take_bit_nat_eq_self push_bit_eq_mult or.assoc)
  then show ?thesis using assms by (simp add: push_or_add)
qed

lemma digits_of: "(v::nat) < 2 ^ 39 \<Longrightarrow>
  v = v mod 4096 + 4096 * (v div 4096 mod 512 + 512 * (v div 2097152 mod 512 + 512 * (v div 1073741824 mod 512)))"
proof -
  assume v: "v < 2 ^ 39"
  have "v = v mod 4096 + 4096 * (v div 4096)"
    "v div 4096 = v div 4096 mod 512 + 512 * (v div 2097152)"
    "v div 2097152 = v div 2097152 mod 512 + 512 * (v div 1073741824)"
    using div_mult2_eq [of v 4096 512] div_mult2_eq [of v 2097152 512]
      mult_div_mod_eq [of 512 "v div 4096"] mult_div_mod_eq [of 512 "v div 2097152"] by simp_all
  moreover have "v div 1073741824 mod 512 = v div 1073741824" using v by (simp add: less_mult_imp_div_less)
  moreover have "a = b + 4096 * c \<Longrightarrow> c = d + 512 * e \<Longrightarrow> e = f + 512 * g \<Longrightarrow> h = g \<Longrightarrow>
      a = b + 4096 * (d + 512 * (f + 512 * h))" for a b c d e f g h :: nat by simp
  ultimately show ?thesis by blast
qed

lemma leaf_flags: "pte_is_leaf (pte_new_leaf a fl) \<longleftrightarrow> bit fl 1 \<or> bit fl 2 \<or> bit fl 3"
  by (simp add: pte_is_leaf_iff bit_new_leaf)

text \<open>
  Virtual addresses and entries are packed without loss. \<open>from_parts\<close> of three nine-bit indices and
  a twelve-bit offset gives an address whose \<open>vpn\<close> and \<open>offset\<close> are these parts, and every address below
  \<open>2 ^ 39\<close> is rebuilt from its parts; a leaf or branch entry for a page-aligned address is valid, gives
  the address back through \<open>ppn\<close>, and is a leaf exactly when it has a permission.
\<close>

theorem address_entry_roundtrip:
  "(l2 < 512 \<and> l1 < 512 \<and> l0 < 512 \<and> off < 4096 \<longrightarrow>
     vpn (from_parts l2 l1 l0 off) L2 = l2 \<and> vpn (from_parts l2 l1 l0 off) L1 = l1 \<and>
     vpn (from_parts l2 l1 l0 off) L0 = l0 \<and> va_offset (from_parts l2 l1 l0 off) = off) \<and>
   (v < 2 ^ 39 \<longrightarrow> from_parts (vpn v L2) (vpn v L1) (vpn v L0) (va_offset v) = v) \<and>
   (4096 dvd a \<and> a < usize_limit \<and> flags_ok fl \<longrightarrow>
     pte_is_valid (pte_new_leaf a fl) \<and> pte_ppn (pte_new_leaf a fl) = a \<and>
     (pte_is_leaf (pte_new_leaf a fl) \<longleftrightarrow> bit fl 1 \<or> bit fl 2 \<or> bit fl 3) \<and>
     pte_is_valid (pte_new_branch a) \<and> pte_ppn (pte_new_branch a) = a \<and> \<not> pte_is_leaf (pte_new_branch a))"
proof (intro conjI impI)
  assume p: "l2 < 512 \<and> l1 < 512 \<and> l0 < 512 \<and> off < 4096"
  have d: "(x + k * y) div k = y" "(x + k * y) mod k = x" if "x < k" for x y k :: nat
    using that by simp_all
  have sum: "from_parts l2 l1 l0 off = off + 4096 * (l0 + 512 * (l1 + 512 * l2))"
    using p by (intro from_parts_sum) simp_all
  have 4: "from_parts l2 l1 l0 off div 4096 = l0 + 512 * (l1 + 512 * l2)" "from_parts l2 l1 l0 off mod 4096 = off"
    unfolding sum using p by (simp_all only: d)
  have 5: "(l0 + 512 * (l1 + 512 * l2)) div 512 = l1 + 512 * l2" "(l0 + 512 * (l1 + 512 * l2)) mod 512 = l0"
    "(l1 + 512 * l2) div 512 = l2" "(l1 + 512 * l2) mod 512 = l1" "l2 mod 512 = l2"
    using p by (simp_all only: d mod_less)
  have 6: "v div 2097152 = v div 4096 div 512" "v div 1073741824 = v div 4096 div 512 div 512" for v :: nat
    by (simp_all flip: div_mult2_eq)
  show "vpn (from_parts l2 l1 l0 off) L2 = l2" "vpn (from_parts l2 l1 l0 off) L1 = l1"
    "vpn (from_parts l2 l1 l0 off) L0 = l0" "va_offset (from_parts l2 l1 l0 off) = off"
    by (simp_all only: vpn_simps va_offset_mod 4 5 6)
next
  assume "v < 2 ^ 39"
  note digits_of [OF this, symmetric]
  moreover have "from_parts (vpn v L2) (vpn v L1) (vpn v L0) (va_offset v) =
      va_offset v + 4096 * (vpn v L0 + 512 * (vpn v L1 + 512 * vpn v L2))"
    by (rule from_parts_sum) (simp_all add: va_offset_mod)
  ultimately show "from_parts (vpn v L2) (vpn v L1) (vpn v L0) (va_offset v) = v"
    by (simp only: vpn_simps va_offset_mod)
qed (simp_all add: pte_ppn_new_leaf leaf_flags)

theorem address_entry_roundtrip_witness:
  "vpn (from_parts 1 2 3 0x100) L2 = 1 \<and> from_parts (vpn 0x80002010 L2) (vpn 0x80002010 L1) (vpn 0x80002010 L0)
     (va_offset 0x80002010) = 0x80002010 \<and> pte_ppn (pte_new_leaf 0x80002000 (READ OR WRITE)) = 0x80002000"
  using address_entry_roundtrip [of 1 2 3 "0x100" "0x80002010" "0x80002000" "READ OR WRITE"] flags_RW by simp

end
