(* ===== verification/Riscv.thy ===== *)
theory Riscv
  imports Kernel_Prelude
begin

text \<open>
  The supervisor registers: the typed wrappers of \<open>src/riscv.rs\<close> (\<open>Asid\<close>, \<open>Satp\<close>, \<open>Scause\<close>, \<open>Stvec\<close>), its
  assembly helpers on an explicit record of control and status registers, and the interrupt switch
  of \<open>src/interrupts.rs\<close>.
\<close>

section \<open>Control and status registers\<close>

record csrs =
  csr_satp :: u64
  csr_scause :: u64
  csr_stvec :: u64
  csr_sscratch :: u64
  csr_sepc :: u64
  csr_sstatus :: u64
  csr_sie :: u64

section \<open>Address translation register\<close>

type_synonym asid = u16

definition asid_KERNEL :: asid where
  "asid_KERNEL = 0"

definition asid_new :: "u16 \<Rightarrow> asid" where
  "asid_new val = val"

definition asid_as_u16 :: "asid \<Rightarrow> u16" where
  "asid_as_u16 a = a"

definition usize_from_asid :: "asid \<Rightarrow> u64" where
  "usize_from_asid a = ucast a"

datatype satp_mode = Bare | Sv39 | Sv48 | Sv57

definition satp_mode_val :: "satp_mode \<Rightarrow> u64" where
  "satp_mode_val m = (case m of Bare \<Rightarrow> 0 | Sv39 \<Rightarrow> 8 | Sv48 \<Rightarrow> 9 | Sv57 \<Rightarrow> 10)"

definition satp_new :: "satp_mode \<Rightarrow> asid \<Rightarrow> usize \<Rightarrow> u64" where
  "satp_new mode a ppn =
     push_bit 60 (satp_mode_val mode) OR push_bit 44 (usize_from_asid a) OR drop_bit 12 (of_nat ppn)"

section \<open>Trap causes\<close>

datatype scause_reason =
    UserSoftwareInterrupt
  | SupervisorSoftwareInterrupt
  | UserTimerInterrupt
  | SupervisorTimerInterrupt
  | UserExternalInterrupt
  | SupervisorExternalInterrupt
  | InstructionAddressMisaligned
  | InstructionAccessFault
  | IllegalInstruction
  | Breakpoint
  | LoadAccessFault
  | AmoAddressMisaligned
  | StoreAmoAccessFault
  | EnvironmentCall
  | Reserved

definition is_interrupt :: "u64 \<Rightarrow> bool" where
  "is_interrupt s \<longleftrightarrow> s AND push_bit 63 1 \<noteq> 0"

definition reason_of :: "u64 \<Rightarrow> scause_reason" where
  "reason_of s =
     (if is_interrupt s then
        (let c = s AND 0x7FFFFFFFFFFFFFFF in
         if c = 0 then UserSoftwareInterrupt
         else if c = 1 then SupervisorSoftwareInterrupt
         else if c = 4 then UserTimerInterrupt
         else if c = 5 then SupervisorTimerInterrupt
         else if c = 8 then UserExternalInterrupt
         else if c = 9 then SupervisorExternalInterrupt
         else Reserved)
      else if s = 0 then InstructionAddressMisaligned
      else if s = 1 then InstructionAccessFault
      else if s = 2 then IllegalInstruction
      else if s = 3 then Breakpoint
      else if s = 5 then LoadAccessFault
      else if s = 6 then AmoAddressMisaligned
      else if s = 7 then StoreAmoAccessFault
      else if s = 8 then EnvironmentCall
      else Reserved)"

definition stvec_new :: "u64 \<Rightarrow> u64" where
  "stvec_new addr = addr AND NOT 3"

section \<open>Assembly helpers\<close>

text \<open>The translation-cache flush after the write of \<open>satp\<close> has no effect on the registers.\<close>

definition asm_scause :: "csrs \<Rightarrow> u64" where
  "asm_scause c = csr_scause c"

definition write_satp_and_flush_tlb :: "u64 \<Rightarrow> csrs \<Rightarrow> csrs" where
  "write_satp_and_flush_tlb satp c = c\<lparr>csr_satp := satp\<rparr>"

definition write_stvec :: "u64 \<Rightarrow> csrs \<Rightarrow> csrs" where
  "write_stvec v c = c\<lparr>csr_stvec := v\<rparr>"

section \<open>Interrupts\<close>

definition csrs_set_sstatus :: "u64 \<Rightarrow> csrs \<Rightarrow> csrs" where
  "csrs_set_sstatus b c = c\<lparr>csr_sstatus := csr_sstatus c OR b\<rparr>"

definition csrs_clear_sstatus :: "u64 \<Rightarrow> csrs \<Rightarrow> csrs" where
  "csrs_clear_sstatus b c = c\<lparr>csr_sstatus := csr_sstatus c AND NOT b\<rparr>"

definition interrupts_init :: "csrs \<Rightarrow> csrs" where
  "interrupts_init c =
     (let c1 = c\<lparr>csr_sie := csr_sie c OR push_bit 5 1\<rparr>
      in csrs_set_sstatus (push_bit 1 1) c1)"

text \<open>A closure runs on the registers and whatever state it captures, and may panic.\<close>

definition without_interrupts :: "(csrs \<times> 's \<Rightarrow> ('r \<times> csrs \<times> 's) panics) \<Rightarrow> csrs \<times> 's \<Rightarrow> ('r \<times> csrs \<times> 's) panics" where
  "without_interrupts f = (\<lambda>(c, s). do {
     let sstatus = csr_sstatus c;
     let c1 = csrs_clear_sstatus 0x2 c;
     (result, c2, s2) \<leftarrow> f (c1, s);
     let c3 = (if sstatus AND 0x2 \<noteq> 0 then csrs_set_sstatus 0x2 c2 else c2);
     Some (result, c3, s2)
   })"

abbreviation interrupts_enabled :: "csrs \<Rightarrow> bool" where
  "interrupts_enabled c \<equiv> bit (csr_sstatus c) 1"

lemma two_push: "(2 :: u64) = push_bit 1 1"
  by (simp add: push_bit_eq_mult)

lemma bit_one_push: "bit (push_bit k 1 :: u64) n \<longleftrightarrow> n = k \<and> k < 64"
  by (auto simp: bit_push_bit_iff bit_1_iff)

lemma and_push: "k < 64 \<Longrightarrow> w AND push_bit k 1 \<noteq> 0 \<longleftrightarrow> bit (w :: u64) k"
proof
  assume "k < 64" "bit w k"
  then have "bit (w AND push_bit k 1) k" by (simp add: bit_and_iff bit_one_push)
  then show "w AND push_bit k 1 \<noteq> 0" by auto
next
  assume "w AND push_bit k 1 \<noteq> 0"
  then obtain n where "bit (w AND push_bit k 1) n" by (metis bit_eqI bit_0_eq bot_apply bot_bool_def)
  then show "bit w k" by (auto simp: bit_and_iff bit_one_push)
qed

lemma set_clear_push: "bit w k \<Longrightarrow> (w AND NOT (push_bit k 1)) OR push_bit k 1 = (w :: u64)"
  by (rule bit_eqI) (auto simp: bit_and_iff bit_or_iff bit_not_iff bit_one_push)

lemma clear_push: "\<not> bit w k \<Longrightarrow> w AND NOT (push_bit k 1) = (w :: u64)"
  by (rule bit_eqI) (auto simp: bit_and_iff bit_not_iff bit_one_push)

lemma cleared_push: "k < 64 \<Longrightarrow> \<not> bit (w AND NOT (push_bit k 1)) k" for w :: u64
  by (simp add: bit_and_iff bit_not_iff bit_one_push)

lemmas and_two = and_push [of 1, folded two_push, simplified]
lemmas set_clear_sstatus = set_clear_push [of _ 1, folded two_push]
lemmas clear_sstatus = clear_push [of _ 1, folded two_push]

lemma clear_disables: "\<not> interrupts_enabled (csrs_clear_sstatus 2 c)"
  using cleared_push [of 1 "csr_sstatus c", folded two_push] by (simp add: csrs_clear_sstatus_def)

text \<open>
  \<open>balanced f\<close>: the closure gives the status register back as it found it. The critical section of
  a balanced closure is balanced, so critical sections nest.
\<close>

definition balanced :: "(csrs \<times> 's \<Rightarrow> ('r \<times> csrs \<times> 's) panics) \<Rightarrow> bool" where
  "balanced f \<longleftrightarrow> (\<forall>c s r c' s'. f (c, s) = Some (r, c', s') \<longrightarrow> csr_sstatus c' = csr_sstatus c)"

lemma without_interrupts_Some:
  assumes "without_interrupts f (c, s) = Some (r, c', s')"
  obtains c2 where "f (csrs_clear_sstatus 2 c, s) = Some (r, c2, s')"
    "c' = (if interrupts_enabled c then csrs_set_sstatus 2 c2 else c2)"
  using assms that by (auto simp: without_interrupts_def Let_def and_two split: bind_splits)

lemma without_interrupts_balanced:
  assumes "balanced f"
  shows "balanced (without_interrupts f)"
  unfolding balanced_def
proof (intro allI impI)
  fix c s r c' s'
  assume w: "without_interrupts f (c, s) = Some (r, c', s')"
  then obtain c2 where c2: "f (csrs_clear_sstatus 2 c, s) = Some (r, c2, s')"
    "c' = (if interrupts_enabled c then csrs_set_sstatus 2 c2 else c2)" by (rule without_interrupts_Some)
  have "csr_sstatus c2 = csr_sstatus c AND NOT 2"
    using assms c2(1) unfolding balanced_def by (fastforce simp: csrs_clear_sstatus_def)
  then show "csr_sstatus c' = csr_sstatus c"
    using c2(2) set_clear_sstatus clear_sstatus by (auto simp: csrs_set_sstatus_def)
qed

section \<open>Register lemmas\<close>

lemma interrupt_bit: "is_interrupt s \<longleftrightarrow> bit s 63"
  by (simp add: is_interrupt_def and_push)

lemma satp_fields:
  assumes "root < 2 ^ 56"
  shows "drop_bit 60 (satp_new mode a root) = satp_mode_val mode"
    and "take_bit 16 (drop_bit 44 (satp_new mode a root)) = usize_from_asid a"
    and "take_bit 44 (satp_new mode a root) = drop_bit 12 (of_nat root)"
proof -
  define p where "p = drop_bit 12 (of_nat root :: u64)"
  have m: "\<not> bit (satp_mode_val mode) n" if "4 \<le> n" for n
  proof -
    have "take_bit 4 (satp_mode_val mode) = satp_mode_val mode" by (cases mode) (simp_all add: satp_mode_val_def)
    then show ?thesis using that by (metis bit_take_bit_iff not_le)
  qed
  have a: "\<not> bit (usize_from_asid a) n" if "16 \<le> n" for n
    using that by (auto simp: usize_from_asid_def bit_simps dest: bit_imp_le_length)
  have "root = take_bit 56 root" using assms by (simp add: take_bit_nat_eq_self)
  then have r: "\<not> bit root n" if "56 \<le> n" for n using that by (metis bit_take_bit_iff not_le)
  then have p: "\<not> bit p n" if "44 \<le> n" for n using that by (simp add: p_def bit_simps)
  note bs = bit_drop_bit_eq bit_take_bit_iff bit_or_iff bit_push_bit_iff
  show "drop_bit 60 (satp_new mode a root) = satp_mode_val mode"
    unfolding satp_new_def p_def [symmetric]
    using m a p by (intro bit_eqI) (auto simp: bs not_le intro: ccontr)
  show "take_bit 16 (drop_bit 44 (satp_new mode a root)) = usize_from_asid a"
    unfolding satp_new_def p_def [symmetric]
    using m a p by (intro bit_eqI) (auto simp: bs not_le intro: ccontr)
  show "take_bit 44 (satp_new mode a root) = drop_bit 12 (of_nat root)"
    unfolding satp_new_def p_def [symmetric]
    using m a p by (intro bit_eqI) (auto simp: bs not_le intro: ccontr)
qed

lemma timer_cause: "reason_of s = SupervisorTimerInterrupt \<longleftrightarrow> s = 0x8000000000000005"
proof
  assume "reason_of s = SupervisorTimerInterrupt"
  then have i: "bit s 63" and "s AND 0x7FFFFFFFFFFFFFFF = 5"
    by (auto simp: reason_of_def Let_def interrupt_bit split: if_splits)
  then have t: "take_bit 63 s = 5" by (simp add: take_bit_eq_mask mask_eq_exp_minus_1)
  have "s = push_bit 63 (drop_bit 63 s) + take_bit 63 s" by (simp only: bits_ident)
  moreover have "drop_bit 63 s = 1" using i by (intro bit_eqI) (auto simp: bit_drop_bit_eq bit_1_iff dest: bit_imp_le_length)
  ultimately show "s = 0x8000000000000005" using t by (simp add: push_bit_eq_mult)
qed (simp add: reason_of_def is_interrupt_def push_bit_eq_mult)

lemma breakpoint_cause: "reason_of s = Breakpoint \<longleftrightarrow> s = 3"
proof
  assume "reason_of s = Breakpoint"
  then show "s = 3" by (auto simp: reason_of_def Let_def split: if_splits)
qed (simp add: reason_of_def is_interrupt_def push_bit_eq_mult)

lemma stvec_aligned: "take_bit 2 (stvec_new h) = 0" "take_bit 2 h = 0 \<Longrightarrow> stvec_new h = h"
proof -
  have "(3 :: u64) = mask 2" by (simp add: mask_eq_exp_minus_1)
  then have eq: "stvec_new h = h AND NOT (mask 2)" by (simp only: stvec_new_def)
  show "take_bit 2 (stvec_new h) = 0"
    unfolding eq by (rule bit_eqI) (simp add: bit_take_bit_iff bit_and_iff bit_not_iff bit_mask_iff)
  assume "take_bit 2 h = 0"
  then have "n < 2 \<Longrightarrow> \<not> bit h n" for n by (metis bit_take_bit_iff bit_0_eq bot_apply bot_bool_def)
  then show "stvec_new h = h"
    unfolding eq by (intro bit_eqI) (auto simp: bit_and_iff bit_not_iff bit_mask_iff)
qed

text \<open>A hart with interrupts enabled.\<close>

definition sample_csrs :: csrs where
  "sample_csrs = \<lparr>csr_satp = 0, csr_scause = 0, csr_stvec = 0, csr_sscratch = 0, csr_sepc = 0,
     csr_sstatus = 2, csr_sie = 0\<rparr>"

section \<open>Properties\<close>

text \<open>
  \<open>without_interrupts\<close> is a critical section. The closure runs with supervisor interrupts disabled
  and everything else as it was; when it leaves the status register alone, the caller's status is
  restored exactly, whether interrupts were enabled or not, and the closure's result and other effects
  are kept. The section leaves the status register alone itself, so sections nest.
\<close>

theorem critical_section:
  assumes "balanced f"
  shows "\<not> interrupts_enabled (csrs_clear_sstatus 2 c) \<and>
    without_interrupts f (c, s) =
      (case f (csrs_clear_sstatus 2 c, s) of
         None \<Rightarrow> None
       | Some (r, c2, s2) \<Rightarrow> Some (r, c2\<lparr>csr_sstatus := csr_sstatus c\<rparr>, s2)) \<and>
    balanced (without_interrupts f)"
proof (intro conjI)
  show "\<not> interrupts_enabled (csrs_clear_sstatus 2 c)" by (rule clear_disables)
  show "balanced (without_interrupts f)" by (rule without_interrupts_balanced [OF assms])
  show "without_interrupts f (c, s) =
      (case f (csrs_clear_sstatus 2 c, s) of None \<Rightarrow> None
       | Some (r, c2, s2) \<Rightarrow> Some (r, c2\<lparr>csr_sstatus := csr_sstatus c\<rparr>, s2))"
  proof (cases "f (csrs_clear_sstatus 2 c, s)")
    case (Some x)
    obtain r c2 s2 where x: "x = (r, c2, s2)" by (cases x)
    then have "csr_sstatus c2 = csr_sstatus c AND NOT 2"
      using assms Some unfolding balanced_def by (fastforce simp: csrs_clear_sstatus_def)
    then show ?thesis
      using Some x set_clear_sstatus [of "csr_sstatus c"] clear_sstatus [of "csr_sstatus c"]
      by (cases "bit (csr_sstatus c) 1") (simp_all add: without_interrupts_def and_two csrs_set_sstatus_def)
  qed (simp add: without_interrupts_def)
qed

text \<open>A section inside a section, entered with interrupts enabled.\<close>

theorem critical_section_witness:
  "without_interrupts (without_interrupts (\<lambda>(c, n). Some (csr_sstatus c, c, n + 1)))
     (\<lparr>csr_satp = 0, csr_scause = 0, csr_stvec = 0, csr_sscratch = 0, csr_sepc = 0, csr_sstatus = 6, csr_sie = 0\<rparr>, 0 :: nat)
   = Some (4, \<lparr>csr_satp = 0, csr_scause = 0, csr_stvec = 0, csr_sscratch = 0, csr_sepc = 0, csr_sstatus = 6, csr_sie = 0\<rparr>, 1)"
proof -
  have "balanced (\<lambda>(c, n :: nat). Some (csr_sstatus c, c, n + 1))" by (simp add: balanced_def)
  then have b: "balanced (without_interrupts (\<lambda>(c, n :: nat). Some (csr_sstatus c, c, n + 1)))"
    by (rule without_interrupts_balanced)
  show ?thesis
    using critical_section [OF b]
    by (simp add: without_interrupts_def csrs_clear_sstatus_def csrs_set_sstatus_def)
qed

text \<open>
  \<open>Satp::new\<close> packs the three fields of the register without overlap: for a page-aligned root table
  below \<open>2 ^ 56\<close> the hardware reads back the mode, the address-space identifier and, from the page
  number, the address of the table. \<open>Scause::reason\<close> names the timer interrupt and the breakpoint for
  exactly one register value each, and \<open>Stvec::new\<close> gives a direct-mode (low bits clear) vector that is
  the handler's address when that is four-byte aligned.
\<close>

theorem register_encodings:
  "(root < 2 ^ 56 \<and> 4096 dvd root \<longrightarrow>
     drop_bit 60 (satp_new mode a root) = satp_mode_val mode \<and>
     ucast (take_bit 16 (drop_bit 44 (satp_new mode a root))) = asid_as_u16 a \<and>
     unat (take_bit 44 (satp_new mode a root)) * 4096 = root) \<and>
   (reason_of s = SupervisorTimerInterrupt \<longleftrightarrow> s = 0x8000000000000005) \<and>
   (reason_of s = Breakpoint \<longleftrightarrow> s = 3) \<and>
   take_bit 2 (stvec_new h) = 0 \<and> (take_bit 2 h = 0 \<longrightarrow> stvec_new h = h)"
proof (intro conjI impI)
  assume r: "root < 2 ^ 56 \<and> 4096 dvd root"
  note f = satp_fields [OF r [THEN conjunct1], of mode a]
  show "drop_bit 60 (satp_new mode a root) = satp_mode_val mode" by (rule f(1))
  show "ucast (take_bit 16 (drop_bit 44 (satp_new mode a root))) = asid_as_u16 a"
    unfolding f(2) by (rule bit_eqI) (auto simp: usize_from_asid_def asid_as_u16_def bit_simps)
  have "unat (drop_bit 12 (of_nat root :: u64)) = root div 4096"
    using r by (simp only: unat_drop_bit_eq) (simp add: unat_of_nat drop_bit_eq_div)
  then show "unat (take_bit 44 (satp_new mode a root)) * 4096 = root" unfolding f(3) using r by simp
qed (use timer_cause breakpoint_cause stvec_aligned in blast)+

theorem register_encodings_witness:
  "unat (take_bit 44 (satp_new Sv39 asid_KERNEL 0x80200000)) * 4096 = 0x80200000 \<and>
   drop_bit 60 (satp_new Sv39 asid_KERNEL 0x80200000) = 8 \<and> stvec_new 0x80200100 = 0x80200100"
  using register_encodings [of "0x80200000" Sv39 asid_KERNEL 3 "0x80200100"]
  by (simp add: satp_mode_val_def take_bit_eq_mod)

end
