(* ===== verification/Kernel_Paging.thy ===== *)
theory Kernel_Paging
  imports Virtual_Memory Riscv
begin

text \<open>
  The kernel's own page table (\<open>src/page_table.rs\<close>): the identity map of the kernel image, of every
  frame the page-frame allocator manages, of the FDT and of the MMIO windows, the second mapping of the
  image in the upper half, and the switch to it. \<open>root\<close> is the address of \<open>KERNEL_PAGE_TABLE\<close>.
\<close>

section \<open>Model\<close>

type_synonym paging = "table_mem \<times> page_frame_allocator option"

definition new_identity_map :: "usize \<Rightarrow> usize \<Rightarrow> paging \<Rightarrow> paging panics" where
  "new_identity_map root phys ms = map_page unwrap_frame root phys phys (READ OR WRITE) ms"

definition UPPER_HALF_OFFSET :: usize where
  "UPPER_HALF_OFFSET = 0xFFFFFFFF00000000"

text \<open>\<open>(start..end).step_by(PAGE_SIZE)\<close>\<close>

definition step_pages :: "usize \<Rightarrow> usize \<Rightarrow> usize list" where
  "step_pages start e = map (\<lambda>i. start + i * PAGE_SIZE) [0..<div_ceil (e - start) PAGE_SIZE]"

fun map_kernel :: "usize \<Rightarrow> usize list \<Rightarrow> paging \<Rightarrow> paging panics" where
  "map_kernel root [] ms = Some ms"
| "map_kernel root (pg # pages) ms = do {
     let flags = READ OR WRITE OR EXECUTE;
     ms \<leftarrow> map_page unwrap_frame root pg pg flags ms;
     upper \<leftarrow> add_usize UPPER_HALF_OFFSET pg;
     ms \<leftarrow> map_page unwrap_frame root upper pg flags ms;
     map_kernel root pages ms
   }"

fun id_map_pages :: "usize \<Rightarrow> u64 \<Rightarrow> usize list \<Rightarrow> paging \<Rightarrow> paging panics" where
  "id_map_pages root flags [] ms = Some ms"
| "id_map_pages root flags (pg # pages) ms = do {
     ms \<leftarrow> map_page unwrap_frame root pg pg flags ms;
     id_map_pages root flags pages ms
   }"

definition id_map_region :: "usize \<Rightarrow> phys_range \<Rightarrow> u64 \<Rightarrow> paging \<Rightarrow> paging panics" where
  "id_map_region root r flags ms = id_map_pages root flags (step_pages (pr_start r) (pr_end r)) ms"

fun id_map_regions :: "usize \<Rightarrow> u64 \<Rightarrow> phys_range list \<Rightarrow> paging \<Rightarrow> paging panics" where
  "id_map_regions root flags [] ms = Some ms"
| "id_map_regions root flags (r # rs) ms = do {
     ms \<leftarrow> id_map_region root r flags ms;
     id_map_regions root flags rs ms
   }"

definition page_table_init ::
  "system_info option \<Rightarrow> kernel_layout \<Rightarrow> usize \<Rightarrow> csrs \<times> paging \<Rightarrow> (csrs \<times> paging) panics" where
  "page_table_init sysinfo layout root = (\<lambda>(c, ms). do {
     ms \<leftarrow> map_kernel root (step_pages (kernel_start layout) (kernel_end layout)) ms;
     ranges \<leftarrow> managed_ranges (snd ms);
     ms \<leftarrow> id_map_regions root (READ OR WRITE) ranges ms;
     fdt \<leftarrow> fdt_range sysinfo;
     fdt' \<leftarrow> (case covering_pages fdt of Inl _ \<Rightarrow> None | Inr r \<Rightarrow> Some r);
     ms \<leftarrow> id_map_region root fdt' READ ms;
     mmio \<leftarrow> system_mmio_regions sysinfo;
     ms \<leftarrow> id_map_regions root (READ OR WRITE) mmio ms;
     let satp = satp_new Sv39 asid_KERNEL root;
     Some (write_satp_and_flush_tlb satp c, ms)
   })"

section \<open>The loops as one sequence of mappings\<close>

lemma step_pages_set: "set (step_pages s e) = {s + i * 4096 |i. s + i * 4096 < e}"
  by (auto simp: step_pages_def div_ceil_less_iff PAGE_SIZE_def)

lemma step_pages_distinct: "distinct (step_pages s e)"
  by (simp add: step_pages_def distinct_map PAGE_SIZE_def inj_on_def)

type_synonym map_request = "usize \<times> usize \<times> u64"

definition kernel_requests :: "usize list \<Rightarrow> map_request list" where
  "kernel_requests pages = concat (map (\<lambda>pg. [(pg, pg, READ OR WRITE OR EXECUTE),
     (UPPER_HALF_OFFSET + pg, pg, READ OR WRITE OR EXECUTE)]) pages)"

definition region_requests :: "u64 \<Rightarrow> phys_range \<Rightarrow> map_request list" where
  "region_requests flags r = map (\<lambda>pg. (pg, pg, flags)) (step_pages (pr_start r) (pr_end r))"

definition boot_requests :: "kernel_layout \<Rightarrow> phys_range list \<Rightarrow> phys_range \<Rightarrow> phys_range list \<Rightarrow> map_request list" where
  "boot_requests layout managed fdt mmio =
     kernel_requests (step_pages (kernel_start layout) (kernel_end layout)) @
     concat (map (region_requests (READ OR WRITE)) managed) @
     region_requests READ fdt @ concat (map (region_requests (READ OR WRITE)) mmio)"

lemma map_pages_append:
  "map_pages alloc r (xs @ ys) ms = (case map_pages alloc r xs ms of None \<Rightarrow> None | Some ms' \<Rightarrow> map_pages alloc r ys ms')"
  by (induction alloc r xs ms rule: map_pages.induct) (auto split: bind_splits option.splits)

lemma map_kernel_eq:
  assumes "\<forall>pg \<in> set pages. UPPER_HALF_OFFSET + pg < usize_limit"
  shows "map_kernel root pages ms = map_pages unwrap_frame root (kernel_requests pages) ms"
  using assms
proof (induction pages arbitrary: ms)
  case (Cons pg pages)
  then show ?case
    by (auto simp: kernel_requests_def add_usize_def Let_def split: bind_splits)
qed (simp add: kernel_requests_def)

lemma id_map_pages_eq:
  "id_map_pages root flags pages ms = map_pages unwrap_frame root (map (\<lambda>pg. (pg, pg, flags)) pages) ms"
  by (induction pages arbitrary: ms) (auto split: bind_splits)

lemma id_map_regions_eq:
  "id_map_regions root flags rs ms = map_pages unwrap_frame root (concat (map (region_requests flags) rs)) ms"
  by (induction rs arbitrary: ms)
    (auto simp: id_map_region_def id_map_pages_eq region_requests_def map_pages_append split: bind_splits option.splits)

lemma bind_eq_case: "x \<bind> f = (case x of None \<Rightarrow> None | Some y \<Rightarrow> f y)"
  by (cases x) simp_all

text \<open>Whatever every allocation keeps, a sequence of mappings keeps.\<close>

lemma next_table_keeps:
  assumes "\<And>s a s'. P s \<Longrightarrow> alloc s = Some (a, s') \<Longrightarrow> P s'" and "P s"
    and "next_table alloc t i (m, s) = Some (t', m', s')"
  shows "P s'"
  using assms by (auto simp: next_table_def new_table_def Let_def split: bind_splits if_splits)

lemma map_pages_keeps:
  assumes "\<And>s a s'. P s \<Longrightarrow> alloc s = Some (a, s') \<Longrightarrow> P s'"
  shows "P s \<Longrightarrow> map_pages alloc r rs (m, s) = Some (m', s') \<Longrightarrow> P s'"
proof (induction rs arbitrary: m s)
  case (Cons x rs)
  obtain v ph fl where x: "x = (v, ph, fl)" by (cases x)
  from Cons.prems(2) obtain m1 s1 where 1: "map_page alloc r v ph fl (m, s) = Some (m1, s1)"
    and 2: "map_pages alloc r rs (m1, s1) = Some (m', s')" by (auto simp: x split: bind_splits)
  from 1 obtain t1 ma sa t2 mb where "next_table alloc r (vpn v L2) (m, s) = Some (t1, ma, sa)"
    "next_table alloc t1 (vpn v L1) (ma, sa) = Some (t2, mb, s1)"
    by (auto simp: map_page_def split: bind_splits if_splits)
  moreover have "P sa" using next_table_keeps [where P = P] assms Cons.prems(1) calculation(1) by metis
  ultimately have "P s1" using next_table_keeps [where P = P] assms by metis
  then show ?case using Cons.IH 2 by blast
qed simp

lemma unwrap_frame_ranges:
  assumes "frames_ok g \<and> managed_ranges g = Some R" and "unwrap_frame g = Some (a, g')"
  shows "frames_ok g' \<and> managed_ranges g' = Some R"
proof -
  from assms obtain p where p: "g = Some p" "pfa_ok p" "pfa_ranges p = R"
    by (cases g) (auto simp: frames_ok_def managed_ranges_def)
  show ?thesis
    using pfa_alloc_spec [OF p(2)] assms p by (auto simp: unwrap_frame_def alloc_frame_def managed_ranges_def frames_ok_def)
qed

lemma managed_ranges_keep:
  assumes "frames_ok g" and "managed_ranges g = Some R" and "map_pages unwrap_frame r rs (m, g) = Some (m', g')"
  shows "managed_ranges g' = Some R"
proof -
  have "frames_ok g' \<and> managed_ranges g' = Some R"
    by (rule map_pages_keeps [where P = "\<lambda>g. frames_ok g \<and> managed_ranges g = Some R", OF _ _ assms(3)])
      (use unwrap_frame_ranges assms(1,2) in blast)+
  then show ?thesis ..
qed

lemma page_table_init_eq:
  assumes "frames_ok (Some p)" and "kernel_end layout \<le> 2 ^ 32"
    and "covering_pages (si_fdt_range info) = Inr fdt"
  shows "page_table_init (Some info) layout root (c, m, Some p) =
    (case map_pages unwrap_frame root (boot_requests layout (pfa_ranges p) fdt (si_mmio_regions info)) (m, Some p) of
       None \<Rightarrow> None | Some ms \<Rightarrow> Some (c\<lparr>csr_satp := satp_new Sv39 asid_KERNEL root\<rparr>, ms))"
proof -
  have k: "map_kernel root (step_pages (kernel_start layout) (kernel_end layout)) ms =
      map_pages unwrap_frame root (kernel_requests (step_pages (kernel_start layout) (kernel_end layout))) ms" for ms
    using assms(2) by (intro map_kernel_eq) (auto simp: step_pages_set UPPER_HALF_OFFSET_def)
  show ?thesis
  proof (cases "map_pages unwrap_frame root (kernel_requests (step_pages (kernel_start layout) (kernel_end layout))) (m, Some p)")
    case None
    then show ?thesis by (simp add: page_table_init_def k boot_requests_def map_pages_append)
  next
    case (Some ms)
    have "managed_ranges (Some p) = Some (pfa_ranges p)" by (simp add: managed_ranges_def)
    from managed_ranges_keep [OF assms(1) this, of root _ m "fst ms" "snd ms"] Some
    have "managed_ranges (snd ms) = Some (pfa_ranges p)" by simp
    then show ?thesis using Some assms(3)
      by (simp add: page_table_init_def k id_map_regions_eq id_map_region_def id_map_pages_eq boot_requests_def
          map_pages_append region_requests_def fdt_range_def system_mmio_regions_def write_satp_and_flush_tlb_def
          bind_eq_case split: option.split)
  qed
qed

section \<open>What the finished table maps\<close>

text \<open>
  The addresses fit: the image lies page-aligned in the lower four gigabytes, whole pages of RAM, FDT
  and MMIO below \<open>2 ^ 38\<close>.
\<close>

definition boot_map_ok :: "kernel_layout \<Rightarrow> phys_range list \<Rightarrow> bool" where
  "boot_map_ok layout rs \<longleftrightarrow> 4096 dvd kernel_start layout \<and> kernel_end layout \<le> 2 ^ 32 \<and>
     (\<forall>r \<in> set rs. 4096 dvd pr_start r \<and> pr_end r \<le> 2 ^ 38)"

definition request_ok_map :: "map_request \<Rightarrow> bool" where
  "request_ok_map = (\<lambda>(v, ph, fl). sv39_canonical v \<and> 4096 dvd ph \<and> ph < 2 ^ 56 \<and> flags_ok fl \<and> bit fl 1)"

definition request_page :: "map_request \<Rightarrow> nat" where
  "request_page x = fst x div 4096"

lemma flags_R: "flags_ok READ" "bit READ 1" and flags_RWX: "flags_ok (READ OR WRITE OR EXECUTE)" "bit (READ OR WRITE OR EXECUTE) 1"
  by (auto simp: flags_ok_def bit_take_bit_iff bit_or_iff intro!: bit_eqI)

lemma region_requests_ok:
  assumes "4096 dvd pr_start r" and "pr_end r \<le> 2 ^ 38" and "flags_ok fl" and "bit fl 1"
  shows "\<forall>x \<in> set (region_requests fl r). request_ok_map x"
  using assms by (auto simp: region_requests_def request_ok_map_def step_pages_set sv39_canonical_def)

lemma kernel_requests_ok:
  assumes "4096 dvd kernel_start layout" and "kernel_end layout \<le> 2 ^ 32"
  shows "\<forall>x \<in> set (kernel_requests (step_pages (kernel_start layout) (kernel_end layout))). request_ok_map x"
  using assms flags_RWX
  by (auto simp: kernel_requests_def request_ok_map_def step_pages_set sv39_canonical_def UPPER_HALF_OFFSET_def)

lemma boot_requests_ok:
  assumes "boot_map_ok layout (managed @ [fdt] @ mmio)"
  shows "\<forall>x \<in> set (boot_requests layout managed fdt mmio). request_ok_map x"
proof -
  have k: "4096 dvd kernel_start layout" "kernel_end layout \<le> 2 ^ 32"
    and r: "4096 dvd pr_start r" "pr_end r \<le> 2 ^ 38" if "r \<in> set (managed @ [fdt] @ mmio)" for r
    using assms that unfolding boot_map_ok_def by blast+
  have rw: "\<forall>x \<in> set (region_requests (READ OR WRITE) r). request_ok_map x" if "r \<in> set (managed @ [fdt] @ mmio)" for r
    using region_requests_ok [OF r [OF that] flags_RW] .
  have "\<forall>x \<in> set (region_requests READ fdt). request_ok_map x"
    using region_requests_ok [OF r [of fdt] flags_R] by simp
  moreover have "\<forall>x \<in> set (kernel_requests (step_pages (kernel_start layout) (kernel_end layout))). request_ok_map x"
    using kernel_requests_ok k [of fdt] by simp
  ultimately show ?thesis unfolding boot_requests_def using rw by fastforce
qed

lemma distinct_map_iff:
  assumes "\<And>x y. x \<in> set xs \<Longrightarrow> y \<in> set xs \<Longrightarrow> f x = f y \<longleftrightarrow> g x = g y"
  shows "distinct (map f xs) \<longleftrightarrow> distinct (map g xs)"
  using assms by (auto simp: distinct_map inj_on_def)

lemma request_index:
  assumes "request_ok_map x" and "request_ok_map y"
  shows "fst (leaf_of x) = fst (leaf_of y) \<longleftrightarrow> request_page x = request_page y"
  using assms page_index_canonical [of "fst x" "fst y"]
  by (cases x; cases y) (simp add: request_ok_map_def request_page_def)

lemma canonical_same_page: "sv39_canonical v \<Longrightarrow> w div 4096 = v div 4096 \<Longrightarrow> sv39_canonical w"
proof -
  assume v: "sv39_canonical v" and eq: "w div 4096 = v div 4096"
  have "w < 2 ^ 38 \<longleftrightarrow> w div 4096 < 2 ^ 26" "v < 2 ^ 38 \<longleftrightarrow> v div 4096 < 2 ^ 26"
    "w < 2 ^ 64 \<longleftrightarrow> w div 4096 < 2 ^ 52" "v < 2 ^ 64 \<longleftrightarrow> v div 4096 < 2 ^ 52"
    "2 ^ 64 - 2 ^ 38 \<le> w \<longleftrightarrow> 2 ^ 52 - 2 ^ 26 \<le> w div 4096" "2 ^ 64 - 2 ^ 38 \<le> v \<longleftrightarrow> 2 ^ 52 - 2 ^ 26 \<le> v div 4096"
    by (simp_all add: div_less_iff_less_mult less_eq_div_iff_mult_less_eq)
  then show ?thesis using v eq unfolding sv39_canonical_def by presburger
qed

text \<open>A table whose leaves are those of a list of requests translates exactly the requested pages.\<close>

lemma translate_requests:
  assumes ok: "pt_ok m r" and l: "pt_leaf m r = map_of (map leaf_of rs)" and d: "distinct (map (fst \<circ> leaf_of) rs)"
    and rq: "\<forall>x \<in> set rs. request_ok_map x"
  shows "(v, ph, fl) \<in> set rs \<Longrightarrow> w div 4096 = v div 4096 \<Longrightarrow> translate m r w = Some (ph + w mod 4096, pte_new_leaf ph fl)"
    and "w div 4096 \<notin> request_page ` set rs \<Longrightarrow> translate m r w = None"
proof -
  assume x: "(v, ph, fl) \<in> set rs" and w: "w div 4096 = v div 4096"
  then have q: "sv39_canonical v" "4096 dvd ph" "ph < 2 ^ 56" "flags_ok fl" "bit fl 1"
    using rq by (auto simp: request_ok_map_def)
  have cw: "sv39_canonical w" using canonical_same_page [OF q(1) w] .
  have "page_index w = page_index v" using page_index_canonical [OF cw q(1)] w by simp
  moreover have "map_of (map leaf_of rs) (page_index v) = Some (pte_new_leaf ph fl)"
    using x d by (intro map_of_is_SomeI) (force simp: comp_def)+
  ultimately show "translate m r w = Some (ph + w mod 4096, pte_new_leaf ph fl)"
    using translate_new_leaf [OF q(2-5)] by (simp add: translate_pt_leaf [OF ok cw] l)
next
  assume n: "w div 4096 \<notin> request_page ` set rs"
  show "translate m r w = None"
  proof (cases "sv39_canonical w")
    case True
    have "page_index w \<noteq> fst (leaf_of x)" if "x \<in> set rs" for x
    proof -
      obtain v ph fl where x: "x = (v, ph, fl)" by (cases x)
      then have "sv39_canonical v" using rq that by (auto simp: request_ok_map_def)
      then show ?thesis using page_index_canonical [OF True, of v] n that x by (force simp: request_page_def)
    qed
    then have "map_of (map leaf_of rs) (page_index w) = None" by (force simp: map_of_eq_None_iff)
    then show ?thesis by (simp add: translate_pt_leaf [OF ok True] l)
  qed (simp add: translate_def)
qed

lemma map_pages_fresh:
  assumes st: "paging_ok root m g" and m: "m root = page_table_new" and rq: "\<forall>x \<in> set rs. request_ok_map x"
  shows "map_pages unwrap_frame root rs (m, g) \<noteq> None \<longleftrightarrow>
      distinct (map request_page rs) \<and> card (\<Union>x \<in> set rs. page_paths (fst x)) \<le> card (frames_free g)"
    and "map_pages unwrap_frame root rs (m, g) = Some (m', g') \<Longrightarrow> paging_ok root m' g' \<and>
      pt_leaf m' root = map_of (map leaf_of rs) \<and> distinct (map (fst \<circ> leaf_of) rs) \<and>
      frames_free g' = frames_free g - tables m' root"
proof -
  have st': "kernel_frames.pt_state root m g" using st by (simp add: paging_state)
  have e: "pt_leaf m root = Map.empty" by (rule empty_tables(3) [of m, OF m])
  have p: "paths m root = {}" by (rule empty_tables(4) [of m, OF m])
  have d: "distinct (map (fst \<circ> leaf_of) rs) \<longleftrightarrow> distinct (map request_page rs)"
    using request_index rq by (intro distinct_map_iff) auto
  show some: "paging_ok root m' g' \<and> pt_leaf m' root = map_of (map leaf_of rs) \<and> distinct (map (fst \<circ> leaf_of) rs) \<and>
      frames_free g' = frames_free g - tables m' root"
    if "map_pages unwrap_frame root rs (m, g) = Some (m', g')" for m' g'
    using kernel_frames.map_pages_spec [OF st' that] e by (simp add: kernel_frames.grows_def paging_state)
  show "map_pages unwrap_frame root rs (m, g) \<noteq> None \<longleftrightarrow>
      distinct (map request_page rs) \<and> card (\<Union>x \<in> set rs. page_paths (fst x)) \<le> card (frames_free g)"
  proof
    assume "map_pages unwrap_frame root rs (m, g) \<noteq> None"
    then obtain m' g' where r: "map_pages unwrap_frame root rs (m, g) = Some (m', g')" by auto
    from kernel_frames.map_pages_spec [OF st' r] kernel_frames.grows_card [OF _ st']
    have "card (\<Union>x \<in> set rs. page_paths (fst x)) \<le> card (frames_free g)" by (fastforce simp: p)
    then show "distinct (map request_page rs) \<and> card (\<Union>x \<in> set rs. page_paths (fst x)) \<le> card (frames_free g)"
      using some [OF r] d by simp
  next
    assume "distinct (map request_page rs) \<and> card (\<Union>x \<in> set rs. page_paths (fst x)) \<le> card (frames_free g)"
    then show "map_pages unwrap_frame root rs (m, g) \<noteq> None"
      using kernel_frames.map_pages_progress [OF st', of rs] d by (auto simp: e p)
  qed
qed

lemma page_table_init_spec:
  assumes "frames_ok (Some p)" and "m root = page_table_new" and "root \<notin> frames_free (Some p)"
    and "covering_pages (si_fdt_range info) = Inr fdt"
    and "boot_map_ok layout (pfa_ranges p @ [fdt] @ si_mmio_regions info)"
    and "rs = boot_requests layout (pfa_ranges p) fdt (si_mmio_regions info)"
  shows "(page_table_init (Some info) layout root (c, m, Some p) \<noteq> None \<longleftrightarrow>
      distinct (map request_page rs) \<and> card (\<Union>x \<in> set rs. page_paths (fst x)) \<le> card (frames_free (Some p))) \<and>
    (\<forall>c' m' g'. page_table_init (Some info) layout root (c, m, Some p) = Some (c', m', g') \<longrightarrow>
      paging_ok root m' g' \<and>
      (\<forall>v ph fl w. (v, ph, fl) \<in> set rs \<and> w div 4096 = v div 4096 \<longrightarrow>
         translate m' root w = Some (ph + w mod 4096, pte_new_leaf ph fl)) \<and>
      (\<forall>w. w div 4096 \<notin> request_page ` set rs \<longrightarrow> translate m' root w = None) \<and>
      csr_satp c' = satp_new Sv39 asid_KERNEL root)"
proof -
  have ok: "paging_ok root m (Some p)"
    using assms(1-3) empty_tables [of m root] by (simp add: paging_ok_def)
  have k: "kernel_end layout \<le> 2 ^ 32" using assms(5) by (simp add: boot_map_ok_def)
  have rq: "\<forall>x \<in> set rs. request_ok_map x" using boot_requests_ok [of layout "pfa_ranges p" fdt] assms(5,6) by simp
  note eq = page_table_init_eq [OF assms(1) k assms(4), of root c m, folded assms(6)]
  note fresh = map_pages_fresh [OF ok assms(2) rq]
  show ?thesis
  proof (intro conjI allI impI)
    show "page_table_init (Some info) layout root (c, m, Some p) \<noteq> None \<longleftrightarrow>
      distinct (map request_page rs) \<and> card (\<Union>x \<in> set rs. page_paths (fst x)) \<le> card (frames_free (Some p))"
      using fresh(1) by (cases "map_pages unwrap_frame root rs (m, Some p)") (simp_all add: eq)
    fix c' m' g' assume "page_table_init (Some info) layout root (c, m, Some p) = Some (c', m', g')"
    then have r: "map_pages unwrap_frame root rs (m, Some p) = Some (m', g')"
      and c: "csr_satp c' = satp_new Sv39 asid_KERNEL root" by (auto simp: eq split: option.splits)
    note f = fresh(2) [OF r]
    show "paging_ok root m' g'" using f by simp
    then have pt: "pt_ok m' root" by (simp add: paging_ok_def)
    note t = translate_requests [OF pt f [THEN conjunct2, THEN conjunct1] f [THEN conjunct2, THEN conjunct2, THEN conjunct1] rq]
    show "translate m' root w = Some (ph + w mod 4096, pte_new_leaf ph fl)"
      if "(v, ph, fl) \<in> set rs \<and> w div 4096 = v div 4096" for v ph fl w using t(1) that by blast
    show "translate m' root w = None" if "w div 4096 \<notin> request_page ` set rs" for w using t(2) that by blast
    show "csr_satp c' = satp_new Sv39 asid_KERNEL root" by (rule c)
  qed
qed

section \<open>Properties\<close>

text \<open>
  C32: \<open>page_table::init\<close>, run with an empty root table outside the free frames. It returns exactly when
  no page is asked for twice and the page-frame allocator has one frame for every lower-level table the
  map needs; otherwise it panics. Afterwards the hardware translates the kernel image (identically and
  in the upper half), the managed RAM, the FDT and the MMIO windows as the code requests them, faults on
  every other address, and \<open>satp\<close> selects the table.
\<close>

theorem page_table_init_exact:
  assumes "frames_ok (Some p)" and "m root = page_table_new" and "root \<notin> frames_free (Some p)"
    and "covering_pages (si_fdt_range info) = Inr fdt"
    and "boot_map_ok layout (pfa_ranges p @ [fdt] @ si_mmio_regions info)"
    and "rs = boot_requests layout (pfa_ranges p) fdt (si_mmio_regions info)"
  shows "(page_table_init (Some info) layout root (c, m, Some p) \<noteq> None \<longleftrightarrow>
      distinct (map request_page rs) \<and> card (\<Union>x \<in> set rs. page_paths (fst x)) \<le> card (frames_free (Some p))) \<and>
    (\<forall>c' m' g'. page_table_init (Some info) layout root (c, m, Some p) = Some (c', m', g') \<longrightarrow>
      paging_ok root m' g' \<and>
      (\<forall>v ph fl w. (v, ph, fl) \<in> set rs \<and> w div 4096 = v div 4096 \<longrightarrow>
         translate m' root w = Some (ph + w mod 4096, pte_new_leaf ph fl)) \<and>
      (\<forall>w. w div 4096 \<notin> request_page ` set rs \<longrightarrow> translate m' root w = None) \<and>
      csr_satp c' = satp_new Sv39 asid_KERNEL root)"
  by (rule page_table_init_spec) (fact assms)+

text \<open>The boot map of the small machine: nineteen pages, six lower-level tables.\<close>

definition sample_requests :: "map_request list" where
  "sample_requests = boot_requests sample_layout (pfa_ranges sample_arenas)
     \<lparr>pr_start = 0x8000E000, pr_end = 0x8000F000\<rparr> (si_mmio_regions sample_info)"

lemma sample_requests_pages:
  "map fst sample_requests = [0x80000000, 0xFFFFFFFF80000000, 0x80001000, 0xFFFFFFFF80001000,
     0x80002000, 0x80003000, 0x80004000, 0x80005000, 0x80006000, 0x80007000,
     0x80009000, 0x8000A000, 0x8000B000, 0x8000C000, 0x8000D000, 0x8000F000, 0x8000E000, 0x10000000, 0x10001000]"
  by (simp add: sample_requests_def boot_requests_def kernel_requests_def region_requests_def step_pages_def
      sample_layout_def sample_arenas_def pfa_ranges_def sample_info_def PAGE_SIZE_def div_ceil_def
      UPPER_HALF_OFFSET_def upt_rec)

lemma sample_request_paths: "card (\<Union>x \<in> set sample_requests. page_paths (fst x)) \<le> 6"
proof -
  have "(\<Union>x \<in> set sample_requests. page_paths (fst x)) = (\<Union>v \<in> set (map fst sample_requests). page_paths v)" by simp
  also have "\<dots> \<subseteq> {[2], [2, 0], [510], [510, 0], [0], [0, 128]}"
    unfolding sample_requests_pages by (simp add: page_paths_def vpn_simps)
  finally have "card (\<Union>x \<in> set sample_requests. page_paths (fst x)) \<le> card {[2::nat], [2, 0], [510], [510, 0], [0], [0, 128]}"
    by (intro card_mono) simp_all
  then show ?thesis by simp
qed

lemma sample_frames_six: "6 \<le> card (frames_free (Some sample_arenas))"
proof -
  have ok: "pfa_ok sample_arenas" using sample_frames(2) by (simp add: frames_ok_def)
  have "{0x80002000, 0x80003000, 0x80004000, 0x80005000, 0x80006000, 0x80007000} \<subseteq> pfa_frames sample_arenas"
    using pfa_frames_iff [OF ok]
    by (auto simp: pfa_ranges_def sample_arenas_def ranges_addrs_def pr_addrs_def PAGE_SIZE_def)
  from card_mono [OF finite_subset [OF sample_frames(4)] this] show ?thesis by (simp add: sample_frames(1))
qed

lemma sample_boot_map:
  "covering_pages (si_fdt_range sample_info) = Inr \<lparr>pr_start = 0x8000E000, pr_end = 0x8000F000\<rparr>"
  "boot_map_ok sample_layout
     (pfa_ranges sample_arenas @ [\<lparr>pr_start = 0x8000E000, pr_end = 0x8000F000\<rparr>] @ si_mmio_regions sample_info)"
  "0x80000000 \<notin> frames_free (Some sample_arenas)" "sample_tables 0x80000000 = page_table_new"
  "\<exists>c' m' g'. page_table_init (Some sample_info) sample_layout 0x80000000 (sample_csrs, sample_tables, Some sample_arenas) =
     Some (c', m', g')"
proof -
  show f: "covering_pages (si_fdt_range sample_info) = Inr \<lparr>pr_start = 0x8000E000, pr_end = 0x8000F000\<rparr>"
    by (simp add: sample_info_def covering_pages_def pr_align_down_def pr_align_up_def not_usize_def usize_defs PAGE_SIZE_def)
  show b: "boot_map_ok sample_layout
     (pfa_ranges sample_arenas @ [\<lparr>pr_start = 0x8000E000, pr_end = 0x8000F000\<rparr>] @ si_mmio_regions sample_info)"
    by (simp add: boot_map_ok_def sample_layout_def pfa_ranges_def sample_arenas_def sample_info_def)
  show "0x80000000 \<notin> frames_free (Some sample_arenas)" using sample_frames(1,4) by auto
  show t: "sample_tables 0x80000000 = page_table_new" by (simp add: sample_tables_def)
  have "map request_page sample_requests = map (\<lambda>v. v div 4096) (map fst sample_requests)"
    by (simp add: request_page_def)
  then have d: "distinct (map request_page sample_requests)" unfolding sample_requests_pages by simp
  have rq: "\<forall>x \<in> set sample_requests. request_ok_map x" using boot_requests_ok [OF b] by (simp add: sample_requests_def)
  have k: "kernel_end sample_layout \<le> 2 ^ 32" by (simp add: sample_layout_def)
  from map_pages_fresh(1) [OF sample_paging t rq] d sample_request_paths sample_frames_six obtain m' g' where
    "map_pages unwrap_frame 0x80000000 sample_requests (sample_tables, Some sample_arenas) = Some (m', g')" by fastforce
  then show "\<exists>c' m' g'. page_table_init (Some sample_info) sample_layout 0x80000000 (sample_csrs, sample_tables, Some sample_arenas) =
      Some (c', m', g')"
    using page_table_init_eq [OF sample_frames(2) k f] by (simp add: sample_requests_def)
qed

lemma div_4096_sample: "0xFFFFFFFF80001010 div 4096 = (0xFFFFFFFF80001000 div 4096 :: nat)"
  by simp

theorem page_table_init_exact_witness:
  "\<exists>c' m' g'. page_table_init (Some sample_info) sample_layout 0x80000000 (sample_csrs, sample_tables, Some sample_arenas) = Some (c', m', g') \<and>
     translate m' 0x80000000 0xFFFFFFFF80001010 = Some (0x80001010, pte_new_leaf 0x80001000 (READ OR WRITE OR EXECUTE))"
proof -
  note ex = page_table_init_exact [where m = sample_tables and root = "0x80000000" and c = sample_csrs,
      OF sample_frames(2) sample_boot_map(4,3,1,2) sample_requests_def]
  from sample_boot_map(5) obtain c' m' g' where
    i: "page_table_init (Some sample_info) sample_layout 0x80000000 (sample_csrs, sample_tables, Some sample_arenas) = Some (c', m', g')"
    by blast
  have "(0xFFFFFFFF80001000, 0x80001000, READ OR WRITE OR EXECUTE) \<in> set sample_requests"
    by (simp add: sample_requests_def boot_requests_def kernel_requests_def step_pages_def sample_layout_def
        PAGE_SIZE_def div_ceil_def UPPER_HALF_OFFSET_def upt_rec)
  then have "translate m' 0x80000000 0xFFFFFFFF80001010 = Some (0x80001000 + 0xFFFFFFFF80001010 mod 4096,
      pte_new_leaf 0x80001000 (READ OR WRITE OR EXECUTE))"
    using ex [THEN conjunct2, rule_format, OF i] by (metis (no_types, opaque_lifting) div_4096_sample)
  then show ?thesis using i by (intro exI [of _ c'] exI [of _ m'] exI [of _ g']) simp
qed

end
