(* ===== verification/Trap_Handler.thy ===== *)
theory Trap_Handler
  imports Riscv Device_Tree
begin

text \<open>
  Traps and time (\<open>src/trap_handler.rs\<close>, \<open>src/timer.rs\<close>): the entry and exit code of the naked
  \<open>trap_handler\<close> as a list of instructions of a register machine, the Rust handler it calls, and the
  set-up of the trap frame and vector. Memory is a function from the address of an 8-byte cell to
  its value, as in the frame accesses of the code; the registers that the compiled Rust handler
  leaves behind are a parameter, since the calling convention lets it clobber them.
\<close>

section \<open>The hart\<close>

datatype reg = RA | SP | GP | TP | T0 | T1 | T2 | S0 | S1 | A0 | A1 | A2 | A3 | A4 | A5 | A6 | A7 | S2 | S3 | S4 | S5 | S6 | S7 | S8 | S9 | S10 | S11 | T3 | T4 | T5 | T6

datatype csr = SEPC | SSCRATCH

datatype instr =
    Csrrw_swap reg csr
  | SD reg u64 reg
  | LD reg u64 reg
  | CSRR reg csr
  | CSRW csr reg

record machine =
  mc_regs :: "reg \<Rightarrow> u64"
  mc_csrs :: csrs
  mc_mem :: "u64 \<Rightarrow> u64"
  mc_pc :: u64
  mc_deadline :: u64

fun csr_read :: "csr \<Rightarrow> csrs \<Rightarrow> u64" where
  "csr_read SEPC c = csr_sepc c"
| "csr_read SSCRATCH c = csr_sscratch c"

fun csr_write :: "csr \<Rightarrow> u64 \<Rightarrow> csrs \<Rightarrow> csrs" where
  "csr_write SEPC v c = c\<lparr>csr_sepc := v\<rparr>"
| "csr_write SSCRATCH v c = c\<lparr>csr_sscratch := v\<rparr>"

fun exec :: "instr \<Rightarrow> machine \<Rightarrow> machine" where
  "exec (Csrrw_swap r x) s =
     s\<lparr>mc_regs := (mc_regs s)(r := csr_read x (mc_csrs s)), mc_csrs := csr_write x (mc_regs s r) (mc_csrs s)\<rparr>"
| "exec (SD r o' b) s = s\<lparr>mc_mem := (mc_mem s)(mc_regs s b + o' := mc_regs s r)\<rparr>"
| "exec (LD r o' b) s = s\<lparr>mc_regs := (mc_regs s)(r := mc_mem s (mc_regs s b + o'))\<rparr>"
| "exec (CSRR r x) s = s\<lparr>mc_regs := (mc_regs s)(r := csr_read x (mc_csrs s))\<rparr>"
| "exec (CSRW x r) s = s\<lparr>mc_csrs := csr_write x (mc_regs s r) (mc_csrs s)\<rparr>"

section \<open>Trap frames\<close>

record trap_frame =
  tf_kernel_sp :: u64
  tf_ra :: u64
  tf_sp :: u64
  tf_gp :: u64
  tf_tp :: u64
  tf_t0 :: u64
  tf_t1 :: u64
  tf_t2 :: u64
  tf_s0 :: u64
  tf_s1 :: u64
  tf_a0 :: u64
  tf_a1 :: u64
  tf_a2 :: u64
  tf_a3 :: u64
  tf_a4 :: u64
  tf_a5 :: u64
  tf_a6 :: u64
  tf_a7 :: u64
  tf_s2 :: u64
  tf_s3 :: u64
  tf_s4 :: u64
  tf_s5 :: u64
  tf_s6 :: u64
  tf_s7 :: u64
  tf_s8 :: u64
  tf_s9 :: u64
  tf_s10 :: u64
  tf_s11 :: u64
  tf_t3 :: u64
  tf_t4 :: u64
  tf_t5 :: u64
  tf_t6 :: u64
  tf_sepc :: u64

definition trap_frame_zero :: trap_frame where
  "trap_frame_zero = \<lparr>tf_kernel_sp = 0, tf_ra = 0, tf_sp = 0, tf_gp = 0, tf_tp = 0, tf_t0 = 0, tf_t1 = 0, tf_t2 = 0, tf_s0
     = 0, tf_s1 = 0, tf_a0 = 0, tf_a1 = 0, tf_a2 = 0, tf_a3 = 0, tf_a4 = 0, tf_a5 = 0, tf_a6 = 0, tf_a7 =
     0, tf_s2 = 0, tf_s3 = 0, tf_s4 = 0, tf_s5 = 0, tf_s6 = 0, tf_s7 = 0, tf_s8 = 0, tf_s9 = 0, tf_s10 =
     0, tf_s11 = 0, tf_t3 = 0, tf_t4 = 0, tf_t5 = 0, tf_t6 = 0, tf_sepc = 0\<rparr>"

text \<open>The frame at address \<open>f\<close>, with the field offsets of the \<open>repr(C)\<close> layout.\<close>

definition frame_at :: "(u64 \<Rightarrow> u64) \<Rightarrow> u64 \<Rightarrow> trap_frame" where
  "frame_at m f = \<lparr>tf_kernel_sp = m f, tf_ra = m (f + 8), tf_sp = m (f + 16), tf_gp = m (f + 24), tf_tp = m (f + 32),
     tf_t0 = m (f + 40), tf_t1 = m (f + 48), tf_t2 = m (f + 56), tf_s0 = m (f + 64), tf_s1 = m (f + 72),
     tf_a0 = m (f + 80), tf_a1 = m (f + 88), tf_a2 = m (f + 96), tf_a3 = m (f + 104), tf_a4 = m (f +
     112), tf_a5 = m (f + 120), tf_a6 = m (f + 128), tf_a7 = m (f + 136), tf_s2 = m (f + 144), tf_s3 = m
     (f + 152), tf_s4 = m (f + 160), tf_s5 = m (f + 168), tf_s6 = m (f + 176), tf_s7 = m (f + 184), tf_s8
     = m (f + 192), tf_s9 = m (f + 200), tf_s10 = m (f + 208), tf_s11 = m (f + 216), tf_t3 = m (f + 224),
     tf_t4 = m (f + 232), tf_t5 = m (f + 240), tf_t6 = m (f + 248), tf_sepc = m (f + 256)\<rparr>"

section \<open>Entry and exit\<close>

definition trap_save :: "instr list" where
  "trap_save = [
   Csrrw_swap A0 SSCRATCH, SD RA 8 A0, SD SP 16 A0, SD GP 24 A0, SD TP 32 A0, SD T0 40 A0,
   SD T1 48 A0, SD T2 56 A0, SD S0 64 A0, SD S1 72 A0, SD A1 88 A0, SD A2 96 A0,
   SD A3 104 A0, SD A4 112 A0, SD A5 120 A0, SD A6 128 A0, SD A7 136 A0, SD S2 144 A0,
   SD S3 152 A0, SD S4 160 A0, SD S5 168 A0, SD S6 176 A0, SD S7 184 A0, SD S8 192 A0,
   SD S9 200 A0, SD S10 208 A0, SD S11 216 A0, SD T3 224 A0, SD T4 232 A0, SD T5 240 A0,
   SD T6 248 A0, CSRR T0 SEPC, SD T0 256 A0, CSRR T0 SSCRATCH, SD T0 80 A0, CSRW SSCRATCH A0,
   LD SP 0 A0]"

definition trap_restore :: "instr list" where
  "trap_restore = [
   CSRR A0 SSCRATCH, LD T0 256 A0, CSRW SEPC T0, LD RA 8 A0, LD GP 24 A0, LD TP 32 A0,
   LD T0 40 A0, LD T1 48 A0, LD T2 56 A0, LD S0 64 A0, LD S1 72 A0, LD A1 88 A0,
   LD A2 96 A0, LD A3 104 A0, LD A4 112 A0, LD A5 120 A0, LD A6 128 A0, LD A7 136 A0,
   LD S2 144 A0, LD S3 152 A0, LD S4 160 A0, LD S5 168 A0, LD S6 176 A0, LD S7 184 A0,
   LD S8 192 A0, LD S9 200 A0, LD S10 208 A0, LD S11 216 A0, LD T3 224 A0, LD T4 232 A0,
   LD T5 240 A0, LD T6 248 A0, LD SP 16 A0, LD A0 80 A0]"

section \<open>Timer\<close>

text \<open>
  \<open>new_time\<close> asks the firmware for an interrupt \<open>secs\<close> seconds from the current value of the time
  counter; the deadline is what \<open>a0\<close> holds at the \<open>ecall\<close>, where the addition wraps.
\<close>

definition new_time :: "system_info option \<Rightarrow> u64 \<Rightarrow> usize \<Rightarrow> u64 panics" where
  "new_time sysinfo now secs = do {
     freq \<leftarrow> timer_frequency sysinfo;
     time \<leftarrow> mul_usize freq secs;
     Some (now + of_nat time)
   }"

text \<open>A division by zero panics.\<close>

definition uptime :: "system_info option \<Rightarrow> usize \<Rightarrow> usize panics" where
  "uptime sysinfo now = do {
     freq \<leftarrow> timer_frequency sysinfo;
     if freq = 0 then None else Some (now div freq)
   }"

definition uptime_ms :: "system_info option \<Rightarrow> usize \<Rightarrow> usize panics" where
  "uptime_ms sysinfo now = do {
     f \<leftarrow> timer_frequency sysinfo;
     let freq = f div 1000;
     if freq = 0 then None else Some (now div freq)
   }"

section \<open>The handler\<close>

text \<open>The two bytes at an even address, out of the cell that holds them.\<close>

definition halfword_at :: "(u64 \<Rightarrow> u64) \<Rightarrow> u64 \<Rightarrow> u16" where
  "halfword_at m a = ucast (drop_bit (8 * unat (a AND 7)) (m (a AND NOT 7)))"

definition ebreak_size :: "u16 \<Rightarrow> usize" where
  "ebreak_size first_halfword = push_bit (if first_halfword AND 3 = 3 then 1 else 0) 2"

definition trap_handler_rust :: "system_info option \<Rightarrow> u64 \<Rightarrow> u64 \<Rightarrow> machine \<Rightarrow> machine panics" where
  "trap_handler_rust sysinfo now frame s =
     (case reason_of (asm_scause (mc_csrs s)) of
        SupervisorTimerInterrupt \<Rightarrow> do {
          deadline \<leftarrow> new_time sysinfo now 1;
          Some (s\<lparr>mc_deadline := deadline\<rparr>)
        }
      | Breakpoint \<Rightarrow> do {
          let sepc = mc_mem s (frame + 256);
          let sz = ebreak_size (halfword_at (mc_mem s) sepc);
          sepc' \<leftarrow> add_usize (unat sepc) sz;
          Some (s\<lparr>mc_mem := (mc_mem s)(frame + 256 := of_nat sepc')\<rparr>)
        }
      | _ \<Rightarrow> Some s)"

text \<open>
  The whole trap, from the first instruction of the vector to \<open>sret\<close>; \<open>clobber\<close> is the register
  contents the handler returns with.
\<close>

definition trap_handler ::
  "((reg \<Rightarrow> u64) \<Rightarrow> reg \<Rightarrow> u64) \<Rightarrow> system_info option \<Rightarrow> u64 \<Rightarrow> machine \<Rightarrow> machine panics" where
  "trap_handler clobber sysinfo now s = do {
     let s1 = fold exec trap_save s;
     s2 \<leftarrow> trap_handler_rust sysinfo now (mc_regs s1 A0) s1;
     let s3 = s2\<lparr>mc_regs := clobber (mc_regs s2)\<rparr>;
     let s4 = fold exec trap_restore s3;
     Some (s4\<lparr>mc_pc := csr_sepc (mc_csrs s4)\<rparr>)
   }"

section \<open>Set-up\<close>

text \<open>\<open>INITIAL_TRAP_FRAME\<close> lies at \<open>frame_addr\<close>; \<open>entry\<close> is the address of the naked handler.\<close>

definition kernel_sp :: "u64 \<Rightarrow> machine \<Rightarrow> u64" where
  "kernel_sp frame_addr s = tf_kernel_sp (frame_at (mc_mem s) frame_addr)"

definition setup_trap_frame :: "u64 \<Rightarrow> u64 \<Rightarrow> machine \<Rightarrow> machine" where
  "setup_trap_frame frame_addr stack_top s =
     s\<lparr>mc_mem := (mc_mem s)(frame_addr := stack_top), mc_csrs := csr_write SSCRATCH frame_addr (mc_csrs s)\<rparr>"

definition setup_trap_handler :: "u64 \<Rightarrow> machine \<Rightarrow> machine" where
  "setup_trap_handler entry s = s\<lparr>mc_csrs := write_stvec (stvec_new entry) (mc_csrs s)\<rparr>"

definition trap_init :: "u64 \<Rightarrow> u64 \<Rightarrow> u64 \<Rightarrow> machine \<Rightarrow> machine" where
  "trap_init frame_addr entry stack_top s = setup_trap_handler entry (setup_trap_frame frame_addr stack_top s)"

section \<open>What entry saves and exit restores\<close>

text \<open>The offset of each register's field in the frame.\<close>

fun reg_offset :: "reg \<Rightarrow> u64" where
  "reg_offset RA = 8"
| "reg_offset SP = 16"
| "reg_offset GP = 24"
| "reg_offset TP = 32"
| "reg_offset T0 = 40"
| "reg_offset T1 = 48"
| "reg_offset T2 = 56"
| "reg_offset S0 = 64"
| "reg_offset S1 = 72"
| "reg_offset A0 = 80"
| "reg_offset A1 = 88"
| "reg_offset A2 = 96"
| "reg_offset A3 = 104"
| "reg_offset A4 = 112"
| "reg_offset A5 = 120"
| "reg_offset A6 = 128"
| "reg_offset A7 = 136"
| "reg_offset S2 = 144"
| "reg_offset S3 = 152"
| "reg_offset S4 = 160"
| "reg_offset S5 = 168"
| "reg_offset S6 = 176"
| "reg_offset S7 = 184"
| "reg_offset S8 = 192"
| "reg_offset S9 = 200"
| "reg_offset S10 = 208"
| "reg_offset S11 = 216"
| "reg_offset T3 = 224"
| "reg_offset T4 = 232"
| "reg_offset T5 = 240"
| "reg_offset T6 = 248"

definition frame_cells :: "u64 \<Rightarrow> u64 set" where
  "frame_cells f = insert (f + 256) (range (\<lambda>r. f + reg_offset r))"

lemma reg_offset_inject [simp]: "reg_offset r = reg_offset r' \<longleftrightarrow> r = r'"
  by (cases r; cases r'; simp)

lemma reg_offset_ends [simp]: "reg_offset r \<noteq> 0" "reg_offset r \<noteq> 256" "256 \<noteq> reg_offset r"
  by (cases r; simp)+

definition saved_regs :: "reg list" where
  "saved_regs = [RA, SP, GP, TP, T0, T1, T2, S0, S1, A1, A2, A3, A4, A5, A6, A7, S2, S3, S4, S5, S6, S7, S8, S9, S10, S11, T3, T4, T5, T6]"

definition loaded_regs :: "reg list" where
  "loaded_regs = [RA, GP, TP, T0, T1, T2, S0, S1, A1, A2, A3, A4, A5, A6, A7, S2, S3, S4, S5, S6, S7, S8, S9, S10, S11, T3, T4, T5, T6]"

lemma saved_regs_set: "set saved_regs = UNIV - {A0}" and loaded_regs_set: "set loaded_regs = UNIV - {A0, SP}"
  and saved_regs_distinct: "distinct saved_regs"
proof -
  have "r \<in> set saved_regs \<longleftrightarrow> r \<noteq> A0" "r \<in> set loaded_regs \<longleftrightarrow> r \<noteq> A0 \<and> r \<noteq> SP" for r
    by (cases r; simp add: saved_regs_def loaded_regs_def)+
  then show "set saved_regs = UNIV - {A0}" "set loaded_regs = UNIV - {A0, SP}" by auto
  show "distinct saved_regs" by (simp add: saved_regs_def)
qed

lemma trap_save_split:
  "trap_save = Csrrw_swap A0 SSCRATCH # map (\<lambda>r. SD r (reg_offset r) A0) saved_regs @
     [CSRR T0 SEPC, SD T0 256 A0, CSRR T0 SSCRATCH, SD T0 80 A0, CSRW SSCRATCH A0, LD SP 0 A0]"
  by (simp add: trap_save_def saved_regs_def)

lemma trap_restore_split:
  "trap_restore = [CSRR A0 SSCRATCH, LD T0 256 A0, CSRW SEPC T0] @
     map (\<lambda>r. LD r (reg_offset r) A0) loaded_regs @ [LD SP 16 A0, LD A0 80 A0]"
  by (simp add: trap_restore_def loaded_regs_def)

text \<open>A run of stores of registers into the frame, and a run of loads from it.\<close>

lemma run_stores:
  assumes "distinct rs"
  shows "\<exists>m. fold exec (map (\<lambda>r. SD r (reg_offset r) A0) rs) s = s\<lparr>mc_mem := m\<rparr> \<and>
    (\<forall>r \<in> set rs. m (mc_regs s A0 + reg_offset r) = mc_regs s r) \<and>
    (\<forall>x. x \<notin> (\<lambda>r. mc_regs s A0 + reg_offset r) ` set rs \<longrightarrow> m x = mc_mem s x)"
  using assms
proof (induction rs rule: rev_induct)
  case (snoc q rs)
  then obtain m where m: "fold exec (map (\<lambda>r. SD r (reg_offset r) A0) rs) s = s\<lparr>mc_mem := m\<rparr>"
    "\<forall>r \<in> set rs. m (mc_regs s A0 + reg_offset r) = mc_regs s r"
    "\<forall>x. x \<notin> (\<lambda>r. mc_regs s A0 + reg_offset r) ` set rs \<longrightarrow> m x = mc_mem s x" by auto
  let ?m = "m(mc_regs s A0 + reg_offset q := mc_regs s q)"
  have "fold exec (map (\<lambda>r. SD r (reg_offset r) A0) (rs @ [q])) s = s\<lparr>mc_mem := ?m\<rparr>"
    using m(1) by simp
  moreover have "\<forall>r \<in> set (rs @ [q]). ?m (mc_regs s A0 + reg_offset r) = mc_regs s r"
    using m(2) snoc.prems by auto
  moreover have "\<forall>x. x \<notin> (\<lambda>r. mc_regs s A0 + reg_offset r) ` set (rs @ [q]) \<longrightarrow> ?m x = mc_mem s x"
    using m(3) by simp
  ultimately show ?case by blast
qed (auto intro: exI [of _ "mc_mem s"])

lemma run_loads:
  assumes "A0 \<notin> set rs"
  shows "fold exec (map (\<lambda>r. LD r (reg_offset r) A0) rs) s =
    s\<lparr>mc_regs := \<lambda>r. if r \<in> set rs then mc_mem s (mc_regs s A0 + reg_offset r) else mc_regs s r\<rparr>"
  using assms
proof (induction rs arbitrary: s)
  case (Cons q rs)
  then have "A0 \<noteq> q" "A0 \<notin> set rs" by auto
  then show ?case using Cons.IH by (intro machine.equality) (auto simp: fun_eq_iff)
qed simp

lemma trap_save_spec:
  obtains m rg where
    "fold exec trap_save s = s\<lparr>mc_regs := rg, mc_mem := m\<rparr>"
    "rg A0 = csr_sscratch (mc_csrs s)" "rg SP = mc_mem s (csr_sscratch (mc_csrs s))"
    "\<And>r. m (csr_sscratch (mc_csrs s) + reg_offset r) = mc_regs s r"
    "m (csr_sscratch (mc_csrs s) + 256) = csr_sepc (mc_csrs s)"
    "\<And>x. x \<notin> frame_cells (csr_sscratch (mc_csrs s)) \<Longrightarrow> m x = mc_mem s x"
proof -
  define f where "f = csr_sscratch (mc_csrs s)"
  let ?s = "exec (Csrrw_swap A0 SSCRATCH) s"
  from run_stores [OF saved_regs_distinct, of ?s] obtain m where
    m: "fold exec (map (\<lambda>r. SD r (reg_offset r) A0) saved_regs) ?s = ?s\<lparr>mc_mem := m\<rparr>"
    "\<And>r. r \<noteq> A0 \<Longrightarrow> m (f + reg_offset r) = mc_regs s r"
    "\<And>x. x \<notin> (\<lambda>r. f + reg_offset r) ` (UNIV - {A0}) \<Longrightarrow> m x = mc_mem s x"
    by (auto simp: saved_regs_set f_def)
  let ?m = "m(f + 256 := csr_sepc (mc_csrs s), f + 80 := mc_regs s A0)"
  have f0: "m f = mc_mem s f" by (rule m(3)) auto
  have run: "fold exec trap_save s =
      s\<lparr>mc_regs := (mc_regs s)(A0 := f, T0 := mc_regs s A0, SP := mc_mem s f), mc_mem := ?m\<rparr>"
    unfolding trap_save_split using m(1) f0 by (simp add: f_def fun_upd_twist)
  show thesis
  proof (rule that [OF run])
    show "?m (csr_sscratch (mc_csrs s) + reg_offset r) = mc_regs s r" for r
      using m(2) [of r] reg_offset_inject [of r A0] by (cases "r = A0") (auto simp: f_def simp del: reg_offset_inject)
    show "?m x = mc_mem s x" if "x \<notin> frame_cells (csr_sscratch (mc_csrs s))" for x
    proof -
      have o: "x \<noteq> f + reg_offset r" for r using that by (auto simp: frame_cells_def f_def)
      then have "m x = mc_mem s x" by (intro m(3)) auto
      then show ?thesis using that o [of A0] by (simp add: frame_cells_def f_def)
    qed
  qed (simp_all add: f_def)
qed

lemma trap_restore_spec:
  "fold exec trap_restore s =
     s\<lparr>mc_regs := \<lambda>r. mc_mem s (csr_sscratch (mc_csrs s) + reg_offset r),
       mc_csrs := (mc_csrs s)\<lparr>csr_sepc := mc_mem s (csr_sscratch (mc_csrs s) + 256)\<rparr>\<rparr>"
proof -
  let ?f = "csr_sscratch (mc_csrs s)"
  let ?s = "fold exec [CSRR A0 SSCRATCH, LD T0 256 A0, CSRW SEPC T0] s"
  have "A0 \<notin> set loaded_regs" by (simp add: loaded_regs_set)
  from run_loads [OF this, of ?s] have l: "fold exec (map (\<lambda>r. LD r (reg_offset r) A0) loaded_regs) ?s =
      s\<lparr>mc_regs := \<lambda>r. if r = A0 then ?f else if r = SP then mc_regs s SP else mc_mem s (?f + reg_offset r),
        mc_csrs := (mc_csrs s)\<lparr>csr_sepc := mc_mem s (?f + 256)\<rparr>\<rparr>"
    by (intro machine.equality) (simp_all add: loaded_regs_set fun_eq_iff)
  show ?thesis
    unfolding trap_restore_split fold_append comp_apply l
    by (intro machine.equality) (simp_all add: fun_eq_iff)
qed

section \<open>Properties\<close>

text \<open>
  C34: a trap is transparent to the interrupted code. Whatever registers the compiled handler leaves
  behind, after \<open>sret\<close> every general register holds the value it had when the trap was taken,
  \<open>sscratch\<close> points to the frame again, memory outside the frame is untouched, and execution resumes
  at the interrupted instruction; after a breakpoint it resumes behind the \<open>ebreak\<close>, which is two bytes
  long if compressed and four otherwise. A timer interrupt arms the next one a second later. The Rust
  handler runs on the stack the frame names.
\<close>

theorem trap_transparent:
  assumes "timer_frequency sysinfo = Some freq" and "freq < usize_limit"
    and "unat (csr_sepc (mc_csrs s)) + 4 < usize_limit"
    and "csr_sepc (mc_csrs s) AND NOT 7 \<notin> frame_cells (csr_sscratch (mc_csrs s))"
  shows "mc_regs (fold exec trap_save s) SP = tf_kernel_sp (frame_at (mc_mem s) (csr_sscratch (mc_csrs s))) \<and>
    (\<exists>s'. trap_handler clobber sysinfo now s = Some s' \<and> mc_regs s' = mc_regs s \<and>
      csr_sscratch (mc_csrs s') = csr_sscratch (mc_csrs s) \<and>
      (\<forall>x. x \<notin> frame_cells (csr_sscratch (mc_csrs s)) \<longrightarrow> mc_mem s' x = mc_mem s x) \<and>
      mc_pc s' = csr_sepc (mc_csrs s) +
        (if csr_scause (mc_csrs s) = 3
         then (if halfword_at (mc_mem s) (csr_sepc (mc_csrs s)) AND 3 = 3 then 4 else 2) else 0) \<and>
      mc_deadline s' = (if csr_scause (mc_csrs s) = 0x8000000000000005 then now + of_nat freq else mc_deadline s))"
proof -
  let ?f = "csr_sscratch (mc_csrs s)" and ?pc = "csr_sepc (mc_csrs s)"
  obtain m rg where sv: "fold exec trap_save s = s\<lparr>mc_regs := rg, mc_mem := m\<rparr>" "rg A0 = ?f" "rg SP = mc_mem s ?f"
    "\<And>r. m (?f + reg_offset r) = mc_regs s r" "m (?f + 256) = ?pc" "\<And>x. x \<notin> frame_cells ?f \<Longrightarrow> m x = mc_mem s x"
    by (rule trap_save_spec [of s]) blast
  have hw: "halfword_at m ?pc = halfword_at (mc_mem s) ?pc"
    unfolding halfword_at_def using sv(6) [OF assms(4)] by simp
  define brk where "brk = (if halfword_at (mc_mem s) ?pc AND 3 = 3 then 4 else (2 :: nat))"
  have sz: "ebreak_size (halfword_at (mc_mem s) ?pc) = brk" by (simp add: ebreak_size_def brk_def push_bit_eq_mult)
  have sum: "add_usize (unat ?pc) brk = Some (unat ?pc + brk)" using assms(3) by (simp add: brk_def)
  have ret: "trap_handler clobber sysinfo now s = Some (s\<lparr>mc_mem := m', mc_deadline := d, mc_pc := m' (?f + 256),
      mc_csrs := (mc_csrs s)\<lparr>csr_sepc := m' (?f + 256)\<rparr>\<rparr>)"
    if "trap_handler_rust sysinfo now ?f (s\<lparr>mc_regs := rg, mc_mem := m\<rparr>) =
        Some (s\<lparr>mc_regs := rg, mc_mem := m', mc_deadline := d\<rparr>)"
      and "\<And>r. m' (?f + reg_offset r) = mc_regs s r" for m' d
    using that sv(1,2) by (auto simp: trap_handler_def trap_restore_spec intro!: machine.equality)
  let ?brk = "\<lambda>s. reason_of (csr_scause (mc_csrs s)) = Breakpoint"
  let ?tim = "\<lambda>s. reason_of (csr_scause (mc_csrs s)) = SupervisorTimerInterrupt"
  define m' where "m' = (if ?brk s then m(?f + 256 := of_nat (unat ?pc + brk)) else m)"
  define d where "d = (if ?tim s then now + of_nat freq else mc_deadline s)"
  have "trap_handler_rust sysinfo now ?f (s\<lparr>mc_regs := rg, mc_mem := m\<rparr>) =
        Some (s\<lparr>mc_regs := rg, mc_mem := m', mc_deadline := d\<rparr>)"
    using assms(1,2) sv(5) hw sz sum
    by (cases "reason_of (csr_scause (mc_csrs s))")
      (simp_all add: trap_handler_rust_def asm_scause_def new_time_def mul_usize_def add_usize_def m'_def d_def)
  moreover have "m' (?f + reg_offset r) = mc_regs s r" for r using sv(4) by (simp add: m'_def)
  ultimately have "trap_handler clobber sysinfo now s = Some (s\<lparr>mc_mem := m', mc_deadline := d, mc_pc := m' (?f + 256),
      mc_csrs := (mc_csrs s)\<lparr>csr_sepc := m' (?f + 256)\<rparr>\<rparr>)" by (rule ret)
  moreover have "m' x = mc_mem s x" if "x \<notin> frame_cells ?f" for x
    using that sv(6) [OF that] by (auto simp: m'_def frame_cells_def)
  moreover have "m' (?f + 256) = ?pc + (if csr_scause (mc_csrs s) = 3 then of_nat brk else 0)"
    using sv(5) by (simp add: m'_def breakpoint_cause)
  ultimately show ?thesis
    using sv(1,3) by (simp add: frame_at_def brk_def d_def timer_cause)
qed

definition sample_machine :: machine where
  "sample_machine = \<lparr>mc_regs = \<lambda>r. reg_offset r * 3,
     mc_csrs = \<lparr>csr_satp = 0, csr_scause = 3, csr_stvec = 0, csr_sscratch = 0x80005000, csr_sepc = 0x80000100,
       csr_sstatus = 0, csr_sie = 0\<rparr>,
     mc_mem = (\<lambda>_. 0)(0x80000100 := 0x9002, 0x80005000 := 0x80007000), mc_pc = 0x80000200, mc_deadline = 7\<rparr>"

theorem trap_transparent_witness:
  "\<exists>s'. trap_handler (\<lambda>_ _. 99) (Some sample_info) 5 sample_machine = Some s' \<and>
     mc_regs s' = mc_regs sample_machine \<and> mc_pc s' = 0x80000102"
proof -
  have "(0x80000100 :: u64) \<noteq> 0x80005000 + reg_offset r" for r by (cases r) simp_all
  then have "(0x80000100 :: u64) \<notin> frame_cells 0x80005000" by (auto simp: frame_cells_def)
  then show ?thesis
    using trap_transparent [of "Some sample_info" 10000000 sample_machine "\<lambda>_ _. 99" 5]
    by (auto simp: sample_machine_def timer_frequency_def sample_info_def halfword_at_def)
qed

end
