(* ===== verification/Scheduler.thy ===== *)
theory Scheduler
  imports Kernel_Paging Trap_Handler
begin

text \<open>
  The round-robin scheduler (\<open>src/scheduler.rs\<close>): the process table, the switch to the next process
  and the creation of a process with a stack frame of its own. The kernel does not start it yet.
\<close>

section \<open>Model\<close>

record process =
  proc_id :: usize
  proc_trap_frame :: trap_frame
  proc_running :: bool

record scheduler =
  sch_processes :: "process list"
  sch_current :: usize

text \<open>
  Indexing the empty process vector panics. The pointer that \<open>next\<close> returns is to the trap frame of
  the process at the index returned here.
\<close>

definition scheduler_next :: "scheduler \<Rightarrow> trap_frame \<Rightarrow> (usize \<times> scheduler) panics" where
  "scheduler_next s current_trap_frame =
     (let cur = sch_current s; ps = sch_processes s in
      if cur < length ps then do {
        let ps = ps[cur := (ps ! cur)\<lparr>proc_running := False\<rparr>];
        let ps = ps[cur := (ps ! cur)\<lparr>proc_trap_frame := current_trap_frame\<rparr>];
        next \<leftarrow> add_usize cur 1;
        let cur' = next mod length ps;
        let ps = ps[cur' := (ps ! cur')\<lparr>proc_running := True\<rparr>];
        Some (cur', s\<lparr>sch_processes := ps, sch_current := cur'\<rparr>)
      } else None)"

definition new_process ::
  "usize \<Rightarrow> u64 \<Rightarrow> scheduler \<Rightarrow> u64 \<Rightarrow> paging \<Rightarrow> (scheduler \<times> paging) panics" where
  "new_process root trap_stack s entry = (\<lambda>(m, g). do {
     (r, g) \<leftarrow> alloc_frame g;
     addr \<leftarrow> r;
     ms \<leftarrow> new_identity_map root addr (m, g);
     sp \<leftarrow> add_usize addr PAGE_SIZE;
     let tf = trap_frame_zero;
     let tf = tf\<lparr>tf_sp := of_nat sp\<rparr>;
     let tf = tf\<lparr>tf_sepc := entry\<rparr>;
     let tf = tf\<lparr>tf_kernel_sp := trap_stack\<rparr>;
     let process = \<lparr>proc_id = length (sch_processes s), proc_trap_frame = tf, proc_running = False\<rparr>;
     Some (s\<lparr>sch_processes := sch_processes s @ [process]\<rparr>, ms)
   })"

section \<open>Round robin\<close>

text \<open>Exactly the current process runs.\<close>

definition sched_ok :: "scheduler \<Rightarrow> bool" where
  "sched_ok s \<longleftrightarrow> sch_current s < length (sch_processes s) \<and> length (sch_processes s) < usize_limit \<and>
     (\<forall>i < length (sch_processes s). proc_running (sch_processes s ! i) \<longleftrightarrow> i = sch_current s)"

lemma scheduler_next_spec:
  assumes "sched_ok s"
  defines "n \<equiv> length (sch_processes s)"
  obtains s' where "scheduler_next s tf = Some ((sch_current s + 1) mod n, s')" "sched_ok s'"
    "sch_current s' = (sch_current s + 1) mod n" "length (sch_processes s') = n"
    "\<And>i. i < n \<Longrightarrow> proc_trap_frame (sch_processes s' ! i) =
       (if i = sch_current s then tf else proc_trap_frame (sch_processes s ! i))"
    "\<And>i. i < n \<Longrightarrow> proc_id (sch_processes s' ! i) = proc_id (sch_processes s ! i)"
proof -
  define cur where "cur = sch_current s"
  define nx where "nx = (cur + 1) mod n"
  have c: "cur < n" "n < usize_limit" "0 < n" using assms by (auto simp: sched_ok_def cur_def)
  then have nx: "nx < n" by (simp add: nx_def)
  let ?ps = "(sch_processes s)[cur := (sch_processes s ! cur)\<lparr>proc_running := False, proc_trap_frame := tf\<rparr>]"
  let ?s = "s\<lparr>sch_processes := ?ps[nx := (?ps ! nx)\<lparr>proc_running := True\<rparr>], sch_current := nx\<rparr>"
  have "scheduler_next s tf = Some (nx, ?s)"
    using c by (simp add: scheduler_next_def Let_def add_usize_def n_def cur_def nx_def)
  moreover have "sched_ok ?s"
    using assms nx c by (auto simp: sched_ok_def n_def cur_def nth_list_update)
  moreover have "proc_trap_frame (sch_processes ?s ! i) = (if i = cur then tf else proc_trap_frame (sch_processes s ! i))"
    "proc_id (sch_processes ?s ! i) = proc_id (sch_processes s ! i)" if "i < n" for i
    using that c nx by (auto simp: n_def nth_list_update)
  ultimately show thesis
    by (intro that [of ?s, unfolded cur_def [symmetric], folded nx_def]) (simp_all add: n_def)
qed

text \<open>The scheduler over a sequence of timer interrupts, each saving the interrupted frame.\<close>

fun scheduler_run :: "scheduler \<Rightarrow> trap_frame list \<Rightarrow> scheduler panics" where
  "scheduler_run s [] = Some s"
| "scheduler_run s (tf # tfs) = do { (_, s') \<leftarrow> scheduler_next s tf; scheduler_run s' tfs }"

lemma scheduler_run_snoc:
  "scheduler_run s (tfs @ [tf]) = do { s1 \<leftarrow> scheduler_run s tfs; (_, s2) \<leftarrow> scheduler_next s1 tf; Some s2 }"
  by (induction s tfs rule: scheduler_run.induct) (auto split: bind_splits)

lemma scheduler_run_spec:
  assumes "sched_ok s" and "length tfs \<le> length (sch_processes s)"
  shows "\<exists>s'. scheduler_run s tfs = Some s' \<and> sched_ok s' \<and> length (sch_processes s') = length (sch_processes s) \<and>
    sch_current s' = (sch_current s + length tfs) mod length (sch_processes s) \<and>
    (\<forall>k < length tfs. proc_trap_frame (sch_processes s' ! ((sch_current s + k) mod length (sch_processes s))) = tfs ! k)"
  using assms(2)
proof (induction tfs rule: rev_induct)
  case Nil
  then show ?case using assms(1) by (simp add: sched_ok_def)
next
  case (snoc tf tfs)
  define n where "n = length (sch_processes s)"
  have lt: "length tfs < n" using snoc.prems by (simp add: n_def)
  from snoc obtain s1 where s1: "scheduler_run s tfs = Some s1" "sched_ok s1" "length (sch_processes s1) = n"
    "sch_current s1 = (sch_current s + length tfs) mod n"
    "\<And>k. k < length tfs \<Longrightarrow> proc_trap_frame (sch_processes s1 ! ((sch_current s + k) mod n)) = tfs ! k"
    by (auto simp: n_def)
  from scheduler_next_spec [OF s1(2), of tf, unfolded s1(3)] obtain s2 where
    s2: "scheduler_next s1 tf = Some ((sch_current s1 + 1) mod n, s2)" "sched_ok s2"
    "sch_current s2 = (sch_current s1 + 1) mod n" "length (sch_processes s2) = n"
    "\<And>i. i < n \<Longrightarrow> proc_trap_frame (sch_processes s2 ! i) =
       (if i = sch_current s1 then tf else proc_trap_frame (sch_processes s1 ! i))" by metis
  have cur: "sch_current s2 = (sch_current s + length (tfs @ [tf])) mod n"
    by (simp add: s2(3) s1(4) mod_simps)
  have "proc_trap_frame (sch_processes s2 ! ((sch_current s + k) mod n)) = (tfs @ [tf]) ! k" if "k \<le> length tfs" for k
  proof (cases "k = length tfs")
    case True
    then show ?thesis using s2(5) [of "(sch_current s + k) mod n"] lt by (simp add: s1(4))
  next
    case False
    then have k: "k < length tfs" using that by simp
    have "(sch_current s + k) mod n \<noteq> (sch_current s + length tfs) mod n"
    proof
      assume "(sch_current s + k) mod n = (sch_current s + length tfs) mod n"
      then have "n dvd (sch_current s + length tfs) - (sch_current s + k)"
        using k by (intro mod_eq_dvd_iff_nat [THEN iffD1]) simp_all
      then show False using k lt by (auto dest: dvd_imp_le)
    qed
    then show ?thesis using s2(5) [of "(sch_current s + k) mod n"] lt s1(5) [OF k] k by (simp add: s1(4) nth_append)
  qed
  then show ?case using s1 s2 cur by (auto simp: scheduler_run_snoc n_def less_Suc_eq_le)
qed

section \<open>Properties\<close>


definition sample_process :: "usize \<Rightarrow> bool \<Rightarrow> process" where
  "sample_process i b = \<lparr>proc_id = i, proc_trap_frame = trap_frame_zero, proc_running = b\<rparr>"

definition sample_scheduler :: scheduler where
  "sample_scheduler = \<lparr>sch_processes = [sample_process 0 False, sample_process 1 False, sample_process 2 True],
     sch_current = 2\<rparr>"


text \<open>
  C36: no process can be created once the kernel runs on its own page table. \<open>page_table::init\<close> maps every
  frame the page-frame allocator manages, and \<open>new_process\<close> maps its stack frame again, so it panics
  (there is no frame, or \<open>PageTable::map\<close> finds the page mapped already).
\<close>

theorem new_process_panics:
  assumes "frames_ok (Some p)" and "m root = page_table_new" and "root \<notin> frames_free (Some p)"
    and "covering_pages (si_fdt_range info) = Inr fdt"
    and "boot_map_ok layout (pfa_ranges p @ [fdt] @ si_mmio_regions info)"
    and "page_table_init (Some info) layout root (c, m, Some p) = Some (c', m', g')"
  shows "new_process root stack sch entry (m', g') = None"
proof -
  define rs where "rs = boot_requests layout (pfa_ranges p) fdt (si_mmio_regions info)"
  have ok: "paging_ok root m (Some p)" using assms(1-3) empty_tables [of m root] by (simp add: paging_ok_def)
  have k: "kernel_end layout \<le> 2 ^ 32" using assms(5) by (simp add: boot_map_ok_def)
  have rq: "\<forall>x \<in> set rs. request_ok_map x" using boot_requests_ok [of layout "pfa_ranges p" fdt] assms(5) by (simp add: rs_def)
  have r: "map_pages unwrap_frame root rs (m, Some p) = Some (m', g')"
    using assms(6) page_table_init_eq [OF assms(1) k assms(4), of root c m] by (auto simp: rs_def split: option.splits)
  note f = map_pages_fresh(2) [OF ok assms(2) rq r]
  show ?thesis
  proof (cases "unwrap_frame g'")
    case None
    then show ?thesis
      by (auto simp: new_process_def unwrap_frame_def bind_eq_case split: option.splits)
  next
    case (Some x)
    obtain a g1 where x: "x = (a, g1)" by (cases x)
    have fok: "frames_ok g'" using f by (simp add: paging_ok_def)
    from kernel_frames.alloc_law [OF fok] Some x have a: "a \<in> frames_free g'" "frames_ok g1" "frames_free g1 = frames_free g' - {a}"
      by simp_all
    have "a \<in> pfa_frames p" using a(1) f by (simp add: frames_free_def)
    then have "PAGE_SIZE dvd a" "a \<in> ranges_addrs (pfa_ranges p)"
      using pfa_frames_iff [of p a] assms(1) by (simp_all add: frames_ok_def)
    then obtain rg where rg: "rg \<in> set (pfa_ranges p)" "pr_start rg \<le> a" "a < pr_end rg"
      by (auto simp: ranges_addrs_def pr_addrs_def)
    have al: "4096 dvd pr_start rg" using assms(5) rg(1) by (simp add: boot_map_ok_def)
    have "a = pr_start rg + (a - pr_start rg) div 4096 * 4096"
      using al \<open>PAGE_SIZE dvd a\<close> rg(2) by (simp add: PAGE_SIZE_def dvd_diff_nat)
    then have "a \<in> set (step_pages (pr_start rg) (pr_end rg))" using rg(3) unfolding step_pages_set by force
    then have "(a, a, READ OR WRITE) \<in> set rs" using rg(1) by (auto simp: rs_def boot_requests_def region_requests_def)
    then have "pt_leaf m' root (page_index a) \<noteq> None"
      using f by (force simp: map_of_eq_None_iff)
    moreover have "kernel_frames.pt_state root m' g1" using f a by (auto simp: paging_state [symmetric] paging_ok_def kernel_frames.pt_state_def)
    ultimately have "new_identity_map root a (m', g1) = None"
      using kernel_frames.map_page_iff [of root m' g1 a a "READ OR WRITE"] unfolding new_identity_map_def by metis
    then show ?thesis using Some x
      by (auto simp: new_process_def unwrap_frame_def bind_eq_case split: option.splits)
  qed
qed

theorem new_process_panics_witness:
  "\<exists>c' m' g'. page_table_init (Some sample_info) sample_layout 0x80000000 (sample_csrs, sample_tables, Some sample_arenas) =
       Some (c', m', g') \<and> new_process 0x80000000 0x80001000 sample_scheduler 0x80000100 (m', g') = None"
proof -
  from sample_boot_map(5) obtain c' m' g' where
    "page_table_init (Some sample_info) sample_layout 0x80000000 (sample_csrs, sample_tables, Some sample_arenas) = Some (c', m', g')"
    by blast
  with new_process_panics [OF sample_frames(2) sample_boot_map(4,3,1,2) this] show ?thesis by blast
qed

end
