(* ===== verification/Byte_IO.thy ===== *)
theory Byte_IO
  imports Kernel_Prelude
begin

text \<open>
  The byte cursor of the filesystem crate (\<open>filesystem/src/bytereader.rs\<close>) and the little-endian
  encodings of the standard library it uses. A slice index out of range panics.
\<close>

section \<open>Little-endian integers\<close>

fun from_le_bytes :: "bytes \<Rightarrow> 'a::len word" where
  "from_le_bytes [] = 0"
| "from_le_bytes (b # bs) = ucast b OR push_bit 8 (from_le_bytes bs)"

definition to_le_bytes :: "nat \<Rightarrow> 'a::len word \<Rightarrow> bytes" where
  "to_le_bytes n w = map (\<lambda>i. ucast (drop_bit (8 * i) w)) [0..<n]"

section \<open>Slices\<close>

text \<open>\<open>&buf[a..b]\<close>, and \<open>buf[a..b].copy_from_slice(data)\<close> for data of that length.\<close>

definition slice :: "'a list \<Rightarrow> nat \<Rightarrow> nat \<Rightarrow> 'a list panics" where
  "slice buf a b = (if a \<le> b \<and> b \<le> length buf then Some (take (b - a) (drop a buf)) else None)"

definition put_at :: "'a list \<Rightarrow> nat \<Rightarrow> 'a list \<Rightarrow> 'a list" where
  "put_at buf a vs = take a buf @ vs @ drop (a + length vs) buf"

definition copy_to_slice :: "'a list \<Rightarrow> nat \<Rightarrow> nat \<Rightarrow> 'a list \<Rightarrow> 'a list panics" where
  "copy_to_slice buf a b vs =
     (if a \<le> b \<and> b \<le> length buf \<and> length vs = b - a then Some (put_at buf a vs) else None)"

section \<open>Model\<close>

record byte_reader =
  br_bytes :: bytes
  br_pos :: usize

definition br_new :: "bytes \<Rightarrow> byte_reader" where
  "br_new bs = \<lparr>br_bytes = bs, br_pos = 0\<rparr>"

definition br_at :: "bytes \<Rightarrow> usize \<Rightarrow> byte_reader" where
  "br_at bs pos = \<lparr>br_bytes = bs, br_pos = pos\<rparr>"

definition read_u32 :: "byte_reader \<Rightarrow> (u32 \<times> byte_reader) panics" where
  "read_u32 r = do {
     bs \<leftarrow> slice (br_bytes r) (br_pos r) (br_pos r + 4);
     Some (from_le_bytes bs, r\<lparr>br_pos := br_pos r + 4\<rparr>)
   }"

definition read_u64 :: "byte_reader \<Rightarrow> (u64 \<times> byte_reader) panics" where
  "read_u64 r = do {
     bs \<leftarrow> slice (br_bytes r) (br_pos r) (br_pos r + 8);
     Some (from_le_bytes bs, r\<lparr>br_pos := br_pos r + 8\<rparr>)
   }"

definition read_bytes :: "byte_reader \<Rightarrow> usize \<Rightarrow> (bytes \<times> byte_reader) panics" where
  "read_bytes r len = do {
     bs \<leftarrow> slice (br_bytes r) (br_pos r) (br_pos r + len);
     Some (bs, r\<lparr>br_pos := br_pos r + len\<rparr>)
   }"

definition read_u8 :: "byte_reader \<Rightarrow> (u8 \<times> byte_reader) panics" where
  "read_u8 r =
     (if br_pos r < length (br_bytes r)
      then Some (br_bytes r ! br_pos r, r\<lparr>br_pos := br_pos r + 1\<rparr>) else None)"

record byte_writer =
  bw_bytes :: bytes
  bw_pos :: usize

definition bw_new :: "bytes \<Rightarrow> byte_writer" where
  "bw_new bs = \<lparr>bw_bytes = bs, bw_pos = 0\<rparr>"

definition bw_at :: "bytes \<Rightarrow> usize \<Rightarrow> byte_writer" where
  "bw_at bs pos = \<lparr>bw_bytes = bs, bw_pos = pos\<rparr>"

definition write_bytes :: "byte_writer \<Rightarrow> bytes \<Rightarrow> byte_writer panics" where
  "write_bytes w v = do {
     bs \<leftarrow> copy_to_slice (bw_bytes w) (bw_pos w) (bw_pos w + length v) v;
     Some \<lparr>bw_bytes = bs, bw_pos = bw_pos w + length v\<rparr>
   }"

definition write_u32 :: "byte_writer \<Rightarrow> u32 \<Rightarrow> byte_writer panics" where
  "write_u32 w v = do {
     bs \<leftarrow> copy_to_slice (bw_bytes w) (bw_pos w) (bw_pos w + 4) (to_le_bytes 4 v);
     Some \<lparr>bw_bytes = bs, bw_pos = bw_pos w + 4\<rparr>
   }"

definition write_u64 :: "byte_writer \<Rightarrow> u64 \<Rightarrow> byte_writer panics" where
  "write_u64 w v = do {
     bs \<leftarrow> copy_to_slice (bw_bytes w) (bw_pos w) (bw_pos w + 8) (to_le_bytes 8 v);
     Some \<lparr>bw_bytes = bs, bw_pos = bw_pos w + 8\<rparr>
   }"

definition write_u8 :: "byte_writer \<Rightarrow> u8 \<Rightarrow> byte_writer panics" where
  "write_u8 w v =
     (if bw_pos w < length (bw_bytes w)
      then Some \<lparr>bw_bytes = (bw_bytes w)[bw_pos w := v], bw_pos = bw_pos w + 1\<rparr> else None)"

section \<open>Round trips of the integers\<close>

lemma bit_from_le_bytes:
  "bit (from_le_bytes bs :: 'a::len word) n \<longleftrightarrow>
     n < LENGTH('a) \<and> n div 8 < length bs \<and> bit (bs ! (n div 8)) (n mod 8)"
proof (induction bs arbitrary: n)
  case (Cons b bs)
  show ?case
  proof (cases "n < 8")
    case True
    then show ?thesis using Cons by (auto simp: bit_simps dest: bit_imp_le_length)
  next
    case False
    then have n: "n div 8 = Suc ((n - 8) div 8)" "(n - 8) mod 8 = n mod 8" by (simp_all add: le_div_geq le_mod_geq)
    show ?thesis using False Cons [of "n - 8"] n by (auto simp: bit_simps dest: bit_imp_le_length)
  qed
qed simp

lemma length_to_le_bytes [simp]: "length (to_le_bytes n w) = n"
  by (simp add: to_le_bytes_def)

lemma from_to_le_bytes:
  fixes w :: "'a::len word"
  assumes "LENGTH('a) \<le> 8 * n"
  shows "from_le_bytes (to_le_bytes n w) = w"
proof (rule bit_word_eqI)
  fix k assume k: "k < LENGTH('a)"
  then have "k div 8 < n" using assms by (simp add: div_less_iff_less_mult)
  then show "bit (from_le_bytes (to_le_bytes n w) :: 'a word) k \<longleftrightarrow> bit w k"
    using k by (simp add: bit_from_le_bytes to_le_bytes_def bit_simps)
qed

lemma from_to_le_u32 [simp]: "from_le_bytes (to_le_bytes 4 w) = (w :: u32)"
  by (rule from_to_le_bytes) simp

lemma from_to_le_u64 [simp]: "from_le_bytes (to_le_bytes 8 w) = (w :: u64)"
  by (rule from_to_le_bytes) simp

lemma to_from_le_bytes:
  assumes "length bs = n" and "8 * n \<le> LENGTH('a)"
  shows "to_le_bytes n (from_le_bytes bs :: 'a::len word) = bs"
proof (rule nth_equalityI)
  fix i assume "i < length (to_le_bytes n (from_le_bytes bs :: 'a word))"
  then have i: "i < n" by simp
  have "bit (ucast (drop_bit (8 * i) (from_le_bytes bs :: 'a word)) :: u8) k \<longleftrightarrow> bit (bs ! i) k" if "k < 8" for k
  proof -
    have "(8 * i + k) div 8 = i" "(8 * i + k) mod 8 = k" "8 * i + k < LENGTH('a)" using that i assms(2) by auto
    then show ?thesis using that i assms(1) by (simp add: bit_simps bit_from_le_bytes add.commute)
  qed
  then show "to_le_bytes n (from_le_bytes bs :: 'a word) ! i = bs ! i"
    using i by (auto simp: to_le_bytes_def intro: bit_word_eqI)
qed (use assms in simp)

section \<open>Slices and splices\<close>

lemma length_splice [simp]: "a + length vs \<le> length buf \<Longrightarrow> length (put_at buf a vs) = length buf"
  by (simp add: put_at_def)

lemma slice_splice_same: "a + length vs \<le> length buf \<Longrightarrow> slice (put_at buf a vs) a (a + length vs) = Some vs"
  by (simp add: slice_def put_at_def)

lemma nth_splice:
  assumes "a + length vs \<le> length buf" and "i < length buf"
  shows "put_at buf a vs ! i = (if a \<le> i \<and> i < a + length vs then vs ! (i - a) else buf ! i)"
  using assms by (auto simp: put_at_def nth_append min_def)

lemma slice_nth:
  "slice buf a b = Some vs \<Longrightarrow> i < b - a \<Longrightarrow> vs ! i = buf ! (a + i)"
  by (auto simp: slice_def split: if_splits)

lemma slice_cong:
  assumes "length buf' = length buf" and "\<And>i. a \<le> i \<Longrightarrow> i < b \<Longrightarrow> buf' ! i = buf ! i"
  shows "slice buf' a b = slice buf a b"
  using assms by (auto simp: slice_def intro: nth_equalityI)

lemma slice_splice_disjoint:
  assumes "a + length vs \<le> length buf" and "d \<le> a \<or> a + length vs \<le> c"
  shows "slice (put_at buf a vs) c d = slice buf c d"
  using assms(1)
proof (cases "d \<le> length buf")
  case True
  show ?thesis
    by (rule slice_cong) (use assms True in \<open>auto simp: nth_splice\<close>)
qed (simp add: slice_def)

lemma splice_adjacent:
  "a + length vs + length ws \<le> length buf \<Longrightarrow>
     put_at (put_at buf a vs) (a + length vs) ws = put_at buf a (vs @ ws)"
  by (simp add: put_at_def ac_simps)

lemma splice_one: "a < length buf \<Longrightarrow> buf[a := v] = put_at buf a [v]"
  by (simp add: put_at_def upd_conv_take_nth_drop)

text \<open>
  Every write of the cursor is a put_at at its position, so a sequence of writes is one put_at of
  the concatenated encodings.
\<close>

lemma write_bytes_splice:
  "bw_pos w + length v \<le> length (bw_bytes w) \<Longrightarrow>
     write_bytes w v = Some \<lparr>bw_bytes = put_at (bw_bytes w) (bw_pos w) v, bw_pos = bw_pos w + length v\<rparr>"
  by (simp add: write_bytes_def copy_to_slice_def)

lemma write_u32_splice:
  "bw_pos w + 4 \<le> length (bw_bytes w) \<Longrightarrow>
     write_u32 w v = Some \<lparr>bw_bytes = put_at (bw_bytes w) (bw_pos w) (to_le_bytes 4 v), bw_pos = bw_pos w + 4\<rparr>"
  by (simp add: write_u32_def copy_to_slice_def)

lemma write_u64_splice:
  "bw_pos w + 8 \<le> length (bw_bytes w) \<Longrightarrow>
     write_u64 w v = Some \<lparr>bw_bytes = put_at (bw_bytes w) (bw_pos w) (to_le_bytes 8 v), bw_pos = bw_pos w + 8\<rparr>"
  by (simp add: write_u64_def copy_to_slice_def)

lemma write_u8_splice:
  "bw_pos w < length (bw_bytes w) \<Longrightarrow>
     write_u8 w v = Some \<lparr>bw_bytes = put_at (bw_bytes w) (bw_pos w) [v], bw_pos = bw_pos w + 1\<rparr>"
  by (simp add: write_u8_def splice_one)

text \<open>\<open>reads bs\<close> at a position: the bytes there are \<open>bs\<close>. Each read consumes its prefix.\<close>

definition bytes_at :: "bytes \<Rightarrow> usize \<Rightarrow> bytes \<Rightarrow> bool" where
  "bytes_at buf pos bs \<longleftrightarrow> slice buf pos (pos + length bs) = Some bs"

lemma bytes_at_append:
  "bytes_at buf pos (xs @ ys) \<longleftrightarrow> bytes_at buf pos xs \<and> bytes_at buf (pos + length xs) ys"
proof -
  have "bytes_at buf pos (xs @ ys) \<longleftrightarrow>
      pos + length xs + length ys \<le> length buf \<and> take (length xs + length ys) (drop pos buf) = xs @ ys"
    by (auto simp: bytes_at_def slice_def)
  also have "\<dots> \<longleftrightarrow> pos + length xs + length ys \<le> length buf \<and> take (length xs) (drop pos buf) = xs \<and>
      take (length ys) (drop (pos + length xs) buf) = ys"
    by (auto simp: take_add add.commute append_eq_append_conv)
  also have "\<dots> \<longleftrightarrow> bytes_at buf pos xs \<and> bytes_at buf (pos + length xs) ys"
    by (auto simp: bytes_at_def slice_def)
  finally show ?thesis .
qed

lemma bytes_at_splice: "a + length vs \<le> length buf \<Longrightarrow> bytes_at (put_at buf a vs) a vs"
  by (simp add: bytes_at_def slice_splice_same)

lemma read_u32_at:
  "bytes_at (br_bytes r) (br_pos r) (to_le_bytes 4 v) \<Longrightarrow> read_u32 r = Some (v, r\<lparr>br_pos := br_pos r + 4\<rparr>)"
  by (simp add: read_u32_def bytes_at_def)

lemma read_u64_at:
  "bytes_at (br_bytes r) (br_pos r) (to_le_bytes 8 v) \<Longrightarrow> read_u64 r = Some (v, r\<lparr>br_pos := br_pos r + 8\<rparr>)"
  by (simp add: read_u64_def bytes_at_def)

lemma read_bytes_at:
  "bytes_at (br_bytes r) (br_pos r) bs \<Longrightarrow> read_bytes r (length bs) = Some (bs, r\<lparr>br_pos := br_pos r + length bs\<rparr>)"
  by (simp add: read_bytes_def bytes_at_def)

lemma read_u8_at:
  "bytes_at (br_bytes r) (br_pos r) [v] \<Longrightarrow> read_u8 r = Some (v, r\<lparr>br_pos := br_pos r + 1\<rparr>)"
  by (auto simp: read_u8_def bytes_at_def slice_def take_Suc_conv_app_nth split: if_splits)

end
