(* ===== verification/FS_Layout.thy ===== *)
theory FS_Layout
  imports Byte_IO
begin

text \<open>
  The on-disk layout of the filesystem (\<open>filesystem/src/layout.rs\<close>): typed indices and the
  computation of the regions. \<open>Layout::new\<close> searches for the number of data-bitmap blocks in a
  \<open>loop\<close>; here a missing result of the outer option stands for a loop that never ends, the inner
  option is the one the code returns.
\<close>

section \<open>Model\<close>

definition BLOCK_SIZE :: usize where
  "BLOCK_SIZE = 512"

text \<open>\<open>mem::size_of\<close> of the \<open>repr(C)\<close> structures: 4 + 16 * 4 + 1 and padding, and 24 + 4.\<close>

definition INODE_SIZE :: usize where
  "INODE_SIZE = 72"

definition DIR_ENTRY_SIZE :: usize where
  "DIR_ENTRY_SIZE = 28"

definition INODES_PER_BLOCK :: usize where
  "INODES_PER_BLOCK = BLOCK_SIZE div INODE_SIZE"

definition DIR_ENTRY_PER_BLOCK :: usize where
  "DIR_ENTRY_PER_BLOCK = BLOCK_SIZE div DIR_ENTRY_SIZE"

definition MAX_INODES :: usize where
  "MAX_INODES = 4096"

definition BITS_PER_BLOCK :: usize where
  "BITS_PER_BLOCK = BLOCK_SIZE * 8"

lemma fs_consts [simp]:
  "BLOCK_SIZE = 512" "INODE_SIZE = 72" "DIR_ENTRY_SIZE = 28" "INODES_PER_BLOCK = 7"
  "DIR_ENTRY_PER_BLOCK = 18" "MAX_INODES = 4096" "BITS_PER_BLOCK = 4096"
  by (simp_all add: BLOCK_SIZE_def INODE_SIZE_def DIR_ENTRY_SIZE_def INODES_PER_BLOCK_def
      DIR_ENTRY_PER_BLOCK_def MAX_INODES_def BITS_PER_BLOCK_def)

type_synonym block_index = u32
type_synonym inode_index = u32

text \<open>\<open>DataBlockIndex\<close> is an optional non-zero block number.\<close>

type_synonym data_block_index = "u32 option"

text \<open>Plain \<open>+\<close> on \<open>u32\<close>, which panics on overflow, and \<open>as u32\<close> on a \<open>usize\<close>, which truncates.\<close>

definition add_u32 :: "u32 \<Rightarrow> u32 \<Rightarrow> u32 panics" where
  "add_u32 a b = (if unat a + unat b < 2 ^ 32 then Some (a + b) else None)"

definition as_u32 :: "usize \<Rightarrow> u32" where
  "as_u32 n = word_of_nat n"

definition try_into_u32 :: "usize \<Rightarrow> u32 option" where
  "try_into_u32 n = (if n < 2 ^ 32 then Some (word_of_nat n) else None)"

definition nonzero_u32 :: "u32 \<Rightarrow> data_block_index" where
  "nonzero_u32 v = (if v = 0 then None else Some v)"

record fs_layout =
  inode_bitmap_start :: usize
  inode_bitmap_blocks :: usize
  data_bitmap_start :: usize
  data_bitmap_blocks :: usize
  inode_table_start :: usize
  inode_table_blocks :: usize
  data_start :: usize
  data_blocks :: usize

definition data_index_new :: "usize \<Rightarrow> usize \<Rightarrow> data_block_index panics" where
  "data_index_new base val = do {
     sum \<leftarrow> add_usize base val;
     v \<leftarrow> try_into_u32 sum;
     Some (nonzero_u32 v)
   }"

definition from_raw_unchecked :: "u32 \<Rightarrow> data_block_index" where
  "from_raw_unchecked v = nonzero_u32 v"

definition to_block :: "data_block_index \<Rightarrow> block_index option" where
  "to_block d = d"

definition bitmap_index :: "data_block_index \<Rightarrow> fs_layout \<Rightarrow> usize panics" where
  "bitmap_index d layout = do { v \<leftarrow> d; sub_usize (unat v) (data_start layout) }"

definition index_is_empty :: "data_block_index \<Rightarrow> bool" where
  "index_is_empty d \<longleftrightarrow> d = None"

text \<open>The \<open>loop\<close>; the value is the triple \<open>(data_start, data_blocks, data_bitmap_blocks)\<close>.\<close>

partial_function (option) layout_loop ::
  "usize \<Rightarrow> usize \<Rightarrow> usize \<Rightarrow> (usize \<times> usize \<times> usize) option option" where
  "layout_loop tot fixed dbb =
     (case checked_add fixed dbb of
        None \<Rightarrow> Some None
      | Some dstart \<Rightarrow>
          (case checked_sub tot dstart of
             None \<Rightarrow> Some None
           | Some dblocks \<Rightarrow>
               if dblocks = 0 then Some None
               else if div_ceil dblocks BITS_PER_BLOCK = dbb then Some (Some (dstart, dblocks, dbb))
               else layout_loop tot fixed (div_ceil dblocks BITS_PER_BLOCK)))"

definition layout_new :: "usize \<Rightarrow> usize \<Rightarrow> fs_layout option option" where
  "layout_new tot inode_count =
     (let ibb = div_ceil inode_count BITS_PER_BLOCK; itb = div_ceil inode_count INODES_PER_BLOCK
      in case Option.bind (checked_add 1 ibb) (\<lambda>f. checked_add f itb) of
           None \<Rightarrow> Some None
         | Some fixed \<Rightarrow>
             (case checked_sub tot fixed of
                None \<Rightarrow> Some None
              | Some remaining \<Rightarrow> do {
                  r \<leftarrow> layout_loop tot fixed (div_ceil remaining BITS_PER_BLOCK);
                  Some (map_option (\<lambda>(dstart, dblocks, dbb).
                    \<lparr>inode_bitmap_start = 1, inode_bitmap_blocks = ibb,
                     data_bitmap_start = 1 + ibb, data_bitmap_blocks = dbb,
                     inode_table_start = 1 + ibb + dbb, inode_table_blocks = itb,
                     data_start = dstart, data_blocks = dblocks\<rparr>) r)
                }))"

definition inode_to_block :: "fs_layout \<Rightarrow> inode_index \<Rightarrow> (block_index \<times> usize) panics" where
  "inode_to_block layout inode = do {
     b \<leftarrow> add_u32 (as_u32 (inode_table_start layout)) (inode div 7);
     Some (b, unat ((inode mod 7) * 72))
   }"

definition layout_data_block :: "fs_layout \<Rightarrow> usize \<Rightarrow> data_block_index panics" where
  "layout_data_block layout val = data_index_new (data_start layout) val"

declare layout_loop.simps [code]

section \<open>When the loop ends, and with what\<close>

text \<open>
  With \<open>R\<close> blocks left for bitmap and data, \<open>b\<close> bitmap blocks are right when the remaining \<open>R - b\<close> data
  blocks need exactly \<open>b\<close> of them.
\<close>

definition balanced :: "nat \<Rightarrow> nat \<Rightarrow> bool" where
  "balanced R b \<longleftrightarrow> b < R \<and> div_ceil (R - b) 4096 = b"

lemma div_ceil_eq_iff: "0 < c \<Longrightarrow> 0 < a \<Longrightarrow> div_ceil a c = b \<longleftrightarrow> b * c < a + c \<and> a \<le> b * c"
  using div_ceil_le_iff [of c a b] div_ceil_less_iff [of c "b - 1" a]
  by (cases b) (auto simp: algebra_simps)

lemma balanced_iff: "balanced R b \<longleftrightarrow> b < R \<and> 4097 * b < R + 4096 \<and> R \<le> 4097 * b"
  by (auto simp: balanced_def div_ceil_eq_iff)

lemma balanced_unique: "balanced R b \<Longrightarrow> balanced R c \<Longrightarrow> b = c"
  by (simp add: balanced_iff)

lemma balanced_exists: "(\<exists>b. balanced R b) \<longleftrightarrow> 2 \<le> R \<and> R mod 4097 \<noteq> 1"
proof
  assume "\<exists>b. balanced R b"
  then obtain b where b: "b < R" "4097 * b < R + 4096" "R \<le> 4097 * b" by (auto simp: balanced_iff)
  have "R mod 4097 \<noteq> 1"
  proof
    assume "R mod 4097 = 1"
    then have "R = 4097 * (R div 4097) + 1" using mult_div_mod_eq [of 4097 R] by simp
    then obtain q where "R = 4097 * q + 1" by blast
    with b(2,3) show False by (cases "b \<le> q") linarith+
  qed
  then show "2 \<le> R \<and> R mod 4097 \<noteq> 1" using b by linarith
next
  assume R: "2 \<le> R \<and> R mod 4097 \<noteq> 1"
  define q r where "q = R div 4097" and "r = R mod 4097"
  have eq: "R = 4097 * q + r" "r < 4097" by (simp_all add: q_def r_def)
  have "balanced R (div_ceil R 4097)"
  proof (cases "r = 0")
    case True
    then have "div_ceil R 4097 = q" by (simp add: div_ceil_def q_def r_def)
    then show ?thesis using eq True R by (simp add: balanced_iff)
  next
    case False
    then have d: "div_ceil R 4097 = q + 1" by (simp add: div_ceil_def q_def r_def)
    have "2 \<le> r" using False R by (simp add: r_def)
    then show ?thesis using eq unfolding d balanced_iff by simp
  qed
  then show "\<exists>b. balanced R b" by blast
qed

text \<open>One round of the loop, and the two directions of its search.\<close>

lemma layout_loop_step:
  assumes "b \<le> R" and "F + R < usize_limit"
  shows "layout_loop (F + R) F b =
    (if b = R then Some None
     else if balanced R b then Some (Some (F + b, R - b, b))
     else layout_loop (F + R) F (div_ceil (R - b) 4096))"
  by (subst layout_loop.simps) (use assms in \<open>auto simp: usize_defs balanced_def\<close>)

lemma next_le: "div_ceil (R - b) 4096 \<le> div_ceil R 4096"
  by (rule div_ceil_mono) simp_all

lemma first_guess_less: "2 \<le> R \<Longrightarrow> div_ceil R 4096 < R"
proof -
  assume R: "2 \<le> R"
  then have "R \<le> (R - 1) * 4096" by (cases R) simp_all
  then have "div_ceil R 4096 \<le> R - 1" by (subst div_ceil_le_iff) simp_all
  then show ?thesis using R by linarith
qed

lemma next_closer:
  assumes "balanced R c" and "b < R" and "b \<noteq> c"
  defines "e \<equiv> div_ceil (R - b) 4096"
  shows "nat \<bar>int e - int c\<bar> < nat \<bar>int b - int c\<bar> \<or> div_ceil (R - e) 4096 = c"
proof -
  have c: "c < R" "4096 * c < (R - c) + 4096" "R - c \<le> 4096 * c"
    using assms(1) by (auto simp: balanced_def div_ceil_eq_iff)
  have "0 < R - b" using assms(2) by simp
  then have "e * 4096 < (R - b) + 4096 \<and> R - b \<le> e * 4096"
    using div_ceil_eq_iff [of 4096 "R - b" e] by (simp add: e_def)
  then have e: "4096 * e < (R - b) + 4096" "R - b \<le> 4096 * e" by linarith+
  obtain D where D: "R = c + D" using c(1) less_imp_add_positive by blast
  have "b = c + 1 \<and> e + 1 = c \<and> D + 4096 = 4096 * c + 1 \<or> b + 1 = c \<and> e = c + 1 \<and> D = 4096 * c"
    if far: "nat \<bar>int b - int c\<bar> \<le> nat \<bar>int e - int c\<bar>"
  proof (cases "c < b")
    case True
    then obtain k where k: "b = c + k" "1 \<le> k" using less_imp_add_positive [OF True] by auto
    have "e \<le> c" using e c k by (simp add: D)
    then obtain j where j: "c = e + j" using le_Suc_ex by blast
    have "k \<le> j" using far k j by simp
    then show ?thesis using e c k j assms(2) by (simp add: D) linarith
  next
    case False
    then have "b < c" using assms(3) by simp
    then obtain k where k: "c = b + k" "1 \<le> k" using less_imp_add_positive [of b c] by auto
    have "c \<le> e" using e c k by (simp add: D)
    then obtain j where j: "e = c + j" using le_Suc_ex by blast
    have "k \<le> j" using far k j by simp
    then show ?thesis using e c k j assms(2) by (simp add: D)
  qed
  then have two: "\<not> nat \<bar>int e - int c\<bar> < nat \<bar>int b - int c\<bar> \<Longrightarrow>
      b = c + 1 \<and> e + 1 = c \<and> D + 4096 = 4096 * c + 1 \<or> b + 1 = c \<and> e = c + 1 \<and> D = 4096 * c"
    by linarith
  show ?thesis
  proof (cases "nat \<bar>int e - int c\<bar> < nat \<bar>int b - int c\<bar>")
    case False
    from two [OF False] have "0 < R - e \<and> c * 4096 < (R - e) + 4096 \<and> R - e \<le> c * 4096"
      unfolding D using c(1) D by (elim disjE conjE; intro conjI; linarith)
    then have "div_ceil (R - e) 4096 = c" by (subst div_ceil_eq_iff) (rule zero_less_numeral, blast+)
    then show ?thesis ..
  qed simp
qed

lemma layout_loop_balanced:
  assumes c: "balanced R c" and F: "F + R < usize_limit" and b: "b \<le> div_ceil R 4096"
  shows "layout_loop (F + R) F b = Some (Some (F + c, R - c, c))"
  using b
proof (induction "nat \<bar>int b - int c\<bar>" arbitrary: b rule: less_induct)
  case less
  have R: "2 \<le> R" using c balanced_exists by blast
  have lt: "b < R" using less.prems first_guess_less [OF R] by simp
  show ?case
  proof (cases "b = c")
    case True
    then show ?thesis using layout_loop_step [of b R F] lt F c by simp
  next
    case False
    let ?e = "div_ceil (R - b) 4096"
    have nb: "\<not> balanced R b" using False c balanced_unique by blast
    have step: "layout_loop (F + R) F b = layout_loop (F + R) F ?e"
      using layout_loop_step [of b R F] lt F nb by simp
    have le: "?e < R" using next_le [of R b] first_guess_less [OF R] by simp
    from next_closer [OF c lt False] show ?thesis
    proof
      assume "nat \<bar>int ?e - int c\<bar> < nat \<bar>int b - int c\<bar>"
      from less.hyps [OF this next_le] show ?thesis using step by simp
    next
      assume ee: "div_ceil (R - ?e) 4096 = c"
      have cR: "c < R" using c by (simp add: balanced_def)
      have "layout_loop (F + R) F ?e = Some (Some (F + c, R - c, c))"
      proof (cases "?e = c")
        case True
        then show ?thesis using layout_loop_step [of c R F] cR F c by simp
      next
        case False
        then have "\<not> balanced R ?e" using c balanced_unique by blast
        then show ?thesis
          using layout_loop_step [of ?e R F] layout_loop_step [of c R F] le cR F c ee by simp
      qed
      then show ?thesis using step by simp
    qed
  qed
qed

lemma layout_loop_ends:
  assumes "layout_loop T F b = Some y"
  shows "\<forall>R. T = F + R \<longrightarrow> T < usize_limit \<longrightarrow> 2 \<le> R \<longrightarrow> b \<le> div_ceil R 4096 \<longrightarrow> (\<exists>c. balanced R c)"
  using _ assms
proof (rule layout_loop.raw_induct, goal_cases)
  case (1 loop tot fixed dbb res)
  show ?case
  proof (intro allI impI)
    fix R assume R: "tot = fixed + R" "tot < usize_limit" "2 \<le> R" "dbb \<le> div_ceil R 4096"
    have lt: "dbb < R" using R(4) first_guess_less [OF R(3)] by simp
    show "\<exists>c. balanced R c"
    proof (cases "balanced R dbb")
      case False
      have ne: "div_ceil (R - dbb) 4096 \<noteq> dbb" using False lt by (simp add: balanced_def)
      have "loop tot fixed (div_ceil (R - dbb) 4096) = Some res"
        using "1"(2) R(1,2) lt ne by (simp add: usize_defs)
      from "1"(1) [OF this] R(1-3) next_le show ?thesis by blast
    qed blast
  qed
qed

text \<open>The blocks left after the superblock, the i-node bitmap and the i-node table.\<close>

definition fixed_blocks :: "nat \<Rightarrow> nat" where
  "fixed_blocks n = 1 + div_ceil n 4096 + div_ceil n 7"

definition mk_layout :: "nat \<Rightarrow> nat \<Rightarrow> nat \<Rightarrow> fs_layout" where
  "mk_layout T n b =
     \<lparr>inode_bitmap_start = 1, inode_bitmap_blocks = div_ceil n 4096,
      data_bitmap_start = 1 + div_ceil n 4096, data_bitmap_blocks = b,
      inode_table_start = 1 + div_ceil n 4096 + b, inode_table_blocks = div_ceil n 7,
      data_start = fixed_blocks n + b, data_blocks = T - fixed_blocks n - b\<rparr>"

lemma layout_new_cases:
  assumes "T < 2 ^ 32" and "n < 2 ^ 32"
  shows "T < fixed_blocks n + 2 \<Longrightarrow> layout_new T n = Some None"
    and "balanced (T - fixed_blocks n) b \<Longrightarrow> layout_new T n = Some (Some (mk_layout T n b))"
    and "fixed_blocks n + 2 \<le> T \<Longrightarrow> (T - fixed_blocks n) mod 4097 = 1 \<Longrightarrow> layout_new T n = None"
proof -
  have small: "div_ceil n 4096 \<le> n" "div_ceil n 7 \<le> n" by (simp_all add: div_ceil_le_self)
  have fixed: "Option.bind (checked_add 1 (div_ceil n 4096)) (\<lambda>f. checked_add f (div_ceil n 7)) = Some (fixed_blocks n)"
    using small assms(2) by (simp add: usize_defs fixed_blocks_def)
  define R where "R = T - fixed_blocks n"
  have new: "layout_new T n = map_option (map_option (\<lambda>(ds, db, b). mk_layout T n b \<lparr>data_start := ds, data_blocks := db\<rparr>))
      (layout_loop (fixed_blocks n + R) (fixed_blocks n) (div_ceil R 4096))" if "fixed_blocks n \<le> T"
    using that fixed
    by (auto simp: layout_new_def Let_def checked_sub_def R_def mk_layout_def map_option_case
        split: option.splits intro!: arg_cong [where f = "\<lambda>f. map_option f _"] Option.bind_cong)
  show "layout_new T n = Some None" if T: "T < fixed_blocks n + 2"
  proof (cases "fixed_blocks n \<le> T")
    case True
    then have "R = 0 \<or> R = 1" using T by (auto simp: R_def)
    then have "R = div_ceil R 4096" by (auto simp: div_ceil_def)
    moreover have "fixed_blocks n + R < usize_limit" using True assms(1) by (simp add: R_def)
    ultimately have "layout_loop (fixed_blocks n + R) (fixed_blocks n) (div_ceil R 4096) = Some None"
      using layout_loop_step [of R R "fixed_blocks n"] by simp
    then show ?thesis using new [OF True] by simp
  qed (use fixed in \<open>simp add: layout_new_def Let_def checked_sub_def\<close>)
  show "layout_new T n = Some (Some (mk_layout T n b))" if b: "balanced (T - fixed_blocks n) b"
  proof -
    have "b < T - fixed_blocks n" using b unfolding balanced_def by blast
    then have T: "fixed_blocks n \<le> T" by linarith
    have lim: "fixed_blocks n + R < usize_limit" using T assms(1) by (simp add: R_def)
    show ?thesis using new [OF T] layout_loop_balanced [OF b [folded R_def] lim order_refl]
      by (simp add: mk_layout_def R_def)
  qed
  show "layout_new T n = None" if T: "fixed_blocks n + 2 \<le> T" and m: "(T - fixed_blocks n) mod 4097 = 1"
  proof -
    have lim: "fixed_blocks n + R < usize_limit" "2 \<le> R" using T assms(1) by (simp_all add: R_def)
    have "layout_loop (fixed_blocks n + R) (fixed_blocks n) (div_ceil R 4096) = None"
    proof (rule ccontr)
      assume "layout_loop (fixed_blocks n + R) (fixed_blocks n) (div_ceil R 4096) \<noteq> None"
      then obtain y where "layout_loop (fixed_blocks n + R) (fixed_blocks n) (div_ceil R 4096) = Some y" by auto
      from layout_loop_ends [OF this] lim have "\<exists>c. balanced R c" by auto
      then show False using balanced_exists [of R] m by (simp add: R_def)
    qed
    then show ?thesis using new T by simp
  qed
qed

section \<open>Properties\<close>

text \<open>
  A layout that partitions a device of \<open>T\<close> blocks for \<open>n\<close> i-nodes: superblock, i-node bitmap, data
  bitmap, i-node table and data follow each other without a gap, and each region is large enough.
\<close>

definition layout_ok :: "fs_layout \<Rightarrow> nat \<Rightarrow> nat \<Rightarrow> bool" where
  "layout_ok l T n \<longleftrightarrow> inode_bitmap_start l = 1 \<and>
     data_bitmap_start l = inode_bitmap_start l + inode_bitmap_blocks l \<and>
     inode_table_start l = data_bitmap_start l + data_bitmap_blocks l \<and>
     data_start l = inode_table_start l + inode_table_blocks l \<and>
     data_start l + data_blocks l = T \<and> 0 < data_blocks l \<and>
     n \<le> inode_bitmap_blocks l * 4096 \<and> data_blocks l \<le> data_bitmap_blocks l * 4096 \<and>
     n \<le> inode_table_blocks l * 7"

lemma mk_layout_ok: "balanced (T - fixed_blocks n) b \<Longrightarrow> layout_ok (mk_layout T n b) T n"
proof -
  assume b: "balanced (T - fixed_blocks n) b"
  then have lt: "b < T - fixed_blocks n" and d: "div_ceil (T - fixed_blocks n - b) 4096 = b"
    unfolding balanced_def by blast+
  have "T - fixed_blocks n - b \<le> b * 4096"
    using le_div_ceil_mult [of 4096 "T - fixed_blocks n - b"] d by simp
  moreover have "n \<le> div_ceil n 4096 * 4096" "n \<le> div_ceil n 7 * 7" by (simp_all add: le_div_ceil_mult)
  moreover have "fixed_blocks n + b + (T - fixed_blocks n - b) = T" using lt by linarith
  moreover have "0 < T - fixed_blocks n - b" using lt by linarith
  ultimately show ?thesis by (simp add: layout_ok_def mk_layout_def fixed_blocks_def)
qed

lemma layout_new_ok:
  assumes "T < 2 ^ 32" and "n < 2 ^ 32" and "layout_new T n = Some (Some l)"
  shows "layout_ok l T n" and "inode_bitmap_blocks l = div_ceil n 4096" and "inode_table_blocks l = div_ceil n 7"
    and "data_bitmap_blocks l = div_ceil (data_blocks l) 4096"
proof -
  have ge: "fixed_blocks n + 2 \<le> T" using layout_new_cases(1) [OF assms(1,2)] assms(3) by fastforce
  have "(T - fixed_blocks n) mod 4097 \<noteq> 1" using layout_new_cases(3) [OF assms(1,2) ge] assms(3) by auto
  then obtain b where b: "balanced (T - fixed_blocks n) b"
    using balanced_exists [of "T - fixed_blocks n"] ge by auto
  from layout_new_cases(2) [OF assms(1,2) b] assms(3) have l: "l = mk_layout T n b" by simp
  show "layout_ok l T n" unfolding l by (rule mk_layout_ok [OF b])
  have "div_ceil (T - fixed_blocks n - b) 4096 = b" using b unfolding balanced_def by blast
  then show "inode_bitmap_blocks l = div_ceil n 4096" "inode_table_blocks l = div_ceil n 7"
    "data_bitmap_blocks l = div_ceil (data_blocks l) 4096" by (simp_all add: l mk_layout_def)
qed

text \<open>
  What \<open>Layout::new\<close> does for every device size and i-node count below 2^32. With fewer than two
  blocks beyond the fixed regions it refuses. Otherwise it computes a layout that partitions the
  device, with regions large enough for their contents, unless the blocks beyond the fixed regions
  are 4097 * m + 1 for some \<open>m\<close>: for those sizes no number of bitmap blocks fits, and the loop never
  ends.
\<close>

theorem layout_new_decides:
  assumes "T < 2 ^ 32" and "n < 2 ^ 32"
  shows "(T < fixed_blocks n + 2 \<longrightarrow> layout_new T n = Some None) \<and>
    (fixed_blocks n + 2 \<le> T \<and> (T - fixed_blocks n) mod 4097 \<noteq> 1 \<longrightarrow>
       (\<exists>l. layout_new T n = Some (Some l) \<and> layout_ok l T n)) \<and>
    (fixed_blocks n + 2 \<le> T \<and> (T - fixed_blocks n) mod 4097 = 1 \<longrightarrow> layout_new T n = None)"
proof (intro conjI impI)
  assume "fixed_blocks n + 2 \<le> T \<and> (T - fixed_blocks n) mod 4097 \<noteq> 1"
  then obtain b where b: "balanced (T - fixed_blocks n) b"
    using balanced_exists [of "T - fixed_blocks n"] by auto
  show "\<exists>l. layout_new T n = Some (Some l) \<and> layout_ok l T n"
    using layout_new_cases(2) [OF assms b] mk_layout_ok [OF b] by blast
qed (use layout_new_cases(1,3) [OF assms] in blast)+

theorem layout_new_decides_witness:
  "(\<exists>l. layout_new 2048 4096 = Some (Some l) \<and> layout_ok l 2048 4096) \<and> layout_new 4686 4096 = None"
proof -
  have f: "fixed_blocks 4096 = 588" by (simp add: fixed_blocks_def div_ceil_def)
  show ?thesis using layout_new_decides [of 2048 4096] layout_new_decides [of 4686 4096] by (simp add: f)
qed

end
