(* ===== verification/FS_Nodes.thy ===== *)
theory FS_Nodes
  imports FS_Layout
begin

text \<open>
  The structures of the filesystem and their encodings: i-nodes (\<open>filesystem/src/inode.rs\<close>), directory
  entries (\<open>filesystem/src/dir_entry.rs\<close>), and the block buffer and superblock of
  \<open>filesystem/src/filesystem.rs\<close>.
\<close>

section \<open>I-nodes\<close>

definition INODE_BLOCKS :: usize where
  "INODE_BLOCKS = 16"

lemmas INODE_BLOCKS_simp [simp] = INODE_BLOCKS_def

record inode =
  in_size :: u32
  in_blocks :: "data_block_index list"
  in_is_directory :: bool

text \<open>\<open>WriteSlot\<close>: the mutable reference into \<open>blocks\<close> is the index of the slot, absent past the end.\<close>

record write_slot =
  ws_block :: "usize option"
  ws_byte_offset :: usize
  ws_capacity :: usize

definition new_empty_directory :: inode where
  "new_empty_directory = \<lparr>in_size = 0, in_blocks = replicate INODE_BLOCKS None, in_is_directory = True\<rparr>"

definition new_empty_file :: inode where
  "new_empty_file = \<lparr>in_size = 0, in_blocks = replicate INODE_BLOCKS None, in_is_directory = False\<rparr>"

definition inode_write_slot :: "inode \<Rightarrow> write_slot" where
  "inode_write_slot i =
     (let slot = unat (in_size i) div BLOCK_SIZE; offset = unat (in_size i) mod BLOCK_SIZE
      in \<lparr>ws_block = (if slot < length (in_blocks i) then Some slot else None),
          ws_byte_offset = offset, ws_capacity = BLOCK_SIZE - offset\<rparr>)"

definition inode_advance :: "inode \<Rightarrow> usize \<Rightarrow> inode panics" where
  "inode_advance i amount = map_option (\<lambda>s. i\<lparr>in_size := s\<rparr>) (add_u32 (in_size i) (as_u32 amount))"

definition inode_shrink :: "inode \<Rightarrow> usize \<Rightarrow> inode panics" where
  "inode_shrink i amount =
     (if as_u32 amount \<le> in_size i then Some (i\<lparr>in_size := in_size i - as_u32 amount\<rparr>) else None)"

definition current_dir_entries :: "inode \<Rightarrow> usize panics" where
  "current_dir_entries i = (if in_is_directory i then Some (unat (in_size i) div DIR_ENTRY_SIZE) else None)"

definition has_space :: "inode \<Rightarrow> bool" where
  "has_space i = list_ex index_is_empty (in_blocks i)"

definition used_blocks :: "inode \<Rightarrow> data_block_index list" where
  "used_blocks i = filter (\<lambda>b. \<not> index_is_empty b) (in_blocks i)"

definition inode_block :: "inode \<Rightarrow> usize \<Rightarrow> data_block_index panics" where
  "inode_block i k = (if k < length (in_blocks i) then Some (in_blocks i ! k) else None)"

definition set_inode_block :: "inode \<Rightarrow> usize \<Rightarrow> data_block_index \<Rightarrow> inode" where
  "set_inode_block i k d = i\<lparr>in_blocks := (in_blocks i)[k := d]\<rparr>"

fun write_blocks :: "data_block_index list \<Rightarrow> byte_writer \<Rightarrow> byte_writer panics" where
  "write_blocks [] w = Some w"
| "write_blocks (d # ds) w = do {
     w \<leftarrow> write_u32 w (case to_block d of Some b \<Rightarrow> b | None \<Rightarrow> 0);
     write_blocks ds w
   }"

definition inode_write_to :: "inode \<Rightarrow> byte_writer \<Rightarrow> byte_writer panics" where
  "inode_write_to i w = do {
     w \<leftarrow> write_u32 w (in_size i);
     w \<leftarrow> write_blocks (in_blocks i) w;
     write_u8 w (if in_is_directory i then 1 else 0)
   }"

fun read_blocks :: "nat \<Rightarrow> byte_reader \<Rightarrow> (data_block_index list \<times> byte_reader) panics" where
  "read_blocks 0 r = Some ([], r)"
| "read_blocks (Suc n) r = do {
     (val, r) \<leftarrow> read_u32 r;
     (ds, r) \<leftarrow> read_blocks n r;
     Some (from_raw_unchecked val # ds, r)
   }"

definition inode_read_from :: "byte_reader \<Rightarrow> (inode \<times> byte_reader) panics" where
  "inode_read_from r = do {
     (sz, r) \<leftarrow> read_u32 r;
     (blocks, r) \<leftarrow> read_blocks 16 r;
     (d, r) \<leftarrow> read_u8 r;
     Some (\<lparr>in_size = sz, in_blocks = blocks, in_is_directory = (d \<noteq> 0)\<rparr>, r)
   }"

section \<open>Directory entries\<close>

record dir_entry =
  de_name_bytes :: bytes
  de_inode :: inode_index

definition dir_entry_new :: "bytes \<Rightarrow> inode_index \<Rightarrow> dir_entry" where
  "dir_entry_new name_string ino =
     (let len = min (length name_string) 24
      in \<lparr>de_name_bytes = put_at (replicate 24 0) 0 (take len name_string), de_inode = ino\<rparr>)"

definition de_name :: "dir_entry \<Rightarrow> bytes" where
  "de_name e =
     (let len = length (filter (\<lambda>b. b \<noteq> 0) (de_name_bytes e)); s = take len (de_name_bytes e)
      in if valid_utf8 s then s else [])"

definition dir_entry_write_to :: "dir_entry \<Rightarrow> byte_writer \<Rightarrow> byte_writer panics" where
  "dir_entry_write_to e w = do {
     w \<leftarrow> write_bytes w (de_name_bytes e);
     write_u32 w (de_inode e)
   }"

definition dir_entry_read_from :: "byte_reader \<Rightarrow> (dir_entry \<times> byte_reader) panics" where
  "dir_entry_read_from r = do {
     (name, r) \<leftarrow> read_bytes r 24;
     (ino, r) \<leftarrow> read_u32 r;
     Some (\<lparr>de_name_bytes = name, de_inode = ino\<rparr>, r)
   }"

section \<open>The superblock\<close>

definition MAGIC :: u64 where
  "MAGIC = 0x4e4f4d454c"

definition FILESYSTEM_VERSION :: u32 where
  "FILESYSTEM_VERSION = 2"

definition SUPERBLOCK_ENCODED_SIZE :: usize where
  "SUPERBLOCK_ENCODED_SIZE = 8 + 12 * 4"

record super_block =
  sb_magic :: u64
  sb_version :: u32
  sb_block_size :: u32
  sb_total_blocks :: u32
  sb_inode_count :: u32
  sb_inode_bitmap_start :: u32
  sb_inode_bitmap_blocks :: u32
  sb_data_bitmap_start :: u32
  sb_data_bitmap_blocks :: u32
  sb_inode_table_start :: u32
  sb_inode_table_blocks :: u32
  sb_data_start :: u32
  sb_data_blocks :: u32

definition super_block_write_to :: "super_block \<Rightarrow> byte_writer \<Rightarrow> byte_writer panics" where
  "super_block_write_to sb w = do {
     w \<leftarrow> write_u64 w (sb_magic sb);
     w \<leftarrow> write_u32 w (sb_version sb);
     w \<leftarrow> write_u32 w (sb_block_size sb);
     w \<leftarrow> write_u32 w (sb_total_blocks sb);
     w \<leftarrow> write_u32 w (sb_inode_count sb);
     w \<leftarrow> write_u32 w (sb_inode_bitmap_start sb);
     w \<leftarrow> write_u32 w (sb_inode_bitmap_blocks sb);
     w \<leftarrow> write_u32 w (sb_data_bitmap_start sb);
     w \<leftarrow> write_u32 w (sb_data_bitmap_blocks sb);
     w \<leftarrow> write_u32 w (sb_inode_table_start sb);
     w \<leftarrow> write_u32 w (sb_inode_table_blocks sb);
     w \<leftarrow> write_u32 w (sb_data_start sb);
     write_u32 w (sb_data_blocks sb)
   }"

definition super_block_read_from :: "byte_reader \<Rightarrow> (super_block \<times> byte_reader) panics" where
  "super_block_read_from r = do {
     (magic, r) \<leftarrow> read_u64 r;
     (version, r) \<leftarrow> read_u32 r;
     (block_size, r) \<leftarrow> read_u32 r;
     (total_blocks, r) \<leftarrow> read_u32 r;
     (inode_count, r) \<leftarrow> read_u32 r;
     (ib_start, r) \<leftarrow> read_u32 r;
     (ib_blocks, r) \<leftarrow> read_u32 r;
     (db_start, r) \<leftarrow> read_u32 r;
     (db_blocks, r) \<leftarrow> read_u32 r;
     (it_start, r) \<leftarrow> read_u32 r;
     (it_blocks, r) \<leftarrow> read_u32 r;
     (d_start, r) \<leftarrow> read_u32 r;
     (d_blocks, r) \<leftarrow> read_u32 r;
     Some (\<lparr>sb_magic = magic, sb_version = version, sb_block_size = block_size,
       sb_total_blocks = total_blocks, sb_inode_count = inode_count,
       sb_inode_bitmap_start = ib_start, sb_inode_bitmap_blocks = ib_blocks,
       sb_data_bitmap_start = db_start, sb_data_bitmap_blocks = db_blocks,
       sb_inode_table_start = it_start, sb_inode_table_blocks = it_blocks,
       sb_data_start = d_start, sb_data_blocks = d_blocks\<rparr>, r)
   }"

definition from_layout :: "usize \<Rightarrow> usize \<Rightarrow> fs_layout \<Rightarrow> super_block" where
  "from_layout tot inode_count layout =
     \<lparr>sb_magic = MAGIC, sb_version = FILESYSTEM_VERSION, sb_block_size = as_u32 BLOCK_SIZE,
      sb_total_blocks = as_u32 tot, sb_inode_count = as_u32 inode_count,
      sb_inode_bitmap_start = as_u32 (inode_bitmap_start layout),
      sb_inode_bitmap_blocks = as_u32 (inode_bitmap_blocks layout),
      sb_data_bitmap_start = as_u32 (data_bitmap_start layout),
      sb_data_bitmap_blocks = as_u32 (data_bitmap_blocks layout),
      sb_inode_table_start = as_u32 (inode_table_start layout),
      sb_inode_table_blocks = as_u32 (inode_table_blocks layout),
      sb_data_start = as_u32 (data_start layout),
      sb_data_blocks = as_u32 (data_blocks layout)\<rparr>"

datatype fs_error =
    NotADirectory | IsDirectory | FileTooLarge | NoSpaceLeft | EntryExists | EmptyName | NameTooLong
  | NotFound | NotEmpty | NoFreeInodeBlocks | NoFreeInodes | OperationNotSupported | CorruptedRoot
  | InvalidSuperblock | DeviceTooSmall | UnsupportedFilesystemVersion u32

text \<open>The layout a superblock claims, and the check of the claim. The outer option is \<open>Layout::new\<close>'s.\<close>

definition claimed_layout :: "super_block \<Rightarrow> fs_layout" where
  "claimed_layout sb =
     \<lparr>inode_bitmap_start = unat (sb_inode_bitmap_start sb), inode_bitmap_blocks = unat (sb_inode_bitmap_blocks sb),
      data_bitmap_start = unat (sb_data_bitmap_start sb), data_bitmap_blocks = unat (sb_data_bitmap_blocks sb),
      inode_table_start = unat (sb_inode_table_start sb), inode_table_blocks = unat (sb_inode_table_blocks sb),
      data_start = unat (sb_data_start sb), data_blocks = unat (sb_data_blocks sb)\<rparr>"

definition bitmap_capacity :: "usize \<Rightarrow> usize option" where
  "bitmap_capacity blocks = Option.bind (checked_mul blocks BLOCK_SIZE) (\<lambda>n. checked_mul n 8)"

definition capacity_below :: "usize option \<Rightarrow> usize \<Rightarrow> bool" where
  "capacity_below c n = (case c of None \<Rightarrow> True | Some cap \<Rightarrow> cap < n)"

definition validate :: "super_block \<Rightarrow> usize \<Rightarrow> (fs_error + fs_layout) option" where
  "validate sb device_blocks =
     (if sb_magic sb \<noteq> MAGIC then Some (Inl InvalidSuperblock)
      else if sb_version sb \<noteq> FILESYSTEM_VERSION
      then Some (Inl (UnsupportedFilesystemVersion (sb_version sb)))
      else if unat (sb_block_size sb) \<noteq> BLOCK_SIZE \<or> unat (sb_total_blocks sb) \<noteq> device_blocks
      then Some (Inl InvalidSuperblock)
      else
        let inode_count = unat (sb_inode_count sb); layout = claimed_layout sb
        in case (checked_add (inode_bitmap_start layout) (inode_bitmap_blocks layout),
                 checked_add (data_bitmap_start layout) (data_bitmap_blocks layout),
                 checked_add (inode_table_start layout) (inode_table_blocks layout),
                 checked_add (data_start layout) (data_blocks layout)) of
             (Some inode_bitmap_end, Some data_bitmap_end, Some inode_table_end, Some data_end) \<Rightarrow>
               if inode_bitmap_start layout \<noteq> 1 \<or> data_bitmap_start layout \<noteq> inode_bitmap_end \<or>
                  inode_table_start layout \<noteq> data_bitmap_end \<or> data_start layout \<noteq> inode_table_end \<or>
                  data_end \<noteq> device_blocks
               then Some (Inl InvalidSuperblock)
               else (case checked_mul (inode_table_blocks layout) INODES_PER_BLOCK of
                 None \<Rightarrow> Some (Inl InvalidSuperblock)
               | Some inode_table_capacity \<Rightarrow>
                   if inode_count = 0 \<or>
                      capacity_below (bitmap_capacity (inode_bitmap_blocks layout)) inode_count \<or>
                      capacity_below (bitmap_capacity (data_bitmap_blocks layout)) (data_blocks layout) \<or>
                      inode_table_capacity < inode_count
                   then Some (Inl InvalidSuperblock)
                   else do {
                     canonical \<leftarrow> layout_new device_blocks inode_count;
                     Some (and_then (ok_or InvalidSuperblock canonical) (\<lambda>canonical.
                       if layout \<noteq> canonical then Inl InvalidSuperblock else Inr layout))
                   })
           | _ \<Rightarrow> Some (Inl InvalidSuperblock))"

section \<open>Encodings\<close>

text \<open>
  The bytes that \<open>write_to\<close> produces. An encoding is spliced into the buffer at the writer's
  position; a buffer that carries the bytes at the reader's position decodes to the value.
\<close>

definition raw_index :: "data_block_index \<Rightarrow> u32" where
  "raw_index d = (case d of Some b \<Rightarrow> b | None \<Rightarrow> 0)"

definition dir_flag :: "inode \<Rightarrow> u8" where
  "dir_flag i = (if in_is_directory i then 1 else 0)"

definition block_bytes :: "data_block_index list \<Rightarrow> bytes" where
  "block_bytes ds = concat (map (\<lambda>d. to_le_bytes 4 (raw_index d)) ds)"

definition inode_bytes :: "inode \<Rightarrow> bytes" where
  "inode_bytes i = to_le_bytes 4 (in_size i) @ block_bytes (in_blocks i) @ [dir_flag i]"

definition dir_entry_bytes :: "dir_entry \<Rightarrow> bytes" where
  "dir_entry_bytes e = de_name_bytes e @ to_le_bytes 4 (de_inode e)"

definition super_block_words :: "super_block \<Rightarrow> u32 list" where
  "super_block_words sb =
     [sb_version sb, sb_block_size sb, sb_total_blocks sb, sb_inode_count sb, sb_inode_bitmap_start sb,
      sb_inode_bitmap_blocks sb, sb_data_bitmap_start sb, sb_data_bitmap_blocks sb, sb_inode_table_start sb,
      sb_inode_table_blocks sb, sb_data_start sb, sb_data_blocks sb]"

definition super_block_bytes :: "super_block \<Rightarrow> bytes" where
  "super_block_bytes sb = to_le_bytes 8 (sb_magic sb) @ concat (map (to_le_bytes 4) (super_block_words sb))"

text \<open>The values that fit their Rust types: sixteen slots of non-zero indices, 24 name bytes.\<close>

definition inode_wf :: "inode \<Rightarrow> bool" where
  "inode_wf i \<longleftrightarrow> length (in_blocks i) = 16 \<and> list_all (\<lambda>d. d \<noteq> Some 0) (in_blocks i)"

definition dir_entry_wf :: "dir_entry \<Rightarrow> bool" where
  "dir_entry_wf e \<longleftrightarrow> length (de_name_bytes e) = 24"

lemma length_block_bytes [simp]: "length (block_bytes ds) = 4 * length ds"
  by (induction ds) (simp_all add: block_bytes_def)

lemma length_inode_bytes: "inode_wf i \<Longrightarrow> length (inode_bytes i) = 69"
  by (simp add: inode_bytes_def inode_wf_def)

lemma length_dir_entry_bytes: "dir_entry_wf e \<Longrightarrow> length (dir_entry_bytes e) = 28"
  by (simp add: dir_entry_bytes_def dir_entry_wf_def)

lemma length_super_block_bytes: "length (super_block_bytes sb) = 56"
  by (simp add: super_block_bytes_def super_block_words_def)

lemma write_blocks_splice:
  "bw_pos w + 4 * length ds \<le> length (bw_bytes w) \<Longrightarrow>
     write_blocks ds w = Some \<lparr>bw_bytes = put_at (bw_bytes w) (bw_pos w) (block_bytes ds),
       bw_pos = bw_pos w + 4 * length ds\<rparr>"
proof (induction ds arbitrary: w)
  case Nil
  then show ?case by (simp add: block_bytes_def put_at_def)
next
  case (Cons d ds)
  let ?b = "to_le_bytes 4 (raw_index d)"
  have "put_at (put_at (bw_bytes w) (bw_pos w) ?b) (bw_pos w + 4) (block_bytes ds) =
      put_at (bw_bytes w) (bw_pos w) (?b @ block_bytes ds)"
    using splice_adjacent [of "bw_pos w" ?b "block_bytes ds" "bw_bytes w"] Cons.prems by simp
  moreover have "block_bytes (d # ds) = ?b @ block_bytes ds" by (simp add: block_bytes_def)
  ultimately show ?case using Cons by (simp add: write_u32_splice to_block_def raw_index_def [symmetric] algebra_simps)
qed

lemma inode_write_to_splice:
  assumes "inode_wf i" and "off + 69 \<le> length buf"
  shows "inode_write_to i (bw_at buf off) = Some \<lparr>bw_bytes = put_at buf off (inode_bytes i), bw_pos = off + 69\<rparr>"
proof -
  let ?a = "to_le_bytes 4 (in_size i)" and ?b = "block_bytes (in_blocks i)"
  let ?c = "[dir_flag i]"
  have l: "length (in_blocks i) = 16" using assms(1) by (simp add: inode_wf_def)
  have "put_at (put_at buf off ?a) (off + 4) ?b = put_at buf off (?a @ ?b)"
    using splice_adjacent [of off ?a ?b buf] assms(2) l by simp
  moreover have "put_at (put_at buf off (?a @ ?b)) (off + 68) ?c = put_at buf off (inode_bytes i)"
    using splice_adjacent [of off "?a @ ?b" ?c buf] assms(2) l by (simp add: inode_bytes_def)
  ultimately show ?thesis
    using assms(2) l
    by (simp add: inode_write_to_def bw_at_def write_u32_splice write_blocks_splice write_u8_splice
        dir_flag_def [symmetric] add.commute)
qed

lemma read_blocks_at:
  "bytes_at (br_bytes r) (br_pos r) (block_bytes ds) \<Longrightarrow> list_all (\<lambda>d. d \<noteq> Some 0) ds \<Longrightarrow>
     read_blocks (length ds) r = Some (ds, r\<lparr>br_pos := br_pos r + 4 * length ds\<rparr>)"
proof (induction ds arbitrary: r)
  case (Cons d ds)
  let ?v = "raw_index d"
  have at: "bytes_at (br_bytes r) (br_pos r) (to_le_bytes 4 ?v)" "bytes_at (br_bytes r) (br_pos r + 4) (block_bytes ds)"
    using Cons.prems(1) by (simp_all add: block_bytes_def bytes_at_append)
  have "from_raw_unchecked ?v = d" using Cons.prems(2) by (auto simp: from_raw_unchecked_def nonzero_u32_def raw_index_def split: option.splits)
  then show ?case using Cons.IH [of "r\<lparr>br_pos := br_pos r + 4\<rparr>"] Cons.prems(2) at
    by (simp add: read_u32_at [OF at(1)] algebra_simps)
qed simp

lemma inode_read_from_at:
  assumes "inode_wf i" and "bytes_at buf off (inode_bytes i)"
  shows "inode_read_from (br_at buf off) = Some (i, br_at buf (off + 69))"
proof -
  have at: "bytes_at buf off (to_le_bytes 4 (in_size i))" "bytes_at buf (off + 4) (block_bytes (in_blocks i))"
    "bytes_at buf (off + 68) [dir_flag i]"
    using assms by (simp_all add: inode_bytes_def bytes_at_append inode_wf_def add.commute)
  have wf: "length (in_blocks i) = 16" "list_all (\<lambda>d. d \<noteq> Some 0) (in_blocks i)" using assms(1) by (simp_all add: inode_wf_def)
  have "read_blocks 16 \<lparr>br_bytes = buf, br_pos = off + 4\<rparr> = Some (in_blocks i, \<lparr>br_bytes = buf, br_pos = off + 68\<rparr>)"
    using read_blocks_at [of "\<lparr>br_bytes = buf, br_pos = off + 4\<rparr>" "in_blocks i"] at(2) wf by simp
  then show ?thesis using at(1,3)
    by (simp add: inode_read_from_def br_at_def read_u32_at read_u8_at) (simp add: dir_flag_def)
qed

lemma dir_entry_write_to_splice:
  assumes "dir_entry_wf e" and "off + 28 \<le> length buf"
  shows "dir_entry_write_to e (bw_at buf off) = Some \<lparr>bw_bytes = put_at buf off (dir_entry_bytes e), bw_pos = off + 28\<rparr>"
  using assms splice_adjacent [of off "de_name_bytes e" "to_le_bytes 4 (de_inode e)" buf]
  by (simp add: dir_entry_write_to_def bw_at_def write_bytes_splice write_u32_splice dir_entry_wf_def dir_entry_bytes_def)

lemma dir_entry_write_to_None:
  "length buf < off + 28 \<Longrightarrow> dir_entry_wf e \<Longrightarrow> dir_entry_write_to e (bw_at buf off) = None"
  by (auto simp: dir_entry_write_to_def bw_at_def write_bytes_def write_u32_def copy_to_slice_def dir_entry_wf_def
      split: Option.bind_splits if_splits)

lemma dir_entry_read_from_at:
  assumes "dir_entry_wf e" and "bytes_at buf off (dir_entry_bytes e)"
  shows "dir_entry_read_from (br_at buf off) = Some (e, br_at buf (off + 28))"
proof -
  have at: "bytes_at buf off (de_name_bytes e)" "bytes_at buf (off + 24) (to_le_bytes 4 (de_inode e))"
    using assms by (simp_all add: dir_entry_bytes_def bytes_at_append dir_entry_wf_def)
  have "read_bytes \<lparr>br_bytes = buf, br_pos = off\<rparr> 24 = Some (de_name_bytes e, \<lparr>br_bytes = buf, br_pos = off + 24\<rparr>)"
    using read_bytes_at [of "\<lparr>br_bytes = buf, br_pos = off\<rparr>" "de_name_bytes e"] at(1) assms(1)
    by (simp add: dir_entry_wf_def)
  then show ?thesis using at(2) by (simp add: dir_entry_read_from_def br_at_def read_u32_at)
qed

text \<open>The writer after it has written \<open>xs\<close> from the offset on, and a reader that has consumed \<open>n\<close> bytes.\<close>

definition wrote :: "bytes \<Rightarrow> usize \<Rightarrow> bytes \<Rightarrow> byte_writer" where
  "wrote buf off xs = \<lparr>bw_bytes = put_at buf off xs, bw_pos = off + length xs\<rparr>"

lemma write_u64_wrote: "off + 8 \<le> length buf \<Longrightarrow> write_u64 (bw_at buf off) v = Some (wrote buf off (to_le_bytes 8 v))"
  by (simp add: write_u64_splice bw_at_def wrote_def)

lemma write_u32_wrote:
  "off + length xs + 4 \<le> length buf \<Longrightarrow> write_u32 (wrote buf off xs) v = Some (wrote buf off (xs @ to_le_bytes 4 v))"
  using splice_adjacent [of off xs "to_le_bytes 4 v" buf] by (simp add: write_u32_splice wrote_def)

lemma super_block_write_to_splice:
  assumes "off + 56 \<le> length buf"
  shows "super_block_write_to sb (bw_at buf off) = Some (wrote buf off (super_block_bytes sb))"
  using assms
  by (simp add: super_block_write_to_def super_block_bytes_def super_block_words_def write_u64_wrote write_u32_wrote)

lemma read_u64_br: "bytes_at buf p (to_le_bytes 8 v) \<Longrightarrow> read_u64 (br_at buf p) = Some (v, br_at buf (p + 8))"
  by (simp add: read_u64_at br_at_def)

lemma read_u32_br: "bytes_at buf p (to_le_bytes 4 v) \<Longrightarrow> read_u32 (br_at buf p) = Some (v, br_at buf (p + 4))"
  by (simp add: read_u32_at br_at_def)

lemma super_block_read_from_at:
  assumes "bytes_at buf off (super_block_bytes sb)"
  shows "super_block_read_from (br_at buf off) = Some (sb, br_at buf (off + 56))"
proof -
  have at: "bytes_at buf off (to_le_bytes 8 (sb_magic sb))"
    "bytes_at buf (off + 8) (to_le_bytes 4 (sb_version sb))"
    "bytes_at buf (off + 12) (to_le_bytes 4 (sb_block_size sb))"
    "bytes_at buf (off + 16) (to_le_bytes 4 (sb_total_blocks sb))"
    "bytes_at buf (off + 20) (to_le_bytes 4 (sb_inode_count sb))"
    "bytes_at buf (off + 24) (to_le_bytes 4 (sb_inode_bitmap_start sb))"
    "bytes_at buf (off + 28) (to_le_bytes 4 (sb_inode_bitmap_blocks sb))"
    "bytes_at buf (off + 32) (to_le_bytes 4 (sb_data_bitmap_start sb))"
    "bytes_at buf (off + 36) (to_le_bytes 4 (sb_data_bitmap_blocks sb))"
    "bytes_at buf (off + 40) (to_le_bytes 4 (sb_inode_table_start sb))"
    "bytes_at buf (off + 44) (to_le_bytes 4 (sb_inode_table_blocks sb))"
    "bytes_at buf (off + 48) (to_le_bytes 4 (sb_data_start sb))"
    "bytes_at buf (off + 52) (to_le_bytes 4 (sb_data_blocks sb))"
    using assms by (simp_all add: super_block_bytes_def super_block_words_def bytes_at_append add.commute)
  note reads = at(1) [THEN read_u64_br] at(2-13) [THEN read_u32_br]
  show ?thesis by (simp add: super_block_read_from_def reads add.assoc del: One_nat_def)
qed

section \<open>Names\<close>

lemma dir_entry_new_wf [simp]: "dir_entry_wf (dir_entry_new name ino)"
  by (simp add: dir_entry_wf_def dir_entry_new_def Let_def)

lemma dir_entry_new_inode [simp]: "de_inode (dir_entry_new name ino) = ino"
  by (simp add: dir_entry_new_def Let_def)

lemma filter_all_id: "list_all P xs \<Longrightarrow> filter P xs = xs"
  by (induction xs) auto

lemma dir_entry_new_name:
  assumes "length name \<le> 24" and "valid_utf8 name" and "0 \<notin> set name"
  shows "de_name (dir_entry_new name ino) = name"
proof -
  have bytes: "de_name_bytes (dir_entry_new name ino) = name @ replicate (24 - length name) 0"
    using assms(1) by (simp add: dir_entry_new_def Let_def put_at_def min_def)
  have "filter (\<lambda>b. b \<noteq> 0) name = name" using assms(3) by (induction name) auto
  then show ?thesis using assms(2) by (simp add: de_name_def bytes Let_def)
qed

section \<open>Validation accepts exactly what formatting writes\<close>

lemma unat_u32_less: "unat (w :: u32) < 2 ^ 32"
  using unsigned_less [of w] by simp

lemma unat_as_u32: "n < 2 ^ 32 \<Longrightarrow> unat (as_u32 n) = n"
  by (simp add: as_u32_def unat_of_nat)

lemma claimed_from_layout:
  assumes "layout_ok l T n" and "T < 2 ^ 32"
  shows "claimed_layout (from_layout T n l) = l"
  using assms by (simp add: claimed_layout_def from_layout_def unat_as_u32 layout_ok_def)

lemma validate_Inr:
  assumes "validate sb T = Some (Inr l)"
  shows "T < 2 ^ 32" and "layout_new T (unat (sb_inode_count sb)) = Some (Some l)" and "l = claimed_layout sb"
    and "0 < unat (sb_inode_count sb)" and "sb_magic sb = MAGIC" and "sb_version sb = FILESYSTEM_VERSION"
    and "sb_block_size sb = 512" and "sb_total_blocks sb = as_u32 T"
proof -
  from assms have sb: "sb_magic sb = MAGIC" "sb_version sb = FILESYSTEM_VERSION" "unat (sb_block_size sb) = 512"
    "unat (sb_total_blocks sb) = T" "0 < unat (sb_inode_count sb)" "l = claimed_layout sb"
    "layout_new T (unat (sb_inode_count sb)) = Some (Some l)"
    by (auto simp: validate_def Let_def split: if_splits option.splits Option.bind_splits)
  then show "layout_new T (unat (sb_inode_count sb)) = Some (Some l)" "l = claimed_layout sb"
    "0 < unat (sb_inode_count sb)" "sb_magic sb = MAGIC" "sb_version sb = FILESYSTEM_VERSION" by simp_all
  show "T < 2 ^ 32" using sb(4) unat_u32_less [of "sb_total_blocks sb"] by simp
  show "sb_block_size sb = 512" using arg_cong [OF sb(3), of "word_of_nat :: nat \<Rightarrow> u32"] by simp
  show "sb_total_blocks sb = as_u32 T" using sb(4) by (simp add: as_u32_def flip: sb(4))
qed

lemma validate_from_layout:
  assumes "T < 2 ^ 32" and "0 < n" and "n < 2 ^ 32" and "layout_new T n = Some (Some l)"
  shows "validate (from_layout T n l) T = Some (Inr l)"
proof -
  note ok = layout_new_ok(1) [OF assms(1,3,4)]
  have small: "inode_bitmap_blocks l < 2 ^ 32" "data_bitmap_blocks l < 2 ^ 32" "inode_table_blocks l < 2 ^ 32"
    using ok assms(1) by (simp_all add: layout_ok_def)
  have cl: "claimed_layout (from_layout T n l) = l" by (rule claimed_from_layout [OF ok assms(1)])
  have sb: "sb_magic (from_layout T n l) = MAGIC" "sb_version (from_layout T n l) = FILESYSTEM_VERSION"
    "unat (sb_block_size (from_layout T n l)) = 512" "unat (sb_total_blocks (from_layout T n l)) = T"
    "unat (sb_inode_count (from_layout T n l)) = n"
    using assms by (simp_all add: from_layout_def unat_as_u32)
  show ?thesis
    using ok small assms(1,2,4)
    by (simp add: validate_def sb cl Let_def usize_defs bitmap_capacity_def capacity_below_def layout_ok_def)
qed

lemma super_block_eqI:
  assumes "sb_magic a = sb_magic b" and "super_block_words a = super_block_words b"
  shows "a = (b :: super_block)"
  using assms by (cases a; cases b) (simp add: super_block_words_def)

lemma as_u32_unat [simp]: "as_u32 (unat w) = w"
  by (simp add: as_u32_def)

section \<open>Properties\<close>

text \<open>
  C30: the on-disk formats round-trip. Writing an i-node or a directory entry into a block at an offset
  where it fits, and reading the block at that offset, gives the value back; every byte outside the
  69, respectively 28, encoded bytes is unchanged, so neighbouring structures in the block survive.
  The same holds for the 56 bytes of a superblock.
\<close>

theorem disk_format_roundtrip:
  assumes "inode_wf i" and "dir_entry_wf e" and "off + 72 \<le> length buf"
  shows "(\<exists>w. inode_write_to i (bw_at buf off) = Some w \<and> length (bw_bytes w) = length buf \<and>
      map_option fst (inode_read_from (br_at (bw_bytes w) off)) = Some i \<and>
      (\<forall>k < length buf. k < off \<or> off + 69 \<le> k \<longrightarrow> bw_bytes w ! k = buf ! k)) \<and>
    (\<exists>w. dir_entry_write_to e (bw_at buf off) = Some w \<and> length (bw_bytes w) = length buf \<and>
      map_option fst (dir_entry_read_from (br_at (bw_bytes w) off)) = Some e \<and>
      (\<forall>k < length buf. k < off \<or> off + 28 \<le> k \<longrightarrow> bw_bytes w ! k = buf ! k)) \<and>
    (\<exists>w. super_block_write_to sb (bw_at buf off) = Some w \<and> length (bw_bytes w) = length buf \<and>
      map_option fst (super_block_read_from (br_at (bw_bytes w) off)) = Some sb \<and>
      (\<forall>k < length buf. k < off \<or> off + 56 \<le> k \<longrightarrow> bw_bytes w ! k = buf ! k))"
proof -
  note len = length_inode_bytes [OF assms(1)] length_dir_entry_bytes [OF assms(2)] length_super_block_bytes [of sb]
  have at: "bytes_at (put_at buf off bs) off bs" if "length bs \<le> 72" for bs
    using that assms(3) by (intro bytes_at_splice) simp
  have i: "inode_write_to i (bw_at buf off) = Some \<lparr>bw_bytes = put_at buf off (inode_bytes i), bw_pos = off + 69\<rparr>"
    using assms by (intro inode_write_to_splice) simp_all
  have e: "dir_entry_write_to e (bw_at buf off) = Some \<lparr>bw_bytes = put_at buf off (dir_entry_bytes e), bw_pos = off + 28\<rparr>"
    using assms by (intro dir_entry_write_to_splice) simp_all
  have b: "super_block_write_to sb (bw_at buf off) = Some (wrote buf off (super_block_bytes sb))"
    using assms by (intro super_block_write_to_splice) simp
  show ?thesis
    using assms(3) inode_read_from_at [OF assms(1) at] dir_entry_read_from_at [OF assms(2) at]
      super_block_read_from_at [OF at]
    by (simp add: i e b wrote_def len nth_splice)
qed

theorem disk_format_roundtrip_witness:
  "inode_wf new_empty_directory \<and> dir_entry_wf (dir_entry_new [] 3) \<and>
   (\<exists>w. dir_entry_write_to (dir_entry_new [] 3) (bw_at (replicate 512 0) 84) = Some w \<and>
      map_option fst (dir_entry_read_from (br_at (bw_bytes w) 84)) = Some (dir_entry_new [] 3))"
proof -
  have wf: "inode_wf new_empty_directory" by (simp add: inode_wf_def new_empty_directory_def list_all_iff)
  have "84 + 72 \<le> length (replicate 512 (0 :: u8))" by simp
  from disk_format_roundtrip [OF wf dir_entry_new_wf [of "[]" 3] this, THEN conjunct2, THEN conjunct1] wf
  show ?thesis by auto
qed

text \<open>
  Mounting validates exactly. A superblock is accepted for a device of \<open>T\<close> blocks if and only if it
  is the superblock that formatting writes for the canonical layout of that device with some
  non-zero i-node count; every other content is refused with an error.
\<close>

theorem validate_exact:
  "validate sb T = Some (Inr l) \<longleftrightarrow>
     (\<exists>n. 0 < n \<and> n < 2 ^ 32 \<and> T < 2 ^ 32 \<and> layout_new T n = Some (Some l) \<and> sb = from_layout T n l)"
proof
  assume v: "validate sb T = Some (Inr l)"
  note sb = validate_Inr [OF v]
  have "super_block_words sb = super_block_words (from_layout T (unat (sb_inode_count sb)) l)"
    unfolding sb(3) by (simp add: super_block_words_def from_layout_def claimed_layout_def sb(6-8)) (simp add: as_u32_def)
  then have "sb = from_layout T (unat (sb_inode_count sb)) l"
    by (intro super_block_eqI) (simp_all add: sb(5) from_layout_def)
  then show "\<exists>n. 0 < n \<and> n < 2 ^ 32 \<and> T < 2 ^ 32 \<and> layout_new T n = Some (Some l) \<and> sb = from_layout T n l"
    using sb(1,2,4) unat_u32_less by blast
next
  assume "\<exists>n. 0 < n \<and> n < 2 ^ 32 \<and> T < 2 ^ 32 \<and> layout_new T n = Some (Some l) \<and> sb = from_layout T n l"
  then show "validate sb T = Some (Inr l)" using validate_from_layout by blast
qed

end
