(* ===== verification/Block_Device.thy ===== *)
theory Block_Device
  imports FS_Nodes
begin

text \<open>
  The block devices below the filesystem. The trait \<open>BlockDevice\<close> (\<open>filesystem/src/filesystem.rs\<close>) is a
  record of operations on a device state; every buffer the callers pass has exactly \<open>BLOCK_SIZE\<close> bytes
  and is filled completely, so \<open>read_block\<close> returns the new contents of the buffer. The ramdisk
  (\<open>src/ramdisk.rs\<close>) and the image file of \<open>mkfs\<close> implement the trait; the locale \<open>block_device\<close> states
  what the filesystem relies on.
\<close>

section \<open>The trait\<close>

record 'd block_device_ops =
  read_block :: "'d \<Rightarrow> block_index \<Rightarrow> (bytes \<times> 'd) panics"
  write_block :: "'d \<Rightarrow> block_index \<Rightarrow> bytes \<Rightarrow> 'd panics"
  total_blocks :: "'d \<Rightarrow> usize"

section \<open>The ramdisk\<close>

definition RAMDISK_SIZE :: usize where
  "RAMDISK_SIZE = 1024 * 1024"

type_synonym ramdisk = bytes

definition ramdisk_total_blocks :: usize where
  "ramdisk_total_blocks = RAMDISK_SIZE div BLOCK_SIZE"

definition ramdisk_read_block :: "ramdisk \<Rightarrow> block_index \<Rightarrow> bytes panics" where
  "ramdisk_read_block disk idx = do {
     let start = unat idx * BLOCK_SIZE;
     if start + BLOCK_SIZE > RAMDISK_SIZE then None
     else slice disk start (start + BLOCK_SIZE)
   }"

definition ramdisk_write_block :: "ramdisk \<Rightarrow> block_index \<Rightarrow> bytes \<Rightarrow> ramdisk panics" where
  "ramdisk_write_block disk idx data =
     (if length data \<noteq> BLOCK_SIZE then None
      else let start = unat idx * BLOCK_SIZE
           in if start + BLOCK_SIZE > RAMDISK_SIZE then None
              else copy_to_slice disk start (start + BLOCK_SIZE) data)"

definition ramdisk_reset :: "ramdisk \<Rightarrow> ramdisk" where
  "ramdisk_reset disk = replicate RAMDISK_SIZE 0"

definition ramdisk_device :: "ramdisk block_device_ops" where
  "ramdisk_device =
     \<lparr>read_block = (\<lambda>d i. map_option (\<lambda>b. (b, d)) (ramdisk_read_block d i)),
      write_block = ramdisk_write_block, total_blocks = (\<lambda>d. ramdisk_total_blocks)\<rparr>"

section \<open>The image file of mkfs\<close>

text \<open>
  A file opened for reading and writing: its bytes and its cursor. Seeking past the end is allowed,
  reading past it fails, writing past it extends the file with zeros.
\<close>

record file_block_device =
  fd_bytes :: bytes
  fd_cursor :: usize
  fd_total_blocks :: usize

definition file_seek :: "file_block_device \<Rightarrow> usize \<Rightarrow> file_block_device" where
  "file_seek f pos = f\<lparr>fd_cursor := pos\<rparr>"

definition file_read_exact :: "file_block_device \<Rightarrow> usize \<Rightarrow> (bytes \<times> file_block_device) panics" where
  "file_read_exact f n = do {
     bs \<leftarrow> slice (fd_bytes f) (fd_cursor f) (fd_cursor f + n);
     Some (bs, f\<lparr>fd_cursor := fd_cursor f + n\<rparr>)
   }"

definition file_write_all :: "file_block_device \<Rightarrow> bytes \<Rightarrow> file_block_device" where
  "file_write_all f data =
     (let padded = fd_bytes f @ replicate (fd_cursor f + length data - length (fd_bytes f)) 0
      in f\<lparr>fd_bytes := put_at padded (fd_cursor f) data, fd_cursor := fd_cursor f + length data\<rparr>)"

definition file_read_block :: "file_block_device \<Rightarrow> block_index \<Rightarrow> (bytes \<times> file_block_device) panics" where
  "file_read_block f idx = file_read_exact (file_seek f (unat idx * BLOCK_SIZE)) BLOCK_SIZE"

definition file_write_block :: "file_block_device \<Rightarrow> block_index \<Rightarrow> bytes \<Rightarrow> file_block_device panics" where
  "file_write_block f idx data = Some (file_write_all (file_seek f (unat idx * BLOCK_SIZE)) data)"

definition file_device :: "file_block_device block_device_ops" where
  "file_device = \<lparr>read_block = file_read_block, write_block = file_write_block, total_blocks = fd_total_blocks\<rparr>"

section \<open>The contract\<close>

text \<open>
  A device holds an array of blocks. Reading returns the addressed block and keeps the contents;
  writing replaces the addressed block and nothing else; the number of blocks is fixed.
\<close>

locale block_device =
  fixes D :: "'d block_device_ops"
    and blocks :: "'d \<Rightarrow> bytes list"
    and dev_ok :: "'d \<Rightarrow> bool"
  assumes block_size: "dev_ok d \<Longrightarrow> b \<in> set (blocks d) \<Longrightarrow> length b = 512"
    and total: "dev_ok d \<Longrightarrow> total_blocks D d = length (blocks d)"
    and read_law: "dev_ok d \<Longrightarrow> unat i < length (blocks d) \<Longrightarrow>
      \<exists>d'. read_block D d i = Some (blocks d ! unat i, d') \<and> dev_ok d' \<and> blocks d' = blocks d"
    and write_law: "dev_ok d \<Longrightarrow> unat i < length (blocks d) \<Longrightarrow> length data = 512 \<Longrightarrow>
      \<exists>d'. write_block D d i data = Some d' \<and> dev_ok d' \<and> blocks d' = (blocks d)[unat i := data]"
begin

lemma block_length: "dev_ok d \<Longrightarrow> k < length (blocks d) \<Longrightarrow> length (blocks d ! k) = 512"
  using block_size by simp

text \<open>A block that was written is read back; other blocks are unaffected.\<close>

lemma read_after_write:
  assumes "dev_ok d" and "unat i < length (blocks d)" and "unat j < length (blocks d)" and "length data = 512"
    and "write_block D d i data = Some d'"
  shows "\<exists>d''. read_block D d' j = Some (if i = j then data else blocks d ! unat j, d'')"
proof -
  from write_law [OF assms(1,2,4)] assms(5) have d': "dev_ok d'" "blocks d' = (blocks d)[unat i := data]" by auto
  from read_law [OF d'(1), of j] d'(2) assms(2,3) show ?thesis
    by (auto simp: nth_list_update)
qed

end

text \<open>The blocks of a byte array.\<close>

definition block_of :: "bytes \<Rightarrow> nat \<Rightarrow> bytes" where
  "block_of disk k = take 512 (drop (512 * k) disk)"

definition chunks :: "bytes \<Rightarrow> bytes list" where
  "chunks disk = map (block_of disk) [0..<length disk div 512]"

lemma length_block_of: "512 * Suc k \<le> length disk \<Longrightarrow> length (block_of disk k) = 512"
  by (simp add: block_of_def)

lemma chunks_nth: "k < length disk div 512 \<Longrightarrow> chunks disk ! k = block_of disk k"
  by (simp add: chunks_def)

lemma length_chunks [simp]: "length (chunks disk) = length disk div 512"
  by (simp add: chunks_def)

lemma chunk_bound: "k < n div 512 \<Longrightarrow> 512 * Suc k \<le> (n :: nat)"
proof -
  assume "k < n div 512"
  then have "512 * Suc k \<le> 512 * (n div 512)" by simp
  also have "\<dots> \<le> n" by simp
  finally show ?thesis .
qed

lemma chunks_size: "b \<in> set (chunks disk) \<Longrightarrow> length b = 512"
  by (auto simp: chunks_def length_block_of chunk_bound)

lemma slice_block: "k < length disk div 512 \<Longrightarrow> slice disk (k * 512) (k * 512 + 512) = Some (chunks disk ! k)"
  using chunk_bound [of k "length disk"] by (simp add: slice_def chunks_nth block_of_def mult.commute)

lemma chunks_put_at:
  assumes "k < length disk div 512" and "length data = 512"
  shows "chunks (put_at disk (k * 512) data) = (chunks disk)[k := data]"
proof (rule nth_equalityI)
  have fit: "k * 512 + length data \<le> length disk" using chunk_bound [OF assms(1)] assms(2) by simp
  then have len: "length (put_at disk (k * 512) data) = length disk" by simp
  then show "length (chunks (put_at disk (k * 512) data)) = length ((chunks disk)[k := data])" by simp
  fix j assume "j < length (chunks (put_at disk (k * 512) data))"
  then have j: "j < length disk div 512" using len by simp
  show "chunks (put_at disk (k * 512) data) ! j = (chunks disk)[k := data] ! j"
  proof (rule nth_equalityI)
    show "length (chunks (put_at disk (k * 512) data) ! j) = length ((chunks disk)[k := data] ! j)"
      using j len assms chunk_bound [OF j] by (simp add: chunks_nth length_block_of nth_list_update)
    fix i assume "i < length (chunks (put_at disk (k * 512) data) ! j)"
    then have i: "i < 512" using j len chunk_bound [OF j] by (simp add: chunks_nth length_block_of)
    have "512 * j + i < length disk" using chunk_bound [OF j] i by simp
    moreover have "k * 512 \<le> 512 * j + i \<and> 512 * j + i < k * 512 + 512 \<longleftrightarrow> j = k" using i by linarith
    ultimately show "chunks (put_at disk (k * 512) data) ! j ! i = (chunks disk)[k := data] ! j ! i"
      using i j len fit assms by (auto simp: chunks_nth block_of_def nth_splice nth_list_update)
  qed
qed

definition ramdisk_ok :: "ramdisk \<Rightarrow> bool" where
  "ramdisk_ok disk \<longleftrightarrow> length disk = RAMDISK_SIZE"

definition file_ok :: "file_block_device \<Rightarrow> bool" where
  "file_ok f \<longleftrightarrow> length (fd_bytes f) = fd_total_blocks f * 512"

interpretation ramdisk: block_device ramdisk_device chunks ramdisk_ok
proof unfold_locales
  fix d :: ramdisk and i :: block_index and b data :: bytes
  assume ok: "ramdisk_ok d"
  show "b \<in> set (chunks d) \<Longrightarrow> length b = 512" by (rule chunks_size)
  show "total_blocks ramdisk_device d = length (chunks d)"
    using ok by (simp add: ramdisk_device_def ramdisk_total_blocks_def ramdisk_ok_def)
  assume i: "unat i < length (chunks d)"
  then have fit: "unat i * 512 + 512 \<le> RAMDISK_SIZE"
    using ok chunk_bound [of "unat i" "length d"] by (simp add: ramdisk_ok_def)
  then show "\<exists>d'. read_block ramdisk_device d i = Some (chunks d ! unat i, d') \<and> ramdisk_ok d' \<and> chunks d' = chunks d"
    using ok i by (simp add: ramdisk_device_def ramdisk_read_block_def slice_block)
  assume "length data = 512"
  then show "\<exists>d'. write_block ramdisk_device d i data = Some d' \<and> ramdisk_ok d' \<and> chunks d' = (chunks d)[unat i := data]"
    using ok i fit chunks_put_at [of "unat i" d data]
    by (simp add: ramdisk_device_def ramdisk_write_block_def copy_to_slice_def ramdisk_ok_def)
qed

interpretation image: block_device file_device "\<lambda>f. chunks (fd_bytes f)" file_ok
proof unfold_locales
  fix f :: file_block_device and i :: block_index and b data :: bytes
  assume ok: "file_ok f"
  show "b \<in> set (chunks (fd_bytes f)) \<Longrightarrow> length b = 512" by (rule chunks_size)
  show "total_blocks file_device f = length (chunks (fd_bytes f))"
    using ok by (simp add: file_device_def file_ok_def)
  assume i: "unat i < length (chunks (fd_bytes f))"
  then have fit: "unat i * 512 + 512 \<le> length (fd_bytes f)"
    using chunk_bound [of "unat i" "length (fd_bytes f)"] by simp
  show "\<exists>d'. read_block file_device f i = Some (chunks (fd_bytes f) ! unat i, d') \<and> file_ok d' \<and>
      chunks (fd_bytes d') = chunks (fd_bytes f)"
    using ok i by (simp add: file_device_def file_read_block_def file_read_exact_def file_seek_def slice_block file_ok_def)
  assume "length data = 512"
  then show "\<exists>d'. write_block file_device f i data = Some d' \<and> file_ok d' \<and>
      chunks (fd_bytes d') = (chunks (fd_bytes f))[unat i := data]"
    using ok i fit chunks_put_at [of "unat i" "fd_bytes f" data]
    by (simp add: file_device_def file_write_block_def file_write_all_def file_seek_def file_ok_def Let_def)
qed

end
