(* ===== verification/INode_Cache.thy ===== *)
theory INode_Cache
  imports Block_Device Bitmap
begin

text \<open>
  The i-node cache (\<open>filesystem/src/inode_cache.rs\<close>): a write-back cache of decoded i-nodes with one
  dirty bit each. A mutable reference handed out by \<open>get_mut\<close> is the pair of the i-node read and a
  later \<open>cache_store\<close> of the i-node the caller leaves in its place.
\<close>

section \<open>Model\<close>

record inode_cache =
  ic_inodes :: "inode option list"
  ic_dirty :: bitmap
  ic_layout :: "fs_layout option"

definition cache_new :: "fs_layout \<Rightarrow> usize \<Rightarrow> inode_cache" where
  "cache_new layout inode_count = \<lparr>ic_inodes = [], ic_dirty = bitmap_new inode_count, ic_layout = Some layout\<rparr>"

definition cache_default :: inode_cache where
  "cache_default = \<lparr>ic_inodes = [], ic_dirty = \<lparr>bm_len = 0, bm_words = []\<rparr>, ic_layout = None\<rparr>"

definition read_from_disk ::
  "'d block_device_ops \<Rightarrow> inode_cache \<Rightarrow> inode_index \<Rightarrow> 'd \<Rightarrow> (inode \<times> 'd) panics" where
  "read_from_disk D cache index device = do {
     layout \<leftarrow> ic_layout cache;
     (block_index, byte_offset) \<leftarrow> inode_to_block layout index;
     (buf, device) \<leftarrow> read_block D device block_index;
     (inode, _) \<leftarrow> inode_read_from (br_at buf byte_offset);
     Some (inode, device)
   }"

definition resize_inodes :: "inode_cache \<Rightarrow> inode_index \<Rightarrow> inode_cache" where
  "resize_inodes cache index =
     (if length (ic_inodes cache) \<le> unat index
      then cache\<lparr>ic_inodes := ic_inodes cache @ replicate (unat index + 1 - length (ic_inodes cache)) None\<rparr>
      else cache)"

definition cache_store :: "inode_cache \<Rightarrow> inode_index \<Rightarrow> inode \<Rightarrow> inode_cache" where
  "cache_store cache index inode = cache\<lparr>ic_inodes := (ic_inodes cache)[unat index := Some inode]\<rparr>"

definition cache_get ::
  "'d block_device_ops \<Rightarrow> inode_cache \<Rightarrow> inode_index \<Rightarrow> 'd \<Rightarrow> (inode \<times> inode_cache \<times> 'd) panics" where
  "cache_get D cache index device =
     (let cache = resize_inodes cache index
      in case ic_inodes cache ! unat index of
           Some inode \<Rightarrow> Some (inode, cache, device)
         | None \<Rightarrow> do {
             (inode, device) \<leftarrow> read_from_disk D cache index device;
             Some (inode, cache_store cache index inode, device)
           })"

definition cache_get_mut ::
  "'d block_device_ops \<Rightarrow> inode_cache \<Rightarrow> inode_index \<Rightarrow> 'd \<Rightarrow> (inode \<times> inode_cache \<times> 'd) panics" where
  "cache_get_mut D cache index device = do {
     (inode, cache, device) \<leftarrow> cache_get D cache index device;
     dirty \<leftarrow> bitmap_set (ic_dirty cache) (unat index);
     Some (inode, cache\<lparr>ic_dirty := dirty\<rparr>, device)
   }"

definition cache_remove :: "inode_cache \<Rightarrow> inode_index \<Rightarrow> inode_cache panics" where
  "cache_remove cache index =
     (if unat index < length (ic_inodes cache) then do {
        let cache = cache\<lparr>ic_inodes := (ic_inodes cache)[unat index := None]\<rparr>;
        dirty \<leftarrow> bitmap_unset (ic_dirty cache) (unat index);
        Some (cache\<lparr>ic_dirty := dirty\<rparr>)
      } else None)"

definition register_new_inode :: "inode_cache \<Rightarrow> inode_index \<Rightarrow> inode \<Rightarrow> inode_cache" where
  "register_new_inode cache index inode = cache_store (resize_inodes cache index) index inode"

text \<open>\<open>drain\<close> run to its end: every dirty i-node with its index, and the cache with no dirty bit left.\<close>

fun drain_inodes :: "inode option list \<Rightarrow> usize list \<Rightarrow> (inode_index \<times> inode) list panics" where
  "drain_inodes inodes [] = Some []"
| "drain_inodes inodes (index # rest) = do {
     let idx = as_u32 index;
     slot \<leftarrow> (if unat idx < length inodes then Some (inodes ! unat idx) else None);
     inode \<leftarrow> slot;
     drained \<leftarrow> drain_inodes inodes rest;
     Some ((idx, inode) # drained)
   }"

definition cache_drain :: "inode_cache \<Rightarrow> ((inode_index \<times> inode) list \<times> inode_cache) panics" where
  "cache_drain cache = do {
     let (indices, dirty) = bitmap_drain_ones (ic_dirty cache);
     drained \<leftarrow> drain_inodes (ic_inodes cache) indices;
     Some (drained, cache\<lparr>ic_dirty := dirty\<rparr>)
   }"

end
