(* ===== verification/Filesystem.thy ===== *)
theory Filesystem
  imports INode_Cache
begin

text \<open>
  The filesystem proper (\<open>filesystem/src/filesystem.rs\<close>) on any block device. An operation takes the
  device's operations and the filesystem state; it returns the new state together with the \<open>Result\<close>
  of the code, because an operation that fails has still filled the cache or set a dirty bit. A
  missing value stands for a panic (or for \<open>Layout::new\<close> not returning).
\<close>

section \<open>State\<close>

record 'd filesystem =
  fs_device :: 'd
  fs_inode_bitmap :: bitmap
  fs_data_bitmap :: bitmap
  fs_inode_cache :: inode_cache
  fs_lay :: fs_layout

datatype entry_kind = EntryFile | EntryDirectory

record resolved_path =
  rp_parent :: inode_index
  rp_basename :: bytes
  rp_basename_inode :: inode_index

type_synonym ('d, 'a) fs_result = "('d filesystem \<times> (fs_error + 'a)) panics"

definition SLASH :: u8 where
  "SLASH = 47"

section \<open>Blocks and bitmaps\<close>

definition empty_block :: bytes where
  "empty_block = replicate BLOCK_SIZE 0"

definition modify_block ::
  "'d block_device_ops \<Rightarrow> 'd \<Rightarrow> block_index \<Rightarrow> (bytes \<Rightarrow> (bytes \<times> 'r) panics) \<Rightarrow> ('r \<times> 'd) panics" where
  "modify_block D dev index f = do {
     (buf, dev) \<leftarrow> read_block D dev index;
     (buf, result) \<leftarrow> f buf;
     dev \<leftarrow> write_block D dev index buf;
     Some (result, dev)
   }"

definition write_dir_entry_at :: "dir_entry \<Rightarrow> usize \<Rightarrow> bytes \<Rightarrow> (bytes \<times> unit) panics" where
  "write_dir_entry_at e offset buf = map_option (\<lambda>w. (bw_bytes w, ())) (dir_entry_write_to e (bw_at buf offset))"

definition write_inode_at :: "inode \<Rightarrow> usize \<Rightarrow> bytes \<Rightarrow> (bytes \<times> unit) panics" where
  "write_inode_at i offset buf = map_option (\<lambda>w. (bw_bytes w, ())) (inode_write_to i (bw_at buf offset))"

definition read_dir_entry_at :: "bytes \<Rightarrow> usize \<Rightarrow> dir_entry panics" where
  "read_dir_entry_at buf offset = map_option fst (dir_entry_read_from (br_at buf offset))"

definition clear_struct_at :: "bytes \<Rightarrow> usize \<Rightarrow> usize \<Rightarrow> bytes panics" where
  "clear_struct_at buf offset sz = copy_to_slice buf offset (offset + sz) (replicate sz 0)"

text \<open>\<open>chunks_exact(4)\<close> of a block, decoded, and the loop of \<open>read_bitmap\<close> over the blocks.\<close>

fun block_words :: "bytes \<Rightarrow> u32 list" where
  "block_words (a # b # c # d # rest) = from_le_bytes [a, b, c, d] # block_words rest"
| "block_words _ = []"

fun read_bitmap_loop ::
  "'d block_device_ops \<Rightarrow> 'd \<Rightarrow> usize \<Rightarrow> usize \<Rightarrow> usize list \<Rightarrow> u32 list \<Rightarrow> (u32 list \<times> 'd) panics" where
  "read_bitmap_loop D dev start word_count [] words = Some (words, dev)"
| "read_bitmap_loop D dev start word_count (offset # offsets) words = do {
     (buf, dev) \<leftarrow> read_block D dev (as_u32 (start + offset));
     remaining_words \<leftarrow> sub_usize word_count (length words);
     read_bitmap_loop D dev start word_count offsets (words @ take remaining_words (block_words buf))
   }"

definition read_bitmap ::
  "'d block_device_ops \<Rightarrow> 'd \<Rightarrow> usize \<Rightarrow> usize \<Rightarrow> usize \<Rightarrow> ('d \<times> (fs_error + bitmap)) panics" where
  "read_bitmap D dev start nblocks logical_len =
     (let word_count = div_ceil logical_len 32
      in case (checked_mul word_count 4, checked_mul nblocks BLOCK_SIZE) of
           (Some bytes_needed, Some region_bytes) \<Rightarrow>
             if bytes_needed > region_bytes then Some (dev, Inl InvalidSuperblock)
             else do {
               (words, dev) \<leftarrow>
                 read_bitmap_loop D dev start word_count [0..<div_ceil bytes_needed BLOCK_SIZE] [];
               Some (dev, map_err (\<lambda>_. InvalidSuperblock) (bitmap_from_words logical_len words))
             }
         | _ \<Rightarrow> Some (dev, Inl InvalidSuperblock))"

definition words_block :: "u32 list \<Rightarrow> bytes" where
  "words_block ws = put_at empty_block 0 (concat (map (to_le_bytes 4) ws))"

fun write_bitmap_loop ::
  "'d block_device_ops \<Rightarrow> 'd \<Rightarrow> usize \<Rightarrow> usize list \<Rightarrow> u32 list \<Rightarrow> (u32 list \<times> 'd) panics" where
  "write_bitmap_loop D dev start [] words = Some (words, dev)"
| "write_bitmap_loop D dev start (offset # offsets) words = do {
     dev \<leftarrow> write_block D dev (as_u32 (start + offset)) (words_block (take (BLOCK_SIZE div 4) words));
     write_bitmap_loop D dev start offsets (drop (BLOCK_SIZE div 4) words)
   }"

text \<open>The two \<open>debug_assert!\<close> are checks of the development build.\<close>

definition write_bitmap ::
  "'d block_device_ops \<Rightarrow> 'd \<Rightarrow> usize \<Rightarrow> usize \<Rightarrow> bitmap \<Rightarrow> 'd panics" where
  "write_bitmap D dev start nblocks b =
     (if length (bm_words b) * 4 \<le> nblocks * BLOCK_SIZE then do {
        (rest, dev) \<leftarrow> write_bitmap_loop D dev start [0..<nblocks] (bm_words b);
        if rest = [] then Some dev else None
      } else None)"

section \<open>I-nodes\<close>

definition lookup_inode ::
  "'d block_device_ops \<Rightarrow> 'd filesystem \<Rightarrow> inode_index \<Rightarrow> (inode \<times> 'd filesystem) panics" where
  "lookup_inode D fs index = do {
     (inode, cache, dev) \<leftarrow> cache_get D (fs_inode_cache fs) index (fs_device fs);
     Some (inode, fs\<lparr>fs_inode_cache := cache, fs_device := dev\<rparr>)
   }"

definition lookup_inode_mut ::
  "'d block_device_ops \<Rightarrow> 'd filesystem \<Rightarrow> inode_index \<Rightarrow> (inode \<times> 'd filesystem) panics" where
  "lookup_inode_mut D fs index = do {
     (inode, cache, dev) \<leftarrow> cache_get_mut D (fs_inode_cache fs) index (fs_device fs);
     Some (inode, fs\<lparr>fs_inode_cache := cache, fs_device := dev\<rparr>)
   }"

definition store_inode :: "'d filesystem \<Rightarrow> inode_index \<Rightarrow> inode \<Rightarrow> 'd filesystem" where
  "store_inode fs index inode = fs\<lparr>fs_inode_cache := cache_store (fs_inode_cache fs) index inode\<rparr>"

definition write_inode_to_disk ::
  "'d block_device_ops \<Rightarrow> 'd filesystem \<Rightarrow> inode_index \<Rightarrow> inode \<Rightarrow> 'd filesystem panics" where
  "write_inode_to_disk D fs index inode = do {
     (block_index, byte_offset) \<leftarrow> inode_to_block (fs_lay fs) index;
     (_, dev) \<leftarrow> modify_block D (fs_device fs) block_index (write_inode_at inode byte_offset);
     Some (fs\<lparr>fs_device := dev\<rparr>)
   }"

definition new_inode ::
  "'d block_device_ops \<Rightarrow> 'd filesystem \<Rightarrow> inode \<Rightarrow> (inode_index option \<times> 'd filesystem) panics" where
  "new_inode D fs inode =
     (case Option.bind (bitmap_find_free (fs_inode_bitmap fs)) try_into_u32 of
        None \<Rightarrow> Some (None, fs)
      | Some free \<Rightarrow> do {
          ibm \<leftarrow> bitmap_set (fs_inode_bitmap fs) (unat free);
          fs \<leftarrow> write_inode_to_disk D (fs\<lparr>fs_inode_bitmap := ibm\<rparr>) free inode;
          Some (Some free, fs\<lparr>fs_inode_cache := register_new_inode (fs_inode_cache fs) free inode\<rparr>)
        })"

section \<open>Directories\<close>

fun read_entries :: "bytes \<Rightarrow> nat list \<Rightarrow> dir_entry list panics" where
  "read_entries buf [] = Some []"
| "read_entries buf (i # is) = do {
     e \<leftarrow> read_dir_entry_at buf (i * DIR_ENTRY_SIZE);
     es \<leftarrow> read_entries buf is;
     Some (e # es)
   }"

fun read_dir_blocks ::
  "'d block_device_ops \<Rightarrow> 'd \<Rightarrow> block_index list \<Rightarrow> usize \<Rightarrow> dir_entry list \<Rightarrow> (dir_entry list \<times> 'd) panics" where
  "read_dir_blocks D dev [] max_items res = Some (res, dev)"
| "read_dir_blocks D dev (b # bs) max_items res = do {
     (buf, dev) \<leftarrow> read_block D dev b;
     room \<leftarrow> sub_usize max_items (length res);
     es \<leftarrow> read_entries buf [0..<min room DIR_ENTRY_PER_BLOCK];
     let res = res @ es;
     if length res = max_items then Some (res, dev) else read_dir_blocks D dev bs max_items res
   }"

definition read_dir_entry ::
  "'d block_device_ops \<Rightarrow> 'd filesystem \<Rightarrow> inode_index \<Rightarrow> (dir_entry list \<times> 'd filesystem) panics" where
  "read_dir_entry D fs index = do {
     (inode, fs) \<leftarrow> lookup_inode D fs index;
     if in_size inode = 0 \<or> \<not> in_is_directory inode then Some ([], fs)
     else do {
       max_items \<leftarrow> current_dir_entries inode;
       (res, dev) \<leftarrow> read_dir_blocks D (fs_device fs) (List.map_filter to_block (used_blocks inode)) max_items [];
       Some (res, fs\<lparr>fs_device := dev\<rparr>)
     }
   }"

definition byte_compare :: "bytes \<Rightarrow> bytes \<Rightarrow> bool" where
  "byte_compare s entry = (if entry \<noteq> [] \<and> hd entry = SLASH then s = tl entry else s = entry)"

definition find_entry :: "bytes \<Rightarrow> dir_entry list \<Rightarrow> dir_entry option" where
  "find_entry part entries = List.find (\<lambda>e. byte_compare part (de_name e)) entries"

text \<open>The loop over the parts of a path that \<open>resolve_path\<close> and \<open>new_dir_entry\<close> share.\<close>

fun walk_path ::
  "'d block_device_ops \<Rightarrow> 'd filesystem \<Rightarrow> inode_index \<Rightarrow> bytes list \<Rightarrow> ('d, inode_index) fs_result" where
  "walk_path D fs current [] = Some (fs, Inr current)"
| "walk_path D fs current (part # parts) = do {
     (entries, fs) \<leftarrow> read_dir_entry D fs current;
     case find_entry part entries of
       None \<Rightarrow> Some (fs, Inl NotFound)
     | Some next \<Rightarrow> do {
         (inode, fs) \<leftarrow> lookup_inode D fs (de_inode next);
         if \<not> in_is_directory inode then Some (fs, Inl NotADirectory)
         else walk_path D fs (de_inode next) parts
       }
   }"

definition path_parts :: "bytes \<Rightarrow> bytes list" where
  "path_parts path = filter (\<lambda>s. s \<noteq> []) (split_at_char SLASH path)"

definition resolve_path ::
  "'d block_device_ops \<Rightarrow> 'd filesystem \<Rightarrow> bytes \<Rightarrow> ('d, resolved_path) fs_result" where
  "resolve_path D fs path = do {
     let (dir, basename) = (case rsplit_once SLASH path of Some p \<Rightarrow> p | None \<Rightarrow> (path, path));
     (fs, r) \<leftarrow> walk_path D fs 0 (path_parts dir);
     case r of
       Inl e \<Rightarrow> Some (fs, Inl e)
     | Inr parent_dir \<Rightarrow> do {
         (entries, fs) \<leftarrow> read_dir_entry D fs parent_dir;
         Some (fs, case find_entry basename entries of
             None \<Rightarrow> Inl NotFound
           | Some file \<Rightarrow> Inr \<lparr>rp_parent = parent_dir, rp_basename = basename, rp_basename_inode = de_inode file\<rparr>)
       }
   }"

text \<open>
  The part that \<open>write_dir_entry\<close> and \<open>append_to_file\<close> share: attach a free data block to an empty slot.
  The result is the block to write, or the error, and the i-node and bitmap left behind.
\<close>

definition attach_block ::
  "'d filesystem \<Rightarrow> inode \<Rightarrow> usize \<Rightarrow> (('d filesystem \<times> inode) \<times> (fs_error + block_index)) panics" where
  "attach_block fs inode slot = do {
     d \<leftarrow> inode_block inode slot;
     if index_is_empty d then
       case bitmap_find_free (fs_data_bitmap fs) of
         None \<Rightarrow> Some ((fs, inode), Inl NoSpaceLeft)
       | Some free \<Rightarrow> do {
           idx \<leftarrow> layout_data_block (fs_lay fs) free;
           dbm \<leftarrow> bitmap_set (fs_data_bitmap fs) free;
           b \<leftarrow> to_block idx;
           Some ((fs\<lparr>fs_data_bitmap := dbm\<rparr>, set_inode_block inode slot idx), Inr b)
         }
     else do { b \<leftarrow> to_block d; Some ((fs, inode), Inr b) }
   }"

definition write_dir_entry ::
  "'d block_device_ops \<Rightarrow> 'd filesystem \<Rightarrow> dir_entry \<Rightarrow> inode_index \<Rightarrow> ('d, unit) fs_result" where
  "write_dir_entry D fs e index = do {
     (inode, fs) \<leftarrow> lookup_inode_mut D fs index;
     if \<not> in_is_directory inode then Some (fs, Inl NotADirectory)
     else do {
       let slot = inode_write_slot inode;
       case ws_block slot of
         None \<Rightarrow> Some (fs, Inl NoFreeInodeBlocks)
       | Some k \<Rightarrow> do {
           ((fs, inode), r) \<leftarrow> attach_block fs inode k;
           case r of
             Inl err \<Rightarrow> Some (fs, Inl err)
           | Inr b \<Rightarrow> do {
               (_, dev) \<leftarrow> modify_block D (fs_device fs) b (write_dir_entry_at e (ws_byte_offset slot));
               inode \<leftarrow> inode_advance inode DIR_ENTRY_SIZE;
               Some (store_inode (fs\<lparr>fs_device := dev\<rparr>) index inode, Inr ())
             }
         }
     }
   }"

text \<open>\<open>unwrap\<close> on a \<open>Result\<close>.\<close>

definition unwrap_result :: "('d, 'a) fs_result \<Rightarrow> ('a \<times> 'd filesystem) panics" where
  "unwrap_result x = do { (fs, r) \<leftarrow> x; case r of Inl _ \<Rightarrow> None | Inr v \<Rightarrow> Some (v, fs) }"

definition DOT :: bytes where
  "DOT = [46]"

definition DOTDOT :: bytes where
  "DOTDOT = [46, 46]"

definition new_dir_entry ::
  "'d block_device_ops \<Rightarrow> 'd filesystem \<Rightarrow> bytes \<Rightarrow> entry_kind \<Rightarrow> ('d, inode_index) fs_result" where
  "new_dir_entry D fs path kind =
     (let parts = path_parts path
      in if parts = [] then Some (fs, Inl EmptyName)
         else let name = last parts
         in if length name > 24 then Some (fs, Inl NameTooLong)
         else do {
           (fs, r) \<leftarrow> walk_path D fs 0 (butlast parts);
           case r of
             Inl e \<Rightarrow> Some (fs, Inl e)
           | Inr current \<Rightarrow> do {
               (parent_inode, fs) \<leftarrow> lookup_inode D fs current;
               if \<not> has_space parent_inode then Some (fs, Inl NoFreeInodeBlocks)
               else do {
                 (entries, fs) \<leftarrow> read_dir_entry D fs current;
                 if list_ex (\<lambda>e. byte_compare name (de_name e)) entries then Some (fs, Inl EntryExists)
                 else do {
                   (ino, fs) \<leftarrow> new_inode D fs
                     (case kind of EntryFile \<Rightarrow> new_empty_file | EntryDirectory \<Rightarrow> new_empty_directory);
                   case ino of
                     None \<Rightarrow> Some (fs, Inl NoFreeInodes)
                   | Some index \<Rightarrow> do {
                       (_, fs) \<leftarrow> unwrap_result (write_dir_entry D fs (dir_entry_new name index) current);
                       (case kind of
                          EntryFile \<Rightarrow> Some (fs, Inr index)
                        | EntryDirectory \<Rightarrow> do {
                            (_, fs) \<leftarrow> unwrap_result (write_dir_entry D fs (dir_entry_new DOT index) index);
                            (_, fs) \<leftarrow> unwrap_result (write_dir_entry D fs (dir_entry_new DOTDOT current) index);
                            Some (fs, Inr index)
                          })
                     }
                 }
               }
             }
         })"

definition mkdir where
  "mkdir D fs path = new_dir_entry D fs path EntryDirectory"

definition create_file where
  "create_file D fs path = new_dir_entry D fs path EntryFile"

definition create_empty_root ::
  "'d block_device_ops \<Rightarrow> 'd filesystem \<Rightarrow> 'd filesystem panics" where
  "create_empty_root D fs = do {
     (ino, fs) \<leftarrow> new_inode D fs new_empty_directory;
     root \<leftarrow> ino;
     (_, fs) \<leftarrow> unwrap_result (write_dir_entry D fs (dir_entry_new DOT root) root);
     (_, fs) \<leftarrow> unwrap_result (write_dir_entry D fs (dir_entry_new DOTDOT root) root);
     Some fs
   }"

section \<open>Removing an entry\<close>

text \<open>\<open>DirEntryReader\<close>: the iterator over the entries of a directory with their positions.\<close>

record dir_entry_reader =
  der_inode :: inode
  der_block_cursor :: usize
  der_buf :: bytes
  der_buf_pos :: usize
  der_buf_len :: usize
  der_total :: usize
  der_remaining :: usize

record position_dir_entry =
  pde_entry :: dir_entry
  pde_block_index :: block_index
  pde_byte_offset :: usize
  pde_logical_index :: usize

definition der_new :: "inode \<Rightarrow> dir_entry_reader panics" where
  "der_new inode = do {
     tot \<leftarrow> current_dir_entries inode;
     Some \<lparr>der_inode = inode, der_block_cursor = 0, der_buf = empty_block, der_buf_pos = 0, der_buf_len = 0,
           der_total = tot, der_remaining = tot\<rparr>
   }"

function load_next_block ::
  "'d block_device_ops \<Rightarrow> 'd \<Rightarrow> dir_entry_reader \<Rightarrow> (bool \<times> dir_entry_reader \<times> 'd) panics" where
  "load_next_block D dev r =
     (if der_block_cursor r < INODE_BLOCKS then
        case inode_block (der_inode r) (der_block_cursor r) of
          None \<Rightarrow> None
        | Some slot \<Rightarrow>
            (case to_block slot of
               Some b \<Rightarrow> do {
                 (buf, dev) \<leftarrow> read_block D dev b;
                 Some (True, r\<lparr>der_block_cursor := der_block_cursor r + 1, der_buf := buf, der_buf_pos := 0,
                               der_buf_len := min (der_remaining r) DIR_ENTRY_PER_BLOCK\<rparr>, dev)
               }
             | None \<Rightarrow> load_next_block D dev (r\<lparr>der_block_cursor := der_block_cursor r + 1\<rparr>))
      else Some (False, r, dev))"
  by pat_completeness auto
termination
  by (relation "measure (\<lambda>(D, dev, r). INODE_BLOCKS - der_block_cursor r)") auto

declare load_next_block.simps [simp del]

definition der_next ::
  "'d block_device_ops \<Rightarrow> 'd \<Rightarrow> dir_entry_reader \<Rightarrow>
     (position_dir_entry option \<times> dir_entry_reader \<times> 'd) panics" where
  "der_next D dev r =
     (if der_remaining r = 0 then Some (None, r, dev)
      else do {
        (loaded, r, dev) \<leftarrow>
          (if der_buf_pos r \<ge> der_buf_len r then load_next_block D dev r else Some (True, r, dev));
        if \<not> loaded then Some (None, r, dev)
        else do {
          e \<leftarrow> read_dir_entry_at (der_buf r) (der_buf_pos r * DIR_ENTRY_SIZE);
          let r = r\<lparr>der_buf_pos := der_buf_pos r + 1, der_remaining := der_remaining r - 1\<rparr>;
          cursor \<leftarrow> sub_usize (der_block_cursor r) 1;
          slot \<leftarrow> inode_block (der_inode r) cursor;
          Some (map_option (\<lambda>b. \<lparr>pde_entry = e, pde_block_index = b,
                  pde_byte_offset = (der_buf_pos r - 1) * DIR_ENTRY_SIZE,
                  pde_logical_index = der_total r - der_remaining r - 1\<rparr>) (to_block slot), r, dev)
        }
      })"

text \<open>
  \<open>find\<close> on the iterator. Each call of \<open>next\<close> that yields an entry lowers \<open>remaining\<close>, so the number of
  remaining entries bounds the search.
\<close>

fun der_find ::
  "'d block_device_ops \<Rightarrow> bytes \<Rightarrow> nat \<Rightarrow> 'd \<Rightarrow> dir_entry_reader \<Rightarrow> (position_dir_entry option \<times> 'd) panics" where
  "der_find D name 0 dev r = Some (None, dev)"
| "der_find D name (Suc n) dev r = do {
     (item, r, dev) \<leftarrow> der_next D dev r;
     case item of
       None \<Rightarrow> Some (None, dev)
     | Some p \<Rightarrow> if de_name (pde_entry p) = name then Some (Some p, dev) else der_find D name n dev r
   }"

definition take_entry_at :: "usize \<Rightarrow> bytes \<Rightarrow> (bytes \<times> dir_entry) panics" where
  "take_entry_at offset buf = do {
     e \<leftarrow> read_dir_entry_at buf offset;
     buf \<leftarrow> clear_struct_at buf offset DIR_ENTRY_SIZE;
     Some (buf, e)
   }"

text \<open>The loop that frees the blocks of the deleted i-node.\<close>

fun free_blocks_of ::
  "'d block_device_ops \<Rightarrow> 'd filesystem \<Rightarrow> data_block_index list \<Rightarrow> 'd filesystem panics" where
  "free_blocks_of D fs [] = Some fs"
| "free_blocks_of D fs (d # ds) = do {
     b \<leftarrow> to_block d;
     (_, dev) \<leftarrow> modify_block D (fs_device fs) b (\<lambda>buf. Some (empty_block, ()));
     i \<leftarrow> bitmap_index d (fs_lay fs);
     dbm \<leftarrow> bitmap_unset (fs_data_bitmap fs) i;
     free_blocks_of D (fs\<lparr>fs_device := dev, fs_data_bitmap := dbm\<rparr>) ds
   }"

text \<open>The tail of \<open>remove_dir_entry\<close>: shrink the parent, free the blocks and the i-node.\<close>

definition drop_last_block ::
  "'d block_device_ops \<Rightarrow> 'd filesystem \<Rightarrow> inode \<Rightarrow> inode_index \<Rightarrow> usize \<Rightarrow> 'd filesystem panics" where
  "drop_last_block D fs parent_inode parent slot = do {
     d \<leftarrow> inode_block parent_inode slot;
     i \<leftarrow> bitmap_index d (fs_lay fs);
     dbm \<leftarrow> bitmap_unset (fs_data_bitmap fs) i;
     (inode, fs) \<leftarrow> lookup_inode_mut D (fs\<lparr>fs_data_bitmap := dbm\<rparr>) parent;
     if slot < length (in_blocks inode) then Some (store_inode fs parent (set_inode_block inode slot None)) else None
   }"

definition release_inode ::
  "'d block_device_ops \<Rightarrow> 'd filesystem \<Rightarrow> inode_index \<Rightarrow> inode_index \<Rightarrow> inode \<Rightarrow> 'd filesystem panics" where
  "release_inode D fs parent index inode = do {
     (p, fs) \<leftarrow> lookup_inode_mut D fs parent;
     p \<leftarrow> inode_shrink p DIR_ENTRY_SIZE;
     fs \<leftarrow> free_blocks_of D (store_inode fs parent p) (used_blocks inode);
     ibm \<leftarrow> bitmap_unset (fs_inode_bitmap fs) (unat index);
     cache \<leftarrow> cache_remove (fs_inode_cache fs) index;
     Some (fs\<lparr>fs_inode_bitmap := ibm, fs_inode_cache := cache\<rparr>)
   }"

definition remove_dir_entry ::
  "'d block_device_ops \<Rightarrow> 'd filesystem \<Rightarrow> bytes \<Rightarrow> ('d, unit) fs_result" where
  "remove_dir_entry D fs path = do {
     (fs, r) \<leftarrow> resolve_path D fs path;
     case r of
       Inl e \<Rightarrow> Some (fs, Inl e)
     | Inr resolved \<Rightarrow> do {
         (to_remove_inode, fs) \<leftarrow> lookup_inode D fs (rp_basename_inode resolved);
         (parent_inode, fs) \<leftarrow> lookup_inode D fs (rp_parent resolved);
         if in_is_directory to_remove_inode then Some (fs, Inl OperationNotSupported)
         else do {
           num_parent_entries \<leftarrow> current_dir_entries parent_inode;
           reader \<leftarrow> der_new parent_inode;
           (found, dev) \<leftarrow> der_find D (rp_basename resolved) (der_total reader) (fs_device fs) reader;
           let fs = fs\<lparr>fs_device := dev\<rparr>;
           case found of
             None \<Rightarrow> Some (fs, Inl NotFound)
           | Some found \<Rightarrow> do {
               last \<leftarrow> sub_usize num_parent_entries 1;
               let last_block_slot = last div DIR_ENTRY_PER_BLOCK;
               let last_block_offset = last mod DIR_ENTRY_PER_BLOCK * DIR_ENTRY_SIZE;
               slot \<leftarrow> inode_block parent_inode last_block_slot;
               case to_block slot of
                 None \<Rightarrow> Some (fs, Inl NotFound)
               | Some last_block_index \<Rightarrow> do {
                   (last_entry, dev) \<leftarrow> modify_block D (fs_device fs) last_block_index (take_entry_at last_block_offset);
                   (_, dev) \<leftarrow> (if pde_logical_index found \<noteq> last
                     then modify_block D dev (pde_block_index found) (write_dir_entry_at last_entry (pde_byte_offset found))
                     else Some ((), dev));
                   let fs = fs\<lparr>fs_device := dev\<rparr>;
                   fs \<leftarrow> (if last mod DIR_ENTRY_PER_BLOCK = 0
                     then drop_last_block D fs parent_inode (rp_parent resolved) last_block_slot else Some fs);
                   fs \<leftarrow> release_inode D fs (rp_parent resolved) (rp_basename_inode resolved) to_remove_inode;
                   Some (fs, Inr ())
                 }
             }
         }
       }
   }"

section \<open>File contents\<close>

text \<open>
  The \<open>while\<close> loop of \<open>append_to_file\<close>: \<open>rest\<close> is what is still to be written. The i-node is a mutable
  reference into the cache, so it is returned on the error path as well.
\<close>

definition write_chunk_at :: "usize \<Rightarrow> bytes \<Rightarrow> bytes \<Rightarrow> (bytes \<times> unit) panics" where
  "write_chunk_at start data buf =
     map_option (\<lambda>b. (b, ())) (copy_to_slice buf start (start + length data) data)"

function append_loop ::
  "'d block_device_ops \<Rightarrow> 'd filesystem \<Rightarrow> inode \<Rightarrow> bytes \<Rightarrow> (('d filesystem \<times> inode) \<times> (fs_error + unit)) panics" where
  "append_loop D fs inode rest =
     (if rest = [] then Some ((fs, inode), Inr ())
      else
        let slot = inode_write_slot inode; n = min (length rest) (ws_capacity slot)
        in case ws_block slot of
             None \<Rightarrow> Some ((fs, inode), Inl FileTooLarge)
           | Some k \<Rightarrow> do {
               ((fs, inode), r) \<leftarrow> attach_block fs inode k;
               case r of
                 Inl err \<Rightarrow> Some ((fs, inode), Inl err)
               | Inr b \<Rightarrow> do {
                   (_, dev) \<leftarrow> modify_block D (fs_device fs) b (write_chunk_at (ws_byte_offset slot) (take n rest));
                   inode \<leftarrow> inode_advance inode n;
                   append_loop D (fs\<lparr>fs_device := dev\<rparr>) inode (drop n rest)
                 }
             })"
  by pat_completeness auto
termination
  by (relation "measure (\<lambda>(D, fs, inode, rest). length rest)") (auto simp: inode_write_slot_def Let_def)

declare append_loop.simps [simp del]

definition append_to_file ::
  "'d block_device_ops \<Rightarrow> 'd filesystem \<Rightarrow> bytes \<Rightarrow> bytes \<Rightarrow> ('d, usize) fs_result" where
  "append_to_file D fs path data = do {
     (fs, r) \<leftarrow> resolve_path D fs path;
     case r of
       Inl e \<Rightarrow> Some (fs, Inl e)
     | Inr resolved \<Rightarrow> do {
         (inode, fs) \<leftarrow> lookup_inode_mut D fs (rp_basename_inode resolved);
         if in_is_directory inode then Some (fs, Inl IsDirectory)
         else if unat (in_size inode) + length data > 16 * BLOCK_SIZE then Some (fs, Inl FileTooLarge)
         else do {
           ((fs, inode), r) \<leftarrow> append_loop D fs inode data;
           let fs = store_inode fs (rp_basename_inode resolved) inode;
           Some (fs, and_then r (\<lambda>_. Inr (length data)))
         }
       }
   }"

definition write_to_file where
  "write_to_file D fs path data = append_to_file D fs path data"

fun read_file_blocks ::
  "'d block_device_ops \<Rightarrow> 'd \<Rightarrow> data_block_index list \<Rightarrow> usize \<Rightarrow> bytes \<Rightarrow> (bytes \<times> 'd) panics" where
  "read_file_blocks D dev [] total_bytes out = Some (out, dev)"
| "read_file_blocks D dev (d # ds) total_bytes out = do {
     b \<leftarrow> to_block d;
     (buf, dev) \<leftarrow> read_block D dev b;
     let valid_bytes = min total_bytes BLOCK_SIZE;
     chunk \<leftarrow> slice buf 0 valid_bytes;
     if valid_utf8 chunk then read_file_blocks D dev ds (total_bytes - valid_bytes) (out @ chunk) else None
   }"

definition read_file ::
  "'d block_device_ops \<Rightarrow> 'd filesystem \<Rightarrow> bytes \<Rightarrow> ('d, bytes) fs_result" where
  "read_file D fs path = do {
     (fs, r) \<leftarrow> resolve_path D fs path;
     case r of
       Inl e \<Rightarrow> Some (fs, Inl e)
     | Inr resolved \<Rightarrow> do {
         (inode, fs) \<leftarrow> lookup_inode_mut D fs (rp_basename_inode resolved);
         if in_is_directory inode then Some (fs, Inl IsDirectory)
         else do {
           (out, dev) \<leftarrow> read_file_blocks D (fs_device fs) (used_blocks inode) (unat (in_size inode)) [];
           Some (fs\<lparr>fs_device := dev\<rparr>, Inr out)
         }
       }
   }"

section \<open>Mounting, formatting, flushing\<close>

definition read_superblock ::
  "'d block_device_ops \<Rightarrow> 'd \<Rightarrow> ('d \<times> (fs_error + super_block)) panics" where
  "read_superblock D dev =
     (if total_blocks D dev = 0 then Some (dev, Inl InvalidSuperblock)
      else do {
        (buf, dev) \<leftarrow> read_block D dev 0;
        head \<leftarrow> slice buf 0 SUPERBLOCK_ENCODED_SIZE;
        (sb, _) \<leftarrow> super_block_read_from (br_new head);
        Some (dev, Inr sb)
      })"

definition validate_root_inode ::
  "'d block_device_ops \<Rightarrow> 'd filesystem \<Rightarrow> ('d, unit) fs_result" where
  "validate_root_inode D fs = do {
     (index, offset) \<leftarrow> inode_to_block (fs_lay fs) 0;
     (buf, dev) \<leftarrow> read_block D (fs_device fs) index;
     (root, _) \<leftarrow> inode_read_from (br_at buf offset);
     Some (fs\<lparr>fs_device := dev\<rparr>, if \<not> in_is_directory root then Inl CorruptedRoot else Inr ())
   }"

definition filesystem_new :: "'d block_device_ops \<Rightarrow> 'd \<Rightarrow> (fs_error + 'd filesystem) panics" where
  "filesystem_new D dev = do {
     (dev, r) \<leftarrow> read_superblock D dev;
     case r of Inl e \<Rightarrow> Some (Inl e) | Inr sb \<Rightarrow> do {
     r \<leftarrow> validate sb (total_blocks D dev);
     case r of Inl e \<Rightarrow> Some (Inl e) | Inr layout \<Rightarrow> do {
     let inode_count = unat (sb_inode_count sb);
     (dev, r) \<leftarrow> read_bitmap D dev (inode_bitmap_start layout) (inode_bitmap_blocks layout) inode_count;
     case r of Inl e \<Rightarrow> Some (Inl e) | Inr ibm \<Rightarrow> do {
     (dev, r) \<leftarrow> read_bitmap D dev (data_bitmap_start layout) (data_bitmap_blocks layout) (data_blocks layout);
     case r of Inl e \<Rightarrow> Some (Inl e) | Inr dbm \<Rightarrow> do {
     (fs, r) \<leftarrow> validate_root_inode D \<lparr>fs_device = dev, fs_inode_bitmap = ibm, fs_data_bitmap = dbm,
       fs_inode_cache = cache_new layout inode_count, fs_lay = layout\<rparr>;
     Some (and_then r (\<lambda>_. Inr fs))
   }}}}}"

definition write_superblock ::
  "'d block_device_ops \<Rightarrow> 'd filesystem \<Rightarrow> super_block \<Rightarrow> 'd filesystem panics" where
  "write_superblock D fs sb = do {
     (_, dev) \<leftarrow> modify_block D (fs_device fs) 0 (\<lambda>buf. do {
       w \<leftarrow> super_block_write_to sb (bw_new (take SUPERBLOCK_ENCODED_SIZE empty_block));
       Some (bw_bytes w @ drop SUPERBLOCK_ENCODED_SIZE empty_block, ())
     });
     Some (fs\<lparr>fs_device := dev\<rparr>)
   }"

fun write_inodes ::
  "'d block_device_ops \<Rightarrow> 'd filesystem \<Rightarrow> (inode_index \<times> inode) list \<Rightarrow> 'd filesystem panics" where
  "write_inodes D fs [] = Some fs"
| "write_inodes D fs ((idx, inode) # rest) = do {
     fs \<leftarrow> write_inode_to_disk D fs idx inode;
     write_inodes D fs rest
   }"

definition flush :: "'d block_device_ops \<Rightarrow> 'd filesystem \<Rightarrow> 'd filesystem panics" where
  "flush D fs = do {
     let inode_cache = fs_inode_cache fs;
     let fs = fs\<lparr>fs_inode_cache := cache_default\<rparr>;
     (drained, inode_cache) \<leftarrow> cache_drain inode_cache;
     fs \<leftarrow> write_inodes D fs drained;
     let fs = fs\<lparr>fs_inode_cache := inode_cache\<rparr>;
     fs \<leftarrow> write_superblock D fs
       (from_layout (total_blocks D (fs_device fs)) (bm_len (fs_inode_bitmap fs)) (fs_lay fs));
     dev \<leftarrow> write_bitmap D (fs_device fs) (inode_bitmap_start (fs_lay fs)) (inode_bitmap_blocks (fs_lay fs))
       (fs_inode_bitmap fs);
     dev \<leftarrow> write_bitmap D dev (data_bitmap_start (fs_lay fs)) (data_bitmap_blocks (fs_lay fs)) (fs_data_bitmap fs);
     Some (fs\<lparr>fs_device := dev\<rparr>)
   }"

definition format :: "'d block_device_ops \<Rightarrow> 'd \<Rightarrow> ('d \<times> (fs_error + unit)) panics" where
  "format D dev =
     (case try_into_u32 (total_blocks D dev) of
        None \<Rightarrow> Some (dev, Inl DeviceTooSmall)
      | Some _ \<Rightarrow> do {
          r \<leftarrow> layout_new (total_blocks D dev) MAX_INODES;
          case r of
            None \<Rightarrow> Some (dev, Inl DeviceTooSmall)
          | Some layout \<Rightarrow> do {
              fs \<leftarrow> create_empty_root D
                \<lparr>fs_device = dev, fs_inode_bitmap = bitmap_new MAX_INODES,
                 fs_data_bitmap = bitmap_new (data_blocks layout),
                 fs_inode_cache = cache_new layout MAX_INODES, fs_lay = layout\<rparr>;
              fs \<leftarrow> flush D fs;
              Some (fs_device fs, Inr ())
            }
        })"

end
