(* ===== verification/Console_Text.thy ===== *)
theory Console_Text
  imports Kernel_Prelude
begin

text \<open>
  What the code uses of \<open>core::fmt\<close> and \<open>str\<close>: decimal and hexadecimal digits, padding to a width,
  \<open>trim\<close>, \<open>starts_with\<close> and \<open>str::parse::<usize>\<close>. Text is a list of bytes; a width counts characters,
  which are the bytes that do not continue a UTF-8 sequence.
\<close>

section \<open>Numbers\<close>

definition digit :: "nat \<Rightarrow> u8" where
  "digit d = of_nat (48 + d)"

fun fmt_dec :: "nat \<Rightarrow> bytes" where
  "fmt_dec n = (if n < 10 then [digit n] else fmt_dec (n div 10) @ [digit (n mod 10)])"

declare fmt_dec.simps [simp del]

definition hex_digit :: "bool \<Rightarrow> nat \<Rightarrow> u8" where
  "hex_digit upper d = (if d < 10 then of_nat (48 + d) else of_nat ((if upper then 55 else 87) + d))"

fun fmt_hex :: "bool \<Rightarrow> nat \<Rightarrow> bytes" where
  "fmt_hex upper n = (if n < 16 then [hex_digit upper n] else fmt_hex upper (n div 16) @ [hex_digit upper (n mod 16)])"

declare fmt_hex.simps [simp del]

definition fmt_zeros :: "nat \<Rightarrow> bytes \<Rightarrow> bytes" where
  "fmt_zeros w s = replicate (w - length s) 48 @ s"

definition char_count :: "bytes \<Rightarrow> nat" where
  "char_count s = length (filter (\<lambda>b. \<not> utf8_cont b) s)"

definition pad_left :: "nat \<Rightarrow> bytes \<Rightarrow> bytes" where
  "pad_left w s = replicate (w - char_count s) 32 @ s"

definition pad_right :: "nat \<Rightarrow> bytes \<Rightarrow> bytes" where
  "pad_right w s = s @ replicate (w - char_count s) 32"

text \<open>
  \<open>str::parse::<usize>\<close>: an optional plus sign and at least one decimal digit, in range.
\<close>

definition digit_value :: "u8 \<Rightarrow> nat option" where
  "digit_value b = (if 48 \<le> b \<and> b \<le> 57 then Some (unat b - 48) else None)"

fun parse_digits :: "nat \<Rightarrow> bytes \<Rightarrow> usize option" where
  "parse_digits acc [] = Some acc"
| "parse_digits acc (b # s) = do {
     d \<leftarrow> digit_value b;
     m \<leftarrow> checked_mul acc 10;
     n \<leftarrow> checked_add m d;
     parse_digits n s
   }"

definition parse_usize :: "bytes \<Rightarrow> usize option" where
  "parse_usize s =
     (case s of
        [] \<Rightarrow> None
      | b # t \<Rightarrow> if b = 43 then (if t = [] then None else parse_digits 0 t) else parse_digits 0 s)"

section \<open>Strings\<close>

definition starts_with :: "bytes \<Rightarrow> bytes \<Rightarrow> bool" where
  "starts_with s p \<longleftrightarrow> take (length p) s = p"

text \<open>
  White space of one byte, and of more: \<open>U+0085\<close>, \<open>U+00A0\<close>, \<open>U+1680\<close>, \<open>U+2000\<close> to \<open>U+200A\<close>, \<open>U+2028\<close>,
  \<open>U+2029\<close>, \<open>U+202F\<close>, \<open>U+205F\<close> and \<open>U+3000\<close>. The result is the number of bytes of the leading
  white-space character, or 0.
\<close>

definition leading_space :: "bytes \<Rightarrow> nat" where
  "leading_space s =
     (case s of
        [] \<Rightarrow> 0
      | a # t \<Rightarrow>
          if a = 32 \<or> (9 \<le> a \<and> a \<le> 13) then 1
          else if a = 0xC2 \<and> (take 1 t = [0x85] \<or> take 1 t = [0xA0]) then 2
          else if take 3 s = [0xE1, 0x9A, 0x80] \<or> take 3 s = [0xE2, 0x81, 0x9F] \<or> take 3 s = [0xE3, 0x80, 0x80] then 3
          else if a = 0xE2 \<and> take 1 t = [0x80] \<and> length t \<ge> 2 \<and>
               ((0x80 \<le> t ! 1 \<and> t ! 1 \<le> 0x8A) \<or> t ! 1 = 0xA8 \<or> t ! 1 = 0xA9 \<or> t ! 1 = 0xAF) then 3
          else 0)"

function trim_start :: "bytes \<Rightarrow> bytes" where
  "trim_start s = (if leading_space s = 0 then s else trim_start (drop (leading_space s) s))"
  by pat_completeness auto
termination
proof (relation "measure length")
  fix s assume "leading_space s \<noteq> 0"
  then have "s \<noteq> []" by (auto simp: leading_space_def)
  then show "(drop (leading_space s) s, s) \<in> measure length" using \<open>leading_space s \<noteq> 0\<close> by simp
qed simp

declare trim_start.simps [simp del]

text \<open>The last character: one byte that does not continue a sequence, with the continuations behind it.\<close>

definition last_char :: "bytes \<Rightarrow> bytes" where
  "last_char s = drop (length s - (length (takeWhile utf8_cont (rev s)) + 1)) s"

function trim_end :: "bytes \<Rightarrow> bytes" where
  "trim_end s =
     (if s \<noteq> [] \<and> leading_space (last_char s) = length (last_char s)
      then trim_end (take (length s - length (last_char s)) s) else s)"
  by pat_completeness auto
termination
proof (relation "measure length")
  fix s :: bytes assume "s \<noteq> [] \<and> leading_space (last_char s) = length (last_char s)"
  then show "(take (length s - length (last_char s)) s, s) \<in> measure length"
    by (cases s) (auto simp: last_char_def min_def)
qed simp

declare trim_end.simps [simp del]

definition trim :: "bytes \<Rightarrow> bytes" where
  "trim s = trim_end (trim_start s)"

definition join_spaces :: "bytes list \<Rightarrow> bytes" where
  "join_spaces parts = (case parts of [] \<Rightarrow> [] | p # ps \<Rightarrow> p @ concat (map (\<lambda>q. 32 # q) ps))"

section \<open>Lemmas\<close>

lemma unat_digit: "d < 10 \<Longrightarrow> unat (digit d) = 48 + d"
  unfolding digit_def by (subst unat_of_nat) simp

lemma digit_value_digit [simp]: "d < 10 \<Longrightarrow> digit_value (digit d) = Some d"
proof -
  assume "d < 10"
  then have "unat (digit d) = 48 + d" by (rule unat_digit)
  then show ?thesis using \<open>d < 10\<close> by (simp add: digit_value_def word_le_nat_alt)
qed

lemma parse_digits_append:
  "parse_digits acc (s @ t) = do { n \<leftarrow> parse_digits acc s; parse_digits n t }"
  by (induction acc s rule: parse_digits.induct) (auto split: bind_splits)

lemma parse_digits_fmt_dec: "n < usize_limit \<Longrightarrow> parse_digits 0 (fmt_dec n) = Some n"
proof (induction n rule: fmt_dec.induct)
  case (1 n)
  show ?case
  proof (cases "n < 10")
    case True
    then show ?thesis by (simp add: fmt_dec.simps checked_mul_def checked_add_def)
  next
    case False
    have "parse_digits 0 (fmt_dec (n div 10)) = Some (n div 10)" using 1 False by simp
    moreover have "n div 10 * 10 + n mod 10 = n" by simp
    then have "checked_mul (n div 10) 10 = Some (n div 10 * 10)" "checked_add (n div 10 * 10) (n mod 10) = Some n"
      using 1 by (auto simp: checked_mul_def)
    ultimately show ?thesis
      using False by (simp add: fmt_dec.simps [of n] parse_digits_append)
  qed
qed

lemma fmt_dec_bytes: "b \<in> set (fmt_dec n) \<Longrightarrow> 48 \<le> b \<and> b \<le> 57"
proof (induction n rule: fmt_dec.induct)
  case (1 n)
  have d: "48 \<le> digit k \<and> digit k \<le> 57" if "k < 10" for k
    using that by (simp add: word_le_nat_alt unat_digit)
  show ?case using 1 d [of n] d [of "n mod 10"] by (cases "n < 10") (auto simp: fmt_dec.simps [of n])
qed

lemma fmt_dec_nonempty [simp]: "fmt_dec n \<noteq> []"
  by (cases "n < 10") (simp_all add: fmt_dec.simps)

lemma parse_usize_fmt_dec: "n < usize_limit \<Longrightarrow> parse_usize (fmt_dec n) = Some n"
proof -
  assume n: "n < usize_limit"
  obtain b t where bt: "fmt_dec n = b # t" by (cases "fmt_dec n") auto
  then have "48 \<le> b" using fmt_dec_bytes [of b n] by simp
  then have "b \<noteq> 43" by auto
  then show ?thesis using parse_digits_fmt_dec [OF n] by (simp add: parse_usize_def bt)
qed

section \<open>Characters\<close>

text \<open>One encoded character: a byte that does not continue a sequence, then bytes that do.\<close>

definition utf8_char :: "bytes \<Rightarrow> bool" where
  "utf8_char ch \<longleftrightarrow> ch \<noteq> [] \<and> \<not> utf8_cont (hd ch) \<and> list_all utf8_cont (tl ch)"

lemma valid_utf8_first:
  assumes "valid_utf8 (a # s)"
  shows "\<exists>ch r. a # s = ch @ r \<and> utf8_char ch \<and> valid_utf8 r \<and> (\<forall>t. valid_utf8 t \<longrightarrow> valid_utf8 (ch @ t))"
proof -
  note v = assms [unfolded valid_utf8.simps]
  have nc: "\<not> utf8_cont a" if "a < 128 \<or> 194 \<le> a \<or> 224 \<le> a \<or> 240 \<le> a" using that by (auto simp: utf8_cont_def word_le_nat_alt word_less_nat_alt)
  consider "a < 128" | "\<not> a < 128" "194 \<le> a \<and> a < 224" | "\<not> a < 128" "\<not> (194 \<le> a \<and> a < 224)" "224 \<le> a \<and> a < 240"
    | "\<not> a < 128" "\<not> (194 \<le> a \<and> a < 224)" "\<not> (224 \<le> a \<and> a < 240)" "240 \<le> a \<and> a < 245"
    using v by argo
  then show ?thesis
  proof cases
    case 1
    then show ?thesis using v by - (rule exI [of _ "[a]"], rule exI [of _ s], simp add: utf8_char_def nc valid_utf8.simps(2) [of a] del: valid_utf8.simps(2))
  next
    case 2
    then obtain b r where "s = b # r" "utf8_cont b" "valid_utf8 r" using v by (auto split: list.splits)
    then show ?thesis using 2 by - (rule exI [of _ "[a, b]"], rule exI [of _ r], simp add: utf8_char_def nc valid_utf8.simps(2) [of a] del: valid_utf8.simps(2))
  next
    case 3
    then obtain b c r where "s = b # c # r" "utf8_cont b" "utf8_cont c" "(a = 224 \<longrightarrow> 160 \<le> b) \<and> (a = 237 \<longrightarrow> b < 160)" "valid_utf8 r"
      using v by (auto split: list.splits)
    then show ?thesis using 3 by - (rule exI [of _ "[a, b, c]"], rule exI [of _ r], auto simp: utf8_char_def nc valid_utf8.simps(2) [of a] simp del: valid_utf8.simps(2))
  next
    case 4
    then obtain b c d r where "s = b # c # d # r" "utf8_cont b" "utf8_cont c" "utf8_cont d"
        "(a = 240 \<longrightarrow> 144 \<le> b) \<and> (a = 244 \<longrightarrow> b < 144)" "valid_utf8 r"
      using v by (auto split: list.splits)
    then show ?thesis using 4 by - (rule exI [of _ "[a, b, c, d]"], rule exI [of _ r], auto simp: utf8_char_def nc valid_utf8.simps(2) [of a] simp del: valid_utf8.simps(2))
  qed
qed

lemma valid_utf8_append: "valid_utf8 s \<Longrightarrow> valid_utf8 t \<Longrightarrow> valid_utf8 (s @ t)"
proof (induction "length s" arbitrary: s rule: less_induct)
  case less
  show ?case
  proof (cases s)
    case (Cons a s')
    from valid_utf8_first [OF less.prems(1) [unfolded Cons]] obtain ch r where
      ch: "s = ch @ r" "utf8_char ch" "valid_utf8 r" "\<forall>t. valid_utf8 t \<longrightarrow> valid_utf8 (ch @ t)" by (auto simp: Cons)
    then have "valid_utf8 (r @ t)" using less by (intro less.hyps) (auto simp: utf8_char_def)
    then show ?thesis using ch by simp
  qed (use less in simp)
qed

lemma valid_utf8_last: "valid_utf8 s \<Longrightarrow> s \<noteq> [] \<Longrightarrow> \<exists>t ch. s = t @ ch \<and> utf8_char ch \<and> valid_utf8 t"
proof (induction "length s" arbitrary: s rule: less_induct)
  case less
  then obtain a s' where s: "s = a # s'" by (cases s) auto
  from valid_utf8_first [OF less.prems(1) [unfolded s]] obtain ch r where
    ch: "s = ch @ r" "utf8_char ch" "valid_utf8 r" "\<forall>t. valid_utf8 t \<longrightarrow> valid_utf8 (ch @ t)" by (auto simp: s)
  show ?case
  proof (cases "r = []")
    case True
    then show ?thesis using ch by (intro exI [of _ "[]"] exI [of _ ch]) simp
  next
    case False
    have "length r < length s" using ch(1,2) by (auto simp: utf8_char_def)
    from less.hyps [OF this ch(3) False] obtain t ch' where "r = t @ ch'" "utf8_char ch'" "valid_utf8 t" by blast
    then show ?thesis using ch by (intro exI [of _ "ch @ t"] exI [of _ ch']) simp
  qed
qed

lemma last_char_append: "utf8_char ch \<Longrightarrow> last_char (t @ ch) = ch"
proof -
  assume ch: "utf8_char ch"
  then obtain a s where s: "ch = a # s" "\<not> utf8_cont a" "list_all utf8_cont s" by (cases ch) (auto simp: utf8_char_def)
  then have "takeWhile utf8_cont (rev s @ a # rev t) = rev s @ takeWhile utf8_cont (a # rev t)"
    by (intro takeWhile_append2) (auto simp: list_all_iff)
  then have "takeWhile utf8_cont (rev (t @ ch)) = rev s" using s(1,2) by simp
  then show ?thesis by (simp add: last_char_def s(1))
qed

end
