(* ===== verification/FS_Output.thy ===== *)
theory FS_Output
  imports Filesystem Console_Text
begin

text \<open>
  The listings of the filesystem (\<open>dump_dir\<close>, \<open>tree\<close> and \<open>entry_display\<close> of
  \<open>filesystem/src/filesystem.rs\<close>). The writer they print to is the list of bytes written so far.
  \<open>tree\<close> descends into whatever directories the disk names, so it is a partial function: on a disk
  whose directories form a cycle the recursion does not end.
\<close>

section \<open>Listings\<close>

definition entry_display :: "inode \<Rightarrow> bytes \<Rightarrow> u8 \<times> bytes \<times> bytes" where
  "entry_display i name =
     (let type_char = (if in_is_directory i then 100 else 102);
          size_str = (if in_is_directory i then [45] else fmt_dec (unat (in_size i)));
          display_name = (if in_is_directory i then name @ [47] else name)
      in (type_char, size_str, display_name))"

definition NEWLINE :: bytes where
  "NEWLINE = [10]"

fun dump_entries ::
  "'d block_device_ops \<Rightarrow> 'd filesystem \<Rightarrow> dir_entry list \<Rightarrow> bytes \<Rightarrow> ('d filesystem \<times> bytes) panics" where
  "dump_entries D fs [] out = Some (fs, out)"
| "dump_entries D fs (e # es) out =
     (let name = de_name e
      in if name = [] then dump_entries D fs es out
         else do {
           (i, fs) \<leftarrow> lookup_inode D fs (de_inode e);
           let (type_char, size_str, display_name) = entry_display i name;
           dump_entries D fs es
             (out @ str_lit ''  '' @ [type_char] @ str_lit ''     ['' @ pad_left 3 (fmt_dec (unat (de_inode e))) @
              str_lit '']  '' @ pad_left 9 size_str @ str_lit ''  '' @ display_name @ NEWLINE)
         })"

definition dump_dir ::
  "'d block_device_ops \<Rightarrow> 'd filesystem \<Rightarrow> bytes \<Rightarrow> bytes \<Rightarrow> ('d, bytes) fs_result" where
  "dump_dir D fs path out = do {
     (fs, r) \<leftarrow> (if path = [SLASH] then Some (fs, Inr 0)
       else do {
         (fs, r) \<leftarrow> resolve_path D fs path;
         Some (fs, and_then r (\<lambda>p. Inr (rp_basename_inode p)))
       });
     case r of
       Inl e \<Rightarrow> Some (fs, Inl e)
     | Inr index \<Rightarrow> do {
         (i, fs) \<leftarrow> lookup_inode D fs index;
         if \<not> in_is_directory i then Some (fs, Inl NotADirectory)
         else do {
           (entries, fs) \<leftarrow> read_dir_entry D fs index;
           (fs, out) \<leftarrow> dump_entries D fs entries
             (out @ str_lit ''  TYPE  INODE       SIZE  NAME'' @ NEWLINE @
              str_lit ''  ----  -----  ---------  ----'' @ NEWLINE);
           Some (fs, Inr out)
         }
       }
   }"

definition visible :: "dir_entry list \<Rightarrow> dir_entry list" where
  "visible es = filter (\<lambda>e. \<not> starts_with (de_name e) [46]) es"

text \<open>The box-drawing characters of the connectors.\<close>

definition BOX_LAST :: bytes where
  "BOX_LAST = [0xE2, 0x94, 0x94, 0xE2, 0x94, 0x80, 0xE2, 0x94, 0x80, 32]"

definition BOX_MIDDLE :: bytes where
  "BOX_MIDDLE = [0xE2, 0x94, 0x9C, 0xE2, 0x94, 0x80, 0xE2, 0x94, 0x80, 32]"

definition BOX_LINE :: bytes where
  "BOX_LINE = [0xE2, 0x94, 0x82]"

text \<open>The recursion of \<open>inner\<close> over the children of one directory; the last child has no siblings left.\<close>

partial_function (option) tree_children ::
  "'d block_device_ops \<Rightarrow> bytes \<Rightarrow> dir_entry list \<Rightarrow> 'd filesystem \<Rightarrow> bytes \<Rightarrow> ('d filesystem \<times> bytes) option" where
  "tree_children D prefix es fs out =
     (case es of
        [] \<Rightarrow> Some (fs, out)
      | e # rest \<Rightarrow> do {
          let is_last = (rest = []);
          let connector = (if is_last then BOX_LAST else BOX_MIDDLE);
          (i, fs) \<leftarrow> lookup_inode D fs (de_inode e);
          let (type_char, size_str, name) = entry_display i (de_name e);
          let out = out @ prefix @ connector @ [type_char] @ str_lit ''  '' @ pad_left 9 size_str @
            str_lit ''  '' @ name @ NEWLINE;
          (fs, out) \<leftarrow> (if in_is_directory i then do {
              let child_prefix = prefix @ (if is_last then [32] else BOX_LINE) @ str_lit ''   '';
              (children, fs) \<leftarrow> read_dir_entry D fs (de_inode e);
              tree_children D child_prefix (visible children) fs out
            } else Some (fs, out));
          tree_children D prefix rest fs out
        })"

definition tree :: "'d block_device_ops \<Rightarrow> 'd filesystem \<Rightarrow> bytes \<Rightarrow> ('d filesystem \<times> bytes) panics" where
  "tree D fs out = do {
     let out = out @ [47] @ NEWLINE;
     (entries, fs) \<leftarrow> read_dir_entry D fs 0;
     tree_children D [] (visible entries) fs out
   }"

declare tree_children.simps [code]

end
