(* ===== verification/Klog.thy ===== *)
theory Klog
  imports FS_Output
begin

text \<open>
  The kernel log (\<open>src/klog.rs\<close>): log lines are formatted into a string of fixed capacity on the stack and
  sent to the VirtIO console, or kept in the early buffer until the console exists. The console is the
  list of byte strings it was sent, missing before \<open>init_console\<close>. \<open>console_write\<close> is in
  \<open>src/virtio2.rs\<close>; what the driver does with the bytes is outside.
\<close>

section \<open>Early buffer\<close>

definition EARLY_CAPACITY :: usize where
  "EARLY_CAPACITY = 2048"

record early_buffer =
  eb_buf :: bytes
  eb_len :: usize

definition early_new :: early_buffer where
  "early_new = \<lparr>eb_buf = replicate EARLY_CAPACITY 0, eb_len = 0\<rparr>"

definition early_append :: "early_buffer \<Rightarrow> bytes \<Rightarrow> early_buffer panics" where
  "early_append e bs = do {
     let len = length bs;
     n \<leftarrow> add_usize (eb_len e) len;
     if n > EARLY_CAPACITY then Some e
     else do {
       buf \<leftarrow> copy_to_slice (eb_buf e) (eb_len e) n bs;
       Some \<lparr>eb_buf = buf, eb_len = n\<rparr>
     }
   }"

definition early_bytes :: "early_buffer \<Rightarrow> bytes panics" where
  "early_bytes e = slice (eb_buf e) 0 (eb_len e)"

section \<open>Stack strings\<close>

record stack_string =
  ss_buf :: bytes
  ss_len :: usize

definition stack_string_new :: "usize \<Rightarrow> stack_string" where
  "stack_string_new n = \<lparr>ss_buf = replicate n 0, ss_len = 0\<rparr>"

definition stack_string_bytes :: "stack_string \<Rightarrow> bytes panics" where
  "stack_string_bytes s = slice (ss_buf s) 0 (ss_len s)"

text \<open>\<open>write_str\<close>: what does not fit is cut off, and the write still succeeds.\<close>

definition stack_write_str :: "stack_string \<Rightarrow> bytes \<Rightarrow> stack_string panics" where
  "stack_write_str s str = do {
     remaining \<leftarrow> sub_usize (length (ss_buf s)) (ss_len s);
     let to_copy = min (length str) remaining;
     part \<leftarrow> slice str 0 to_copy;
     buf \<leftarrow> copy_to_slice (ss_buf s) (ss_len s) (ss_len s + to_copy) part;
     Some \<lparr>ss_buf = buf, ss_len = ss_len s + to_copy\<rparr>
   }"

text \<open>\<open>write_fmt\<close> calls \<open>write_str\<close> for one piece after the other.\<close>

fun stack_write_all :: "stack_string \<Rightarrow> bytes list \<Rightarrow> stack_string panics" where
  "stack_write_all s [] = Some s"
| "stack_write_all s (p # ps) = do { s \<leftarrow> stack_write_str s p; stack_write_all s ps }"

section \<open>Log lines\<close>

definition any_prefix :: "bytes \<Rightarrow> string list \<Rightarrow> bool" where
  "any_prefix target ps = list_ex (\<lambda>p. starts_with target (str_lit p)) ps"

text \<open>\<open>trim_start_matches\<close> removes the prefix as often as it occurs.\<close>

function trim_start_matches :: "bytes \<Rightarrow> bytes \<Rightarrow> bytes" where
  "trim_start_matches s p = (if p \<noteq> [] \<and> starts_with s p then trim_start_matches (drop (length p) s) p else s)"
  by pat_completeness auto
termination
proof (relation "measure (\<lambda>(s, p). length s)")
  fix s p :: bytes assume "p \<noteq> [] \<and> starts_with s p"
  then have "p \<noteq> []" "s \<noteq> []" by (auto simp: starts_with_def)
  then show "((drop (length p) s, p), s, p) \<in> measure (\<lambda>(s, p). length s)" by simp
qed simp

declare trim_start_matches.simps [simp del]

definition module_prefix :: "bytes \<Rightarrow> bytes" where
  "module_prefix target =
     (if any_prefix target [''lemon_shark::filesystem'', ''filesystem''] then str_lit ''fs''
      else if any_prefix target [''lemon_shark::allocator'', ''allocator''] then str_lit ''alloc''
      else if any_prefix target [''lemon_shark::virtio'', ''virtio_drivers''] then str_lit ''virtio''
      else if any_prefix target [''lemon_shark::trap_handler''] then str_lit ''trap''
      else if any_prefix target [''lemon_shark::interrupts''] then str_lit ''irq''
      else if any_prefix target [''lemon_shark::device_tree''] then str_lit ''dtb''
      else if any_prefix target [''lemon_shark::shell''] then str_lit ''shell''
      else if any_prefix target [''lemon_shark::timer''] then str_lit ''timer''
      else if any_prefix target [''lemon_shark::klog''] then str_lit ''klog''
      else if any_prefix target [''lemon_shark::page_frame_allocator''] then str_lit ''pfa''
      else trim_start_matches target (str_lit ''lemon_shark::''))"

datatype log_level = Error | Warn | Info | Debug | Trace

fun level_text :: "log_level \<Rightarrow> bytes" where
  "level_text Error = str_lit ''ERROR''"
| "level_text Warn = str_lit ''WARN''"
| "level_text Info = str_lit ''INFO''"
| "level_text Debug = str_lit ''DEBUG''"
| "level_text Trace = str_lit ''TRACE''"

fun level_colour :: "log_level \<Rightarrow> bytes \<times> bytes" where
  "level_colour Error = (27 # str_lit ''[31m'', 27 # str_lit ''[0m'')"
| "level_colour Warn = (27 # str_lit ''[33m'', 27 # str_lit ''[0m'')"
| "level_colour _ = ([], [])"

text \<open>The pieces of a line: \<open>args\<close> is the message, in the pieces its own formatting produces.\<close>

definition log_pieces :: "log_level \<Rightarrow> bytes \<Rightarrow> bytes list \<Rightarrow> bytes list" where
  "log_pieces level target args =
     (let (pre, post) = level_colour level
      in [pre, str_lit ''['', pad_right 5 (level_text level), str_lit '' '', pad_right 8 (module_prefix target), str_lit ''] ''] @
         args @ [post, NEWLINE])"

section \<open>The logger\<close>

record klog_state =
  kl_console :: "bytes list option"
  kl_early :: early_buffer

definition console_write :: "klog_state \<Rightarrow> bytes \<Rightarrow> bool \<times> klog_state" where
  "console_write k bs =
     (case kl_console k of
        Some sent \<Rightarrow> (True, k\<lparr>kl_console := Some (sent @ [bs])\<rparr>)
      | None \<Rightarrow> (False, k))"

definition klog_log :: "klog_state \<Rightarrow> log_level \<Rightarrow> bytes \<Rightarrow> bytes list \<Rightarrow> klog_state panics" where
  "klog_log k level target args = do {
     buf \<leftarrow> stack_write_all (stack_string_new 512) (log_pieces level target args);
     line \<leftarrow> stack_string_bytes buf;
     let (written, k) = console_write k line;
     if written then Some k
     else do { e \<leftarrow> early_append (kl_early k) line; Some (k\<lparr>kl_early := e\<rparr>) }
   }"

definition flush_early_buffer :: "klog_state \<Rightarrow> klog_state panics" where
  "flush_early_buffer k = do { bs \<leftarrow> early_bytes (kl_early k); Some (snd (console_write k bs)) }"

text \<open>The end of \<open>init_console\<close>: a console device was found.\<close>

definition console_found :: "klog_state \<Rightarrow> klog_state panics" where
  "console_found k = flush_early_buffer (k\<lparr>kl_console := Some []\<rparr>)"

section \<open>Properties\<close>

text \<open>The text a line carries, and the early lines that fit one after the other.\<close>

definition log_line :: "log_level \<times> bytes \<times> bytes list \<Rightarrow> bytes" where
  "log_line = (\<lambda>(level, target, args). take 512 (concat (log_pieces level target args)))"

definition keep_line :: "bytes \<Rightarrow> bytes \<Rightarrow> bytes" where
  "keep_line acc line = (if length acc + length line > 2048 then acc else acc @ line)"

fun log_all :: "klog_state \<Rightarrow> (log_level \<times> bytes \<times> bytes list) list \<Rightarrow> klog_state panics" where
  "log_all k [] = Some k"
| "log_all k ((level, target, args) # ms) = do { k \<leftarrow> klog_log k level target args; log_all k ms }"

definition ss_holds :: "usize \<Rightarrow> stack_string \<Rightarrow> bytes \<Rightarrow> bool" where
  "ss_holds n s bs \<longleftrightarrow> length (ss_buf s) = n \<and> ss_len s = length bs \<and> length bs \<le> n \<and> take (length bs) (ss_buf s) = bs"

definition eb_holds :: "early_buffer \<Rightarrow> bytes \<Rightarrow> bool" where
  "eb_holds e bs \<longleftrightarrow> length (eb_buf e) = 2048 \<and> eb_len e = length bs \<and> length bs \<le> 2048 \<and> take (length bs) (eb_buf e) = bs"

lemma take_put_at: "a + length vs \<le> length buf \<Longrightarrow> take (a + length vs) (put_at buf a vs) = take a buf @ vs"
  by (simp add: put_at_def)

lemma length_put_at: "a + length vs \<le> length buf \<Longrightarrow> length (put_at buf a vs) = length buf"
  by (simp add: put_at_def)

lemma stack_write_str_holds:
  assumes "ss_holds n s bs"
  shows "\<exists>s'. stack_write_str s str = Some s' \<and> ss_holds n s' (take n (bs @ str))"
proof -
  let ?c = "min (length str) (n - length bs)"
  have le: "length bs + ?c \<le> n" using assms by (auto simp: ss_holds_def)
  have "take n (bs @ str) = bs @ take ?c str" using assms by (auto simp: ss_holds_def min_def)
  moreover have "take (length bs + ?c) (put_at (ss_buf s) (length bs) (take ?c str)) = bs @ take ?c str"
    using take_put_at [of "length bs" "take ?c str" "ss_buf s"] le assms by (simp add: ss_holds_def min_absorb2)
  moreover have "length (put_at (ss_buf s) (length bs) (take ?c str)) = n"
    using length_put_at [of "length bs" "take ?c str" "ss_buf s"] le assms by (simp add: ss_holds_def min_absorb2)
  ultimately show ?thesis
    using assms le by (simp add: stack_write_str_def ss_holds_def sub_usize_def slice_def copy_to_slice_def min_absorb2 Let_def)
qed

lemma take_cut: "take n (take n xs @ ys) = take n (xs @ ys)"
  by (cases "length xs \<le> n") simp_all

lemma stack_write_all_holds:
  "ss_holds n s bs \<Longrightarrow> \<exists>s'. stack_write_all s ps = Some s' \<and> ss_holds n s' (take n (bs @ concat ps))"
proof (induction ps arbitrary: s bs)
  case (Cons p ps)
  from stack_write_str_holds [OF Cons.prems, of p] obtain s' where s': "stack_write_str s p = Some s'" "ss_holds n s' (take n (bs @ p))" by blast
  have "take n (take n (bs @ p) @ concat ps) = take n ((bs @ p) @ concat ps)" by (rule take_cut)
  then show ?case using Cons.IH [OF s'(2)] s'(1) by simp
qed (simp add: ss_holds_def)

lemma log_line_written:
  "\<exists>s. stack_write_all (stack_string_new 512) (log_pieces level target args) = Some s \<and>
     stack_string_bytes s = Some (log_line (level, target, args))"
proof -
  have "ss_holds 512 (stack_string_new 512) []" by (simp add: ss_holds_def stack_string_new_def)
  from stack_write_all_holds [OF this, of "log_pieces level target args"] show ?thesis
    by (auto simp: ss_holds_def stack_string_bytes_def slice_def log_line_def)
qed

lemma early_append_holds:
  assumes "eb_holds e bs" and "length line \<le> 512"
  shows "\<exists>e'. early_append e line = Some e' \<and> eb_holds e' (keep_line bs line)"
proof -
  have e: "length (eb_buf e) = 2048" "eb_len e = length bs" "length bs \<le> 2048" "take (length bs) (eb_buf e) = bs"
    using assms(1) by (simp_all add: eb_holds_def)
  have add: "add_usize (length bs) (length line) = Some (length bs + length line)" using e(3) assms(2) by (simp add: add_usize_def)
  show ?thesis
  proof (cases "length bs + length line > 2048")
    case True
    then show ?thesis using add e assms(1) by (simp add: early_append_def add_usize_def keep_line_def EARLY_CAPACITY_def)
  next
    case False
    then have "eb_holds \<lparr>eb_buf = put_at (eb_buf e) (length bs) line, eb_len = length bs + length line\<rparr> (bs @ line)"
      using e take_put_at [of "length bs" line "eb_buf e"] length_put_at [of "length bs" line "eb_buf e"] by (simp add: eb_holds_def)
    then show ?thesis using False add e by (simp add: early_append_def add_usize_def keep_line_def EARLY_CAPACITY_def copy_to_slice_def)
  qed
qed

lemma log_all_early:
  assumes "kl_console k = None" and "eb_holds (kl_early k) bs"
  shows "\<exists>k'. log_all k ms = Some k' \<and> kl_console k' = None \<and> eb_holds (kl_early k') (fold (\<lambda>m acc. keep_line acc (log_line m)) ms bs)"
  using assms
proof (induction ms arbitrary: k bs)
  case (Cons m ms)
  obtain level target args where m: "m = (level, target, args)" by (cases m)
  from log_line_written [of level target args] obtain s where
    s: "stack_write_all (stack_string_new 512) (log_pieces level target args) = Some s" "stack_string_bytes s = Some (log_line m)" by (auto simp: m)
  have "length (log_line m) \<le> 512" by (simp add: log_line_def m)
  from early_append_holds [OF Cons.prems(2) this] obtain e where
    e: "early_append (kl_early k) (log_line m) = Some e" "eb_holds e (keep_line bs (log_line m))" by blast
  have "klog_log k level target args = Some (k\<lparr>kl_early := e\<rparr>)"
    using s e(1) Cons.prems(1) by (simp add: klog_log_def console_write_def)
  then show ?case using Cons.IH [of "k\<lparr>kl_early := e\<rparr>" "keep_line bs (log_line m)"] Cons.prems(1) e(2) by (auto simp: m)
qed simp

lemma log_all_console:
  "kl_console k = Some sent \<Longrightarrow> \<exists>k'. log_all k ms = Some k' \<and> kl_console k' = Some (sent @ map log_line ms)"
proof (induction ms arbitrary: k sent)
  case (Cons m ms)
  obtain level target args where m: "m = (level, target, args)" by (cases m)
  from log_line_written [of level target args] obtain s where
    s: "stack_write_all (stack_string_new 512) (log_pieces level target args) = Some s" "stack_string_bytes s = Some (log_line m)" by (auto simp: m)
  have "klog_log k level target args = Some (k\<lparr>kl_console := Some (sent @ [log_line m])\<rparr>)"
    using s Cons.prems by (simp add: klog_log_def console_write_def)
  then show ?case using Cons.IH [of "k\<lparr>kl_console := Some (sent @ [log_line m])\<rparr>" "sent @ [log_line m]"] by (auto simp: m)
qed simp

lemma keep_bound: "length bs \<le> 2048 \<Longrightarrow> length (fold (\<lambda>m acc. keep_line acc (log_line m)) ms bs) \<le> 2048"
  by (induction ms arbitrary: bs) (auto simp: keep_line_def)

text \<open>
  C25: the log. Logging never panics, whatever is logged and how long the messages are. A line is the first
  512 bytes of its text. Lines logged before the console exists are kept in the early buffer, in order, each
  one if it still fits into the 2048 bytes and dropped if not; when the console is found they are sent to
  it as one message, and every later line is sent by itself.
\<close>
theorem log_exact:
  "\<exists>k1 k2 k3. log_all \<lparr>kl_console = None, kl_early = early_new\<rparr> early = Some k1 \<and> console_found k1 = Some k2 \<and>
     log_all k2 later = Some k3 \<and>
     kl_console k3 = Some (fold (\<lambda>m acc. keep_line acc (log_line m)) early [] # map log_line later) \<and>
     length (fold (\<lambda>m acc. keep_line acc (log_line m)) early []) \<le> 2048"
proof -
  have "eb_holds early_new []" by (simp add: eb_holds_def early_new_def EARLY_CAPACITY_def)
  with log_all_early [of "\<lparr>kl_console = None, kl_early = early_new\<rparr>" "[]" early] obtain k1 where
    k1: "log_all \<lparr>kl_console = None, kl_early = early_new\<rparr> early = Some k1" "eb_holds (kl_early k1) (fold (\<lambda>m acc. keep_line acc (log_line m)) early [])" by auto
  let ?e = "fold (\<lambda>m acc. keep_line acc (log_line m)) early []"
  have "early_bytes (kl_early k1) = Some ?e" using k1(2) by (simp add: early_bytes_def eb_holds_def slice_def)
  then obtain k2 where k2: "console_found k1 = Some k2" "kl_console k2 = Some [?e]"
    by (simp add: console_found_def flush_early_buffer_def console_write_def)
  from log_all_console [OF k2(2), of later] k1(1) k2(1) keep_bound [of "[]" early] show ?thesis by auto
qed

end
