(* ===== verification/Free_List.thy ===== *)
theory Free_List
  imports Kernel_Prelude
begin

text \<open>
  The kernel heap (\<open>allocator/src/lib.rs\<close>): a first-fit free-list allocator whose list lives inside
  the memory it manages. Memory is a function from the address of an aligned 8-byte cell to its
  value; every access of the code is to such a cell. A \<open>FreeBlock\<close> takes three cells (size, the tag
  of the option, the pointer: the raw pointer inside \<open>AlignedPtr\<close> leaves no niche for the tag), the
  metadata of an allocation two.

  \<open>walk_list\<close> follows pointers, so it is a partial function: a missing result stands for a panic or a
  walk that never ends, and the theorems show that neither happens.
\<close>

section \<open>Model\<close>

type_synonym memory = "usize \<Rightarrow> usize"

definition MIN_ALIGN :: usize where
  "MIN_ALIGN = 8"

text \<open>\<open>mem::size_of\<close> of \<open>FreeBlock\<close> and \<open>AllocationMetaData\<close>.\<close>

definition SIZE_OF_FREE_BLOCK :: usize where
  "SIZE_OF_FREE_BLOCK = 24"

definition SIZE_OF_METADATA :: usize where
  "SIZE_OF_METADATA = 16"

lemmas block_sizes [simp] = MIN_ALIGN_def SIZE_OF_FREE_BLOCK_def SIZE_OF_METADATA_def

text \<open>\<open>core::alloc::Layout\<close>, with the validity that its constructors check.\<close>

record alloc_layout =
  layout_size :: usize
  layout_align :: usize

definition layout_valid :: "alloc_layout \<Rightarrow> bool" where
  "layout_valid l \<longleftrightarrow> (\<exists>k < 64. layout_align l = 2 ^ k) \<and>
     div_ceil (layout_size l) (layout_align l) * layout_align l < 2 ^ 63"

definition heap_align_up :: "usize \<Rightarrow> usize \<Rightarrow> usize panics" where
  "heap_align_up addr align = do {
     s \<leftarrow> add_usize addr align;
     t \<leftarrow> sub_usize s 1;
     u \<leftarrow> sub_usize align 1;
     Some (t AND not_usize u)
   }"

text \<open>\<open>AlignedPtr::new\<close> for the pointee types of the code, all of alignment at most 8, and \<open>new_with\<close>.\<close>

definition aligned_new :: "usize \<Rightarrow> usize panics" where
  "aligned_new addr = heap_align_up addr (max 8 MIN_ALIGN)"

definition aligned_new_with :: "usize \<Rightarrow> usize \<Rightarrow> usize panics" where
  "aligned_new_with addr align = heap_align_up addr (max align MIN_ALIGN)"

record allocation_meta_data =
  md_start_addr :: usize
  md_size :: usize

definition write_metadata :: "memory \<Rightarrow> usize \<Rightarrow> allocation_meta_data \<Rightarrow> memory panics" where
  "write_metadata m ptr md = do {
     md_addr \<leftarrow> sub_usize ptr SIZE_OF_METADATA;
     Some (m(md_addr := md_start_addr md, md_addr + 8 := md_size md))
   }"

definition read_metadata :: "memory \<Rightarrow> usize \<Rightarrow> allocation_meta_data panics" where
  "read_metadata m ptr = do {
     md_addr \<leftarrow> sub_usize ptr SIZE_OF_METADATA;
     Some \<lparr>md_start_addr = m md_addr, md_size = m (md_addr + 8)\<rparr>
   }"

text \<open>The fields of a \<open>FreeBlock\<close> in memory. Writing \<open>None\<close> leaves the payload cell as it was.\<close>

definition blk_size :: "memory \<Rightarrow> usize \<Rightarrow> usize" where
  "blk_size m a = m a"

definition blk_next :: "memory \<Rightarrow> usize \<Rightarrow> usize option" where
  "blk_next m a = (if m (a + 8) = 0 then None else Some (m (a + 16)))"

definition set_size :: "memory \<Rightarrow> usize \<Rightarrow> usize \<Rightarrow> memory" where
  "set_size m a s = m(a := s)"

definition set_next :: "memory \<Rightarrow> usize \<Rightarrow> usize option \<Rightarrow> memory" where
  "set_next m a n = (case n of None \<Rightarrow> m(a + 8 := 0) | Some p \<Rightarrow> m(a + 8 := 1, a + 16 := p))"

definition can_allocate :: "memory \<Rightarrow> usize \<Rightarrow> usize \<Rightarrow> usize \<Rightarrow> usize option panics" where
  "can_allocate m self_addr align sz = do {
     self_end_addr \<leftarrow> add_usize self_addr (blk_size m self_addr);
     next_possible_addr \<leftarrow> add_usize self_addr SIZE_OF_METADATA;
     aligned \<leftarrow> aligned_new_with next_possible_addr align;
     needed \<leftarrow> add_usize aligned sz;
     Some (if self_end_addr \<ge> needed then Some aligned else None)
   }"

record memory_stats =
  ms_total :: usize
  ms_used :: usize
  ms_free :: usize
  ms_free_blocks :: usize
  ms_largest_free_block :: usize

record free_list_allocator =
  fl_head :: "usize option"
  fl_total_size :: usize

definition fl_new :: free_list_allocator where
  "fl_new = \<lparr>fl_head = None, fl_total_size = 0\<rparr>"

definition fl_init ::
  "memory \<Rightarrow> free_list_allocator \<Rightarrow> usize \<Rightarrow> usize \<Rightarrow> (memory \<times> free_list_allocator) panics" where
  "fl_init m fl start e = do {
     heap_size \<leftarrow> sub_usize e start;
     ptr \<leftarrow> aligned_new start;
     sz \<leftarrow> sub_usize heap_size SIZE_OF_FREE_BLOCK;
     let m = set_size m ptr sz;
     let m = set_next m ptr None;
     Some (m, \<lparr>fl_head = Some ptr, fl_total_size = blk_size m ptr\<rparr>)
   }"

definition fl_total :: "free_list_allocator \<Rightarrow> usize" where
  "fl_total fl = fl_total_size fl"

text \<open>
  \<open>walk_list\<close> calls the closure on each block and its predecessor until the closure breaks. The
  closure's captured variables are the state \<open>'s\<close>; it may write memory, and \<open>next\<close> is read after it.
\<close>

type_synonym ('s, 'r) visitor = "memory \<Rightarrow> 's \<Rightarrow> usize \<Rightarrow> usize option \<Rightarrow> (memory \<times> 's \<times> 'r option) panics"

partial_function (option) walk_from ::
  "('s, 'r) visitor \<Rightarrow> memory \<Rightarrow> 's \<Rightarrow> usize option \<Rightarrow> usize option \<Rightarrow> (memory \<times> 's \<times> 'r option) option" where
  "walk_from f m s prev current =
     (case current of
        None \<Rightarrow> Some (m, s, None)
      | Some block \<Rightarrow>
          Option.bind (f m s block prev) (\<lambda>(m', s', r).
            case r of
              Some res \<Rightarrow> Some (m', s', Some res)
            | None \<Rightarrow> walk_from f m' s' current (blk_next m' block)))"

definition walk_list ::
  "('s, 'r) visitor \<Rightarrow> memory \<Rightarrow> 's \<Rightarrow> usize option \<Rightarrow> (memory \<times> 's \<times> 'r option) option" where
  "walk_list f m s start = walk_from f m s None start"

definition fl_free :: "memory \<Rightarrow> free_list_allocator \<Rightarrow> usize panics" where
  "fl_free m fl = do {
     (_, tot, _) \<leftarrow> walk_list (\<lambda>m tot current _. do {
         tot \<leftarrow> add_usize tot (blk_size m current);
         Some (m, tot, None :: unit option)
       }) m 0 (fl_head fl);
     Some tot
   }"

definition fl_used :: "memory \<Rightarrow> free_list_allocator \<Rightarrow> usize panics" where
  "fl_used m fl = do { f \<leftarrow> fl_free m fl; Some (saturating_sub (fl_total_size fl) f) }"

definition fl_free_blocks :: "memory \<Rightarrow> free_list_allocator \<Rightarrow> usize panics" where
  "fl_free_blocks m fl = do {
     (_, tot, _) \<leftarrow> walk_list (\<lambda>m tot _ _. do {
         tot \<leftarrow> add_usize tot 1;
         Some (m, tot, None :: unit option)
       }) m 0 (fl_head fl);
     Some tot
   }"

definition stats_visit :: "(usize \<times> usize \<times> usize, unit) visitor" where
  "stats_visit m st current prev = (case st of (free, free_blocks, largest) \<Rightarrow> do {
     let sz = blk_size m current;
     free \<leftarrow> add_usize free sz;
     free_blocks \<leftarrow> add_usize free_blocks 1;
     Some (m, (free, free_blocks, max largest sz), None)
   })"

definition fl_stats :: "memory \<Rightarrow> free_list_allocator \<Rightarrow> memory_stats panics" where
  "fl_stats m fl = do {
     (_, (free, free_blocks, largest), _) \<leftarrow> walk_list stats_visit m (0, 0, 0) (fl_head fl);
     Some \<lparr>ms_total = fl_total_size fl, ms_used = saturating_sub (fl_total_size fl) free, ms_free = free,
           ms_free_blocks = free_blocks, ms_largest_free_block = largest\<rparr>
   }"

text \<open>
  \<open>match prev\<close>: either the predecessor's \<open>next\<close> or the head of the list takes the new link.
\<close>

definition relink :: "memory \<Rightarrow> usize option \<Rightarrow> usize option \<Rightarrow> usize option \<Rightarrow> memory \<times> usize option" where
  "relink m head prev n =
     (case prev of Some p \<Rightarrow> (set_next m p n, head) | None \<Rightarrow> (m, n))"

text \<open>The four ways to split the block that serves a request.\<close>

definition carve_block ::
  "memory \<Rightarrow> usize option \<Rightarrow> usize \<Rightarrow> usize option \<Rightarrow> usize \<Rightarrow> usize \<Rightarrow> usize \<Rightarrow> usize \<Rightarrow>
     (memory \<times> usize option \<times> allocation_meta_data) panics" where
  "carve_block m head block prev ptr sz bytes_left bytes_right =
     (let bsize = blk_size m block; bnext = blk_next m block;
          required_size = max SIZE_OF_FREE_BLOCK SIZE_OF_METADATA
      in case (bytes_left \<ge> required_size, bytes_right \<ge> required_size) of
        (False, False) \<Rightarrow>
          (case relink m head prev bnext of (m, head) \<Rightarrow>
             Some (m, head, \<lparr>md_start_addr = block, md_size = bsize\<rparr>))
      | (True, False) \<Rightarrow> do {
          left_block \<leftarrow> aligned_new block;
          let m = set_size m left_block bytes_left;
          let m = set_next m left_block bnext;
          start \<leftarrow> add_usize block bytes_left;
          rest \<leftarrow> sub_usize bsize bytes_left;
          Some (m, head, \<lparr>md_start_addr = start, md_size = rest\<rparr>)
        }
      | (False, True) \<Rightarrow> do {
          e \<leftarrow> add_usize ptr sz;
          right_block \<leftarrow> aligned_new e;
          let m = set_size m right_block bytes_right;
          let m = set_next m right_block bnext;
          case relink m head prev (Some right_block) of (m, head) \<Rightarrow> do {
          s \<leftarrow> add_usize bytes_left SIZE_OF_METADATA;
          s \<leftarrow> add_usize s sz;
          Some (m, head, \<lparr>md_start_addr = block, md_size = s\<rparr>)
        }}
      | (True, True) \<Rightarrow> do {
          left_block \<leftarrow> aligned_new block;
          e \<leftarrow> add_usize ptr sz;
          right_block \<leftarrow> aligned_new e;
          let m = set_size m left_block bytes_left;
          let m = set_size m right_block bytes_right;
          let m = set_next m left_block (Some right_block);
          let m = set_next m right_block bnext;
          start \<leftarrow> add_usize block bytes_left;
          s \<leftarrow> sub_usize bsize bytes_left;
          s \<leftarrow> sub_usize s bytes_right;
          Some (m, head, \<lparr>md_start_addr = start, md_size = s\<rparr>)
        })"

text \<open>The closure of \<open>alloc\<close>; its captured state is \<open>self.head\<close>.\<close>

definition alloc_visit :: "usize \<Rightarrow> usize \<Rightarrow> (usize option, usize) visitor" where
  "alloc_visit align sz m head block prev = do {
     fit \<leftarrow> can_allocate m block align sz;
     case fit of
       None \<Rightarrow> Some (m, head, None)
     | Some ptr \<Rightarrow> do {
         md_addr \<leftarrow> sub_usize ptr SIZE_OF_METADATA;
         bytes_left \<leftarrow> sub_usize md_addr block;
         block_end \<leftarrow> add_usize block (blk_size m block);
         alloc_end \<leftarrow> add_usize ptr sz;
         bytes_right \<leftarrow> sub_usize block_end alloc_end;
         (m, head, md) \<leftarrow> carve_block m head block prev ptr sz bytes_left bytes_right;
         m \<leftarrow> write_metadata m ptr md;
         Some (m, head, Some ptr)
       }
   }"

text \<open>\<open>alloc\<close>: the null pointer is address 0.\<close>

definition fl_alloc ::
  "memory \<Rightarrow> free_list_allocator \<Rightarrow> alloc_layout \<Rightarrow> (memory \<times> free_list_allocator \<times> usize) panics" where
  "fl_alloc m fl layout = do {
     let align = max (layout_align layout) 8;
     sz \<leftarrow> heap_align_up (layout_size layout) 8;
     (m, head, result) \<leftarrow> walk_list (alloc_visit align sz) m (fl_head fl) (fl_head fl);
     Some (m, fl\<lparr>fl_head := head\<rparr>, case result of Some ptr \<Rightarrow> ptr | None \<Rightarrow> 0)
   }"

text \<open>The \<open>while\<close> loop of \<open>dealloc\<close> that finds the last block before \<open>start_addr\<close>.\<close>

partial_function (option) find_prev :: "memory \<Rightarrow> usize \<Rightarrow> usize \<Rightarrow> usize option" where
  "find_prev m start_addr prev =
     (case blk_next m prev of
        None \<Rightarrow> Some prev
      | Some nxt \<Rightarrow> if nxt < start_addr then find_prev m start_addr nxt else Some prev)"

text \<open>The two places where a freed block goes: before the head, or after the block \<open>prev\<close>.\<close>

definition insert_front :: "memory \<Rightarrow> usize \<Rightarrow> usize \<Rightarrow> usize \<Rightarrow> usize \<Rightarrow> memory panics" where
  "insert_front m new_block start_addr sz head = do {
     e \<leftarrow> add_usize start_addr sz;
     if e = head then do {
       s \<leftarrow> add_usize (blk_size m new_block) (blk_size m head);
       let m = set_size m new_block s;
       Some (set_next m new_block (blk_next m head))
     } else Some (set_next m new_block (Some head))
   }"

definition insert_after :: "memory \<Rightarrow> usize \<Rightarrow> usize \<Rightarrow> usize \<Rightarrow> usize \<Rightarrow> memory panics" where
  "insert_after m new_block start_addr sz prev = do {
     let nxt = blk_next m prev;
     prev_end \<leftarrow> add_usize prev (blk_size m prev);
     let merge_left = (prev_end = start_addr);
     case nxt of
       None \<Rightarrow>
         if merge_left then do {
           s \<leftarrow> add_usize (blk_size m prev) sz;
           Some (set_size m prev s)
         } else Some (set_next (set_next m new_block nxt) prev (Some new_block))
     | Some n \<Rightarrow> do {
         e \<leftarrow> add_usize start_addr sz;
         let merge_right = (e = n);
         if merge_left \<and> merge_right then do {
           s \<leftarrow> add_usize sz (blk_size m n);
           s \<leftarrow> add_usize (blk_size m prev) s;
           let m = set_size m prev s;
           Some (set_next m prev (blk_next m n))
         } else if merge_left then do {
           s \<leftarrow> add_usize (blk_size m prev) sz;
           Some (set_size m prev s)
         } else if merge_right then do {
           s \<leftarrow> add_usize (blk_size m new_block) (blk_size m n);
           let m = set_size m new_block s;
           let m = set_next m new_block (blk_next m n);
           Some (set_next m prev (Some new_block))
         } else Some (set_next (set_next m new_block nxt) prev (Some new_block))
       }
   }"

definition fl_dealloc ::
  "memory \<Rightarrow> free_list_allocator \<Rightarrow> usize \<Rightarrow> (memory \<times> free_list_allocator) panics" where
  "fl_dealloc m fl ptr = do {
     md \<leftarrow> read_metadata m ptr;
     let sz = md_size md;
     let start_addr = md_start_addr md;
     new_block \<leftarrow> aligned_new start_addr;
     let m = set_size m new_block sz;
     let m = set_next m new_block None;
     (case fl_head fl of
       None \<Rightarrow> Some (m, fl\<lparr>fl_head := Some new_block\<rparr>)
     | Some head \<Rightarrow>
         if start_addr < head then do {
           m \<leftarrow> insert_front m new_block start_addr sz head;
           Some (m, fl\<lparr>fl_head := Some new_block\<rparr>)
         } else do {
           prev \<leftarrow> find_prev m start_addr head;
           m \<leftarrow> insert_after m new_block start_addr sz prev;
           Some (m, fl)
         })
   }"

declare walk_from.simps [code] find_prev.simps [code]

section \<open>Alignment\<close>

definition round_up :: "nat \<Rightarrow> nat \<Rightarrow> nat" where
  "round_up a c = div_ceil a c * c"

lemma round_up_bounds:
  assumes "0 < c"
  shows "a \<le> round_up a c" and "round_up a c < a + c" and "c dvd round_up a c"
proof -
  show "a \<le> round_up a c" using le_div_ceil_mult [OF assms] by (simp add: round_up_def)
  have "a div c * c \<le> a" by simp
  moreover have "a mod c \<noteq> 0 \<Longrightarrow> a div c * c < a" by (metis div_mult_mod_eq less_add_same_cancel1 not_gr_zero)
  ultimately show "round_up a c < a + c" using assms by (auto simp: round_up_def div_ceil_def)
qed (simp add: round_up_def)

lemma round_up_dvd: "0 < c \<Longrightarrow> c dvd a \<Longrightarrow> round_up a c = a"
  by (simp add: round_up_def div_ceil_def mod_eq_0_iff_dvd)

lemma round_up_eq_div: "0 < c \<Longrightarrow> round_up a c = (a + c - 1) div c * c"
proof -
  assume c: "0 < c"
  have "(a + c - 1) div c = div_ceil a c"
  proof (rule div_nat_eqI)
    show "c * div_ceil a c \<le> a + c - 1"
      using round_up_bounds(2) [OF c, of a] by (simp add: round_up_def mult.commute)
    show "a + c - 1 < c * Suc (div_ceil a c)"
      using round_up_bounds(1) [OF c, of a] c by (simp add: round_up_def mult.commute)
  qed
  then show ?thesis by (simp add: round_up_def)
qed

lemma heap_align_up_Some:
  assumes "a + 2 ^ k < usize_limit" and "k \<le> 64"
  shows "heap_align_up a (2 ^ k) = Some (round_up a (2 ^ k))"
proof -
  have pos: "0 < (2::nat) ^ k" by simp
  have "(a + 2 ^ k - 1) AND not_usize (2 ^ k - 1) = (a + 2 ^ k - 1) div 2 ^ k * 2 ^ k"
    using assms by (intro and_not_usize_mask) simp_all
  then show ?thesis
    using assms(1) by (simp add: heap_align_up_def usize_defs Suc_le_eq round_up_eq_div [OF pos])
qed

lemma aligned_new_dvd: "8 dvd a \<Longrightarrow> a + 8 < usize_limit \<Longrightarrow> aligned_new a = Some a"
  using heap_align_up_Some [of a 3] by (simp add: aligned_new_def round_up_dvd)

section \<open>The list in memory\<close>

text \<open>
  A block is the pair of its address and its size. \<open>lseg m p bs q\<close>: following \<open>next\<close> from \<open>p\<close> visits
  the headers of \<open>bs\<close>, in order, and arrives at \<open>q\<close>.
\<close>

type_synonym block = "usize \<times> usize"

fun lseg :: "memory \<Rightarrow> usize option \<Rightarrow> block list \<Rightarrow> usize option \<Rightarrow> bool" where
  "lseg m p [] q \<longleftrightarrow> p = q"
| "lseg m p ((a, s) # bs) q \<longleftrightarrow> p = Some a \<and> blk_size m a = s \<and> lseg m (blk_next m a) bs q"

fun region :: "block \<Rightarrow> nat set" where
  "region (a, s) = {a ..< a + s}"

definition regions :: "block list \<Rightarrow> nat set" where
  "regions bs = (\<Union>b \<in> set bs. region b)"

text \<open>
  The largest heap end for which no address computation of a valid request overflows, and the
  shape of every free list: aligned blocks of at least a header, in address order, with a gap
  between any two (all neighbours are merged).
\<close>

definition HEAP_LIMIT :: nat where
  "HEAP_LIMIT = 2 ^ 63 - 64"

definition block_ok :: "block \<Rightarrow> bool" where
  "block_ok b \<longleftrightarrow> 8 dvd fst b \<and> 24 \<le> snd b \<and> fst b + snd b \<le> HEAP_LIMIT"

definition gap :: "block \<Rightarrow> block \<Rightarrow> bool" where
  "gap b c \<longleftrightarrow> fst b + snd b < fst c"

definition blocks_ok :: "block list \<Rightarrow> bool" where
  "blocks_ok bs \<longleftrightarrow> (\<forall>b \<in> set bs. block_ok b) \<and> sorted_wrt gap bs"

lemma regions_simps [simp]:
  "regions [] = {}" "regions (b # bs) = region b \<union> regions bs" "regions (bs @ cs) = regions bs \<union> regions cs"
  by (auto simp: regions_def)

lemma blocks_ok_simps [simp]:
  "blocks_ok []"
  "blocks_ok (b # bs) \<longleftrightarrow> block_ok b \<and> (\<forall>c \<in> set bs. gap b c) \<and> blocks_ok bs"
  "blocks_ok (bs @ cs) \<longleftrightarrow> blocks_ok bs \<and> blocks_ok cs \<and> (\<forall>b \<in> set bs. \<forall>c \<in> set cs. gap b c)"
  by (auto simp: blocks_ok_def sorted_wrt_append)

lemma lseg_append [simp]: "lseg m p (xs @ ys) q \<longleftrightarrow> (\<exists>r. lseg m p xs r \<and> lseg m r ys q)"
  by (induction m p xs q rule: lseg.induct) auto

text \<open>Only the three header cells of each block matter.\<close>

lemma lseg_frame:
  assumes "lseg m p bs q" and "\<And>b. b \<in> set bs \<Longrightarrow> m' (fst b) = m (fst b) \<and>
    m' (fst b + 8) = m (fst b + 8) \<and> m' (fst b + 16) = m (fst b + 16)"
  shows "lseg m' p bs q"
  using assms
proof (induction m p bs q rule: lseg.induct)
  case (2 m p a s bs q)
  from "2.prems"(2) [of "(a, s)"] have same: "m' a = m a" "m' (a + 8) = m (a + 8)" "m' (a + 16) = m (a + 16)"
    by simp_all
  have "lseg m' (blk_next m a) bs q" using "2.prems" by (intro "2.IH") simp_all
  moreover have "blk_next m' a = blk_next m a" using same by (simp add: blk_next_def)
  ultimately show ?case using "2.prems"(1) same(1) by (simp add: blk_size_def)
qed simp

lemma header_in_region:
  "block_ok b \<Longrightarrow> fst b \<in> region b \<and> fst b + 8 \<in> region b \<and> fst b + 16 \<in> region b"
  by (cases b) (simp add: block_ok_def)

lemma lseg_frame_region:
  assumes "lseg m p bs q" and "blocks_ok bs" and "\<And>x. x \<in> regions bs \<Longrightarrow> m' x = m x"
  shows "lseg m' p bs q"
proof (rule lseg_frame [OF assms(1)])
  fix b assume b: "b \<in> set bs"
  then have "block_ok b" using assms(2) by (simp add: blocks_ok_def)
  from header_in_region [OF this] b assms(3) show "m' (fst b) = m (fst b) \<and>
    m' (fst b + 8) = m (fst b + 8) \<and> m' (fst b + 16) = m (fst b + 16)" by (auto simp: regions_def)
qed

lemma gap_disjoint: "gap b c \<Longrightarrow> region b \<inter> region c = {}"
  by (cases b; cases c) (auto simp: gap_def)

lemma blocks_ok_disjoint:
  assumes "blocks_ok (pre @ b # post)"
  shows "regions pre \<inter> region b = {}" and "regions post \<inter> region b = {}"
    and "regions pre \<inter> regions post = {}"
proof -
  have "region c \<inter> region b = {}" if "c \<in> set pre \<union> set post" for c
    using that assms gap_disjoint [of b c] gap_disjoint [of c b] by (auto simp: Int_commute)
  then show "regions pre \<inter> region b = {}" and "regions post \<inter> region b = {}"
    by (auto simp: regions_def)
  have "region c \<inter> region d = {}" if "c \<in> set pre" "d \<in> set post" for c d
    using that assms by (intro gap_disjoint) simp
  then show "regions pre \<inter> regions post = {}" by (fastforce simp: regions_def)
qed

lemma set_next_simps [simp]:
  "blk_next (set_next m a n) a = n"
  "blk_size (set_next m a n) a = blk_size m a"
  "blk_size (set_size m a s) a = s"
  "blk_next (set_size m a s) a = blk_next m a"
  by (auto simp: set_next_def blk_next_def blk_size_def set_size_def split: option.splits)

lemma set_next_other: "x \<noteq> a + 8 \<Longrightarrow> x \<noteq> a + 16 \<Longrightarrow> set_next m a n x = m x"
  by (simp add: set_next_def split: option.splits)

lemma set_size_other: "x \<noteq> a \<Longrightarrow> set_size m a s x = m x"
  by (simp add: set_size_def)

text \<open>Relinking the predecessor of a position splices a new tail in.\<close>

definition prev_of :: "block list \<Rightarrow> usize option" where
  "prev_of pre = (if pre = [] then None else Some (fst (last pre)))"

lemma relink_lseg:
  assumes "lseg m head pre q" and "blocks_ok pre" and "relink m head (prev_of pre) n = (m', head')"
  shows "lseg m' head' pre n \<and> (\<forall>x. x \<notin> regions pre \<longrightarrow> m' x = m x)"
proof (cases pre rule: rev_cases)
  case Nil
  with assms show ?thesis by (simp add: relink_def prev_of_def)
next
  case (snoc init b)
  obtain a s where b: "b = (a, s)" by (cases b)
  from assms(3) have m': "m' = set_next m a n" "head' = head" by (auto simp: relink_def prev_of_def snoc b)
  have seg: "lseg m head init (Some a)" "blk_size m a = s" using assms(1) by (auto simp: snoc b)
  have ok: "blocks_ok init" "block_ok b" "regions init \<inter> region b = {}"
    using assms(2) blocks_ok_disjoint(1) [of init b "[]"] by (auto simp: snoc)
  note hd = header_in_region [OF ok(2), unfolded b, simplified]
  have other: "m' x = m x" if "x \<notin> region b" for x
    using that hd by (auto simp: m' b intro!: set_next_other)
  have "lseg m' head init (Some a)"
    by (rule lseg_frame_region [OF seg(1) ok(1)]) (use other ok(3) in blast)
  then show ?thesis using seg(2) other by (auto simp: snoc b m')
qed

section \<open>Allocation on the list of blocks\<close>

text \<open>
  The abstract allocator works on the list of blocks: the first block that fits is replaced by what
  is left of it on either side, and the request is granted the rest of the block.
\<close>

definition request_ok :: "usize \<Rightarrow> usize \<Rightarrow> bool" where
  "request_ok align sz \<longleftrightarrow> (\<exists>k. 3 \<le> k \<and> k \<le> 63 \<and> align = 2 ^ k) \<and> 8 dvd sz \<and> 8 \<le> sz \<and> align + sz \<le> 2 ^ 63 + 16"

definition data_ptr :: "usize \<Rightarrow> block \<Rightarrow> usize" where
  "data_ptr align b = round_up (fst b + 16) align"

definition fits :: "usize \<Rightarrow> usize \<Rightarrow> block \<Rightarrow> bool" where
  "fits align sz b \<longleftrightarrow> data_ptr align b + sz \<le> fst b + snd b"

definition left_rest :: "usize \<Rightarrow> block \<Rightarrow> nat" where
  "left_rest align b = data_ptr align b - 16 - fst b"

definition right_rest :: "usize \<Rightarrow> usize \<Rightarrow> block \<Rightarrow> nat" where
  "right_rest align sz b = (fst b + snd b) - (data_ptr align b + sz)"

definition carved :: "usize \<Rightarrow> usize \<Rightarrow> block \<Rightarrow> block list" where
  "carved align sz b =
     (if 24 \<le> left_rest align b then [(fst b, left_rest align b)] else []) @
     (if 24 \<le> right_rest align sz b then [(data_ptr align b + sz, right_rest align sz b)] else [])"

definition granted :: "usize \<Rightarrow> usize \<Rightarrow> block \<Rightarrow> block" where
  "granted align sz b =
     (let l = if 24 \<le> left_rest align b then left_rest align b else 0;
          r = if 24 \<le> right_rest align sz b then right_rest align sz b else 0
      in (fst b + l, snd b - l - r))"

fun first_fit :: "usize \<Rightarrow> usize \<Rightarrow> block list \<Rightarrow> (usize \<times> block \<times> block list) option" where
  "first_fit align sz [] = None"
| "first_fit align sz (b # bs) =
     (if fits align sz b then Some (data_ptr align b, granted align sz b, carved align sz b @ bs)
      else map_option (\<lambda>(p, g, bs'). (p, g, b # bs')) (first_fit align sz bs))"

lemma request_okD:
  assumes "request_ok align sz"
  shows "0 < align" and "8 dvd align" and "8 \<le> align" and "8 dvd sz" and "8 \<le> sz" and "align + sz \<le> 2 ^ 63 + 16"
proof -
  from assms obtain k where k: "3 \<le> k" "align = 2 ^ k" by (auto simp: request_ok_def)
  have "(2::nat) ^ 3 dvd 2 ^ k" using k(1) by (rule le_imp_power_dvd)
  then show d: "8 dvd align" using k by simp
  show "0 < align" using k by simp
  with d show "8 \<le> align" by (simp add: dvd_imp_le)
qed (use assms in \<open>auto simp: request_ok_def\<close>)

lemma data_ptr_bounds:
  assumes "request_ok align sz" and "block_ok b"
  shows "fst b + 16 \<le> data_ptr align b" and "data_ptr align b < fst b + 16 + align"
    and "align dvd data_ptr align b" and "8 dvd data_ptr align b"
proof -
  note r = request_okD [OF assms(1)]
  show "fst b + 16 \<le> data_ptr align b" "data_ptr align b < fst b + 16 + align" "align dvd data_ptr align b"
    using round_up_bounds [OF r(1)] by (simp_all add: data_ptr_def)
  then show "8 dvd data_ptr align b" using r(2) dvd_trans by blast
qed

text \<open>What fits is fully used: the pieces and the grant partition the block, nothing overlaps.\<close>

lemma grant_spec:
  assumes "request_ok align sz" and "block_ok b" and "fits align sz b" and "granted align sz b = (st, n)"
  shows "8 dvd st" and "24 \<le> n" and "fst b \<le> st" and "st + n \<le> fst b + snd b"
    and "st + 16 \<le> data_ptr align b" and "data_ptr align b + sz \<le> st + n"
    and "regions (carved align sz b) \<union> region (st, n) = region b"
    and "regions (carved align sz b) \<inter> region (st, n) = {}"
    and "\<forall>c \<in> set (carved align sz b). block_ok c \<and> fst b \<le> fst c \<and> fst c + snd c \<le> fst b + snd b"
    and "blocks_ok (carved align sz b)"
proof -
  obtain a s where b: "b = (a, s)" by (cases b)
  define p where "p = data_ptr align b"
  note r = request_okD [OF assms(1)]
  note d = data_ptr_bounds [OF assms(1,2), folded p_def, unfolded b fst_conv]
  have fit: "p + sz \<le> a + s" using assms(3) by (simp add: fits_def p_def b)
  have ok: "8 dvd a" "24 \<le> s" "a + s \<le> HEAP_LIMIT" using assms(2) by (simp_all add: block_ok_def b)
  define l where "l = p - 16 - a"
  define q where "q = a + s - (p + sz)"
  have lq: "a + l + 16 = p" "p + sz + q = a + s" using d(1) fit by (simp_all add: l_def q_def)
  have dl: "8 dvd l" using d(4) ok(1) by (simp add: l_def dvd_diff_nat)
  have c: "carved align sz b = (if 24 \<le> l then [(a, l)] else []) @ (if 24 \<le> q then [(p + sz, q)] else [])"
    by (simp add: carved_def left_rest_def right_rest_def b l_def q_def p_def)
  have g: "st = a + (if 24 \<le> l then l else 0)" "n = s - (if 24 \<le> l then l else 0) - (if 24 \<le> q then q else 0)"
    using assms(4) by (auto simp: granted_def left_rest_def right_rest_def b l_def q_def p_def Let_def)
  have dr: "8 dvd p + sz" using d(4) r(4) by simp
  show "8 dvd st" using ok(1) dl g(1) by simp
  show "24 \<le> n" and "fst b \<le> st" and "st + n \<le> fst b + snd b" and "st + 16 \<le> data_ptr align b"
    and "data_ptr align b + sz \<le> st + n"
    unfolding p_def [symmetric] using lq r(5) ok(2) by (auto simp: g b)
  show "regions (carved align sz b) \<union> region (st, n) = region b"
    and "regions (carved align sz b) \<inter> region (st, n) = {}"
    unfolding c g using lq by (auto simp: b)
  show "\<forall>c \<in> set (carved align sz b). block_ok c \<and> fst b \<le> fst c \<and> fst c + snd c \<le> fst b + snd b"
    unfolding c using lq dr ok by (auto simp: b block_ok_def)
  show "blocks_ok (carved align sz b)"
    unfolding c using lq dr ok r(5) by (auto simp: block_ok_def gap_def)
qed

lemma carved_in_place:
  assumes "request_ok align sz" and "fits align sz b" and "blocks_ok (pre @ b # post)"
  shows "blocks_ok (pre @ carved align sz b @ post)"
proof -
  obtain st n where g: "granted align sz b = (st, n)" by (cases "granted align sz b")
  have ok: "block_ok b" using assms(3) by simp
  note s = grant_spec [OF assms(1) ok assms(2) g]
  show ?thesis using assms(3) s(9,10) by (fastforce simp: gap_def)
qed

section \<open>The code refines it\<close>

lemma can_allocate_Some:
  assumes "request_ok align sz" and "block_ok (a, s)" and "blk_size m a = s"
  shows "can_allocate m a align sz =
    Some (if fits align sz (a, s) then Some (data_ptr align (a, s)) else None)"
proof -
  from assms(1) obtain k where k: "align = 2 ^ k" "3 \<le> k" "k \<le> 63" by (auto simp: request_ok_def)
  note r = request_okD [OF assms(1)] and d = data_ptr_bounds [OF assms(1,2)]
  have ok: "a + s \<le> 2 ^ 63 - 64" "24 \<le> s" using assms(2) by (simp_all add: block_ok_def HEAP_LIMIT_def)
  have lim: "a + 16 + align + sz < usize_limit" using r(6) ok by simp
  then have "heap_align_up (a + 16) align = Some (data_ptr align (a, s))"
    using heap_align_up_Some [of "a + 16" k] k by (simp add: data_ptr_def)
  then have "aligned_new_with (a + 16) align = Some (data_ptr align (a, s))"
    using r(3) by (simp add: aligned_new_with_def max_def)
  then show ?thesis
    using assms(3) ok lim d(2) by (simp add: can_allocate_def add_usize_def fits_def)
qed

text \<open>The setting of one visit: the list is \<open>pre\<close>, the block \<open>(a, s)\<close>, and \<open>post\<close>.\<close>

definition at_block :: "memory \<Rightarrow> usize option \<Rightarrow> block list \<Rightarrow> block \<Rightarrow> block list \<Rightarrow> bool" where
  "at_block m head pre b post \<longleftrightarrow> lseg m head pre (Some (fst b)) \<and> blk_size m (fst b) = snd b \<and>
     lseg m (blk_next m (fst b)) post None \<and> blocks_ok (pre @ b # post)"

lemma at_block_frame:
  assumes "at_block m head pre b post" and "\<And>x. x \<notin> region b \<Longrightarrow> m' x = m x"
  shows "lseg m' head pre (Some (fst b))" and "lseg m' (blk_next m (fst b)) post None"
  using assms lseg_frame_region [of m head pre "Some (fst b)" m']
    lseg_frame_region [of m "blk_next m (fst b)" post None m']
    blocks_ok_disjoint(1,2) [of pre b post]
  by (auto simp: at_block_def)

lemma set_block_other:
  assumes "a \<in> X" and "a + 8 \<in> X" and "a + 16 \<in> X" and "x \<notin> X"
  shows "set_next (set_size m a s) a n x = m x"
proof -
  have "x \<noteq> a" "x \<noteq> a + 8" "x \<noteq> a + 16" using assms by auto
  then show ?thesis by (simp add: set_next_other set_size_other)
qed

lemma carve_whole:
  assumes "at_block m head pre b post" and "relink m head (prev_of pre) (blk_next m (fst b)) = (m', head')"
  shows "lseg m' head' (pre @ post) None \<and> (\<forall>x. x \<notin> regions pre \<union> region b \<longrightarrow> m' x = m x)"
proof -
  from assms(1) have ok: "blocks_ok pre" "blocks_ok post" "regions pre \<inter> regions post = {}"
    and seg: "lseg m head pre (Some (fst b))" "lseg m (blk_next m (fst b)) post None"
    using blocks_ok_disjoint(3) [of pre b post] by (simp_all add: at_block_def)
  from relink_lseg [OF seg(1) ok(1) assms(2)] have r: "lseg m' head' pre (blk_next m (fst b))"
    "\<And>x. x \<notin> regions pre \<Longrightarrow> m' x = m x" by simp_all
  have "lseg m' (blk_next m (fst b)) post None"
    by (rule lseg_frame_region [OF seg(2) ok(2)]) (use r(2) ok(3) in blast)
  with r show ?thesis by auto
qed

lemma carve_left:
  assumes "at_block m head pre b post" and "24 \<le> l" and "l \<le> snd b"
  shows "lseg (set_next (set_size m (fst b) l) (fst b) (blk_next m (fst b))) head (pre @ (fst b, l) # post) None \<and>
    (\<forall>x. x \<notin> regions pre \<union> region b \<longrightarrow> set_next (set_size m (fst b) l) (fst b) (blk_next m (fst b)) x = m x)"
proof -
  let ?m = "set_next (set_size m (fst b) l) (fst b) (blk_next m (fst b))"
  have hd: "fst b \<in> region b" "fst b + 8 \<in> region b" "fst b + 16 \<in> region b"
    using assms(2,3) by (cases b; simp)+
  have other: "?m x = m x" if "x \<notin> region b" for x
    using set_block_other [OF hd that] by simp
  from at_block_frame [OF assms(1) other] other show ?thesis by auto
qed

lemma carve_right:
  assumes "at_block m head pre b post" and "fst b \<le> r" and "24 \<le> q" and "r + q = fst b + snd b"
    and "relink (set_next (set_size m r q) r (blk_next m (fst b))) head (prev_of pre) (Some r) = (m', head')"
  shows "lseg m' head' (pre @ (r, q) # post) None \<and> (\<forall>x. x \<notin> regions pre \<union> region b \<longrightarrow> m' x = m x)"
proof -
  let ?m = "set_next (set_size m r q) r (blk_next m (fst b))"
  have hd: "r \<in> region b" "r + 8 \<in> region b" "r + 16 \<in> region b"
    using assms(2-4) by (cases b; simp)+
  have other: "?m x = m x" if "x \<notin> region b" for x
    using set_block_other [OF hd that] by simp
  note fr = at_block_frame [OF assms(1) other]
  have ok: "blocks_ok pre" "blocks_ok post" "regions pre \<inter> regions post = {}" "regions pre \<inter> region b = {}"
    using assms(1) blocks_ok_disjoint(1,3) [of pre b post] by (simp_all add: at_block_def)
  from relink_lseg [OF fr(1) ok(1) assms(5)] have rl: "lseg m' head' pre (Some r)"
    "\<And>x. x \<notin> regions pre \<Longrightarrow> m' x = ?m x" by simp_all
  have cells: "m' r = ?m r" "m' (r + 8) = ?m (r + 8)" "m' (r + 16) = ?m (r + 16)"
    using hd ok(4) by (auto intro!: rl(2))
  have "blk_size m' r = blk_size ?m r" "blk_next m' r = blk_next ?m r"
    using cells by (simp_all add: blk_size_def blk_next_def)
  moreover have "lseg m' (blk_next m (fst b)) post None"
  proof (rule lseg_frame_region [OF fr(2) ok(2)])
    fix x assume "x \<in> regions post"
    then have "x \<notin> regions pre" using ok(3) by blast
    then show "m' x = ?m x" by (rule rl(2))
  qed
  ultimately show ?thesis using rl other by auto
qed

lemma carve_both:
  assumes "at_block m head pre b post" and "24 \<le> l" and "fst b + l < r" and "24 \<le> q"
    and "r + q = fst b + snd b"
    and "m' = set_next (set_next (set_size (set_size m (fst b) l) r q) (fst b) (Some r)) r (blk_next m (fst b))"
  shows "lseg m' head (pre @ (fst b, l) # (r, q) # post) None \<and>
    (\<forall>x. x \<notin> regions pre \<union> region b \<longrightarrow> m' x = m x)"
proof -
  let ?a = "fst b"
  have hd: "?a \<in> region b" "?a + 8 \<in> region b" "?a + 16 \<in> region b"
    "r \<in> region b" "r + 8 \<in> region b" "r + 16 \<in> region b"
    using assms(2-5) by (cases b; simp)+
  have other: "m' x = m x" if "x \<notin> region b" for x
  proof -
    have "x \<noteq> ?a" "x \<noteq> ?a + 8" "x \<noteq> ?a + 16" "x \<noteq> r" "x \<noteq> r + 8" "x \<noteq> r + 16" using hd that by auto
    then show ?thesis by (simp add: assms(6) set_next_other set_size_other)
  qed
  have ne: "r \<noteq> ?a" "r \<noteq> ?a + 8" "r \<noteq> ?a + 16" "r + 8 \<noteq> ?a" "r + 8 \<noteq> ?a + 8" "r + 8 \<noteq> ?a + 16"
    "r + 16 \<noteq> ?a" "r + 16 \<noteq> ?a + 8" "r + 16 \<noteq> ?a + 16" using assms(2,3) by auto
  have "blk_size m' ?a = l" "blk_next m' ?a = Some r" "blk_size m' r = q"
    using ne by (auto simp: assms(6) blk_size_def blk_next_def set_next_def set_size_def split: option.splits)
  moreover have "blk_next m' r = blk_next m ?a" by (simp add: assms(6))
  ultimately show ?thesis using at_block_frame [OF assms(1) other] other by auto
qed

lemma carve_block_spec:
  assumes req: "request_ok align sz" and at: "at_block m head pre b post" and fit: "fits align sz b"
  shows "\<exists>m' head'. carve_block m head (fst b) (prev_of pre) (data_ptr align b) sz
      (left_rest align b) (right_rest align sz b) =
        Some (m', head', \<lparr>md_start_addr = fst (granted align sz b), md_size = snd (granted align sz b)\<rparr>) \<and>
    lseg m' head' (pre @ carved align sz b @ post) None \<and>
    (\<forall>x. x \<notin> regions pre \<union> region b \<longrightarrow> m' x = m x)"
proof -
  define l where "l = left_rest align b"
  define q where "q = right_rest align sz b"
  define r where "r = data_ptr align b + sz"
  have bok: "block_ok b" and bs: "blk_size m (fst b) = snd b" using at by (simp_all add: at_block_def)
  note d = data_ptr_bounds [OF req bok] and rq = request_okD [OF req]
  have lq: "fst b + l + 16 + sz = r" "r + q = fst b + snd b"
    using d(1) fit by (simp_all add: l_def q_def r_def left_rest_def right_rest_def fits_def)
  have ok: "8 dvd fst b" "fst b + snd b \<le> 2 ^ 63 - 64" using bok by (simp_all add: block_ok_def HEAP_LIMIT_def)
  have new: "aligned_new (fst b) = Some (fst b)" "aligned_new r = Some r"
    using ok lq d(4) rq(4) by (auto intro!: aligned_new_dvd simp: r_def)
  have add: "add_usize (data_ptr align b) sz = Some r" "add_usize (fst b) l = Some (fst b + l)"
    "add_usize l 16 = Some (l + 16)" "add_usize (l + 16) sz = Some (l + 16 + sz)"
    using lq ok(2) by (auto intro!: add_usize_Some simp: r_def)
  have sub: "sub_usize (snd b) l = Some (snd b - l)" "sub_usize (snd b - l) q = Some (snd b - l - q)"
    using lq by (auto intro!: sub_usize_Some)
  note defs = carve_block_def carved_def granted_def l_def [symmetric] q_def [symmetric] bs
  show ?thesis
  proof (cases "24 \<le> l")
    case True
    show ?thesis
    proof (cases "24 \<le> q")
      case q: True
      have lt: "fst b + l < r" using lq by simp
      show ?thesis
        using carve_both [OF at True lt q lq(2) refl] True q
        by (simp add: defs add(1,2) new sub r_def [symmetric] Let_def)
    next
      case False
      have "l \<le> snd b" using lq by simp
      from carve_left [OF at True this] True False show ?thesis
        by (simp add: defs add(2) new(1) sub(1) Let_def)
    qed
  next
    case l: False
    show ?thesis
    proof (cases "24 \<le> q")
      case q: True
      obtain m' head' where rl: "relink (set_next (set_size m r q) r (blk_next m (fst b))) head (prev_of pre)
          (Some r) = (m', head')" by fastforce
      have "fst b \<le> r" using lq by simp
      from carve_right [OF at this q lq(2) rl] l q lq show ?thesis
        by (simp add: defs add(1,3,4) new(2) rl r_def [symmetric] Let_def)
    next
      case q: False
      obtain m' head' where rl: "relink m head (prev_of pre) (blk_next m (fst b)) = (m', head')" by fastforce
      from carve_whole [OF at rl] l q show ?thesis by (simp add: defs rl Let_def)
    qed
  qed
qed

lemma alloc_visit_fit:
  assumes req: "request_ok align sz" and at: "at_block m head pre b post" and fit: "fits align sz b"
  shows "\<exists>m' head'. alloc_visit align sz m head (fst b) (prev_of pre) = Some (m', head', Some (data_ptr align b)) \<and>
    lseg m' head' (pre @ carved align sz b @ post) None \<and>
    m' (data_ptr align b - 16) = fst (granted align sz b) \<and> m' (data_ptr align b - 8) = snd (granted align sz b) \<and>
    (\<forall>x. x \<notin> regions pre \<union> region b \<longrightarrow> m' x = m x)"
proof -
  define p where "p = data_ptr align b"
  obtain st n where g: "granted align sz b = (st, n)" by (cases "granted align sz b")
  have bok: "block_ok b" and bs: "blk_size m (fst b) = snd b" and all: "blocks_ok (pre @ b # post)"
    using at by (simp_all add: at_block_def)
  note d = data_ptr_bounds [OF req bok, folded p_def] and gs = grant_spec [OF req bok fit g, folded p_def]
  have fit': "p + sz \<le> fst b + snd b" using fit by (simp add: fits_def p_def)
  have ok: "fst b + snd b \<le> 2 ^ 63 - 64" using bok by (simp add: block_ok_def HEAP_LIMIT_def)
  from carve_block_spec [OF req at fit] g obtain m1 h1 where
    c: "carve_block m head (fst b) (prev_of pre) p sz (left_rest align b) (right_rest align sz b) =
        Some (m1, h1, \<lparr>md_start_addr = st, md_size = n\<rparr>)"
    and seg: "lseg m1 h1 (pre @ carved align sz b @ post) None"
    and fr: "\<forall>x. x \<notin> regions pre \<union> region b \<longrightarrow> m1 x = m x" by (auto simp: p_def)
  let ?m = "m1(p - 16 := st, p - 16 + 8 := n)"
  have p8: "p - 16 + 8 = p - 8" "p - 16 \<noteq> p - 8" using d(1) by auto
  have usize: "sub_usize p 16 = Some (p - 16)" "sub_usize (p - 16) (fst b) = Some (left_rest align b)"
    "add_usize (fst b) (snd b) = Some (fst b + snd b)" "add_usize p sz = Some (p + sz)"
    "sub_usize (fst b + snd b) (p + sz) = Some (right_rest align sz b)"
    using d(1) fit' ok by (auto simp: sub_usize_def add_usize_def left_rest_def right_rest_def p_def [symmetric])
  have can: "can_allocate m (fst b) align sz = Some (Some p)"
    using can_allocate_Some [of align sz "fst b" "snd b" m] req bok bs fit by (simp add: p_def)
  have "alloc_visit align sz m head (fst b) (prev_of pre) = Some (?m, h1, Some p)"
    using can bok by (simp add: alloc_visit_def bs usize c write_metadata_def)
  moreover have md: "p - 16 \<in> region (st, n)" "p - 8 \<in> region (st, n)"
    using gs(5,6) by auto
  then have in_b: "p - 16 \<in> region b" "p - 8 \<in> region b" using gs(7) by blast+
  have out: "region (st, n) \<inter> regions (pre @ carved align sz b @ post) = {}"
    using gs(7,8) blocks_ok_disjoint(1,2) [OF all] unfolding regions_simps by blast
  have "lseg ?m h1 (pre @ carved align sz b @ post) None"
  proof (rule lseg_frame_region [OF seg carved_in_place [OF req fit all]])
    fix x assume "x \<in> regions (pre @ carved align sz b @ post)"
    then have "x \<notin> region (st, n)" using out by blast
    then have "x \<noteq> p - 16" "x \<noteq> p - 8" using md by blast+
    then show "?m x = m1 x" using p8 by simp
  qed
  moreover have "?m x = m x" if "x \<notin> regions pre \<union> region b" for x
  proof -
    have "x \<noteq> p - 16" "x \<noteq> p - 8" using that in_b by blast+
    then show ?thesis using that fr p8 by simp
  qed
  ultimately show ?thesis using p8 unfolding p_def [symmetric] g
    by (intro exI [of _ ?m] exI [of _ h1]) simp
qed

lemma alloc_visit_skip:
  assumes "request_ok align sz" and "block_ok b" and "blk_size m (fst b) = snd b" and "\<not> fits align sz b"
  shows "alloc_visit align sz m head (fst b) prev = Some (m, head, None)"
  using can_allocate_Some [of align sz "fst b" "snd b" m] assms by (simp add: alloc_visit_def)

text \<open>The walk of \<open>alloc\<close> terminates and computes the first fit of the rest of the list.\<close>

lemma walk_alloc:
  assumes req: "request_ok align sz"
  shows "lseg m head pre cur \<Longrightarrow> lseg m cur bs None \<Longrightarrow> blocks_ok (pre @ bs) \<Longrightarrow>
    (case first_fit align sz bs of
       None \<Rightarrow> walk_from (alloc_visit align sz) m head (prev_of pre) cur = Some (m, head, None)
     | Some (p, g, bs') \<Rightarrow> \<exists>m' head'.
         walk_from (alloc_visit align sz) m head (prev_of pre) cur = Some (m', head', Some p) \<and>
         lseg m' head' (pre @ bs') None \<and> m' (p - 16) = fst g \<and> m' (p - 8) = snd g \<and>
         (\<forall>x. x \<notin> regions (pre @ bs) \<longrightarrow> m' x = m x))"
proof (induction bs arbitrary: pre cur)
  case Nil
  then show ?case by (simp add: walk_from.simps)
next
  case (Cons b bs)
  have cur: "cur = Some (fst b)" "blk_size m (fst b) = snd b" "lseg m (blk_next m (fst b)) bs None"
    using Cons.prems(2) by (cases b; simp)+
  have ok: "block_ok b" using Cons.prems(3) by simp
  show ?case
  proof (cases "fits align sz b")
    case True
    have "at_block m head pre b bs" using Cons.prems(1,3) cur by (simp add: at_block_def)
    from alloc_visit_fit [OF req this True] obtain m' head' where v:
      "alloc_visit align sz m head (fst b) (prev_of pre) = Some (m', head', Some (data_ptr align b))"
      "lseg m' head' (pre @ carved align sz b @ bs) None"
      "m' (data_ptr align b - 16) = fst (granted align sz b)" "m' (data_ptr align b - 8) = snd (granted align sz b)"
      "\<forall>x. x \<notin> regions pre \<union> region b \<longrightarrow> m' x = m x" by blast
    have "walk_from (alloc_visit align sz) m head (prev_of pre) cur = Some (m', head', Some (data_ptr align b))"
      by (simp add: walk_from.simps cur(1) v(1))
    then show ?thesis using v(2-5) True by auto
  next
    case False
    have step: "walk_from (alloc_visit align sz) m head (prev_of pre) cur =
        walk_from (alloc_visit align sz) m head (prev_of (pre @ [b])) (blk_next m (fst b))"
      by (subst walk_from.simps) (simp add: cur(1) alloc_visit_skip [OF req ok cur(2) False] prev_of_def)
    have seg: "lseg m head (pre @ [b]) (blk_next m (fst b))"
      using Cons.prems(1) cur by (cases b) auto
    from Cons.IH [OF seg cur(3)] Cons.prems(3) False show ?thesis
      unfolding step by (auto split: option.splits)
  qed
qed

text \<open>The alignment and size that \<open>alloc\<close> derives from a layout.\<close>

definition req_align :: "alloc_layout \<Rightarrow> usize" where
  "req_align l = max (layout_align l) 8"

definition req_size :: "alloc_layout \<Rightarrow> usize" where
  "req_size l = round_up (layout_size l) 8"

lemma layout_request:
  assumes "layout_valid l" and "0 < layout_size l"
  shows "request_ok (req_align l) (req_size l)" and "heap_align_up (layout_size l) 8 = Some (req_size l)"
    and "layout_size l \<le> req_size l" and "layout_align l dvd req_align l"
proof -
  from assms(1) obtain k where k: "layout_align l = 2 ^ k" and
    lim: "round_up (layout_size l) (2 ^ k) < 2 ^ 63" by (auto simp: layout_valid_def round_up_def)
  have ge: "layout_size l \<le> round_up (layout_size l) (2 ^ k)" and d: "2 ^ k dvd round_up (layout_size l) (2 ^ k)"
    using round_up_bounds [of "2 ^ k" "layout_size l"] by simp_all
  then have "(2::nat) ^ k \<le> round_up (layout_size l) (2 ^ k)" using assms(2) by (intro dvd_imp_le) simp_all
  then have "(2::nat) ^ k < 2 ^ 63" using lim by simp
  then have k63: "k < 63" by (rule power_less_imp_less_exp [rotated]) simp
  from k63 have "(2::nat) ^ k dvd 2 ^ 63" by (intro le_imp_power_dvd) simp
  then have "2 ^ k dvd 2 ^ 63 - round_up (layout_size l) (2 ^ k)" using d by (rule dvd_diff_nat)
  then have "2 ^ k \<le> 2 ^ 63 - round_up (layout_size l) (2 ^ k)" using lim by (intro dvd_imp_le) simp_all
  then have sum: "2 ^ k + layout_size l \<le> 2 ^ 63" using ge lim by linarith
  show le: "layout_size l \<le> req_size l" unfolding req_size_def by (rule round_up_bounds(1)) simp
  have lt: "req_size l < layout_size l + 8" and d8: "8 dvd req_size l"
    using round_up_bounds(2,3) [of 8 "layout_size l"] by (simp_all add: req_size_def)
  have "8 \<le> req_size l" using le assms(2) d8 by (intro dvd_imp_le) simp_all
  moreover have al: "req_align l = 2 ^ max k 3"
    using power_increasing_iff [of "2::nat" k 3] by (auto simp: req_align_def k max_def)
  moreover have "req_align l + req_size l \<le> 2 ^ 63 + 16" using sum lt k by (simp add: req_align_def)
  ultimately show "request_ok (req_align l) (req_size l)"
    using d8 k63 unfolding request_ok_def by (intro conjI exI [of _ "max k 3"]) simp_all
  show "heap_align_up (layout_size l) 8 = Some (req_size l)"
    using heap_align_up_Some [of "layout_size l" 3] sum by (simp add: req_size_def)
  show "layout_align l dvd req_align l" unfolding al k by (intro le_imp_power_dvd) simp
qed

lemma fl_alloc_spec:
  assumes "layout_valid l" and "0 < layout_size l" and "lseg m (fl_head fl) bs None" and "blocks_ok bs"
  shows "case first_fit (req_align l) (req_size l) bs of
      None \<Rightarrow> fl_alloc m fl l = Some (m, fl, 0)
    | Some (p, g, bs') \<Rightarrow> \<exists>m' head'. fl_alloc m fl l = Some (m', fl\<lparr>fl_head := head'\<rparr>, p) \<and>
        lseg m' head' bs' None \<and> m' (p - 16) = fst g \<and> m' (p - 8) = snd g \<and>
        (\<forall>x. x \<notin> regions bs \<longrightarrow> m' x = m x)"
proof -
  note r = layout_request [OF assms(1,2)]
  have w: "walk_list f m s c = walk_from f m s (prev_of []) c" for f :: "(usize option, usize) visitor" and m s c
    by (simp add: walk_list_def prev_of_def)
  show ?thesis
    using walk_alloc [OF r(1), of m "fl_head fl" "[]" "fl_head fl" bs] assms(3,4)
    by (auto simp: fl_alloc_def r(2) w req_align_def split: option.splits)
qed

lemma first_fit_None: "first_fit align sz bs = None \<longleftrightarrow> (\<forall>b \<in> set bs. \<not> fits align sz b)"
  by (induction bs) (auto split: option.splits)

lemma first_fit_Some:
  assumes "first_fit align sz bs = Some (p, g, bs')"
  shows "\<exists>pre b post. bs = pre @ b # post \<and> fits align sz b \<and> p = data_ptr align b \<and> g = granted align sz b \<and>
    bs' = pre @ carved align sz b @ post"
  using assms
proof (induction bs arbitrary: bs')
  case (Cons b bs)
  show ?case
  proof (cases "fits align sz b")
    case True
    then show ?thesis using Cons.prems by (intro exI [of _ "[]"] exI [of _ b] exI [of _ bs]) simp
  next
    case False
    then obtain bs'' where "first_fit align sz bs = Some (p, g, bs'')" and bs': "bs' = b # bs''"
      using Cons.prems by auto
    from Cons.IH [OF this(1)] obtain pre c post where "bs = pre @ c # post \<and> fits align sz c \<and>
      p = data_ptr align c \<and> g = granted align sz c \<and> bs'' = pre @ carved align sz c @ post" by blast
    then show ?thesis using bs' by (intro exI [of _ "b # pre"] exI [of _ c] exI [of _ post]) simp
  qed
qed simp

text \<open>The grant of a request, in terms of the free bytes.\<close>

lemma first_fit_grant:
  assumes "request_ok align sz" and "blocks_ok bs" and "first_fit align sz bs = Some (p, (st, n), bs')"
  shows "blocks_ok bs'" and "regions bs' \<union> region (st, n) = regions bs" and "regions bs' \<inter> region (st, n) = {}"
    and "8 dvd st" and "24 \<le> n" and "st + n \<le> HEAP_LIMIT" and "st + 16 \<le> p" and "p + sz \<le> st + n" and "align dvd p"
proof -
  from first_fit_Some [OF assms(3)] obtain pre b post where b: "bs = pre @ b # post" "fits align sz b"
    "p = data_ptr align b" "granted align sz b = (st, n)" "bs' = pre @ carved align sz b @ post" by auto
  have ok: "block_ok b" using assms(2) b(1) by simp
  note g = grant_spec [OF assms(1) ok b(2,4)]
  note dis = blocks_ok_disjoint [OF assms(2) [unfolded b(1)]]
  show "blocks_ok bs'" unfolding b(5) by (rule carved_in_place [OF assms(1) b(2) assms(2) [unfolded b(1)]])
  show "regions bs' \<union> region (st, n) = regions bs" unfolding b(1,5) regions_simps g(7) [symmetric] by (simp only: Un_ac)
  have "region (st, n) \<subseteq> region b" using g(7) by blast
  then show "regions bs' \<inter> region (st, n) = {}"
    unfolding b(5) regions_simps Int_Un_distrib2 using g(8) dis(1,2) by (simp only: Un_empty) blast
  show "st + n \<le> HEAP_LIMIT" using g(4) ok by (simp add: block_ok_def)
  show "align dvd p" using data_ptr_bounds(3) [OF assms(1) ok] b(3) by simp
  show "8 dvd st" and "24 \<le> n" and "st + 16 \<le> p" and "p + sz \<le> st + n" using g(1,2,5,6) b(3) by simp_all
qed

section \<open>Deallocation on the list of blocks\<close>

fun insert_free :: "block \<Rightarrow> block list \<Rightarrow> block list" where
  "insert_free b [] = [b]"
| "insert_free b (c # cs) =
     (if fst b < fst c then
        if fst b + snd b = fst c then (fst b, snd b + snd c) # cs else b # c # cs
      else if fst c + snd c = fst b then
        (case cs of
           [] \<Rightarrow> [(fst c, snd c + snd b)]
         | d # ds \<Rightarrow> if fst b + snd b = fst d then (fst c, snd c + snd b + snd d) # ds
                     else (fst c, snd c + snd b) # cs)
      else c # insert_free b cs)"

lemma disjoint_order:
  assumes "block_ok b" and "block_ok c" and "region b \<inter> region c = {}"
  shows "fst b + snd b \<le> fst c \<or> fst c + snd c \<le> fst b"
proof (rule ccontr)
  assume "\<not> ?thesis"
  then have "max (fst b) (fst c) \<in> region b \<inter> region c"
    using assms(1,2) by (cases b; cases c) (auto simp: block_ok_def max_def)
  with assms(3) show False by blast
qed

lemma insert_free_start:
  "x \<in> set (insert_free b cs) \<Longrightarrow> (\<exists>c \<in> set (b # cs). fst x = fst c)"
  by (induction b cs rule: insert_free.induct) (auto split: if_splits list.splits)

lemma insert_free_spec:
  assumes "blocks_ok cs" and "block_ok b" and "region b \<inter> regions cs = {}"
  shows "blocks_ok (insert_free b cs) \<and> regions (insert_free b cs) = region b \<union> regions cs"
  using assms
proof (induction b cs rule: insert_free.induct)
  case (2 b c cs)
  obtain a s where b: "b = (a, s)" by (cases b)
  obtain a' s' where c: "c = (a', s')" by (cases c)
  have ok: "block_ok b" "block_ok c" "blocks_ok cs" "\<forall>d \<in> set cs. gap c d" using "2.prems" by auto
  have dis: "region b \<inter> region c = {}" "region b \<inter> regions cs = {}"
    using "2.prems"(3) unfolding regions_simps by blast+
  have ord: "a + s \<le> a' \<or> a' + s' \<le> a" using disjoint_order [OF ok(1,2) dis(1)] by (simp add: b c)
  have pos: "24 \<le> s" "24 \<le> s'" "8 dvd a" "8 dvd a'" "a + s \<le> HEAP_LIMIT" "a' + s' \<le> HEAP_LIMIT"
    using ok(1,2) by (auto simp: block_ok_def b c)
  show ?case
  proof (cases "a < a'")
    case True
    then have le: "a + s \<le> a'" using ord pos by linarith
    have gc: "\<forall>d \<in> set cs. a' + s' < fst d" using ok(4) by (simp add: gap_def c)
    show ?thesis
    proof (cases "a + s = a'")
      case eq: True
      have "region (a, s + s') = region b \<union> region c" using eq by (auto simp: b c)
      then show ?thesis using True eq ok(3) gc pos by (auto simp: b c block_ok_def gap_def)
    next
      case ne: False
      have "\<forall>d \<in> set cs. a + s < fst d" using gc le by auto
      then show ?thesis using True ne le ok by (simp add: b c gap_def)
    qed
  next
    case False
    then have le: "a' + s' \<le> a" using ord pos by linarith
    show ?thesis
    proof (cases "a' + s' = a")
      case eq: True
      show ?thesis
      proof (cases cs)
        case Nil
        then show ?thesis using eq pos False by (auto simp: b c block_ok_def)
      next
        case (Cons d ds)
        obtain u v where d: "d = (u, v)" by (cases d)
        have "block_ok d" "gap c d" using ok(3,4) Cons by simp_all
        then have pd: "24 \<le> v" "8 dvd u" "u + v \<le> HEAP_LIMIT" "a' + s' < u" by (simp_all add: block_ok_def gap_def c d)
        have "region b \<inter> region d = {}" using dis(2) unfolding Cons regions_simps by blast
        from disjoint_order [OF ok(1) \<open>block_ok d\<close> this] have ord': "a + s \<le> u" using pd eq pos by (auto simp: b d)
        have gd: "\<forall>x \<in> set ds. u + v < fst x" "blocks_ok ds" using ok(3) Cons by (auto simp: gap_def d)
        show ?thesis
        proof (cases "a + s = u")
          case True
          have "region (a', s' + s + v) = region b \<union> (region c \<union> region d)"
            using eq True by (auto simp: b c d)
          then show ?thesis using eq False True pd pos gd unfolding Cons
            by (auto simp: b c d block_ok_def gap_def)
        next
          case ne: False
          have u: "region (a', s' + s) = region b \<union> region c" using eq by (auto simp: b c)
          have "\<forall>x \<in> set ds. a + s < fst x" using gd ord' by auto
          then show ?thesis using eq False ne u ord' pd pos gd \<open>block_ok d\<close> unfolding Cons
            by (auto simp: b c d block_ok_def gap_def)
        qed
      qed
    next
      case ne: False
      have "blocks_ok (insert_free b cs) \<and> regions (insert_free b cs) = region b \<union> regions cs"
        using "2.IH" False ne ok(1,3) dis(2) by (simp add: b c)
      moreover have "gap c x" if "x \<in> set (insert_free b cs)" for x
        using insert_free_start [OF that] ok(4) ne le by (auto simp: gap_def b c)
      ultimately show ?thesis using False ne ok(2) by (auto simp: b c)
    qed
  qed
qed simp

lemma insert_free_append:
  "\<forall>c \<in> set pre. fst c + snd c < fst b \<Longrightarrow> insert_free b (pre @ cs) = pre @ insert_free b cs"
  by (induction pre) auto

section \<open>The code refines it\<close>

lemma find_prev_Some:
  assumes "lseg m (Some (fst c)) (c # cs) None" and "fst c < a" and "a \<notin> fst ` set cs"
  shows "\<exists>pre d post. c # cs = pre @ d # post \<and> find_prev m a (fst c) = Some (fst d) \<and> fst d < a \<and>
    (case post of [] \<Rightarrow> True | e # es \<Rightarrow> a < fst e)"
  using assms
proof (induction cs arbitrary: c)
  case Nil
  then have "blk_next m (fst c) = None" by (cases c) simp
  then show ?case using Nil.prems(2)
    by (intro exI [of _ "[]"] exI [of _ c] exI [of _ "[]"]) (simp add: find_prev.simps)
next
  case (Cons e es)
  have nxt: "blk_next m (fst c) = Some (fst e)" and seg: "lseg m (Some (fst e)) (e # es) None"
    using Cons.prems(1) by (cases c; cases e; auto)+
  show ?case
  proof (cases "fst e < a")
    case True
    from Cons.IH [OF seg True] Cons.prems(3) obtain pre d post where
      d: "e # es = pre @ d # post" "find_prev m a (fst e) = Some (fst d)" "fst d < a"
        "case post of [] \<Rightarrow> True | e # es \<Rightarrow> a < fst e" by auto
    have "find_prev m a (fst c) = Some (fst d)" by (subst find_prev.simps) (simp add: nxt True d(2))
    then show ?thesis using d(1,3,4) by (intro exI [of _ "c # pre"] exI [of _ d] exI [of _ post]) simp
  next
    case False
    then have "a < fst e" using Cons.prems(3) by auto
    moreover have "find_prev m a (fst c) = Some (fst c)" by (subst find_prev.simps) (simp add: nxt False)
    ultimately show ?thesis using Cons.prems(2)
      by (intro exI [of _ "[]"] exI [of _ c] exI [of _ "e # es"]) simp
  qed
qed

text \<open>Two headers that do not overlap are independent.\<close>

lemma far_header [simp]:
  assumes "a + 24 \<le> b \<or> b + 24 \<le> a"
  shows "blk_size (set_size m a s) b = blk_size m b" "blk_next (set_size m a s) b = blk_next m b"
    "blk_size (set_next m a n) b = blk_size m b" "blk_next (set_next m a n) b = blk_next m b"
  using assms by (auto simp: blk_size_def blk_next_def set_size_def set_next_def split: option.splits)

lemma set_other_region [simp]:
  assumes "24 \<le> s" and "x \<notin> {a ..< a + s}"
  shows "set_size m a n x = m x" and "set_next m a q x = m x"
  using assms by (auto simp: set_size_def set_next_def split: option.splits)

lemma insert_front_spec:
  assumes "lseg m (Some (fst c)) (c # cs) None" and "blocks_ok (c # cs)" and "block_ok b"
    and "region b \<inter> regions (c # cs) = {}" and "fst b < fst c" and "blk_size m (fst b) = snd b"
  shows "\<exists>m'. insert_front m (fst b) (fst b) (snd b) (fst c) = Some m' \<and>
    lseg m' (Some (fst b)) (insert_free b (c # cs)) None \<and> (\<forall>x. x \<notin> region b \<longrightarrow> m' x = m x)"
proof -
  obtain a s where b: "b = (a, s)" by (cases b)
  obtain u v where c: "c = (u, v)" by (cases c)
  have bok: "24 \<le> s" "a + s \<le> HEAP_LIMIT" using assms(3) by (simp_all add: block_ok_def b)
  have cok: "block_ok c" "u + v \<le> HEAP_LIMIT" using assms(2) by (simp_all add: block_ok_def c)
  have "region b \<inter> region c = {}" using assms(4) unfolding regions_simps by blast
  from disjoint_order [OF assms(3) cok(1) this] have le: "a + s \<le> u" using assms(5) by (auto simp: b c)
  have lim: "a + s < usize_limit" "s + v < usize_limit" using bok cok le by (simp_all add: HEAP_LIMIT_def)
  have sz: "blk_size m a = s" "blk_size m u = v" using assms(1,6) by (simp_all add: b c)
  have seg: "lseg m' q xs None" if "lseg m q xs None" "blocks_ok xs" "regions xs \<subseteq> regions (c # cs)"
    "\<And>x. x \<notin> region b \<Longrightarrow> m' x = m x" for m' q xs
    by (rule lseg_frame_region [OF that(1,2)]) (use that(3,4) assms(4) in blast)
  show ?thesis
  proof (cases "a + s = u")
    case True
    let ?m = "set_next (set_size m a (s + v)) a (blk_next m u)"
    have fr: "?m x = m x" if "x \<notin> region b" for x using that bok by (simp add: b)
    have "lseg ?m (blk_next m u) cs None"
      by (rule seg) (use assms(1,2) fr in \<open>auto simp: c\<close>)
    then have "lseg ?m (Some a) ((a, s + v) # cs) None" by simp
    moreover have "a + 24 \<le> u" using le bok(1) by simp
    then have "insert_front m a a s u = Some ?m"
      using lim by (simp add: insert_front_def add_usize_def Let_def sz True)
    moreover have "insert_free b (c # cs) = (a, s + v) # cs" using True assms(5) by (simp add: b c)
    ultimately show ?thesis using fr by (intro exI [of _ ?m]) (simp add: b c)
  next
    case False
    let ?m = "set_next m a (Some u)"
    have fr: "?m x = m x" if "x \<notin> region b" for x using that bok by (simp add: b)
    have "lseg ?m (Some u) (c # cs) None"
      by (rule seg) (use assms(1,2) fr in \<open>auto simp: c\<close>)
    then have "lseg ?m (Some a) (b # c # cs) None" using sz by (simp add: b)
    moreover have "insert_front m a a s u = Some ?m"
      using lim False by (simp add: insert_front_def add_usize_def)
    moreover have "insert_free b (c # cs) = b # c # cs" using False assms(5) by (simp add: b c)
    ultimately show ?thesis using fr by (intro exI [of _ ?m]) (simp add: b c)
  qed
qed

text \<open>
  The block \<open>b\<close> is to be inserted between \<open>d\<close> and \<open>post\<close>. Every write goes to \<open>b\<close> or to \<open>d\<close>, so the
  rest of the list stays as it is.
\<close>

definition at_gap :: "memory \<Rightarrow> usize option \<Rightarrow> block list \<Rightarrow> block \<Rightarrow> block \<Rightarrow> block list \<Rightarrow> bool" where
  "at_gap m head pre d b post \<longleftrightarrow> at_block m head pre d post \<and> block_ok b \<and> blk_size m (fst b) = snd b \<and>
     region b \<inter> regions (pre @ d # post) = {} \<and> fst d < fst b \<and>
     (case post of [] \<Rightarrow> True | e # es \<Rightarrow> fst b < fst e)"

lemma at_gap_frame:
  assumes "at_gap m head pre d b post" and "\<And>x. x \<notin> region b \<union> region d \<Longrightarrow> m' x = m x"
  shows "lseg m' head pre (Some (fst d))"
    and "lseg m q xs None \<Longrightarrow> blocks_ok xs \<Longrightarrow> regions xs \<subseteq> regions post \<Longrightarrow> lseg m' q xs None"
proof -
  have all: "blocks_ok (pre @ d # post)" "lseg m head pre (Some (fst d))"
    and dis: "region b \<inter> regions (pre @ d # post) = {}"
    using assms(1) by (simp_all add: at_gap_def at_block_def)
  have d2: "region b \<inter> regions pre = {}" "region b \<inter> regions post = {}" using dis unfolding regions_simps by blast+
  note bd = blocks_ok_disjoint(1,2) [OF all(1)]
  show "lseg m' head pre (Some (fst d))"
  proof (rule lseg_frame_region [OF all(2)])
    show "blocks_ok pre" using all(1) by simp
    show "m' x = m x" if "x \<in> regions pre" for x using that d2(1) bd(1) by (intro assms(2)) blast
  qed
  show "lseg m' q xs None" if xs: "lseg m q xs None" "blocks_ok xs" "regions xs \<subseteq> regions post"
  proof (rule lseg_frame_region [OF xs(1,2)])
    show "m' x = m x" if "x \<in> regions xs" for x using that xs(3) d2(2) bd(2) by (intro assms(2)) blast
  qed
qed

lemma at_gap_order:
  assumes "at_gap m head pre (u, v) (a, s) post"
  shows "24 \<le> s" "24 \<le> v" "u + v \<le> a" "u < a" "u + v < usize_limit" "a + s < usize_limit" "v + s < usize_limit"
    and "blk_size m u = v" "blk_size m a = s"
    and "post = (w, z) # es \<Longrightarrow> a + s \<le> w \<and> a < w \<and> s + z < usize_limit \<and> v + (s + z) < usize_limit \<and>
      blk_next m u = Some w \<and> blk_size m w = z"
proof -
  have ok: "block_ok (a, s)" "block_ok (u, v)" "region (a, s) \<inter> regions (pre @ (u, v) # post) = {}"
    "lseg m (blk_next m u) post None"
    using assms by (simp_all add: at_gap_def at_block_def)
  have d2: "region (a, s) \<inter> region (u, v) = {}" using ok(3) unfolding regions_simps by blast
  show sz: "24 \<le> s" "24 \<le> v" using ok(1,2) by (simp_all add: block_ok_def)
  have lim: "a + s \<le> HEAP_LIMIT" "u + v \<le> HEAP_LIMIT" using ok(1,2) by (simp_all add: block_ok_def)
  show lt: "u < a" "blk_size m u = v" "blk_size m a = s" using assms by (simp_all add: at_gap_def at_block_def)
  show le: "u + v \<le> a" using disjoint_order [OF ok(1,2) d2] lt(1) by auto
  show "u + v < usize_limit" "a + s < usize_limit" "v + s < usize_limit"
    using lim le by (simp_all add: HEAP_LIMIT_def)
  show "a + s \<le> w \<and> a < w \<and> s + z < usize_limit \<and> v + (s + z) < usize_limit \<and>
      blk_next m u = Some w \<and> blk_size m w = z" if post: "post = (w, z) # es"
  proof -
    have e: "block_ok (w, z)" "a < w" using assms by (simp_all add: at_gap_def at_block_def post)
    have "region (a, s) \<inter> region (w, z) = {}" using ok(3) unfolding regions_simps post by blast
    from disjoint_order [OF ok(1) e(1) this] e(2) have "a + s \<le> w" by auto
    moreover have "w + z \<le> HEAP_LIMIT" using e(1) by (simp add: block_ok_def)
    ultimately show ?thesis using e(2) le lim ok(4) by (simp add: HEAP_LIMIT_def post)
  qed
qed

lemma insert_after_last:
  assumes gap: "at_gap m head pre (u, v) (a, s) []"
  shows "\<exists>m'. insert_after m a a s u = Some m' \<and> lseg m' head (pre @ insert_free (a, s) [(u, v)]) None \<and>
    (\<forall>x. x \<notin> region (a, s) \<union> region (u, v) \<longrightarrow> m' x = m x)"
proof -
  note o = at_gap_order(1-9) [OF gap]
  have nxt: "blk_next m u = None" using gap by (simp add: at_gap_def at_block_def)
  show ?thesis
  proof (cases "u + v = a")
    case True
    let ?m = "set_size m u (v + s)"
    have fr: "?m x = m x" if "x \<notin> region (a, s) \<union> region (u, v)" for x using that o by simp
    have "insert_after m a a s u = Some ?m"
      using o by (simp add: insert_after_def nxt add_usize_def True)
    then show ?thesis using at_gap_frame(1) [OF gap fr] fr o(4) True nxt
      by (intro exI [of _ ?m]) simp
  next
    case False
    let ?m = "set_next (set_next m a None) u (Some a)"
    have fr: "?m x = m x" if "x \<notin> region (a, s) \<union> region (u, v)" for x using that o by simp
    have "insert_after m a a s u = Some ?m"
      using o False by (simp add: insert_after_def nxt add_usize_def)
    then show ?thesis using at_gap_frame(1) [OF gap fr] fr o False by (intro exI [of _ ?m]) simp
  qed
qed

lemma insert_after_left:
  assumes gap: "at_gap m head pre (u, v) (a, s) ((w, z) # es)" and adj: "u + v = a"
  shows "\<exists>m'. insert_after m a a s u = Some m' \<and>
    lseg m' head (pre @ insert_free (a, s) ((u, v) # (w, z) # es)) None \<and>
    (\<forall>x. x \<notin> region (a, s) \<union> region (u, v) \<longrightarrow> m' x = m x)"
proof -
  note o = at_gap_order(1-9) [OF gap] and e = at_gap_order(10) [OF gap refl]
  have post: "lseg m (Some w) ((w, z) # es) None" "blocks_ok ((w, z) # es)"
    using gap e by (simp_all add: at_gap_def at_block_def)
  have far: "a + 24 \<le> w" "u + 24 \<le> w" using o e by auto
  show ?thesis
  proof (cases "a + s = w")
    case True
    let ?m = "set_next (set_size m u (v + (s + z))) u (blk_next m w)"
    have fr: "?m x = m x" if "x \<notin> region (a, s) \<union> region (u, v)" for x using that o by simp
    have "insert_after m a a s u = Some ?m"
      using o e far by (simp add: insert_after_def add_usize_def adj True Let_def)
    moreover have "lseg ?m (blk_next m w) es None"
      using post by (intro at_gap_frame(2) [OF gap fr]) auto
    ultimately show ?thesis using at_gap_frame(1) [OF gap fr] fr o(4) adj True
      by (intro exI [of _ ?m]) (simp add: add.assoc)
  next
    case False
    let ?m = "set_size m u (v + s)"
    have fr: "?m x = m x" if "x \<notin> region (a, s) \<union> region (u, v)" for x using that o by simp
    have "insert_after m a a s u = Some ?m"
      using o e False by (simp add: insert_after_def add_usize_def adj)
    moreover have "lseg ?m (Some w) ((w, z) # es) None"
      using post by (intro at_gap_frame(2) [OF gap fr]) auto
    ultimately show ?thesis using at_gap_frame(1) [OF gap fr] fr o(4) adj False e
      by (intro exI [of _ ?m]) simp
  qed
qed

lemma insert_after_apart:
  assumes gap: "at_gap m head pre (u, v) (a, s) ((w, z) # es)" and apart: "u + v \<noteq> a"
  shows "\<exists>m'. insert_after m a a s u = Some m' \<and>
    lseg m' head (pre @ insert_free (a, s) ((u, v) # (w, z) # es)) None \<and>
    (\<forall>x. x \<notin> region (a, s) \<union> region (u, v) \<longrightarrow> m' x = m x)"
proof -
  note o = at_gap_order(1-9) [OF gap] and e = at_gap_order(10) [OF gap refl]
  have post: "lseg m (Some w) ((w, z) # es) None" "blocks_ok ((w, z) # es)"
    using gap e by (simp_all add: at_gap_def at_block_def)
  have far: "a + 24 \<le> w" "u + 24 \<le> w" using o e by auto
  show ?thesis
  proof (cases "a + s = w")
    case True
    let ?m = "set_next (set_next (set_size m a (s + z)) a (blk_next m w)) u (Some a)"
    have fr: "?m x = m x" if "x \<notin> region (a, s) \<union> region (u, v)" for x using that o by simp
    have "insert_after m a a s u = Some ?m"
      using o e far apart by (simp add: insert_after_def add_usize_def True Let_def)
    moreover have "lseg ?m (blk_next m w) es None"
      using post by (intro at_gap_frame(2) [OF gap fr]) auto
    ultimately show ?thesis using at_gap_frame(1) [OF gap fr] fr o apart True e
      by (intro exI [of _ ?m]) simp
  next
    case False
    let ?m = "set_next (set_next m a (Some w)) u (Some a)"
    have fr: "?m x = m x" if "x \<notin> region (a, s) \<union> region (u, v)" for x using that o by simp
    have "insert_after m a a s u = Some ?m"
      using o e apart False by (simp add: insert_after_def add_usize_def)
    moreover have "lseg ?m (Some w) ((w, z) # es) None"
      using post by (intro at_gap_frame(2) [OF gap fr]) auto
    ultimately show ?thesis using at_gap_frame(1) [OF gap fr] fr o apart False e
      by (intro exI [of _ ?m]) simp
  qed
qed

lemma insert_after_spec:
  assumes "at_gap m head pre d b post"
  shows "\<exists>m'. insert_after m (fst b) (fst b) (snd b) (fst d) = Some m' \<and>
    lseg m' head (pre @ insert_free b (d # post)) None \<and>
    (\<forall>x. x \<notin> region b \<union> region d \<longrightarrow> m' x = m x)"
proof (cases b; cases d; cases post)
  fix a s u v assume bd: "b = (a, s)" "d = (u, v)" and post: "post = []"
  show ?thesis using insert_after_last [of m head pre u v a s] assms unfolding bd post by simp
next
  fix a s u v e es assume bd: "b = (a, s)" "d = (u, v)" and post: "post = e # es"
  obtain w z where e: "e = (w, z)" by (cases e)
  show ?thesis
    using insert_after_left [of m head pre u v a s w z es] insert_after_apart [of m head pre u v a s w z es] assms
    unfolding bd post e by (cases "u + v = a") simp_all
qed

lemma fl_dealloc_spec:
  assumes seg: "lseg m (fl_head fl) bs None" and ok: "blocks_ok bs" and bok: "block_ok b"
    and dis: "region b \<inter> regions bs = {}" and p: "16 \<le> p" and md: "m (p - 16) = fst b" "m (p - 8) = snd b"
  shows "\<exists>m' head'. fl_dealloc m fl p = Some (m', fl\<lparr>fl_head := head'\<rparr>) \<and>
    lseg m' head' (insert_free b bs) None \<and> (\<forall>x. x \<notin> regions bs \<union> region b \<longrightarrow> m' x = m x)"
proof -
  let ?m = "set_next (set_size m (fst b) (snd b)) (fst b) None"
  have b8: "24 \<le> snd b" "8 dvd fst b" "fst b + 8 < usize_limit"
    using bok by (simp_all add: block_ok_def HEAP_LIMIT_def)
  have p8: "p - 16 + 8 = p - 8" using p by simp
  have "read_metadata m p = Some \<lparr>md_start_addr = fst b, md_size = snd b\<rparr>"
    using p md by (simp add: read_metadata_def sub_usize_def p8)
  note start = fl_dealloc_def this aligned_new_dvd [OF b8(2,3)] Let_def
  have fr: "?m x = m x" if "x \<notin> region b" for x using that b8 by (cases b) simp
  have seg': "lseg ?m (fl_head fl) bs None"
    by (rule lseg_frame_region [OF seg ok]) (use dis fr in blast)
  show ?thesis
  proof (cases bs)
    case Nil
    then have "fl_dealloc m fl p = Some (?m, fl\<lparr>fl_head := Some (fst b)\<rparr>)" using seg by (simp add: start)
    moreover have "lseg ?m (Some (fst b)) [b] None" by (cases b) simp
    ultimately show ?thesis using fr Nil by (intro exI [of _ ?m] exI [of _ "Some (fst b)"]) simp
  next
    case (Cons c cs)
    have head: "fl_head fl = Some (fst c)" using seg Cons by (cases c) simp
    show ?thesis
    proof (cases "fst b < fst c")
      case True
      from insert_front_spec [of ?m c cs b] seg' head ok bok dis True Cons obtain m' where
        "insert_front ?m (fst b) (fst b) (snd b) (fst c) = Some m'"
        "lseg m' (Some (fst b)) (insert_free b bs) None" "\<forall>x. x \<notin> region b \<longrightarrow> m' x = ?m x" by auto
      then show ?thesis using True fr head
        by (intro exI [of _ m'] exI [of _ "Some (fst b)"]) (simp add: start)
    next
      case False
      have away: "fst b \<notin> fst ` set bs"
      proof
        assume "fst b \<in> fst ` set bs"
        then obtain e where e: "e \<in> set bs" "fst e = fst b" by auto
        then have "block_ok e" using ok by (simp add: blocks_ok_def)
        then have "fst b \<in> region b \<inter> region e" using header_in_region [of e] header_in_region [OF bok] e(2) by simp
        then show False using dis e(1) by (auto simp: regions_def)
      qed
      then have "fst c < fst b" using False Cons by auto
      from find_prev_Some [of ?m c cs "fst b"] seg' head Cons this away obtain pre d post where
        d: "bs = pre @ d # post" "find_prev ?m (fst b) (fst c) = Some (fst d)" "fst d < fst b"
          "case post of [] \<Rightarrow> True | e # es \<Rightarrow> fst b < fst e" by auto
      have gap: "at_gap ?m (fl_head fl) pre d b post"
        using seg' ok bok dis d(1,3,4) by (cases d) (auto simp: at_gap_def at_block_def)
      from insert_after_spec [OF gap] obtain m' where
        m': "insert_after ?m (fst b) (fst b) (snd b) (fst d) = Some m'"
          "lseg m' (fl_head fl) (pre @ insert_free b (d # post)) None"
          "\<forall>x. x \<notin> region b \<union> region d \<longrightarrow> m' x = ?m x" by blast
      have "\<forall>e \<in> set pre. fst e + snd e < fst b" using ok d(1,3) by (auto simp: gap_def)
      then have "insert_free b bs = pre @ insert_free b (d # post)" unfolding d(1) by (rule insert_free_append)
      moreover have "fl_dealloc m fl p = Some (m', fl\<lparr>fl_head := fl_head fl\<rparr>)"
        using False head d(2) m'(1) by (simp add: start)
      moreover have "m' x = m x" if "x \<notin> regions bs \<union> region b" for x
        using that m'(3) fr unfolding d(1) by simp
      ultimately show ?thesis using m'(2) by metis
    qed
  qed
qed

section \<open>The heap invariant\<close>

text \<open>
  An allocation that is still live: its data pointer, the region the allocator took for it (metadata
  and padding included), and the number of bytes the client may use.
\<close>

record allocation =
  al_ptr :: usize
  al_block :: block
  al_size :: usize

definition allocation_ok :: "memory \<Rightarrow> allocation \<Rightarrow> bool" where
  "allocation_ok m al \<longleftrightarrow> block_ok (al_block al) \<and> 0 < al_size al \<and> fst (al_block al) + 16 \<le> al_ptr al \<and>
     al_ptr al + al_size al \<le> fst (al_block al) + snd (al_block al) \<and> 8 dvd al_ptr al \<and>
     m (al_ptr al - 16) = fst (al_block al) \<and> m (al_ptr al - 8) = snd (al_block al)"

definition user_bytes :: "allocation \<Rightarrow> nat set" where
  "user_bytes al = {al_ptr al ..< al_ptr al + al_size al}"

text \<open>
  The free list and the live allocations tile the heap: no byte is lost and none belongs to two
  owners.
\<close>

definition heap_inv :: "usize \<Rightarrow> memory \<Rightarrow> free_list_allocator \<Rightarrow> allocation set \<Rightarrow> bool" where
  "heap_inv base m fl live \<longleftrightarrow> (\<exists>bs. lseg m (fl_head fl) bs None \<and> blocks_ok bs \<and> finite live \<and>
     (\<forall>al \<in> live. allocation_ok m al \<and> region (al_block al) \<inter> regions bs = {}) \<and>
     (\<forall>x \<in> live. \<forall>y \<in> live. x \<noteq> y \<longrightarrow> region (al_block x) \<inter> region (al_block y) = {}) \<and>
     regions bs \<union> (\<Union>al \<in> live. region (al_block al)) = {base ..< base + fl_total_size fl})"

text \<open>Metadata cells lie in the region of their allocation, before the client's bytes.\<close>

lemma metadata_in_region:
  assumes "allocation_ok m al"
  shows "al_ptr al - 16 \<in> region (al_block al)" "al_ptr al - 8 \<in> region (al_block al)"
    "al_ptr al - 16 \<notin> user_bytes al" "al_ptr al - 8 \<notin> user_bytes al"
    "user_bytes al \<subseteq> region (al_block al)" "al_ptr al \<in> region (al_block al)"
proof -
  obtain a s where b: "al_block al = (a, s)" by (cases "al_block al")
  have "a + 16 \<le> al_ptr al" "al_ptr al + al_size al \<le> a + s" "24 \<le> s" "0 < al_size al"
    using assms by (simp_all add: allocation_ok_def block_ok_def b)
  then show "al_ptr al - 16 \<in> region (al_block al)" "al_ptr al - 8 \<in> region (al_block al)"
    "al_ptr al - 16 \<notin> user_bytes al" "al_ptr al - 8 \<notin> user_bytes al"
    "user_bytes al \<subseteq> region (al_block al)" "al_ptr al \<in> region (al_block al)"
    by (auto simp: b user_bytes_def)
qed

lemma allocation_frame:
  assumes "allocation_ok m al" and "m' (al_ptr al - 16) = m (al_ptr al - 16)" and "m' (al_ptr al - 8) = m (al_ptr al - 8)"
  shows "allocation_ok m' al"
  using assms by (simp add: allocation_ok_def)

lemma heap_inv_init:
  assumes "start < e" and "e \<le> HEAP_LIMIT" and "start + 48 \<le> e"
  shows "\<exists>m' fl'. fl_init m fl start e = Some (m', fl') \<and> fl_total_size fl' = e - start - 24 \<and>
    heap_inv (round_up start 8) m' fl' {} \<and> start \<le> round_up start 8 \<and> round_up start 8 + fl_total_size fl' \<le> e \<and>
    (\<forall>x. x \<notin> {start ..< e} \<longrightarrow> m' x = m x)"
proof -
  define a where "a = round_up start 8"
  define sz where "sz = e - start - 24"
  let ?m = "set_next (set_size m a sz) a None"
  have a: "start \<le> a" "a < start + 8" "8 dvd a" using round_up_bounds [of 8 start] by (simp_all add: a_def)
  have lim: "start + 8 < usize_limit" "24 \<le> sz" "a + sz \<le> e"
    using assms a by (simp_all add: sz_def HEAP_LIMIT_def)
  have "heap_align_up start 8 = Some a" using heap_align_up_Some [of start 3] lim by (simp add: a_def)
  then have "fl_init m fl start e = Some (?m, \<lparr>fl_head = Some a, fl_total_size = sz\<rparr>)"
    using assms by (simp add: fl_init_def aligned_new_def sub_usize_def Let_def sz_def)
  moreover have "block_ok (a, sz)" using a(3) lim assms(2) by (simp add: block_ok_def)
  then have "heap_inv a ?m \<lparr>fl_head = Some a, fl_total_size = sz\<rparr> {}"
    unfolding heap_inv_def by (intro exI [of _ "[(a, sz)]"]) simp
  moreover have "\<forall>x. x \<notin> {start ..< e} \<longrightarrow> ?m x = m x" using a lim by auto
  ultimately show ?thesis using a(1) lim(3) by (auto simp: sz_def a_def)
qed

abbreviation live_bytes :: "allocation set \<Rightarrow> nat set" where
  "live_bytes live \<equiv> (\<Union>al \<in> live. region (al_block al))"

abbreviation heap_bytes :: "usize \<Rightarrow> free_list_allocator \<Rightarrow> nat set" where
  "heap_bytes base fl \<equiv> {base ..< base + fl_total_size fl}"

lemma heap_invE:
  assumes "heap_inv base m fl live"
  obtains bs where "lseg m (fl_head fl) bs None" "blocks_ok bs" "finite live"
    "\<And>al. al \<in> live \<Longrightarrow> allocation_ok m al \<and> region (al_block al) \<inter> regions bs = {}"
    "\<And>x y. x \<in> live \<Longrightarrow> y \<in> live \<Longrightarrow> x \<noteq> y \<Longrightarrow> region (al_block x) \<inter> region (al_block y) = {}"
    "regions bs \<union> live_bytes live = heap_bytes base fl" "regions bs \<inter> live_bytes live = {}"
proof -
  from assms obtain bs where bs: "lseg m (fl_head fl) bs None" "blocks_ok bs" "finite live"
    "\<forall>al \<in> live. allocation_ok m al \<and> region (al_block al) \<inter> regions bs = {}"
    "\<forall>x \<in> live. \<forall>y \<in> live. x \<noteq> y \<longrightarrow> region (al_block x) \<inter> region (al_block y) = {}"
    "regions bs \<union> live_bytes live = heap_bytes base fl" unfolding heap_inv_def by blast
  show thesis by (rule that [OF bs(1-3) _ _ bs(6)]) (use bs(4,5) in blast)+
qed

lemma blocks_ok_pair:
  "blocks_ok bs \<Longrightarrow> b \<in> set bs \<Longrightarrow> c \<in> set bs \<Longrightarrow> b = c \<or> gap b c \<or> gap c b"
  by (induction bs) auto

text \<open>An interval of free bytes lies in one block, because neighbouring blocks are always merged.\<close>

lemma interval_in_block:
  assumes "blocks_ok bs" and "{x ..< y} \<subseteq> regions bs" and "x < y"
  shows "\<exists>b \<in> set bs. fst b \<le> x \<and> y \<le> fst b + snd b"
proof -
  have "x \<in> regions bs" using assms(2,3) by auto
  then obtain b where b: "b \<in> set bs" "x \<in> region b" by (auto simp: regions_def)
  have bx: "fst b \<le> x" "x < fst b + snd b" using b(2) by (cases b; simp)+
  have "y \<le> fst b + snd b"
  proof (rule ccontr)
    assume "\<not> y \<le> fst b + snd b"
    then have "fst b + snd b \<in> regions bs" using assms(2) bx by auto
    then obtain c where c: "c \<in> set bs" "fst b + snd b \<in> region c" by (auto simp: regions_def)
    have cx: "fst c \<le> fst b + snd b" "fst b + snd b < fst c + snd c" using c(2) by (cases c; simp)+
    have "b = c \<or> gap b c \<or> gap c b"
      by (rule blocks_ok_pair [OF assms(1) b(1) c(1)])
    then show False using cx bx by (auto simp: gap_def)
  qed
  then show ?thesis using b(1) bx by blast
qed

lemma heap_inv_alloc_null:
  assumes "heap_inv base m fl live" and "layout_valid l" and "0 < layout_size l"
    and "fl_alloc m fl l = Some (m', fl', 0)"
  shows "m' = m \<and> fl' = fl \<and>
    \<not> (\<exists>p. req_align l dvd p \<and> 16 \<le> p \<and> {p - 16 ..< p + req_size l} \<subseteq> heap_bytes base fl - live_bytes live)"
proof -
  obtain bs where bs: "lseg m (fl_head fl) bs None" "blocks_ok bs"
    "regions bs \<union> live_bytes live = heap_bytes base fl" "regions bs \<inter> live_bytes live = {}"
    using heap_invE [OF assms(1)] by metis
  note req = layout_request(1) [OF assms(2,3)]
  have free: "heap_bytes base fl - live_bytes live = regions bs" using bs(3,4) by blast
  note spec = fl_alloc_spec [OF assms(2,3) bs(1,2)]
  have none: "first_fit (req_align l) (req_size l) bs = None"
  proof (rule ccontr)
    assume "first_fit (req_align l) (req_size l) bs \<noteq> None"
    then obtain p st n bs' where ff: "first_fit (req_align l) (req_size l) bs = Some (p, (st, n), bs')" by auto
    from spec ff have "p = 0" using assms(4) by auto
    then show False using first_fit_grant(7) [OF req bs(2) ff] by simp
  qed
  then have "m' = m" "fl' = fl" using spec assms(4) by simp_all
  moreover have False if p: "req_align l dvd p" "16 \<le> p" "{p - 16 ..< p + req_size l} \<subseteq> regions bs" for p
  proof -
    note r = request_okD [OF req]
    have "p - 16 < p + req_size l" using p(2) by simp
    from interval_in_block [OF bs(2) p(3) this] obtain b where
      b: "b \<in> set bs" "fst b \<le> p - 16" "p + req_size l \<le> fst b + snd b" by blast
    have "data_ptr (req_align l) b \<le> p"
    proof -
      obtain k where k: "p = k * req_align l" using p(1) by (metis dvd_def mult.commute)
      have "div_ceil (fst b + 16) (req_align l) \<le> k" using b(2) p(2) r(1) k by (simp add: div_ceil_le_iff)
      then show ?thesis by (simp add: data_ptr_def round_up_def k)
    qed
    then have "fits (req_align l) (req_size l) b" using b(3) by (simp add: fits_def)
    then show False using none b(1) by (simp add: first_fit_None)
  qed
  ultimately show ?thesis unfolding free by blast
qed

lemma heap_inv_alloc:
  assumes inv: "heap_inv base m fl live" and l: "layout_valid l" "0 < layout_size l"
  shows "\<exists>m' fl' p. fl_alloc m fl l = Some (m', fl', p) \<and> fl_total_size fl' = fl_total_size fl \<and>
    (p \<noteq> 0 \<longrightarrow> (\<exists>b. heap_inv base m' fl' (insert \<lparr>al_ptr = p, al_block = b, al_size = layout_size l\<rparr> live) \<and>
       layout_align l dvd p \<and> region b \<subseteq> heap_bytes base fl - live_bytes live \<and>
       (\<forall>x \<in> live_bytes live. m' x = m x)))"
proof -
  obtain bs where bs: "lseg m (fl_head fl) bs None" "blocks_ok bs" "finite live"
    "\<And>al. al \<in> live \<Longrightarrow> allocation_ok m al \<and> region (al_block al) \<inter> regions bs = {}"
    "\<And>x y. x \<in> live \<Longrightarrow> y \<in> live \<Longrightarrow> x \<noteq> y \<Longrightarrow> region (al_block x) \<inter> region (al_block y) = {}"
    "regions bs \<union> live_bytes live = heap_bytes base fl" "regions bs \<inter> live_bytes live = {}"
    using heap_invE [OF inv] by metis
  note req = layout_request [OF l] and spec = fl_alloc_spec [OF l bs(1,2)]
  show ?thesis
  proof (cases "first_fit (req_align l) (req_size l) bs")
    case None
    then show ?thesis using spec by auto
  next
    case (Some r)
    obtain p st n bs' where r: "r = (p, (st, n), bs')" by (metis prod.exhaust)
    note ff = Some [unfolded r] and g = first_fit_grant [OF req(1) bs(2) Some [unfolded r]]
    from spec ff obtain m' head' where m': "fl_alloc m fl l = Some (m', fl\<lparr>fl_head := head'\<rparr>, p)"
      "lseg m' head' bs' None" "m' (p - 16) = st" "m' (p - 8) = n" "\<And>x. x \<notin> regions bs \<Longrightarrow> m' x = m x"
      by auto
    let ?al = "\<lparr>al_ptr = p, al_block = (st, n), al_size = layout_size l\<rparr>"
    have sub: "region (st, n) \<subseteq> regions bs" using g(2) by blast
    have "8 dvd p" using g(9) request_okD(2) [OF req(1)] dvd_trans by blast
    then have new: "allocation_ok m' ?al"
      using m'(3,4) g(4-8) l(2) req(3) by (simp add: allocation_ok_def block_ok_def)
    have same: "m' x = m x" if "x \<in> live_bytes live" for x using that bs(7) by (intro m'(5)) blast
    have old: "allocation_ok m' al \<and> region (al_block al) \<inter> regions bs' = {} \<and>
        region (al_block al) \<inter> region (st, n) = {}" if "al \<in> live" for al
    proof -
      note al = bs(4) [OF that]
      have "allocation_ok m' al"
        by (rule allocation_frame [of m]) (use al same metadata_in_region [of m al] that in blast)+
      then show ?thesis using al g(2) by blast
    qed
    have "heap_inv base m' (fl\<lparr>fl_head := head'\<rparr>) (insert ?al live)"
      unfolding heap_inv_def
    proof (intro exI [of _ bs'] conjI)
      show "\<forall>al \<in> insert ?al live. allocation_ok m' al \<and> region (al_block al) \<inter> regions bs' = {}"
        using new old g(3) by (simp add: Int_commute del: region.simps)
      show "\<forall>x \<in> insert ?al live. \<forall>y \<in> insert ?al live. x \<noteq> y \<longrightarrow> region (al_block x) \<inter> region (al_block y) = {}"
        using old bs(5) by (simp add: Int_commute del: region.simps)
      show "regions bs' \<union> live_bytes (insert ?al live) = heap_bytes base (fl\<lparr>fl_head := head'\<rparr>)"
        using bs(6) g(2) by (simp add: Un_assoc [symmetric] del: region.simps)
    qed (use m'(2) g(1) bs(3) in simp_all)
    moreover have "layout_align l dvd p" using req(4) g(9) dvd_trans by blast
    moreover have "region (st, n) \<subseteq> heap_bytes base fl - live_bytes live" using sub bs(6,7) by blast
    ultimately show ?thesis using m'(1) same
      by (intro exI [of _ m'] exI [of _ "fl\<lparr>fl_head := head'\<rparr>"] exI [of _ p] conjI impI exI [of _ "(st, n)"])
        (simp_all del: region.simps)
  qed
qed

lemma heap_inv_dealloc:
  assumes inv: "heap_inv base m fl live" and al: "al \<in> live"
  shows "\<exists>m' fl'. fl_dealloc m fl (al_ptr al) = Some (m', fl') \<and> fl_total_size fl' = fl_total_size fl \<and>
    heap_inv base m' fl' (live - {al}) \<and> (\<forall>x \<in> live_bytes (live - {al}). m' x = m x)"
proof -
  obtain bs where bs: "lseg m (fl_head fl) bs None" "blocks_ok bs" "finite live"
    "\<And>al. al \<in> live \<Longrightarrow> allocation_ok m al \<and> region (al_block al) \<inter> regions bs = {}"
    "\<And>x y. x \<in> live \<Longrightarrow> y \<in> live \<Longrightarrow> x \<noteq> y \<Longrightarrow> region (al_block x) \<inter> region (al_block y) = {}"
    "regions bs \<union> live_bytes live = heap_bytes base fl" "regions bs \<inter> live_bytes live = {}"
    using heap_invE [OF inv] by metis
  let ?b = "al_block al"
  have b: "block_ok ?b" "region ?b \<inter> regions bs = {}" "16 \<le> al_ptr al"
    "m (al_ptr al - 16) = fst ?b" "m (al_ptr al - 8) = snd ?b"
    using bs(4) [OF al] by (simp_all add: allocation_ok_def)
  from fl_dealloc_spec [OF bs(1,2) b] obtain m' head' where
    m': "fl_dealloc m fl (al_ptr al) = Some (m', fl\<lparr>fl_head := head'\<rparr>)"
      "lseg m' head' (insert_free ?b bs) None" "\<And>x. x \<notin> regions bs \<union> region ?b \<Longrightarrow> m' x = m x" by blast
  from insert_free_spec [OF bs(2) b(1,2)] have ins: "blocks_ok (insert_free ?b bs)"
    "regions (insert_free ?b bs) = region ?b \<union> regions bs" by simp_all
  have same: "m' x = m x" if "x \<in> live_bytes (live - {al})" for x
    using that bs(4,5) al by (intro m'(3)) blast
  have old: "allocation_ok m' x \<and> region (al_block x) \<inter> regions (insert_free ?b bs) = {}"
    if "x \<in> live - {al}" for x
  proof -
    have x: "allocation_ok m x" "region (al_block x) \<inter> regions bs = {}" "region (al_block x) \<inter> region ?b = {}"
      using that bs(4,5) al by blast+
    have "allocation_ok m' x"
      by (rule allocation_frame [OF x(1)]) (use same metadata_in_region [OF x(1)] that in blast)+
    then show ?thesis using x(2,3) unfolding ins(2) by blast
  qed
  have split: "live_bytes live = region ?b \<union> live_bytes (live - {al})" using al by blast
  have "heap_inv base m' (fl\<lparr>fl_head := head'\<rparr>) (live - {al})"
    unfolding heap_inv_def
  proof (intro exI [of _ "insert_free ?b bs"] conjI)
    show "regions (insert_free ?b bs) \<union> live_bytes (live - {al}) = heap_bytes base (fl\<lparr>fl_head := head'\<rparr>)"
      using bs(6) split unfolding ins(2) by (simp add: Un_ac)
    show "\<forall>x \<in> live - {al}. \<forall>y \<in> live - {al}. x \<noteq> y \<longrightarrow> region (al_block x) \<inter> region (al_block y) = {}"
      using bs(5) by blast
  qed (use m'(2) ins(1) bs(3) old in auto)
  then show ?thesis using m'(1) same by (intro exI [of _ m'] exI [of _ "fl\<lparr>fl_head := head'\<rparr>"]) simp
qed

text \<open>Clients may write anything into their own bytes.\<close>

lemma heap_inv_write:
  assumes inv: "heap_inv base m fl live" and same: "\<And>x. x \<notin> (\<Union>al \<in> live. user_bytes al) \<Longrightarrow> m' x = m x"
  shows "heap_inv base m' fl live"
proof -
  obtain bs where bs: "lseg m (fl_head fl) bs None" "blocks_ok bs" "finite live"
    "\<And>al. al \<in> live \<Longrightarrow> allocation_ok m al \<and> region (al_block al) \<inter> regions bs = {}"
    "\<And>x y. x \<in> live \<Longrightarrow> y \<in> live \<Longrightarrow> x \<noteq> y \<Longrightarrow> region (al_block x) \<inter> region (al_block y) = {}"
    "regions bs \<union> live_bytes live = heap_bytes base fl" "regions bs \<inter> live_bytes live = {}"
    using heap_invE [OF inv] by metis
  have user: "user_bytes al \<subseteq> region (al_block al)" if "al \<in> live" for al
    using metadata_in_region(5) bs(4) [OF that] by blast
  have "lseg m' (fl_head fl) bs None"
    by (rule lseg_frame_region [OF bs(1,2)], rule same) (use bs(7) user in blast)
  moreover have "allocation_ok m' al" if al: "al \<in> live" for al
  proof -
    have "x \<notin> (\<Union>al \<in> live. user_bytes al)" if "x \<in> region (al_block al)" "x \<notin> user_bytes al" for x
    proof
      assume "x \<in> (\<Union>al \<in> live. user_bytes al)"
      then obtain y where y: "y \<in> live" "x \<in> user_bytes y" by blast
      then have "y \<noteq> al" "x \<in> region (al_block y)" using that(2) user by blast+
      then show False using bs(5) [OF y(1) al] that(1) by blast
    qed
    then show ?thesis using bs(4) [OF al] metadata_in_region(1-4) [of m al]
      by (intro allocation_frame [of m al m'] same) blast+
  qed
  ultimately show ?thesis unfolding heap_inv_def using bs(2-6) by blast
qed

section \<open>Statistics\<close>

lemma walk_stats:
  assumes "lseg m cur bs None" and "free + sum_list (map snd bs) < usize_limit" and "n + length bs < usize_limit"
  shows "walk_from stats_visit m (free, n, big) prev cur =
    Some (m, (free + sum_list (map snd bs), n + length bs, fold max (map snd bs) big), None)"
  using assms
proof (induction bs arbitrary: cur free n big prev)
  case Nil
  then show ?case by (simp add: walk_from.simps)
next
  case (Cons b bs)
  have cur: "cur = Some (fst b)" "blk_size m (fst b) = snd b" "lseg m (blk_next m (fst b)) bs None"
    using Cons.prems(1) by (cases b; simp)+
  have "stats_visit m (free, n, big) (fst b) prev = Some (m, (free + snd b, n + 1, max big (snd b)), None)"
    using Cons.prems by (simp add: stats_visit_def cur add_usize_def Let_def)
  then have "walk_from stats_visit m (free, n, big) prev cur =
      walk_from stats_visit m (free + snd b, n + 1, max big (snd b)) cur (blk_next m (fst b))"
    by (subst walk_from.simps) (simp add: cur(1))
  then show ?case using Cons.IH [OF cur(3), of "free + snd b" "n + 1"] Cons.prems(2,3)
    by (simp add: max.commute add.assoc)
qed

lemma regions_card:
  "blocks_ok bs \<Longrightarrow> card (regions bs) = sum_list (map snd bs) \<and> finite (regions bs)"
proof (induction bs)
  case (Cons b bs)
  have "region b \<inter> regions bs = {}" using blocks_ok_disjoint(2) [of "[]" b bs] Cons.prems by auto
  moreover have "card (region b) = snd b" "finite (region b)" by (cases b; simp)+
  ultimately show ?case using Cons by (simp add: card_Un_disjoint)
qed simp

lemma length_le_sum: "\<forall>b \<in> set bs. 1 \<le> snd b \<Longrightarrow> length bs \<le> sum_list (map snd bs)"
  by (induction bs) auto

lemma heap_inv_stats:
  assumes inv: "heap_inv base m fl live" and lim: "base + fl_total_size fl < usize_limit"
  shows "\<exists>st. fl_stats m fl = Some st \<and> ms_total st = fl_total_size fl \<and>
    ms_used st = (\<Sum>al \<in> live. snd (al_block al)) \<and>
    ms_used st + ms_free st = fl_total_size fl \<and>
    (\<forall>a s. {a ..< a + s} \<subseteq> heap_bytes base fl - live_bytes live \<longrightarrow> s \<le> ms_largest_free_block st)"
proof -
  obtain bs where bs: "lseg m (fl_head fl) bs None" "blocks_ok bs" "finite live"
    "\<And>al. al \<in> live \<Longrightarrow> allocation_ok m al \<and> region (al_block al) \<inter> regions bs = {}"
    "\<And>x y. x \<in> live \<Longrightarrow> y \<in> live \<Longrightarrow> x \<noteq> y \<Longrightarrow> region (al_block x) \<inter> region (al_block y) = {}"
    "regions bs \<union> live_bytes live = heap_bytes base fl" "regions bs \<inter> live_bytes live = {}"
    using heap_invE [OF inv] by metis
  define free where "free = sum_list (map snd bs)"
  note rc = regions_card [OF bs(2), folded free_def]
  have one: "card (region b) = snd b" "finite (region b)" for b by (cases b; simp)+
  have "card (live_bytes live) = (\<Sum>al \<in> live. card (region (al_block al)))"
    using bs(3,5) one(2) by (intro card_UN_disjoint) blast+
  then have live: "card (live_bytes live) = (\<Sum>al \<in> live. snd (al_block al))" by (simp add: one)
  have fin: "finite (live_bytes live)" using bs(3) one(2) by blast
  have tot: "free + card (live_bytes live) = fl_total_size fl"
    using card_Un_disjoint [OF _ fin bs(7)] rc bs(6) by simp
  have "\<forall>b \<in> set bs. 1 \<le> snd b" using bs(2) by (auto simp: blocks_ok_def block_ok_def)
  then have len: "length bs \<le> free" unfolding free_def by (rule length_le_sum)
  have free: "free < usize_limit" using tot lim by simp
  have w: "walk_list stats_visit m (0, 0, 0) (fl_head fl) = Some (m, (free, length bs, fold max (map snd bs) 0), None)"
    using walk_stats [OF bs(1), of 0 0 0 None] free len by (simp add: walk_list_def free_def)
  have largest: "s \<le> fold max (map snd bs) 0" if "{a ..< a + s} \<subseteq> heap_bytes base fl - live_bytes live" for a s
  proof (cases "s = 0")
    case False
    have "{a ..< a + s} \<subseteq> regions bs" using that bs(6) by blast
    from interval_in_block [OF bs(2) this] False obtain b where "b \<in> set bs" "s \<le> snd b" by auto
    moreover have "fold max (map snd bs) 0 = Max (set (0 # map snd bs))" by (simp only: Max.set_eq_fold)
    then have "snd b \<le> fold max (map snd bs) 0" if "b \<in> set bs" for b using that by simp
    ultimately show ?thesis using order_trans by blast
  qed simp
  show ?thesis using w tot live largest
    by (simp add: fl_stats_def saturating_sub_def)
qed

section \<open>Every history of requests\<close>

text \<open>
  The heap as a machine: initialisation on \<open>[start, e)\<close>, then requests, releases of live pointers and
  writes of the clients into their own bytes, in any order. The set of live allocations is ghost
  state.
\<close>

inductive heap_reach :: "usize \<Rightarrow> usize \<Rightarrow> memory \<Rightarrow> free_list_allocator \<Rightarrow> allocation set \<Rightarrow> bool"
  for start e where
  heap_start: "fl_init m0 fl_new start e = Some (m, fl) \<Longrightarrow> heap_reach start e m fl {}"
| heap_grant: "heap_reach start e m fl live \<Longrightarrow> layout_valid l \<Longrightarrow> 0 < layout_size l \<Longrightarrow>
    fl_alloc m fl l = Some (m', fl', p) \<Longrightarrow> p \<noteq> 0 \<Longrightarrow>
    heap_reach start e m' fl'
      (insert \<lparr>al_ptr = p, al_block = (m' (p - 16), m' (p - 8)), al_size = layout_size l\<rparr> live)"
| heap_refuse: "heap_reach start e m fl live \<Longrightarrow> layout_valid l \<Longrightarrow> 0 < layout_size l \<Longrightarrow>
    fl_alloc m fl l = Some (m', fl', 0) \<Longrightarrow> heap_reach start e m' fl' live"
| heap_release: "heap_reach start e m fl live \<Longrightarrow> al \<in> live \<Longrightarrow>
    fl_dealloc m fl (al_ptr al) = Some (m', fl') \<Longrightarrow> heap_reach start e m' fl' (live - {al})"
| heap_write: "heap_reach start e m fl live \<Longrightarrow> (\<And>x. x \<notin> (\<Union>al \<in> live. user_bytes al) \<Longrightarrow> m' x = m x) \<Longrightarrow>
    heap_reach start e m' fl live"

definition heap_range_ok :: "usize \<Rightarrow> usize \<Rightarrow> bool" where
  "heap_range_ok start e \<longleftrightarrow> start + 48 \<le> e \<and> e \<le> HEAP_LIMIT"

text \<open>A granted allocation is recorded with the region its metadata names.\<close>

lemma heap_inv_grant:
  assumes "heap_inv base m fl live" and "layout_valid l" and "0 < layout_size l"
    and "fl_alloc m fl l = Some (m', fl', p)" and "p \<noteq> 0"
  shows "heap_inv base m' fl' (insert \<lparr>al_ptr = p, al_block = (m' (p - 16), m' (p - 8)), al_size = layout_size l\<rparr> live)"
    and "layout_align l dvd p" and "region (m' (p - 16), m' (p - 8)) \<subseteq> heap_bytes base fl - live_bytes live"
    and "\<forall>x \<in> live_bytes live. m' x = m x"
proof -
  from heap_inv_alloc [OF assms(1-3)] assms(4,5) obtain b where
    b: "heap_inv base m' fl' (insert \<lparr>al_ptr = p, al_block = b, al_size = layout_size l\<rparr> live)"
      "layout_align l dvd p" "region b \<subseteq> heap_bytes base fl - live_bytes live" "\<forall>x \<in> live_bytes live. m' x = m x"
    by auto
  have "allocation_ok m' \<lparr>al_ptr = p, al_block = b, al_size = layout_size l\<rparr>"
    using heap_invE [OF b(1)] by (metis insertI1)
  then have "b = (m' (p - 16), m' (p - 8))" by (simp add: allocation_ok_def)
  with b show "heap_inv base m' fl' (insert \<lparr>al_ptr = p, al_block = (m' (p - 16), m' (p - 8)), al_size = layout_size l\<rparr> live)"
    "layout_align l dvd p" "region (m' (p - 16), m' (p - 8)) \<subseteq> heap_bytes base fl - live_bytes live"
    "\<forall>x \<in> live_bytes live. m' x = m x" by simp_all
qed

lemma heap_reach_inv:
  assumes "heap_reach start e m fl live" and "heap_range_ok start e"
  shows "heap_inv (round_up start 8) m fl live \<and> fl_total_size fl = e - start - 24"
  using assms(1)
proof (induction rule: heap_reach.induct)
  case (heap_start m0 m fl)
  have "start < e" "e \<le> HEAP_LIMIT" "start + 48 \<le> e" using assms(2) by (auto simp: heap_range_ok_def)
  from heap_inv_init [OF this, of m0 fl_new] heap_start show ?case by auto
next
  case (heap_grant m fl live l m' fl' p)
  then show ?case using heap_inv_grant(1) heap_inv_alloc [of "round_up start 8" m fl live l] by auto
next
  case (heap_refuse m fl live l m' fl')
  then show ?case using heap_inv_alloc_null [of "round_up start 8" m fl live l m' fl'] by simp
next
  case (heap_release m fl live al m' fl')
  then show ?case using heap_inv_dealloc [of "round_up start 8" m fl live al] by auto
next
  case (heap_write m fl live m')
  then show ?case using heap_inv_write [of "round_up start 8" m fl live m'] by blast
qed

lemma heap_bytes_bounds:
  assumes "heap_range_ok start e" and "fl_total_size fl = e - start - 24"
  shows "heap_bytes (round_up start 8) fl \<subseteq> {start ..< e}" and "round_up start 8 + fl_total_size fl < usize_limit"
proof -
  have "start \<le> round_up start 8" "round_up start 8 < start + 8" using round_up_bounds [of 8 start] by simp_all
  then show "heap_bytes (round_up start 8) fl \<subseteq> {start ..< e}" "round_up start 8 + fl_total_size fl < usize_limit"
    using assms by (auto simp: heap_range_ok_def HEAP_LIMIT_def)
qed

lemma singleton_list: "distinct xs \<Longrightarrow> set xs = {b} \<Longrightarrow> xs = [b]"
  by (cases xs; cases "tl xs") auto

text \<open>With nothing live, the free list is one block: adjacent free blocks do not exist.\<close>

lemma heap_reach_empty:
  assumes "heap_reach start e m fl {}" and "heap_range_ok start e"
  shows "fl_head fl = Some (round_up start 8) \<and> blk_size m (round_up start 8) = e - start - 24 \<and>
    blk_next m (round_up start 8) = None"
proof -
  define a where "a = round_up start 8"
  from heap_reach_inv [OF assms] have inv: "heap_inv a m fl {}" and tot: "fl_total_size fl = e - start - 24"
    by (simp_all add: a_def)
  obtain bs where bs: "lseg m (fl_head fl) bs None" "blocks_ok bs" "regions bs = {a ..< a + (e - start - 24)}"
    using heap_invE [OF inv] tot by (metis (no_types, lifting) UN_empty Un_empty_right)
  have "0 < e - start - 24" using assms(2) by (simp add: heap_range_ok_def)
  then have pos: "a < a + (e - start - 24)" by linarith
  from interval_in_block [OF bs(2) equalityD2 [OF bs(3)] pos] obtain b where
    b: "b \<in> set bs" "fst b \<le> a" "a + (e - start - 24) \<le> fst b + snd b" by blast
  have only: "region c \<subseteq> {a ..< a + (e - start - 24)}" if "c \<in> set bs" for c using that bs(3) by (auto simp: regions_def)
  have "region b \<subseteq> {a ..< a + (e - start - 24)}" using only b(1) .
  moreover have "24 \<le> snd b" using bs(2) b(1) by (simp add: blocks_ok_def block_ok_def)
  then have "fst b \<in> region b" "fst b + snd b - 1 \<in> region b" by (cases b; simp)+
  ultimately have "a \<le> fst b" "fst b + snd b - 1 < a + (e - start - 24)" by auto
  then have b': "b = (a, e - start - 24)" using b(2,3) \<open>24 \<le> snd b\<close> by (cases b) simp
  have "c = b" if "c \<in> set bs" for c
  proof (rule ccontr)
    assume "c \<noteq> b"
    then have "gap b c \<or> gap c b" using blocks_ok_pair [OF bs(2) b(1) that] by blast
    moreover have "block_ok c" using bs(2) that by (simp add: blocks_ok_def)
    moreover have "24 \<le> snd c" using \<open>block_ok c\<close> by (simp add: block_ok_def)
    moreover have "fst c \<in> {a ..< a + (e - start - 24)}" using only [OF that] header_in_region [OF \<open>block_ok c\<close>] by blast
    ultimately show False by (auto simp: gap_def b')
  qed
  moreover have "distinct bs" using bs(2) by (induction bs) (auto simp: gap_def block_ok_def)
  ultimately have "bs = [b]" using b(1) by (intro singleton_list) blast+
  then show ?thesis using bs(1) by (simp add: b' a_def)
qed

text \<open>A heap of one kilobyte: fresh, after one request, and a request it must refuse.\<close>

definition sample_mem :: memory where
  "sample_mem = set_next (set_size (\<lambda>_. 0) 0x80100000 1000) 0x80100000 None"

definition sample_fl :: free_list_allocator where
  "sample_fl = \<lparr>fl_head = Some 0x80100000, fl_total_size = 1000\<rparr>"

definition sample_request :: alloc_layout where
  "sample_request = \<lparr>layout_size = 40, layout_align = 16\<rparr>"

definition sample_too_large :: alloc_layout where
  "sample_too_large = \<lparr>layout_size = 4096, layout_align = 8\<rparr>"

lemmas heap_defs = heap_align_up_def aligned_new_def aligned_new_with_def not_usize_def usize_defs
  blk_size_def blk_next_def set_size_def set_next_def

lemma sample_range: "heap_range_ok 0x80100000 0x80100400"
  by (simp add: heap_range_ok_def HEAP_LIMIT_def)

lemma sample_layouts:
  "layout_valid sample_request" "0 < layout_size sample_request"
  "layout_valid sample_too_large" "0 < layout_size sample_too_large"
  by (auto simp: layout_valid_def sample_request_def sample_too_large_def div_ceil_def
      intro: exI [of _ 4] exI [of _ 3])

lemma sample_reach: "heap_reach 0x80100000 0x80100400 sample_mem sample_fl {}"
proof (rule heap_start)
  show "fl_init (\<lambda>_. 0) fl_new 0x80100000 0x80100400 = Some (sample_mem, sample_fl)"
    by (simp add: fl_init_def fl_new_def sample_mem_def sample_fl_def heap_defs)
qed

lemma sample_grant:
  "\<exists>m'. fl_alloc sample_mem sample_fl sample_request =
     Some (m', \<lparr>fl_head = Some 0x80100038, fl_total_size = 1000\<rparr>, 0x80100010) \<and>
     m' 0x80100000 = 0x80100000 \<and> m' 0x80100008 = 56"
  by (simp add: fl_alloc_def sample_request_def sample_fl_def walk_list_def
      walk_from.simps [of _ _ _ _ "Some _"] alloc_visit_def can_allocate_def carve_block_def relink_def
      write_metadata_def sample_mem_def heap_defs)

lemma sample_refuse: "fl_alloc sample_mem sample_fl sample_too_large = Some (sample_mem, sample_fl, 0)"
  by (simp add: fl_alloc_def sample_too_large_def sample_fl_def walk_list_def walk_from.simps alloc_visit_def
      can_allocate_def sample_mem_def heap_defs)

section \<open>Properties\<close>

text \<open>
  C7: \<open>alloc\<close> is safe in every reachable heap. For a valid non-empty layout it terminates without a
  panic; a pointer it returns is aligned as requested, the requested bytes and the metadata in front
  of them lie inside the heap range and overlap nothing that a live allocation owns, and no byte that
  a live allocation owns changes.
\<close>

theorem heap_alloc_safe:
  assumes "heap_reach start e m fl live" and "heap_range_ok start e"
    and "layout_valid l" and "0 < layout_size l"
  shows "\<exists>m' fl' p. fl_alloc m fl l = Some (m', fl', p) \<and>
    (\<forall>x \<in> live_bytes live. m' x = m x) \<and>
    (p \<noteq> 0 \<longrightarrow> layout_align l dvd p \<and>
       {p - 16 ..< p + layout_size l} \<subseteq> {start ..< e} - live_bytes live \<and>
       heap_reach start e m' fl'
         (insert \<lparr>al_ptr = p, al_block = (m' (p - 16), m' (p - 8)), al_size = layout_size l\<rparr> live))"
proof -
  from heap_reach_inv [OF assms(1,2)] have inv: "heap_inv (round_up start 8) m fl live"
    and tot: "fl_total_size fl = e - start - 24" by simp_all
  from heap_inv_alloc [OF inv assms(3,4)] obtain m' fl' p where a: "fl_alloc m fl l = Some (m', fl', p)" by blast
  show ?thesis
  proof (cases "p = 0")
    case True
    then show ?thesis using a heap_inv_alloc_null [OF inv assms(3,4)] by auto
  next
    case False
    note g = heap_inv_grant [OF inv assms(3,4) a False]
    let ?al = "\<lparr>al_ptr = p, al_block = (m' (p - 16), m' (p - 8)), al_size = layout_size l\<rparr>"
    have ok: "allocation_ok m' ?al" using heap_invE [OF g(1)] by (metis insertI1)
    then have "{p - 16 ..< p + layout_size l} \<subseteq> region (m' (p - 16), m' (p - 8))"
      by (auto simp: allocation_ok_def)
    then have "{p - 16 ..< p + layout_size l} \<subseteq> {start ..< e} - live_bytes live"
      using g(3) heap_bytes_bounds(1) [OF assms(2) tot] by blast
    then show ?thesis using a False g(2,4) heap_grant [OF assms(1,3,4) a False] by blast
  qed
qed

theorem heap_alloc_safe_witness:
  "heap_reach 0x80100000 0x80100400 sample_mem sample_fl {} \<and>
   (\<exists>m' fl'. fl_alloc sample_mem sample_fl sample_request = Some (m', fl', 0x80100010) \<and>
      heap_reach 0x80100000 0x80100400 m' fl'
        {\<lparr>al_ptr = 0x80100010, al_block = (m' (0x80100010 - 16), m' (0x80100010 - 8)), al_size = 40\<rparr>})"
  using heap_alloc_safe [OF sample_reach sample_range sample_layouts(1,2)] sample_grant sample_reach
  by (auto simp: sample_request_def)

text \<open>
  C8: \<open>alloc\<close> is complete. It returns the null pointer, changing nothing, only if no suitably aligned
  address exists at which the metadata and the rounded-up size would fit into bytes of the heap that
  no live allocation owns: memory is never refused because of bookkeeping or fragmentation between
  adjacent free blocks.
\<close>

theorem heap_alloc_complete:
  assumes "heap_reach start e m fl live" and "heap_range_ok start e"
    and "layout_valid l" and "0 < layout_size l" and "fl_alloc m fl l = Some (m', fl', 0)"
  shows "m' = m \<and> fl' = fl \<and> \<not> (\<exists>p. max (layout_align l) 8 dvd p \<and> 16 \<le> p \<and>
    {p - 16 ..< p + round_up (layout_size l) 8} \<subseteq>
      {round_up start 8 ..< round_up start 8 + (e - start - 24)} - live_bytes live)"
  using heap_inv_alloc_null [of "round_up start 8" m fl live l m' fl'] heap_reach_inv [OF assms(1,2)] assms(3-5)
  by (simp add: req_align_def req_size_def)

theorem heap_alloc_complete_witness:
  "heap_reach 0x80100000 0x80100400 sample_mem sample_fl {} \<and>
   fl_alloc sample_mem sample_fl sample_too_large = Some (sample_mem, sample_fl, 0) \<and>
   \<not> (\<exists>p. 8 dvd p \<and> 16 \<le> p \<and> {p - 16 ..< p + round_up 4096 8} \<subseteq>
      {round_up 0x80100000 8 ..< round_up 0x80100000 8 + (0x80100400 - 0x80100000 - 24)})"
  using heap_alloc_complete [OF sample_reach sample_range sample_layouts(3,4) sample_refuse] sample_reach sample_refuse
  by (simp add: sample_too_large_def)



text \<open>
  C10: freed memory is fully merged. Whatever the history, once no allocation is live the free list is
  again the single block that \<open>init\<close> created, with its address and its size.
\<close>

theorem heap_coalesces:
  assumes "heap_reach start e m fl {}" and "heap_range_ok start e"
  shows "fl_head fl = Some (round_up start 8) \<and> blk_size m (round_up start 8) = e - start - 24 \<and>
    blk_next m (round_up start 8) = None"
  by (rule heap_reach_empty [OF assms])

theorem heap_coalesces_witness:
  "heap_reach 0x80100000 0x80100400 sample_mem sample_fl {} \<and> fl_head sample_fl = Some (round_up 0x80100000 8)"
  using heap_coalesces [OF sample_reach sample_range] sample_reach by blast

text \<open>
  C11: the statistics are exact in every reachable heap: \<open>used\<close> is the sum of the regions taken for live
  allocations, \<open>used\<close> and \<open>free\<close> add up to \<open>total\<close>, and \<open>largest_free_block\<close> bounds every run of free
  bytes.
\<close>

theorem heap_stats_exact:
  assumes "heap_reach start e m fl live" and "heap_range_ok start e"
  shows "\<exists>st. fl_stats m fl = Some st \<and> ms_total st = e - start - 24 \<and>
    ms_used st = (\<Sum>al \<in> live. snd (al_block al)) \<and> ms_used st + ms_free st = e - start - 24 \<and>
    (\<forall>a s. {a ..< a + s} \<subseteq> heap_bytes (round_up start 8) fl - live_bytes live \<longrightarrow> s \<le> ms_largest_free_block st)"
  using heap_inv_stats [of "round_up start 8" m fl live] heap_reach_inv [OF assms]
    heap_bytes_bounds(2) [OF assms(2)] by auto

theorem heap_stats_exact_witness:
  "\<exists>st. fl_stats sample_mem sample_fl = Some st \<and> ms_used st = 0 \<and> ms_total st = 1000"
  using heap_stats_exact [OF sample_reach sample_range] by auto

end
