(* ===== verification/Kernel_Heap.thy ===== *)
theory Kernel_Heap
  imports Free_List Riscv Page_Frames
begin

text \<open>
  The global allocator (\<open>src/allocator.rs\<close>): the free-list heap behind a spin lock, entered with
  interrupts disabled. What the kernel's collections rely on is the locale \<open>heap_service\<close>.
\<close>

section \<open>Model\<close>

record heap_bounds =
  hb_start :: usize
  hb_end :: usize

definition heap_bounds_new :: "kernel_layout \<Rightarrow> heap_bounds" where
  "heap_bounds_new layout = \<lparr>hb_start = heap_start layout, hb_end = heap_end layout\<rparr>"

definition heap_bounds_size :: "heap_bounds \<Rightarrow> usize panics" where
  "heap_bounds_size b = sub_usize (hb_end b) (hb_start b)"

text \<open>
  A spin lock on the single hart: taking a lock that is held never returns, which is a missing result
  here; the guard releases the lock at the end of its scope.
\<close>

record 'a mutex =
  mx_locked :: bool
  mx_inner :: 'a

definition with_lock :: "('a \<Rightarrow> ('r \<times> 'a) panics) \<Rightarrow> 'a mutex \<Rightarrow> ('r \<times> 'a mutex) panics" where
  "with_lock f mx =
     (if mx_locked mx then None
      else do { (r, v) \<leftarrow> f (mx_inner mx); Some (r, mx\<lparr>mx_inner := v\<rparr>) })"

definition locked_new :: "free_list_allocator mutex" where
  "locked_new = \<lparr>mx_locked = False, mx_inner = fl_new\<rparr>"

definition locked_init ::
  "free_list_allocator mutex \<Rightarrow> memory \<Rightarrow> kernel_layout \<Rightarrow> (memory \<times> free_list_allocator mutex) panics" where
  "locked_init mx m layout =
     (let bounds = heap_bounds_new layout in
      with_lock (\<lambda>fl. fl_init m fl (hb_start bounds) (hb_end bounds)) mx)"

definition locked_stats :: "memory \<Rightarrow> free_list_allocator mutex \<Rightarrow> (memory_stats \<times> free_list_allocator mutex) panics" where
  "locked_stats m = with_lock (\<lambda>fl. do { st \<leftarrow> fl_stats m fl; Some (st, fl) })"

type_synonym heap_state = "csrs \<times> memory \<times> free_list_allocator mutex"

definition locked_alloc :: "heap_state \<Rightarrow> alloc_layout \<Rightarrow> (usize \<times> heap_state) panics" where
  "locked_alloc h layout =
     without_interrupts (\<lambda>(c, m, mx). do {
       ((m', p), mx') \<leftarrow> with_lock (\<lambda>fl. do { (m', fl', p) \<leftarrow> fl_alloc m fl layout; Some ((m', p), fl') }) mx;
       Some (p, c, m', mx')
     }) h"

definition locked_dealloc :: "heap_state \<Rightarrow> usize \<Rightarrow> heap_state panics" where
  "locked_dealloc h ptr = do {
     (u, h') \<leftarrow> without_interrupts (\<lambda>(c, m, mx). do {
       (m', mx') \<leftarrow> with_lock (\<lambda>fl. fl_dealloc m fl ptr) mx;
       Some ((), c, m', mx')
     }) h;
     Some h'
   }"

section \<open>The service the kernel's collections rely on\<close>

text \<open>A client that gives back a list of pointers, in order.\<close>

fun release_all :: "('s \<Rightarrow> usize \<Rightarrow> 's panics) \<Rightarrow> 's \<Rightarrow> usize list \<Rightarrow> 's panics" where
  "release_all free s [] = Some s"
| "release_all free s (p # ps) = do { s' \<leftarrow> free s p; release_all free s' ps }"

locale heap_service =
  fixes allocate :: "'s \<Rightarrow> alloc_layout \<Rightarrow> (usize \<times> 's) panics"
    and release :: "'s \<Rightarrow> usize \<Rightarrow> 's panics"
    and cell :: "'s \<Rightarrow> usize \<Rightarrow> usize"
    and invar :: "'s \<Rightarrow> allocation set \<Rightarrow> bool"
  assumes allocate_law: "invar s live \<Longrightarrow> layout_valid l \<Longrightarrow> 0 < layout_size l \<Longrightarrow>
      \<exists>p s'. allocate s l = Some (p, s') \<and> (\<forall>x \<in> live_bytes live. cell s' x = cell s x) \<and>
        (p = 0 \<longrightarrow> invar s' live) \<and>
        (p \<noteq> 0 \<longrightarrow> layout_align l dvd p \<and> (\<exists>al. al_ptr al = p \<and> al_size al = layout_size l \<and>
           {p - 16 ..< p + layout_size l} \<inter> live_bytes live = {} \<and> invar s' (insert al live)))"
    and release_law: "invar s live \<Longrightarrow> al \<in> live \<Longrightarrow>
      \<exists>s'. release s (al_ptr al) = Some s' \<and> invar s' (live - {al}) \<and>
        (\<forall>x \<in> live_bytes (live - {al}). cell s' x = cell s x)"
begin

text \<open>Whatever the order, the live allocations of a list can all be given back.\<close>

lemma release_all_ok:
  assumes "invar s live" and "set als \<subseteq> live" and "distinct als"
  shows "\<exists>s'. release_all release s (map al_ptr als) = Some s' \<and> invar s' (live - set als)"
  using assms
proof (induction als arbitrary: s live)
  case (Cons al als)
  from release_law [OF Cons.prems(1), of al] Cons.prems(2) obtain s' where
    s': "release s (al_ptr al) = Some s'" "invar s' (live - {al})" by auto
  have "set als \<subseteq> live - {al}" using Cons.prems by auto
  from Cons.IH [OF s'(2) this] Cons.prems(3) obtain s'' where
    "release_all release s' (map al_ptr als) = Some s''" "invar s'' (live - {al} - set als)" by auto
  moreover have "live - {al} - set als = live - set (al # als)" by auto
  ultimately show ?case using s' by simp
qed simp

end

text \<open>
  The state of the locked allocator: lock free, heap reachable from its initialisation on
  \<open>[start, e)\<close>, and the hart's status register as the caller left it.
\<close>

definition locked_inv :: "usize \<Rightarrow> usize \<Rightarrow> u64 \<Rightarrow> heap_state \<Rightarrow> allocation set \<Rightarrow> bool" where
  "locked_inv start e st = (\<lambda>(c, m, mx) live. \<not> mx_locked mx \<and> csr_sstatus c = st \<and>
     heap_range_ok start e \<and> heap_reach start e m (mx_inner mx) live)"

lemma without_interrupts_keeps:
  assumes "f (csrs_clear_sstatus 2 c, s) = Some (r, csrs_clear_sstatus 2 c, s')"
  shows "without_interrupts f (c, s) = Some (r, c, s')"
  using assms set_clear_sstatus [of "csr_sstatus c"] clear_sstatus [of "csr_sstatus c"]
  by (cases "bit (csr_sstatus c) 1")
    (simp_all add: without_interrupts_def and_two csrs_set_sstatus_def csrs_clear_sstatus_def)

lemma locked_alloc_eq:
  assumes "fl_alloc m (mx_inner mx) l = Some (m', fl', p)" and "\<not> mx_locked mx"
  shows "locked_alloc (c, m, mx) l = Some (p, c, m', mx\<lparr>mx_inner := fl'\<rparr>)"
  unfolding locked_alloc_def using assms by (intro without_interrupts_keeps) (simp add: with_lock_def)

lemma locked_dealloc_eq:
  assumes "fl_dealloc m (mx_inner mx) p = Some (m', fl')" and "\<not> mx_locked mx"
  shows "locked_dealloc (c, m, mx) p = Some (c, m', mx\<lparr>mx_inner := fl'\<rparr>)"
proof -
  let ?f = "\<lambda>(c, m, mx). do { (m', mx') \<leftarrow> with_lock (\<lambda>fl. fl_dealloc m fl p) mx; Some ((), c, m', mx') }"
  have "without_interrupts ?f (c, m, mx) = Some ((), c, m', mx\<lparr>mx_inner := fl'\<rparr>)"
    using assms by (intro without_interrupts_keeps) (simp add: with_lock_def)
  then show ?thesis by (simp add: locked_dealloc_def)
qed

interpretation kheap: heap_service locked_alloc locked_dealloc "\<lambda>(c, m, mx). m" "locked_inv start e st"
  for start e st
proof unfold_locales
  fix s :: heap_state and live l
  assume inv: "locked_inv start e st s live" and l: "layout_valid l" "0 < layout_size l"
  obtain c m mx where s: "s = (c, m, mx)" by (cases s)
  have r: "heap_reach start e m (mx_inner mx) live" "heap_range_ok start e" and u: "\<not> mx_locked mx" "csr_sstatus c = st"
    using inv by (simp_all add: s locked_inv_def)
  from heap_reach_inv [OF r] have hi: "heap_inv (round_up start 8) m (mx_inner mx) live" by simp
  from heap_inv_alloc [OF hi l] obtain m' fl' p where a: "fl_alloc m (mx_inner mx) l = Some (m', fl', p)" by blast
  note le = locked_alloc_eq [OF a u(1), of c]
  show "\<exists>p s'. locked_alloc s l = Some (p, s') \<and>
      (\<forall>x \<in> live_bytes live. (case s' of (c, m, mx) \<Rightarrow> m) x = (case s of (c, m, mx) \<Rightarrow> m) x) \<and>
      (p = 0 \<longrightarrow> locked_inv start e st s' live) \<and>
      (p \<noteq> 0 \<longrightarrow> layout_align l dvd p \<and> (\<exists>al. al_ptr al = p \<and> al_size al = layout_size l \<and>
         {p - 16 ..< p + layout_size l} \<inter> live_bytes live = {} \<and> locked_inv start e st s' (insert al live)))"
  proof (cases "p = 0")
    case True
    then have "m' = m" "fl' = mx_inner mx" using heap_inv_alloc_null [OF hi l] a by auto
    then show ?thesis using le True inv by (auto simp: s)
  next
    case False
    note g = heap_inv_grant [OF hi l a False]
    let ?al = "\<lparr>al_ptr = p, al_block = (m' (p - 16), m' (p - 8)), al_size = layout_size l\<rparr>"
    have "allocation_ok m' ?al" using heap_invE [OF g(1)] by (metis insertI1)
    then have "{p - 16 ..< p + layout_size l} \<subseteq> region (m' (p - 16), m' (p - 8))"
      by (auto simp: allocation_ok_def)
    then have "{p - 16 ..< p + layout_size l} \<inter> live_bytes live = {}" using g(3) by blast
    moreover have "locked_inv start e st (c, m', mx\<lparr>mx_inner := fl'\<rparr>) (insert ?al live)"
      using heap_grant [OF r(1) l a False] r u by (simp add: locked_inv_def)
    ultimately show ?thesis
      using le False g(2,4) by (intro exI [of _ p] exI [of _ "(c, m', mx\<lparr>mx_inner := fl'\<rparr>)"]) (auto simp: s intro!: exI [of _ ?al])
  qed
next
  fix s :: heap_state and live al
  assume inv: "locked_inv start e st s live" and al: "al \<in> live"
  obtain c m mx where s: "s = (c, m, mx)" by (cases s)
  have r: "heap_reach start e m (mx_inner mx) live" "heap_range_ok start e" and u: "\<not> mx_locked mx" "csr_sstatus c = st"
    using inv by (simp_all add: s locked_inv_def)
  from heap_reach_inv [OF r] have hi: "heap_inv (round_up start 8) m (mx_inner mx) live" by simp
  from heap_inv_dealloc [OF hi al] obtain m' fl' where d: "fl_dealloc m (mx_inner mx) (al_ptr al) = Some (m', fl')"
    "\<forall>x \<in> live_bytes (live - {al}). m' x = m x" by blast
  have "locked_inv start e st (c, m', mx\<lparr>mx_inner := fl'\<rparr>) (live - {al})"
    using heap_release [OF r(1) al d(1)] r u by (simp add: locked_inv_def)
  then show "\<exists>s'. locked_dealloc s (al_ptr al) = Some s' \<and> locked_inv start e st s' (live - {al}) \<and>
      (\<forall>x \<in> live_bytes (live - {al}). (case s' of (c, m, mx) \<Rightarrow> m) x = (case s of (c, m, mx) \<Rightarrow> m) x)"
    using locked_dealloc_eq [OF d(1) u(1), of c] d(2) by (auto simp: s)
qed

lemma locked_alloc_law:
  assumes "locked_inv start e st h live" and "layout_valid l" and "0 < layout_size l"
  obtains p h' where "locked_alloc h l = Some (p, h')" "\<forall>x \<in> live_bytes live. fst (snd h') x = fst (snd h) x"
    "p = 0 \<longrightarrow> locked_inv start e st h' live"
    "p \<noteq> 0 \<longrightarrow> layout_align l dvd p \<and> (\<exists>al. al_ptr al = p \<and> al_size al = layout_size l \<and>
       {p - 16 ..< p + layout_size l} \<inter> live_bytes live = {} \<and> locked_inv start e st h' (insert al live))"
proof -
  have "\<exists>p h'. locked_alloc h l = Some (p, h') \<and> (\<forall>x \<in> live_bytes live. fst (snd h') x = fst (snd h) x) \<and>
      (p = 0 \<longrightarrow> locked_inv start e st h' live) \<and>
      (p \<noteq> 0 \<longrightarrow> layout_align l dvd p \<and> (\<exists>al. al_ptr al = p \<and> al_size al = layout_size l \<and>
         {p - 16 ..< p + layout_size l} \<inter> live_bytes live = {} \<and> locked_inv start e st h' (insert al live)))"
    using kheap.allocate_law [OF assms] by (simp add: case_prod_unfold)
  then show thesis by (elim exE conjE) (rule that)
qed

section \<open>Properties\<close>

text \<open>
  C33: the global allocator keeps its promises through the lock and the interrupt switch. From
  initialisation on, a request of any valid non-empty layout returns (it neither panics nor
  deadlocks) with the lock free and the caller's interrupt state restored; the memory it grants is
  aligned and meets no live allocation, and no live byte changes. Giving back all live allocations,
  in any order, succeeds and leaves the heap as one free block.
\<close>

theorem kernel_heap_service:
  assumes "locked_inv start e st h live" and "layout_valid l" and "0 < layout_size l"
    and "set als = live" and "distinct als"
  shows "(\<exists>p h'. locked_alloc h l = Some (p, h') \<and>
      (\<forall>x \<in> live_bytes live. fst (snd h') x = fst (snd h) x) \<and>
      (p = 0 \<longrightarrow> locked_inv start e st h' live) \<and>
      (p \<noteq> 0 \<longrightarrow> layout_align l dvd p \<and> (\<exists>al. al_ptr al = p \<and> al_size al = layout_size l \<and>
         {p - 16 ..< p + layout_size l} \<inter> live_bytes live = {} \<and> locked_inv start e st h' (insert al live)))) \<and>
    (\<exists>c m mx. release_all locked_dealloc h (map al_ptr als) = Some (c, m, mx) \<and> csr_sstatus c = st \<and> \<not> mx_locked mx \<and>
      fl_head (mx_inner mx) = Some (round_up start 8) \<and> blk_size m (round_up start 8) = e - start - 24 \<and>
      blk_next m (round_up start 8) = None)"
proof (intro conjI)
  show "\<exists>p h'. locked_alloc h l = Some (p, h') \<and>
      (\<forall>x \<in> live_bytes live. fst (snd h') x = fst (snd h) x) \<and>
      (p = 0 \<longrightarrow> locked_inv start e st h' live) \<and>
      (p \<noteq> 0 \<longrightarrow> layout_align l dvd p \<and> (\<exists>al. al_ptr al = p \<and> al_size al = layout_size l \<and>
         {p - 16 ..< p + layout_size l} \<inter> live_bytes live = {} \<and> locked_inv start e st h' (insert al live)))"
    by (rule locked_alloc_law [OF assms(1-3)]) (intro exI conjI, assumption+)
  from kheap.release_all_ok [OF assms(1) _ assms(5)] assms(4) obtain c m mx where
    h': "release_all locked_dealloc h (map al_ptr als) = Some (c, m, mx)" "locked_inv start e st (c, m, mx) {}" by auto
  then have "heap_reach start e m (mx_inner mx) {}" "heap_range_ok start e" by (simp_all add: locked_inv_def)
  from heap_reach_empty [OF this] show "\<exists>c m mx. release_all locked_dealloc h (map al_ptr als) = Some (c, m, mx) \<and>
      csr_sstatus c = st \<and> \<not> mx_locked mx \<and> fl_head (mx_inner mx) = Some (round_up start 8) \<and>
      blk_size m (round_up start 8) = e - start - 24 \<and> blk_next m (round_up start 8) = None"
    using h' by (intro exI [of _ c] exI [of _ m] exI [of _ mx]) (simp add: locked_inv_def)
qed

theorem kernel_heap_service_witness:
  "locked_init locked_new (\<lambda>_. 0) (sample_layout\<lparr>heap_start := 0x80100000, heap_end := 0x80100400\<rparr>) =
     Some (sample_mem, \<lparr>mx_locked = False, mx_inner = sample_fl\<rparr>) \<and>
   (\<exists>p h'. locked_alloc (sample_csrs, sample_mem, \<lparr>mx_locked = False, mx_inner = sample_fl\<rparr>) sample_request = Some (p, h'))"
proof -
  have i: "locked_inv 0x80100000 0x80100400 2 (sample_csrs, sample_mem, \<lparr>mx_locked = False, mx_inner = sample_fl\<rparr>) {}"
    using sample_reach sample_range by (simp add: locked_inv_def sample_csrs_def)
  have "locked_init locked_new (\<lambda>_. 0) (sample_layout\<lparr>heap_start := 0x80100000, heap_end := 0x80100400\<rparr>) =
     Some (sample_mem, \<lparr>mx_locked = False, mx_inner = sample_fl\<rparr>)"
    by (simp add: locked_init_def locked_new_def with_lock_def heap_bounds_new_def sample_layout_def
        fl_init_def fl_new_def sample_mem_def sample_fl_def heap_defs)
  with kernel_heap_service [OF i sample_layouts(1,2), of "[]"] show ?thesis by auto
qed

end
