(* ===== verification/Uart.thy ===== *)
theory Uart
  imports Klog Kernel_Heap
begin

text \<open>
  Console output: the \<open>print!\<close> and \<open>println!\<close> macros over the UART (\<open>src/println.rs\<close>), the panic handler and
  the firmware's system reset (\<open>src/lib.rs\<close>), and the firmware's error codes (\<open>src/sbi.rs\<close>, a file that no
  module of the crate includes). The UART is the list of bytes that were written to its register.
\<close>

section \<open>Model\<close>

type_synonym uart = bytes

text \<open>A \<open>char\<close> is its code point; the cast to \<open>u8\<close> keeps the low byte.\<close>

definition write_char_to_uart :: "nat \<Rightarrow> uart \<Rightarrow> uart" where
  "write_char_to_uart c u = u @ [of_nat c]"

fun uart_write_str :: "bytes \<Rightarrow> uart \<Rightarrow> uart" where
  "uart_write_str [] u = u"
| "uart_write_str (c # s) u = uart_write_str s (write_char_to_uart (unat c) u)"

text \<open>
  \<open>fmt::Arguments\<close>: the pieces its formatting hands to \<open>write_str\<close>, and whether a \<open>Display\<close> implementation
  among them reports an error behind the last one. \<open>write_str\<close> itself never fails.
\<close>

record fmt_arguments =
  fa_pieces :: "bytes list"
  fa_ok :: bool

definition fmt_args :: "bytes list \<Rightarrow> fmt_arguments" where
  "fmt_args ps = \<lparr>fa_pieces = ps, fa_ok = True\<rparr>"

fun uart_write_pieces :: "bytes list \<Rightarrow> uart \<Rightarrow> uart" where
  "uart_write_pieces [] u = u"
| "uart_write_pieces (p # ps) u = uart_write_pieces ps (uart_write_str p u)"

definition uart_write_fmt :: "fmt_arguments \<Rightarrow> uart \<Rightarrow> bool \<times> uart" where
  "uart_write_fmt args u = (fa_ok args, uart_write_pieces (fa_pieces args) u)"

definition print_args :: "fmt_arguments \<Rightarrow> uart \<Rightarrow> uart" where
  "print_args args u =
     (let (ok, u) = uart_write_fmt args u
      in if \<not> ok then u @ [91] @ [69] @ [93] else u)"

definition println_args :: "fmt_arguments \<Rightarrow> uart \<Rightarrow> uart" where
  "println_args args u = uart_write_str NEWLINE (print_args args u)"

text \<open>The macros: the call runs with interrupts disabled.\<close>

type_synonym terminal = "csrs \<times> uart"

definition print_macro :: "fmt_arguments \<Rightarrow> terminal \<Rightarrow> terminal panics" where
  "print_macro args t = map_option snd (without_interrupts (\<lambda>(c, u). Some ((), c, print_args args u)) t)"

definition println_macro :: "fmt_arguments \<Rightarrow> terminal \<Rightarrow> terminal panics" where
  "println_macro args t = map_option snd (without_interrupts (\<lambda>(c, u). Some ((), c, println_args args u)) t)"

text \<open>
  The panic handler up to its endless loop: the message goes to the terminal and, as an error, to the
  log. The location is the file and the line.
\<close>

definition panic_pieces :: "bytes list \<Rightarrow> (bytes \<times> usize) option \<Rightarrow> bytes list" where
  "panic_pieces msg loc =
     (case loc of
        Some (path, line) \<Rightarrow> [str_lit ''oh shit ... ''] @ msg @ [str_lit '' in '', path, str_lit '':'', fmt_dec line]
      | None \<Rightarrow> [str_lit ''oh shit ... ''] @ msg)"

definition panic_handler ::
  "bytes list \<Rightarrow> (bytes \<times> usize) option \<Rightarrow> terminal \<times> klog_state \<Rightarrow> (terminal \<times> klog_state) panics" where
  "panic_handler msg loc = (\<lambda>(t, k). do {
     t \<leftarrow> println_macro (fmt_args (str_lit ''[PANIC] '' # panic_pieces msg loc)) t;
     k \<leftarrow> klog_log k Error (str_lit ''lemon_shark'') (panic_pieces msg loc);
     Some (t, k)
   })"

text \<open>The registers of the call into the firmware.\<close>

record sbi_call =
  sbi_a0 :: u64
  sbi_a1 :: u64
  sbi_a6 :: u64
  sbi_a7 :: u64

definition exit_qemu :: "u32 \<Rightarrow> sbi_call" where
  "exit_qemu exit_code =
     (let reason = (if exit_code = 0 then 0 else 1)
      in \<lparr>sbi_a0 = 0, sbi_a1 = reason, sbi_a6 = 0, sbi_a7 = 0x53525354\<rparr>)"

datatype sbi_error_type =
    Success | Failed | NotSupported | InvalidParam | Denied | InvalidAddress | AlreadyAvailable | AlreadyStarted
  | AlreadyStopped | NoSharedMemory | InvalidState | BadRange | Timeout | Io | DeniedLocked

text \<open>\<open>From<isize>\<close>: any other code is a panic.\<close>

definition sbi_error_from :: "int \<Rightarrow> sbi_error_type panics" where
  "sbi_error_from value =
     (if value = 0 then Some Success
      else if value = -1 then Some Failed
      else if value = -2 then Some NotSupported
      else if value = -3 then Some InvalidParam
      else if value = -4 then Some Denied
      else if value = -5 then Some InvalidAddress
      else if value = -6 then Some AlreadyAvailable
      else if value = -7 then Some AlreadyStarted
      else if value = -8 then Some AlreadyStopped
      else if value = -9 then Some NoSharedMemory
      else if value = -10 then Some InvalidState
      else if value = -11 then Some BadRange
      else if value = -12 then Some Timeout
      else if value = -13 then Some Io
      else if value = -14 then Some DeniedLocked
      else None)"

section \<open>Lemmas\<close>

lemma uart_write_str_eq [simp]: "uart_write_str s u = u @ s"
  by (induction s arbitrary: u) (simp_all add: write_char_to_uart_def)

lemma uart_write_pieces_eq [simp]: "uart_write_pieces ps u = u @ concat ps"
  by (induction ps arbitrary: u) simp_all

text \<open>The text of a formatted message, with the mark that replaces what could not be formatted.\<close>

definition args_text :: "fmt_arguments \<Rightarrow> bytes" where
  "args_text args = concat (fa_pieces args) @ (if fa_ok args then [] else str_lit ''[E]'')"

lemma str_lit_mark: "str_lit ''[E]'' = [91, 69, 93]"
  by (simp add: str_lit_def)

lemma print_args_eq: "print_args args u = u @ args_text args"
  by (simp add: print_args_def uart_write_fmt_def args_text_def str_lit_mark)

lemma println_args_eq: "println_args args u = u @ args_text args @ NEWLINE"
  by (simp add: println_args_def print_args_eq)

lemma args_text_fmt [simp]: "args_text (fmt_args ps) = concat ps"
  by (simp add: args_text_def fmt_args_def)

lemma print_macro_eq: "print_macro args (c, u) = Some (c, u @ args_text args)"
proof -
  have "without_interrupts (\<lambda>(c, u). Some ((), c, print_args args u)) (c, u) = Some ((), c, u @ args_text args)"
    by (rule without_interrupts_keeps) (simp add: print_args_eq)
  then show ?thesis by (simp add: print_macro_def)
qed

lemma println_macro_eq: "println_macro args (c, u) = Some (c, u @ args_text args @ NEWLINE)"
proof -
  have "without_interrupts (\<lambda>(c, u). Some ((), c, println_args args u)) (c, u) = Some ((), c, u @ args_text args @ NEWLINE)"
    by (rule without_interrupts_keeps) (simp add: println_args_eq)
  then show ?thesis by (simp add: println_macro_def)
qed

text \<open>The codes that the firmware's specification names are accepted, each as its own error.\<close>

lemma sbi_error_from_defined: "sbi_error_from v \<noteq> None \<longleftrightarrow> -14 \<le> v \<and> v \<le> 0"
  unfolding sbi_error_from_def by (simp split: if_split, presburger)

lemma sbi_error_from_inj: "sbi_error_from v = Some e \<Longrightarrow> sbi_error_from w = Some e \<Longrightarrow> v = w"
  by (auto simp: sbi_error_from_def split: if_splits)

lemma klog_log_total:
  "eb_holds (kl_early k) bs \<Longrightarrow>
   \<exists>k'. klog_log k level target args = Some k' \<and>
     (case kl_console k of
        Some sent \<Rightarrow> kl_console k' = Some (sent @ [log_line (level, target, args)]) \<and> kl_early k' = kl_early k
      | None \<Rightarrow> kl_console k' = None \<and> eb_holds (kl_early k') (keep_line bs (log_line (level, target, args))))"
proof -
  assume e: "eb_holds (kl_early k) bs"
  let ?m = "(level, target, args)"
  from log_line_written [of level target args] obtain s where
    s: "stack_write_all (stack_string_new 512) (log_pieces level target args) = Some s" "stack_string_bytes s = Some (log_line ?m)" by blast
  have "length (log_line ?m) \<le> 512" by (simp add: log_line_def)
  from early_append_holds [OF e this] obtain e' where
    "early_append (kl_early k) (log_line ?m) = Some e'" "eb_holds e' (keep_line bs (log_line ?m))" by blast
  with s show ?thesis by (auto simp: klog_log_def console_write_def split: option.splits)
qed

section \<open>Properties\<close>



end
