(* ===== verification/Kernel_FS.thy ===== *)
theory Kernel_FS
  imports FS_Output Kernel_Heap
begin

text \<open>
  The kernel's filesystem service (\<open>src/filesystem.rs\<close>): the block device that is either the ramdisk
  or the VirtIO disk, the filesystem behind its lock, and the API that the shell calls. The VirtIO
  driver is a third-party crate; its read, write and capacity calls (\<open>src/virtio2.rs\<close>) are an argument
  \<open>V\<close>, an instance of the same trait.
\<close>

section \<open>The kernel block device\<close>

datatype kernel_block_device = Ramdisk | VirtIO

text \<open>Which device is selected, with the contents of the static \<open>RAMDISK\<close> and the state of the driver.\<close>

record 'v kernel_disk =
  kd_device :: kernel_block_device
  kd_ramdisk :: ramdisk
  kd_virtio :: 'v

definition kernel_read_block ::
  "'v block_device_ops \<Rightarrow> 'v kernel_disk \<Rightarrow> block_index \<Rightarrow> (bytes \<times> 'v kernel_disk) panics" where
  "kernel_read_block V k idx =
     (case kd_device k of
        Ramdisk \<Rightarrow> do { buf \<leftarrow> ramdisk_read_block (kd_ramdisk k) idx; Some (buf, k) }
      | VirtIO \<Rightarrow> do { (buf, v) \<leftarrow> read_block V (kd_virtio k) idx; Some (buf, k\<lparr>kd_virtio := v\<rparr>) })"

definition kernel_write_block ::
  "'v block_device_ops \<Rightarrow> 'v kernel_disk \<Rightarrow> block_index \<Rightarrow> bytes \<Rightarrow> 'v kernel_disk panics" where
  "kernel_write_block V k idx data =
     (case kd_device k of
        Ramdisk \<Rightarrow> do { r \<leftarrow> ramdisk_write_block (kd_ramdisk k) idx data; Some (k\<lparr>kd_ramdisk := r\<rparr>) }
      | VirtIO \<Rightarrow> do { v \<leftarrow> write_block V (kd_virtio k) idx data; Some (k\<lparr>kd_virtio := v\<rparr>) })"

definition kernel_total_blocks :: "'v block_device_ops \<Rightarrow> 'v kernel_disk \<Rightarrow> usize" where
  "kernel_total_blocks V k =
     (case kd_device k of Ramdisk \<Rightarrow> ramdisk_total_blocks | VirtIO \<Rightarrow> total_blocks V (kd_virtio k))"

definition kernel_device :: "'v block_device_ops \<Rightarrow> 'v kernel_disk block_device_ops" where
  "kernel_device V = \<lparr>read_block = kernel_read_block V, write_block = kernel_write_block V,
     total_blocks = kernel_total_blocks V\<rparr>"

section \<open>The page dump\<close>

definition BLOCKS_PER_PAGE :: usize where
  "BLOCKS_PER_PAGE = 4096 div BLOCK_SIZE"

fun read_page_blocks ::
  "'v block_device_ops \<Rightarrow> 'v kernel_disk \<Rightarrow> usize \<Rightarrow> usize list \<Rightarrow> bytes \<Rightarrow> (bytes \<times> 'v kernel_disk) panics" where
  "read_page_blocks V k first_block [] pg = Some (pg, k)"
| "read_page_blocks V k first_block (i # is) pg = do {
     let offset = i * BLOCK_SIZE;
     (buf, k) \<leftarrow> kernel_read_block V k (as_u32 (first_block + i));
     pg \<leftarrow> copy_to_slice pg offset (offset + BLOCK_SIZE) buf;
     read_page_blocks V k first_block is pg
   }"

definition row_hex :: "bytes \<Rightarrow> usize \<Rightarrow> usize \<Rightarrow> bytes" where
  "row_hex pg bytes_in_page row = concat (map (\<lambda>i.
     (if row + i < bytes_in_page then fmt_zeros 2 (fmt_hex True (unat (pg ! (row + i)))) @ [32] else str_lit ''   '') @
     (if i = 7 then [32] else [])) [0..<16])"

definition row_ascii :: "bytes \<Rightarrow> usize \<Rightarrow> usize \<Rightarrow> bytes" where
  "row_ascii pg bytes_in_page row = map (\<lambda>i.
     if row + i \<ge> bytes_in_page then 32
     else let b = pg ! (row + i) in if 0x20 \<le> b \<and> b < 0x7F then b else 46) [0..<16]"

definition dump_row :: "bytes \<Rightarrow> usize \<Rightarrow> usize \<Rightarrow> usize \<Rightarrow> bytes" where
  "dump_row pg page_offset bytes_in_page row =
     fmt_zeros 8 (fmt_hex False (page_offset + row)) @ str_lit ''  '' @ row_hex pg bytes_in_page row @
     str_lit '' |'' @ row_ascii pg bytes_in_page row @ str_lit ''|'' @ NEWLINE"

text \<open>One iteration over the pages, with the text it adds to the output.\<close>

definition dump_rows :: "bytes \<Rightarrow> usize \<Rightarrow> usize \<Rightarrow> bytes" where
  "dump_rows pg page_offset bytes_in_page =
     concat (map (\<lambda>r. dump_row pg page_offset bytes_in_page (16 * r)) [0..<div_ceil bytes_in_page 16])"

definition dump_header :: "usize \<Rightarrow> usize \<Rightarrow> usize \<Rightarrow> bytes" where
  "dump_header page_idx first_block page_offset =
     NEWLINE @ str_lit ''--- Page '' @ fmt_dec page_idx @ str_lit '' (block '' @ fmt_dec first_block @
     str_lit '', offset 0x'' @ fmt_zeros 8 (fmt_hex False page_offset) @ str_lit '') ---'' @ NEWLINE"

definition dump_page ::
  "'v block_device_ops \<Rightarrow> usize \<Rightarrow> usize \<Rightarrow> 'v kernel_disk \<Rightarrow> bytes \<Rightarrow> ('v kernel_disk \<times> bytes \<times> bytes) panics" where
  "dump_page V tot page_idx k pg = do {
     let first_block = page_idx * BLOCKS_PER_PAGE;
     remaining \<leftarrow> sub_usize tot first_block;
     let blocks_in_page = min remaining BLOCKS_PER_PAGE;
     let bytes_in_page = blocks_in_page * BLOCK_SIZE;
     (pg, k) \<leftarrow> read_page_blocks V k first_block [0..<blocks_in_page] pg;
     if list_all (\<lambda>b. b = 0) (take bytes_in_page pg) then Some (k, pg, [])
     else do {
       let page_offset = first_block * BLOCK_SIZE;
       Some (k, pg, dump_header page_idx first_block page_offset @ dump_rows pg page_offset bytes_in_page)
     }
   }"

text \<open>The page buffer lives across the iterations; a short last page leaves old bytes behind its end.\<close>

fun dump_pages ::
  "'v block_device_ops \<Rightarrow> usize \<Rightarrow> usize list \<Rightarrow> 'v kernel_disk \<Rightarrow> bytes \<Rightarrow> bytes \<Rightarrow> ('v kernel_disk \<times> bytes) panics" where
  "dump_pages V tot [] k pg out = Some (k, out)"
| "dump_pages V tot (page_idx # rest) k pg out = do {
     (k, pg, text) \<leftarrow> dump_page V tot page_idx k pg;
     dump_pages V tot rest k pg (out @ text)
   }"

definition dump_non_empty_pages ::
  "'v block_device_ops \<Rightarrow> 'v kernel_disk \<Rightarrow> bytes \<Rightarrow> ('v kernel_disk \<times> bytes) panics" where
  "dump_non_empty_pages V k out = do {
     let device_name = (case kd_device k of Ramdisk \<Rightarrow> str_lit ''RAMDISK'' | VirtIO \<Rightarrow> str_lit ''VIRTIO'');
     let tot = kernel_total_blocks V k;
     let total_pages = div_ceil tot BLOCKS_PER_PAGE;
     total_bytes \<leftarrow> mul_usize tot BLOCK_SIZE;
     let out = out @ str_lit ''=== '' @ device_name @ str_lit '' DUMP ('' @ fmt_dec tot @ str_lit '' blocks, '' @
       fmt_dec total_pages @ str_lit '' pages, '' @ fmt_dec total_bytes @ str_lit '' bytes total) ==='' @ NEWLINE;
     (k, out) \<leftarrow> dump_pages V tot [0..<total_pages] k (replicate 4096 0) out;
     Some (k, out @ NEWLINE @ str_lit ''=== END DUMP ==='' @ NEWLINE)
   }"

section \<open>The locked filesystem\<close>

text \<open>
  \<open>lf_ramdisk\<close> is the static \<open>RAMDISK\<close> as long as no filesystem is mounted; a mounted filesystem has it
  in its device.
\<close>

record 'v locked_filesystem =
  lf_inner :: "'v kernel_disk filesystem option"
  lf_ramdisk :: ramdisk

definition lf_is_some :: "'v locked_filesystem \<Rightarrow> bool" where
  "lf_is_some l \<longleftrightarrow> lf_inner l \<noteq> None"

text \<open>\<open>get\<close> followed by an operation of the filesystem: it panics when nothing is mounted.\<close>

definition lf_with ::
  "'v locked_filesystem \<Rightarrow> ('v kernel_disk filesystem \<Rightarrow> ('v kernel_disk filesystem \<times> 'r) panics) \<Rightarrow>
     ('r \<times> 'v locked_filesystem) panics" where
  "lf_with l f = do { fs \<leftarrow> lf_inner l; (fs, r) \<leftarrow> f fs; Some (r, l\<lparr>lf_inner := Some fs\<rparr>) }"

definition lf_init :: "'v locked_filesystem \<Rightarrow> 'v kernel_disk filesystem \<Rightarrow> 'v locked_filesystem" where
  "lf_init l fs = l\<lparr>lf_inner := Some fs\<rparr>"

definition lf_reset :: "'v locked_filesystem \<Rightarrow> 'v locked_filesystem" where
  "lf_reset l =
     (case lf_inner l of
        None \<Rightarrow> l\<lparr>lf_ramdisk := ramdisk_reset (lf_ramdisk l)\<rparr>
      | Some fs \<Rightarrow> l\<lparr>lf_inner := Some (fs\<lparr>fs_device := (fs_device fs)\<lparr>kd_ramdisk := ramdisk_reset (kd_ramdisk (fs_device fs))\<rparr>\<rparr>)\<rparr>)"

type_synonym 'v fs_mutex = "'v locked_filesystem mutex"

definition api_mkdir :: "'v block_device_ops \<Rightarrow> 'v fs_mutex \<Rightarrow> bytes \<Rightarrow> ((fs_error + inode_index) \<times> 'v fs_mutex) panics" where
  "api_mkdir V x name = with_lock (\<lambda>l. lf_with l (\<lambda>fs. mkdir (kernel_device V) fs name)) x"

definition api_create_file :: "'v block_device_ops \<Rightarrow> 'v fs_mutex \<Rightarrow> bytes \<Rightarrow> ((fs_error + inode_index) \<times> 'v fs_mutex) panics" where
  "api_create_file V x name = with_lock (\<lambda>l. lf_with l (\<lambda>fs. create_file (kernel_device V) fs name)) x"

definition api_remove_dir_entry :: "'v block_device_ops \<Rightarrow> 'v fs_mutex \<Rightarrow> bytes \<Rightarrow> ((fs_error + unit) \<times> 'v fs_mutex) panics" where
  "api_remove_dir_entry V x path = with_lock (\<lambda>l. lf_with l (\<lambda>fs. remove_dir_entry (kernel_device V) fs path)) x"

definition api_write_to_file :: "'v block_device_ops \<Rightarrow> 'v fs_mutex \<Rightarrow> bytes \<Rightarrow> bytes \<Rightarrow> ((fs_error + usize) \<times> 'v fs_mutex) panics" where
  "api_write_to_file V x path text = with_lock (\<lambda>l. lf_with l (\<lambda>fs. write_to_file (kernel_device V) fs path text)) x"

definition api_read_file :: "'v block_device_ops \<Rightarrow> 'v fs_mutex \<Rightarrow> bytes \<Rightarrow> ((fs_error + bytes) \<times> 'v fs_mutex) panics" where
  "api_read_file V x path = with_lock (\<lambda>l. lf_with l (\<lambda>fs. read_file (kernel_device V) fs path)) x"

definition api_flush :: "'v block_device_ops \<Rightarrow> 'v fs_mutex \<Rightarrow> 'v fs_mutex panics" where
  "api_flush V x = do {
     (_, x) \<leftarrow> with_lock (\<lambda>l. lf_with l (\<lambda>fs. do { fs \<leftarrow> flush (kernel_device V) fs; Some (fs, ()) })) x;
     Some x
   }"

definition api_reset :: "'v fs_mutex \<Rightarrow> 'v fs_mutex panics" where
  "api_reset x = do { (_, x) \<leftarrow> with_lock (\<lambda>l. Some ((), lf_reset l)) x; Some x }"

text \<open>The printing calls write to the UART; \<open>out\<close> is what it has received.\<close>

definition api_dump_dir ::
  "'v block_device_ops \<Rightarrow> 'v fs_mutex \<Rightarrow> bytes \<Rightarrow> bytes \<Rightarrow> ((fs_error + bytes) \<times> 'v fs_mutex) panics" where
  "api_dump_dir V x path out = with_lock (\<lambda>l. lf_with l (\<lambda>fs. dump_dir (kernel_device V) fs path out)) x"

definition api_tree :: "'v block_device_ops \<Rightarrow> 'v fs_mutex \<Rightarrow> bytes \<Rightarrow> (bytes \<times> 'v fs_mutex) panics" where
  "api_tree V x out = with_lock (\<lambda>l. lf_with l (\<lambda>fs. tree (kernel_device V) fs out)) x"

definition api_dump :: "'v block_device_ops \<Rightarrow> 'v fs_mutex \<Rightarrow> bytes \<Rightarrow> (bytes \<times> 'v fs_mutex) panics" where
  "api_dump V x out = with_lock (\<lambda>l. lf_with l (\<lambda>fs. do {
     (dev, out) \<leftarrow> dump_non_empty_pages V (fs_device fs) out;
     Some (fs\<lparr>fs_device := dev\<rparr>, out)
   })) x"

text \<open>
  The argument \<open>dev\<close> of the code names the device only: the ramdisk's contents are those of the static.
  Every error path of \<^const>\<open>filesystem_new\<close> leaves before anything is written.
\<close>

definition init_with_device ::
  "'v block_device_ops \<Rightarrow> 'v fs_mutex \<Rightarrow> kernel_block_device \<Rightarrow> 'v \<Rightarrow> 'v fs_mutex panics" where
  "init_with_device V x dev v = do {
     (mounted, x) \<leftarrow> with_lock (\<lambda>l. Some (lf_is_some l, l)) x;
     if mounted then Some x
     else do {
       (disk, x) \<leftarrow> with_lock (\<lambda>l. Some (lf_ramdisk l, l)) x;
       r \<leftarrow> filesystem_new (kernel_device V) \<lparr>kd_device = dev, kd_ramdisk = disk, kd_virtio = v\<rparr>;
       case r of
         Inl e \<Rightarrow> Some x
       | Inr fs \<Rightarrow> do { (_, x) \<leftarrow> with_lock (\<lambda>l. Some ((), lf_init l fs)) x; Some x }
     }
   }"

section \<open>The kernel device is a block device\<close>

text \<open>
  Whatever VirtIO driver keeps the contract, the dispatching device keeps it, and stays on the device \<open>dv\<close> that was
  selected.
\<close>

definition kd_blocks :: "('v \<Rightarrow> bytes list) \<Rightarrow> 'v kernel_disk \<Rightarrow> bytes list" where
  "kd_blocks vb k = (case kd_device k of Ramdisk \<Rightarrow> chunks (kd_ramdisk k) | VirtIO \<Rightarrow> vb (kd_virtio k))"

definition kd_ok :: "kernel_block_device \<Rightarrow> ('v \<Rightarrow> bool) \<Rightarrow> 'v kernel_disk \<Rightarrow> bool" where
  "kd_ok dv vok k \<longleftrightarrow> kd_device k = dv \<and> (case dv of Ramdisk \<Rightarrow> ramdisk_ok (kd_ramdisk k) | VirtIO \<Rightarrow> vok (kd_virtio k))"

lemma kernel_device_contract:
  assumes "block_device D blocks dev_ok"
  shows "block_device (kernel_device D) (kd_blocks blocks) (kd_ok dv dev_ok)"
proof unfold_locales
  fix k :: "'a kernel_disk" and i :: block_index and b data :: bytes
  assume ok: "kd_ok dv dev_ok k"
  note defs = kd_ok_def kd_blocks_def kernel_device_def kernel_read_block_def kernel_write_block_def kernel_total_blocks_def
  show "b \<in> set (kd_blocks blocks k) \<Longrightarrow> length b = 512"
    using ok block_device.block_size [OF assms] chunks_size by (cases dv) (auto simp: defs)
  show "total_blocks (kernel_device D) k = length (kd_blocks blocks k)"
    using ok block_device.total [OF assms] ramdisk.total [of "kd_ramdisk k"]
    by (cases dv) (auto simp: defs ramdisk_device_def)
  assume i: "unat i < length (kd_blocks blocks k)"
  show "\<exists>k'. read_block (kernel_device D) k i = Some (kd_blocks blocks k ! unat i, k') \<and> kd_ok dv dev_ok k' \<and>
      kd_blocks blocks k' = kd_blocks blocks k"
    using ok i block_device.read_law [OF assms, of "kd_virtio k" i] ramdisk.read_law [of "kd_ramdisk k" i]
    by (cases dv) (auto simp: defs ramdisk_device_def)
  assume "length data = 512"
  then show "\<exists>k'. write_block (kernel_device D) k i data = Some k' \<and> kd_ok dv dev_ok k' \<and>
      kd_blocks blocks k' = (kd_blocks blocks k)[unat i := data]"
    using ok i block_device.write_law [OF assms, of "kd_virtio k" i data] ramdisk.write_law [of "kd_ramdisk k" i data]
    by (cases dv) (auto simp: defs ramdisk_device_def)
qed

text \<open>An instance: the driver is any device that keeps the contract, such as the image file of the host.\<close>

interpretation kdisk: block_device "kernel_device file_device" "kd_blocks (\<lambda>f. chunks (fd_bytes f))" "kd_ok dv file_ok"
  for dv
  by (rule kernel_device_contract) (rule image.block_device_axioms)

end
