(* ===== verification/Virtio_Drivers.thy ===== *)
theory Virtio_Drivers
  imports Uart Kernel_FS
begin

text \<open>
  The glue between the kernel and the third-party VirtIO crate (\<open>src/virtio2.rs\<close>): the search for the console,
  the block device behind the filesystem, and the memory that the crate borrows from the kernel heap. The
  crate is an argument, a record of the calls the code makes; its state holds the devices and whatever
  the crate keeps. What the crate documents of its block device is the predicate \<open>blk_documented\<close>.
\<close>

section \<open>Model\<close>

subsection \<open>The crate\<close>

text \<open>
  Constructors return nothing where the crate returns an error. A transport that is not handed on is dropped,
  which the crate answers by resetting the device.
\<close>

record ('d, 't, 'b) driver_crate =
  transport_new :: "usize \<Rightarrow> usize \<Rightarrow> 'd \<Rightarrow> 't option \<times> 'd"
  transport_is_console :: "'t \<Rightarrow> bool"
  transport_drop :: "'t \<Rightarrow> 'd \<Rightarrow> 'd"
  console_new :: "'t \<Rightarrow> 'd \<Rightarrow> bool \<times> 'd"
  blk_new :: "'t \<Rightarrow> 'd \<Rightarrow> 'b option \<times> 'd"

record 'b blk_crate =
  blk_read_blocks :: "'b \<Rightarrow> usize \<Rightarrow> bytes option \<times> 'b"
  blk_write_blocks :: "'b \<Rightarrow> usize \<Rightarrow> bytes \<Rightarrow> bool \<times> 'b"
  blk_capacity :: "'b \<Rightarrow> u64"

definition nonnull :: "usize \<Rightarrow> usize panics" where
  "nonnull p = (if p = 0 then None else Some p)"

subsection \<open>The console\<close>

definition console_slots :: "usize list" where
  "console_slots = map (\<lambda>i. 0x10001000 + i * 0x1000) [0..<8]"

fun scan_console :: "('d, 't, 'b) driver_crate \<Rightarrow> usize list \<Rightarrow> 'd \<times> klog_state \<Rightarrow> ('d \<times> klog_state) panics" where
  "scan_console C [] (d, k) = Some (d, k)"
| "scan_console C (slot # slots) (d, k) = do {
     header \<leftarrow> nonnull slot;
     case transport_new C header 0x1000 d of
       (None, d) \<Rightarrow> scan_console C slots (d, k)
     | (Some t, d) \<Rightarrow>
         if transport_is_console C t
         then (case console_new C t d of
                 (True, d) \<Rightarrow> do { k \<leftarrow> console_found k; Some (d, k) }
               | (False, d) \<Rightarrow> scan_console C slots (d, k))
         else scan_console C slots (transport_drop C t d, k)
   }"

definition init_console :: "('d, 't, 'b) driver_crate \<Rightarrow> 'd \<times> klog_state \<Rightarrow> ('d \<times> klog_state) panics" where
  "init_console C = scan_console C console_slots"

subsection \<open>The block device\<close>

definition locked_block_device_new :: "('d, 't, 'b) driver_crate \<Rightarrow> system_info option \<Rightarrow> 'd \<Rightarrow> ('b \<times> 'd) panics" where
  "locked_block_device_new C sysinfo d = do {
     addr \<leftarrow> block_device_addr sysinfo;
     header \<leftarrow> nonnull addr;
     case transport_new C header 0x1000 d of
       (None, d) \<Rightarrow> None
     | (Some t, d) \<Rightarrow>
         (case blk_new C t d of
            (None, d) \<Rightarrow> None
          | (Some disk, d) \<Rightarrow> Some (disk, d))
   }"

definition make_device :: "('d, 't, 'b) driver_crate \<Rightarrow> system_info option \<Rightarrow> 'd \<Rightarrow> ('b \<times> 'd) panics" where
  "make_device C sysinfo d = locked_block_device_new C sysinfo d"

definition virtio_read_block :: "'b blk_crate \<Rightarrow> 'b \<Rightarrow> block_index \<Rightarrow> (bytes \<times> 'b) panics" where
  "virtio_read_block B disk idx =
     (case blk_read_blocks B disk (unat idx) of (Some buf, disk) \<Rightarrow> Some (buf, disk) | (None, disk) \<Rightarrow> None)"

definition virtio_write_block :: "'b blk_crate \<Rightarrow> 'b \<Rightarrow> block_index \<Rightarrow> bytes \<Rightarrow> 'b panics" where
  "virtio_write_block B disk idx data =
     (case blk_write_blocks B disk (unat idx) data of (True, disk) \<Rightarrow> Some disk | (False, disk) \<Rightarrow> None)"

definition virtio_total_blocks :: "'b blk_crate \<Rightarrow> 'b \<Rightarrow> usize" where
  "virtio_total_blocks B disk = unat (blk_capacity B disk)"

definition virtio_device :: "'b blk_crate \<Rightarrow> 'b block_device_ops" where
  "virtio_device B = \<lparr>read_block = virtio_read_block B, write_block = virtio_write_block B, total_blocks = virtio_total_blocks B\<rparr>"

subsection \<open>Memory for the devices\<close>

text \<open>
  \<open>Layout::from_size_align\<close> with its \<open>unwrap\<close>, and \<open>alloc_zeroed\<close>, which zeroes what it was granted. The
  kernel has no virtual addresses of its own here: a pointer is its physical address.
\<close>

definition dma_layout :: "usize \<Rightarrow> alloc_layout panics" where
  "dma_layout pages = do {
     sz \<leftarrow> mul_usize PAGE_SIZE pages;
     let l = \<lparr>layout_size = sz, layout_align = PAGE_SIZE\<rparr>;
     if layout_valid l then Some l else None
   }"

definition zero_fill :: "usize \<Rightarrow> usize \<Rightarrow> memory \<Rightarrow> memory" where
  "zero_fill p n m = (\<lambda>x. if p \<le> x \<and> x < p + n then 0 else m x)"

definition alloc_zeroed :: "heap_state \<Rightarrow> alloc_layout \<Rightarrow> (usize \<times> heap_state) panics" where
  "alloc_zeroed h l = do {
     (p, c, m, mx) \<leftarrow> locked_alloc h l;
     Some (p, c, if p = 0 then m else zero_fill p (layout_size l) m, mx)
   }"

definition dma_alloc :: "usize \<Rightarrow> heap_state \<Rightarrow> ((usize \<times> usize) \<times> heap_state) panics" where
  "dma_alloc pages h = do {
     l \<leftarrow> dma_layout pages;
     (ptr, h) \<leftarrow> alloc_zeroed h l;
     start \<leftarrow> nonnull ptr;
     Some ((ptr, start), h)
   }"

definition dma_dealloc :: "usize \<Rightarrow> usize \<Rightarrow> heap_state \<Rightarrow> (int \<times> heap_state) panics" where
  "dma_dealloc paddr pages h = do {
     l \<leftarrow> dma_layout pages;
     h \<leftarrow> locked_dealloc h paddr;
     Some (0, h)
   }"

definition mmio_phys_to_virt :: "usize \<Rightarrow> usize \<Rightarrow> usize panics" where
  "mmio_phys_to_virt paddr sz = nonnull paddr"

definition dma_share :: "usize \<Rightarrow> usize" where
  "dma_share buffer = buffer"

section \<open>The console search\<close>

text \<open>One slot: whether it gave the console, and the devices afterwards.\<close>

definition try_slot :: "('d, 't, 'b) driver_crate \<Rightarrow> usize \<Rightarrow> 'd \<Rightarrow> bool \<times> 'd" where
  "try_slot C slot d =
     (case transport_new C slot 0x1000 d of
        (None, d) \<Rightarrow> (False, d)
      | (Some t, d) \<Rightarrow> if transport_is_console C t then console_new C t d else (False, transport_drop C t d))"

definition after_slots :: "('d, 't, 'b) driver_crate \<Rightarrow> usize list \<Rightarrow> 'd \<Rightarrow> 'd" where
  "after_slots C slots d = foldl (\<lambda>d s. snd (try_slot C s d)) d slots"

lemma after_slots_simps [simp]:
  "after_slots C [] d = d" "after_slots C (s # ss) d = after_slots C ss (snd (try_slot C s d))"
  by (simp_all add: after_slots_def)

lemma console_slots_nonnull: "s \<in> set console_slots \<Longrightarrow> s \<noteq> 0"
  by (auto simp: console_slots_def)

lemma scan_console_Cons:
  "slot \<noteq> 0 \<Longrightarrow> scan_console C (slot # slots) (d, k) =
     (case try_slot C slot d of
        (True, d') \<Rightarrow> do { k \<leftarrow> console_found k; Some (d', k) }
      | (False, d') \<Rightarrow> scan_console C slots (d', k))"
  by (auto simp: try_slot_def nonnull_def split: prod.splits option.splits bool.splits)

lemma console_found_early:
  assumes "eb_holds (kl_early k) bs"
  shows "\<exists>k'. console_found k = Some k' \<and> kl_console k' = Some [bs] \<and> kl_early k' = kl_early k"
  using assms by (simp add: console_found_def flush_early_buffer_def console_write_def early_bytes_def eb_holds_def slice_def)

lemma scan_console_spec:
  assumes "\<forall>s \<in> set slots. s \<noteq> 0" and "eb_holds (kl_early k) bs"
  shows "\<exists>n d' k'. scan_console C slots (d, k) = Some (d', k') \<and> n \<le> length slots \<and>
    (\<forall>i < n. \<not> fst (try_slot C (slots ! i) (after_slots C (take i slots) d))) \<and>
    (if n = length slots then d' = after_slots C slots d \<and> k' = k
     else fst (try_slot C (slots ! n) (after_slots C (take n slots) d)) \<and> d' = after_slots C (take (Suc n) slots) d \<and>
       kl_console k' = Some [bs])"
  using assms(1)
proof (induction slots arbitrary: d)
  case (Cons s slots)
  then have s: "s \<noteq> 0" by simp
  obtain found d1 where t: "try_slot C s d = (found, d1)" by (cases "try_slot C s d")
  show ?case
  proof (cases found)
    case True
    from console_found_early [OF assms(2)] obtain k' where "console_found k = Some k'" "kl_console k' = Some [bs]" by blast
    then show ?thesis using t True scan_console_Cons [OF s, of C slots d k]
      by (intro exI [of _ 0] exI [of _ d1] exI [of _ k']) simp
  next
    case False
    from Cons.IH [of d1] Cons.prems obtain n d' k' where n: "scan_console C slots (d1, k) = Some (d', k')" "n \<le> length slots"
      "\<forall>i < n. \<not> fst (try_slot C (slots ! i) (after_slots C (take i slots) d1))"
      "if n = length slots then d' = after_slots C slots d1 \<and> k' = k
       else fst (try_slot C (slots ! n) (after_slots C (take n slots) d1)) \<and> d' = after_slots C (take (Suc n) slots) d1 \<and>
         kl_console k' = Some [bs]" by auto
    have "\<forall>i < Suc n. \<not> fst (try_slot C ((s # slots) ! i) (after_slots C (take i (s # slots)) d))"
      using n(3) t False by (auto simp: less_Suc_eq_0_disj)
    then show ?thesis using n t False scan_console_Cons [OF s, of C slots d k]
      by (intro exI [of _ "Suc n"] exI [of _ d'] exI [of _ k']) (simp split: if_splits)
  qed
qed simp

section \<open>The block device keeps the filesystem's contract\<close>

text \<open>
  What the crate documents of its block device: a capacity in sectors of 512 bytes; reading a sector of the
  disk fills the buffer with its contents, writing replaces it and nothing else, and neither fails on a sector
  that exists. \<open>blocks\<close> is the contents of the disk, \<open>ok\<close> holds of a device in operation.
\<close>

definition blk_documented :: "'b blk_crate \<Rightarrow> ('b \<Rightarrow> bytes list) \<Rightarrow> ('b \<Rightarrow> bool) \<Rightarrow> bool" where
  "blk_documented B blocks ok \<longleftrightarrow>
     (\<forall>disk. ok disk \<longrightarrow>
        unat (blk_capacity B disk) = length (blocks disk) \<and> (\<forall>s \<in> set (blocks disk). length s = 512) \<and>
        (\<forall>i < length (blocks disk).
           (\<exists>disk'. blk_read_blocks B disk i = (Some (blocks disk ! i), disk') \<and> ok disk' \<and> blocks disk' = blocks disk) \<and>
           (\<forall>data. length data = 512 \<longrightarrow>
              (\<exists>disk'. blk_write_blocks B disk i data = (True, disk') \<and> ok disk' \<and> blocks disk' = (blocks disk)[i := data]))))"

lemma virtio_device_contract:
  assumes "blk_documented B blocks ok"
  shows "block_device (virtio_device B) blocks ok"
proof unfold_locales
  fix disk :: 'a and i :: block_index and b data :: bytes
  assume "ok disk"
  with assms have doc: "unat (blk_capacity B disk) = length (blocks disk)" "\<forall>s \<in> set (blocks disk). length s = 512"
    "\<And>i. i < length (blocks disk) \<Longrightarrow> \<exists>disk'. blk_read_blocks B disk i = (Some (blocks disk ! i), disk') \<and> ok disk' \<and> blocks disk' = blocks disk"
    "\<And>i data. i < length (blocks disk) \<Longrightarrow> length data = 512 \<Longrightarrow>
       \<exists>disk'. blk_write_blocks B disk i data = (True, disk') \<and> ok disk' \<and> blocks disk' = (blocks disk)[i := data]"
    unfolding blk_documented_def by blast+
  note defs = virtio_device_def virtio_read_block_def virtio_write_block_def virtio_total_blocks_def
  show "b \<in> set (blocks disk) \<Longrightarrow> length b = 512" using doc(2) by blast
  show "total_blocks (virtio_device B) disk = length (blocks disk)" using doc(1) by (simp add: defs)
  assume i: "unat i < length (blocks disk)"
  show "\<exists>disk'. read_block (virtio_device B) disk i = Some (blocks disk ! unat i, disk') \<and> ok disk' \<and> blocks disk' = blocks disk"
    using doc(3) [OF i] by (auto simp: defs)
  assume "length data = 512"
  then show "\<exists>disk'. write_block (virtio_device B) disk i data = Some disk' \<and> ok disk' \<and> blocks disk' = (blocks disk)[unat i := data]"
    using doc(4) [OF i, of data] by (auto simp: defs)
qed

text \<open>A disk that is the list of its sectors.\<close>

definition sector_disk :: "bytes list blk_crate" where
  "sector_disk =
     \<lparr>blk_read_blocks = (\<lambda>d i. (if i < length d then Some (d ! i) else None, d)),
      blk_write_blocks = (\<lambda>d i data. if i < length d \<and> length data = 512 then (True, d[i := data]) else (False, d)),
      blk_capacity = (\<lambda>d. of_nat (length d))\<rparr>"

definition sectors_ok :: "bytes list \<Rightarrow> bool" where
  "sectors_ok d \<longleftrightarrow> length d < 2 ^ 64 \<and> (\<forall>s \<in> set d. length s = 512)"

lemma sector_disk_documented: "blk_documented sector_disk (\<lambda>d. d) sectors_ok"
  unfolding blk_documented_def
  by (auto simp: sector_disk_def sectors_ok_def unat_of_nat dest: subsetD [OF set_update_subset_insert])

interpretation vdisk: block_device "virtio_device sector_disk" "\<lambda>d. d" sectors_ok
  by (rule virtio_device_contract) (rule sector_disk_documented)

section \<open>Memory for the devices\<close>

lemma dma_layout_eq:
  assumes "0 < pages" and "pages * 4096 < 2 ^ 63"
  shows "dma_layout pages = Some \<lparr>layout_size = 4096 * pages, layout_align = 4096\<rparr>"
    and "layout_valid \<lparr>layout_size = 4096 * pages, layout_align = 4096\<rparr>"
proof -
  have "(4096 :: nat) = 2 ^ 12" by simp
  then show v: "layout_valid \<lparr>layout_size = 4096 * pages, layout_align = 4096\<rparr>"
    using assms by (auto simp: layout_valid_def div_ceil_def intro!: exI [of _ 12])
  show "dma_layout pages = Some \<lparr>layout_size = 4096 * pages, layout_align = 4096\<rparr>"
    using v assms by (simp add: dma_layout_def mul_usize_def PAGE_SIZE_def)
qed

lemma zero_fill_inv:
  assumes "locked_inv start e st (c, m, mx) live" and "al \<in> live"
  shows "locked_inv start e st (c, zero_fill (al_ptr al) (al_size al) m, mx) live"
proof -
  have r: "heap_reach start e m (mx_inner mx) live" using assms(1) by (simp add: locked_inv_def)
  have "heap_reach start e (zero_fill (al_ptr al) (al_size al) m) (mx_inner mx) live"
    by (rule heap_write [OF r]) (use assms(2) in \<open>auto simp: zero_fill_def user_bytes_def\<close>)
  then show ?thesis using assms(1) by (simp add: locked_inv_def)
qed

section \<open>Properties\<close>

text \<open>
  C37: device memory. In every reachable heap a request for a positive number of pages either finds the heap
  unable to grant the layout, and then panics, or returns memory that starts on a page boundary, reads as zero
  throughout, meets no live allocation and leaves their bytes alone; it is live from then on, with
  interrupts and lock as before. Giving it back with the same number of pages succeeds and leaves the live
  allocations that there were before.
\<close>

theorem dma_memory:
  assumes "locked_inv start e st h live" and "0 < pages" and "pages * 4096 < 2 ^ 63"
  shows "(dma_alloc pages h = None \<and> (\<exists>h'. locked_alloc h \<lparr>layout_size = 4096 * pages, layout_align = 4096\<rparr> = Some (0, h'))) \<or>
    (\<exists>p h' al h''. dma_alloc pages h = Some ((p, p), h') \<and> 4096 dvd p \<and> p \<noteq> 0 \<and>
       (\<forall>x. p \<le> x \<and> x < p + 4096 * pages \<longrightarrow> fst (snd h') x = 0) \<and>
       {p ..< p + 4096 * pages} \<inter> live_bytes live = {} \<and> (\<forall>x \<in> live_bytes live. fst (snd h') x = fst (snd h) x) \<and>
       al_ptr al = p \<and> al_size al = 4096 * pages \<and> locked_inv start e st h' (insert al live) \<and>
       dma_dealloc p pages h' = Some (0, h'') \<and> locked_inv start e st h'' live)"
proof -
  let ?l = "\<lparr>layout_size = 4096 * pages, layout_align = 4096\<rparr>"
  note l = dma_layout_eq [OF assms(2,3)]
  from locked_alloc_law [OF assms(1) l(2)] assms(2) obtain p s' where
    a: "locked_alloc h ?l = Some (p, s')" "\<forall>x \<in> live_bytes live. fst (snd s') x = fst (snd h) x"
      "p \<noteq> 0 \<longrightarrow> layout_align ?l dvd p \<and> (\<exists>al. al_ptr al = p \<and> al_size al = layout_size ?l \<and>
         {p - 16 ..< p + layout_size ?l} \<inter> live_bytes live = {} \<and> locked_inv start e st s' (insert al live))"
    by (metis (no_types, lifting) alloc_layout.select_convs(1) mult_pos_pos zero_less_numeral)
  obtain c m mx where s': "s' = (c, m, mx)" by (cases s')
  show ?thesis
  proof (cases "p = 0")
    case True
    then show ?thesis using a(1) l(1) by (simp add: dma_alloc_def alloc_zeroed_def nonnull_def s')
  next
    case False
    with a(3) obtain al where al: "4096 dvd p" "al_ptr al = p" "al_size al = 4096 * pages"
      "{p - 16 ..< p + 4096 * pages} \<inter> live_bytes live = {}" "locked_inv start e st (c, m, mx) (insert al live)" by (auto simp: s')
    let ?h' = "(c, zero_fill p (4096 * pages) m, mx)"
    have inv: "locked_inv start e st ?h' (insert al live)" using zero_fill_inv [OF al(5), of al] al(2,3) by simp
    have "{p ..< p + 4096 * pages} \<subseteq> {p - 16 ..< p + 4096 * pages}" by auto
    with al(4) have disj: "{p ..< p + 4096 * pages} \<inter> live_bytes live = {}" by blast
    have "al \<notin> live"
    proof
      assume "al \<in> live"
      have "heap_reach start e m (mx_inner mx) (insert al live)" "heap_range_ok start e" using al(5) by (simp_all add: locked_inv_def)
      from heap_invE [OF conjunct1 [OF heap_reach_inv [OF this]]] have "allocation_ok m al" by (metis insertI1)
      from metadata_in_region(6) [OF this] \<open>al \<in> live\<close> have "p \<in> live_bytes live" using al(2) by blast
      moreover have "p \<in> {p ..< p + 4096 * pages}" using assms(2) by simp
      ultimately show False using disj by blast
    qed
    then have "insert al live - {al} = live" by simp
    with kheap.release_law [OF inv, of al] al(2) obtain h'' where "locked_dealloc ?h' p = Some h''" "locked_inv start e st h'' live" by auto
    moreover have "dma_alloc pages h = Some ((p, p), ?h')"
      using a(1) l(1) False by (simp add: dma_alloc_def alloc_zeroed_def nonnull_def s')
    moreover have "\<forall>x \<in> live_bytes live. zero_fill p (4096 * pages) m x = fst (snd h) x"
    proof
      fix x assume x: "x \<in> live_bytes live"
      then have "x \<notin> {p ..< p + 4096 * pages}" using disj by blast
      then show "zero_fill p (4096 * pages) m x = fst (snd h) x" using bspec [OF a(2) x] by (auto simp: zero_fill_def s')
    qed
    ultimately show ?thesis using False al(1-3) disj inv l(1)
      by (intro disjI2 exI [of _ p] exI [of _ ?h'] exI [of _ al] exI [of _ h'']) (simp add: dma_dealloc_def zero_fill_def)
  qed
qed

text \<open>A heap of 1024 bytes has no room for a page, a heap of 64 kilobytes has.\<close>

lemma sample_dma_reach:
  "\<exists>m fl. locked_init locked_new (\<lambda>_. 7) (sample_layout\<lparr>heap_start := 0x80100000, heap_end := 0x80110000\<rparr>) = Some (m, \<lparr>mx_locked = False, mx_inner = fl\<rparr>) \<and>
     locked_inv 0x80100000 0x80110000 2 (sample_csrs, m, \<lparr>mx_locked = False, mx_inner = fl\<rparr>) {} \<and> blk_size m 0x80100000 = 65512 \<and>
     fl = \<lparr>fl_head = Some 0x80100000, fl_total_size = 65512\<rparr> \<and> blk_next m 0x80100000 = None"
proof -
  let ?m = "set_next (set_size (\<lambda>_. 7) 0x80100000 65512) 0x80100000 None"
  let ?fl = "\<lparr>fl_head = Some 0x80100000, fl_total_size = 65512\<rparr>"
  have i: "fl_init (\<lambda>_. 7) fl_new 0x80100000 0x80110000 = Some (?m, ?fl)"
    by (simp add: fl_init_def fl_new_def heap_defs)
  have "heap_range_ok 0x80100000 0x80110000" by (simp add: heap_range_ok_def HEAP_LIMIT_def)
  then have "locked_inv 0x80100000 0x80110000 2 (sample_csrs, ?m, \<lparr>mx_locked = False, mx_inner = ?fl\<rparr>) {}"
    using heap_start [OF i] by (simp add: locked_inv_def sample_csrs_def)
  moreover have "blk_size ?m 0x80100000 = 65512" "blk_next ?m 0x80100000 = None" by (simp_all add: heap_defs)
  ultimately show ?thesis
    using i by (intro exI [of _ ?m] exI [of _ ?fl]) (simp add: locked_init_def locked_new_def with_lock_def heap_bounds_new_def sample_layout_def)
qed

theorem dma_memory_witness:
  "\<exists>m fl h' h''. locked_init locked_new (\<lambda>_. 7) (sample_layout\<lparr>heap_start := 0x80100000, heap_end := 0x80110000\<rparr>) = Some (m, fl) \<and>
     dma_alloc 2 (sample_csrs, m, fl) = Some ((0x80101000, 0x80101000), h') \<and> fst (snd h') 0x80102ff8 = 0 \<and>
     dma_dealloc 0x80101000 2 h' = Some (0, h'')"
proof -
  from sample_dma_reach obtain m fl where h: "locked_init locked_new (\<lambda>_. 7) (sample_layout\<lparr>heap_start := 0x80100000, heap_end := 0x80110000\<rparr>) =
      Some (m, \<lparr>mx_locked = False, mx_inner = fl\<rparr>)"
    "locked_inv 0x80100000 0x80110000 2 (sample_csrs, m, \<lparr>mx_locked = False, mx_inner = fl\<rparr>) {}"
    "blk_size m 0x80100000 = 65512" "fl = \<lparr>fl_head = Some 0x80100000, fl_total_size = 65512\<rparr>" "blk_next m 0x80100000 = None" by blast
  have "\<exists>m' fl'. fl_alloc m fl \<lparr>layout_size = 4096 * 2, layout_align = 4096\<rparr> = Some (m', fl', 0x80101000)"
    using h(3,5) by (simp add: fl_alloc_def h(4) walk_list_def walk_from.simps [of _ _ _ _ "Some _"] alloc_visit_def can_allocate_def
        carve_block_def relink_def write_metadata_def heap_defs split: if_splits)
  then obtain m' fl' where "locked_alloc (sample_csrs, m, \<lparr>mx_locked = False, mx_inner = fl\<rparr>) \<lparr>layout_size = 4096 * 2, layout_align = 4096\<rparr> =
      Some (0x80101000, sample_csrs, m', \<lparr>mx_locked = False, mx_inner = fl'\<rparr>)"
    using locked_alloc_eq [of m "\<lparr>mx_locked = False, mx_inner = fl\<rparr>"] by fastforce
  then have g: "dma_alloc 2 (sample_csrs, m, \<lparr>mx_locked = False, mx_inner = fl\<rparr>) = Some ((p, p), h'') \<Longrightarrow> p = 0x80101000"
    "dma_alloc 2 (sample_csrs, m, \<lparr>mx_locked = False, mx_inner = fl\<rparr>) \<noteq> None" for p h''
    using dma_layout_eq(1) [of 2] by (auto simp: dma_alloc_def alloc_zeroed_def nonnull_def)
  from dma_memory [OF h(2), of 2] g(2) obtain p h' h'' where
    d: "dma_alloc 2 (sample_csrs, m, \<lparr>mx_locked = False, mx_inner = fl\<rparr>) = Some ((p, p), h')"
      "\<forall>x. p \<le> x \<and> x < p + 8192 \<longrightarrow> fst (snd h') x = 0" "dma_dealloc p 2 h' = Some (0, h'')" by auto
  have p: "p = 0x80101000" by (rule g(1) [OF d(1)])
  from d(2) have "fst (snd h') 0x80102ff8 = 0" by (simp add: p)
  with h(1) d(1,3) show ?thesis unfolding p by (intro exI conjI)
qed

text \<open>
  C39: the search for the log console. Whatever the devices answer and whatever was logged before, the search
  ends without a panic. It goes through the eight slots in ascending order and stops at the first one whose
  transport is a console that can be initialised: no slot before it gave one and no slot behind it
  is touched. Then everything the early buffer holds is the first message on the console; if no slot
  has a console, the log is left as it was.
\<close>

theorem console_search:
  assumes "eb_holds (kl_early k) bs"
  shows "\<exists>n \<le> 8. \<exists>d' k'. init_console C (d, k) = Some (d', k') \<and>
    (\<forall>i < n. \<not> fst (try_slot C (0x10001000 + i * 0x1000) (after_slots C (take i console_slots) d))) \<and>
    (n < 8 \<longrightarrow> fst (try_slot C (0x10001000 + n * 0x1000) (after_slots C (take n console_slots) d)) \<and>
       d' = after_slots C (take (Suc n) console_slots) d \<and> kl_console k' = Some [bs]) \<and>
    (n = 8 \<longrightarrow> d' = after_slots C console_slots d \<and> k' = k)"
proof -
  have slot: "i < 8 \<Longrightarrow> console_slots ! i = 0x10001000 + i * 0x1000" for i by (simp add: console_slots_def)
  have len: "length console_slots = 8" by (simp add: console_slots_def)
  from scan_console_spec [of console_slots k bs C d] assms console_slots_nonnull obtain n d' k' where
    n: "scan_console C console_slots (d, k) = Some (d', k')" "n \<le> 8"
      "\<forall>i < n. \<not> fst (try_slot C (console_slots ! i) (after_slots C (take i console_slots) d))"
      "if n = 8 then d' = after_slots C console_slots d \<and> k' = k
       else fst (try_slot C (console_slots ! n) (after_slots C (take n console_slots) d)) \<and>
         d' = after_slots C (take (Suc n) console_slots) d \<and> kl_console k' = Some [bs]" unfolding len by blast
  have "\<forall>i < n. \<not> fst (try_slot C (0x10001000 + i * 0x1000) (after_slots C (take i console_slots) d))"
    using n(2,3) slot by fastforce
  moreover have "n < 8 \<longrightarrow> fst (try_slot C (0x10001000 + n * 0x1000) (after_slots C (take n console_slots) d)) \<and>
       d' = after_slots C (take (Suc n) console_slots) d \<and> kl_console k' = Some [bs]"
    using n(4) slot [of n] by auto
  ultimately show ?thesis using n(1,2,4) unfolding init_console_def by auto
qed

text \<open>Devices that are the list of the slots that were probed; the console is in the slot with the number 7.\<close>

definition sample_crate :: "(usize list, usize, unit) driver_crate" where
  "sample_crate = \<lparr>transport_new = (\<lambda>a n d. (Some a, d @ [a])), transport_is_console = (\<lambda>t. t = 0x10007000),
     transport_drop = (\<lambda>t d. d), console_new = (\<lambda>t d. (True, d)), blk_new = (\<lambda>t d. (None, d))\<rparr>"

theorem console_search_witness:
  "\<exists>k'. init_console sample_crate ([], \<lparr>kl_console = None, kl_early = early_new\<rparr>) =
     Some ([0x10001000, 0x10002000, 0x10003000, 0x10004000, 0x10005000, 0x10006000, 0x10007000], k') \<and> kl_console k' = Some [[]]"
proof -
  have "eb_holds early_new []" by (simp add: eb_holds_def early_new_def EARLY_CAPACITY_def)
  with console_search [of "\<lparr>kl_console = None, kl_early = early_new\<rparr>" "[]" sample_crate "[]"] obtain n d' k' where
    n: "n \<le> 8" "init_console sample_crate ([], \<lparr>kl_console = None, kl_early = early_new\<rparr>) = Some (d', k')"
      "\<forall>i < n. \<not> fst (try_slot sample_crate (0x10001000 + i * 0x1000) (after_slots sample_crate (take i console_slots) []))"
      "n < 8 \<longrightarrow> fst (try_slot sample_crate (0x10001000 + n * 0x1000) (after_slots sample_crate (take n console_slots) [])) \<and>
       d' = after_slots sample_crate (take (Suc n) console_slots) [] \<and> kl_console k' = Some [[]]" by auto
  have t: "try_slot sample_crate a d = (a = 0x10007000, d @ [a])" for a d by (simp add: try_slot_def sample_crate_def)
  have "n = 6" using n(1,3,4) unfolding t by (cases "n < 8") (auto dest: spec [of _ 6])
  moreover have "after_slots sample_crate (take 7 console_slots) [] =
      [0x10001000, 0x10002000, 0x10003000, 0x10004000, 0x10005000, 0x10006000, 0x10007000]"
    by (simp add: console_slots_def upt_rec t)
  ultimately show ?thesis using n(2,4) by simp
qed

end
