(* ===== verification/Shell.thy ===== *)
theory Shell
  imports Kernel_FS Trap_Handler
begin

text \<open>
  The shell (\<open>src/shell.rs\<close>): the command history, the line editor on the UART, the commands and the
  loop. The UART gives a list of bytes and takes a list of bytes; the spinning on the line status
  register is not modelled. A line is text in UTF-8, as the code's \<open>String\<close> is, and a received byte is
  the character with that code.
\<close>

section \<open>Command history\<close>

definition HISTORY_CAPACITY :: usize where
  "HISTORY_CAPACITY = 100"

record command_history =
  hist_entries :: "bytes list"

definition history_new :: command_history where
  "history_new = \<lparr>hist_entries = []\<rparr>"

definition last_opt :: "'a list \<Rightarrow> 'a option" where
  "last_opt xs = (if xs = [] then None else Some (last xs))"

definition history_push :: "command_history \<Rightarrow> bytes \<Rightarrow> command_history" where
  "history_push h line =
     (if trim line = [] then h
      else if last_opt (hist_entries h) = Some line then h
      else let es = (if length (hist_entries h) = HISTORY_CAPACITY then tl (hist_entries h) else hist_entries h)
           in h\<lparr>hist_entries := es @ [line]\<rparr>)"

definition history_print :: "command_history \<Rightarrow> bytes" where
  "history_print h = concat (map (\<lambda>(index, command). pad_left 4 (fmt_dec (index + 1)) @ str_lit ''  '' @ command @ NEWLINE)
     (List.enumerate 0 (hist_entries h)))"

section \<open>Line editor\<close>

datatype input_state = Normal | Escape | ControlSequence

definition redraw_line :: "bytes \<Rightarrow> bytes" where
  "redraw_line line = [13, 27] @ str_lit ''[2K> '' @ line"

text \<open>\<open>c as char\<close>, as \<open>String::push\<close> stores it, and \<open>String::pop\<close>.\<close>

definition char_bytes :: "u8 \<Rightarrow> bytes" where
  "char_bytes c = (if c < 0x80 then [c] else [0xC0 OR drop_bit 6 c, 0x80 OR (c AND 0x3F)])"

definition pop_char :: "bytes \<Rightarrow> bytes option" where
  "pop_char s = (if s = [] then None else Some (take (length s - length (last_char s)) s))"

record editor =
  ed_line :: bytes
  ed_draft :: bytes
  ed_index :: usize
  ed_state :: input_state

definition editor_new :: "command_history \<Rightarrow> editor" where
  "editor_new h = \<lparr>ed_line = [], ed_draft = [], ed_index = length (hist_entries h), ed_state = Normal\<rparr>"

text \<open>\<open>get\<close> of a list, and indexing, which panics where \<open>get\<close> has no result.\<close>

definition list_get :: "'a list \<Rightarrow> nat \<Rightarrow> 'a option" where
  "list_get xs i = (if i < length xs then Some (xs ! i) else None)"

text \<open>The last byte of a control sequence: the arrow keys.\<close>

definition control_byte :: "command_history \<Rightarrow> editor \<Rightarrow> u8 \<Rightarrow> (editor \<times> bytes) panics" where
  "control_byte h ed c =
     (let n = length (hist_entries h); ed = ed\<lparr>ed_state := Normal\<rparr>
      in if c = 0x41 \<and> ed_index ed > 0 then do {
           let draft = (if ed_index ed = n then ed_line ed else ed_draft ed);
           let k = ed_index ed - 1;
           s \<leftarrow> list_get (hist_entries h) k;
           Some (ed\<lparr>ed_draft := draft, ed_index := k, ed_line := s\<rparr>, redraw_line s)
         }
         else if c = 0x42 \<and> ed_index ed < n then do {
           let k = ed_index ed + 1;
           s \<leftarrow> (if k = n then Some (ed_draft ed) else list_get (hist_entries h) k);
           Some (ed\<lparr>ed_index := k, ed_line := s\<rparr>, redraw_line s)
         }
         else Some (ed, []))"

text \<open>One received byte other than carriage return, with what is echoed.\<close>

definition edit_byte :: "command_history \<Rightarrow> editor \<Rightarrow> u8 \<Rightarrow> (editor \<times> bytes) panics" where
  "edit_byte h ed c =
     (case ed_state ed of
        Escape \<Rightarrow> Some (ed\<lparr>ed_state := (if c = 0x5B then ControlSequence else Normal)\<rparr>, [])
      | ControlSequence \<Rightarrow> control_byte h ed c
      | Normal \<Rightarrow>
          if c = 27 then Some (ed\<lparr>ed_state := Escape\<rparr>, [])
          else if c = 127 \<or> c = 8 then
            (case pop_char (ed_line ed) of
               Some s \<Rightarrow> Some (ed\<lparr>ed_line := s\<rparr>, [8, 32, 8])
             | None \<Rightarrow> Some (ed, []))
          else Some (ed\<lparr>ed_line := ed_line ed @ char_bytes c\<rparr>, char_bytes c))"

text \<open>
  The bytes up to carriage return make the line; what follows it stays in the UART. If the input ends
  before, the editor waits: the result has no line.
\<close>

fun read_line_loop :: "command_history \<Rightarrow> editor \<Rightarrow> bytes \<Rightarrow> bytes \<Rightarrow> (bytes option \<times> bytes \<times> bytes) panics" where
  "read_line_loop h ed [] out = Some (None, [], out)"
| "read_line_loop h ed (c # input) out =
     (if c = 13 then Some (Some (ed_line ed), input, out @ NEWLINE)
      else do { (ed, text) \<leftarrow> edit_byte h ed c; read_line_loop h ed input (out @ text) })"

definition read_line_and_display :: "command_history \<Rightarrow> bytes \<Rightarrow> bytes \<Rightarrow> (bytes option \<times> bytes \<times> bytes) panics" where
  "read_line_and_display h input out = read_line_loop h (editor_new h) input (out @ str_lit ''> '')"

section \<open>Commands\<close>

datatype shell_command =
    Hello | Exit | MemoryDump | Timer usize | SysInfo | Uptime | Help | Allocate usize | Bench usize usize
  | Ls bytes | Mkdir bytes | DumpFs | Write bytes bytes | Cat bytes | Touch bytes | Rm bytes | Tree | Flush | History

definition normalize_root_path :: "bytes \<Rightarrow> bytes" where
  "normalize_root_path path = (if starts_with path [SLASH] then path else SLASH # path)"

definition part_usize :: "bytes list \<Rightarrow> nat \<Rightarrow> usize option" where
  "part_usize parts i = Option.bind (list_get parts i) parse_usize"

text \<open>The inner option is the code's; the outer one is \<open>split_at(2)\<close>, which panics on a shorter list.\<close>

definition command_of :: "bytes list \<Rightarrow> shell_command option panics" where
  "command_of parts =
     (let command = hd parts
      in if command = str_lit ''hello'' then Some (Some Hello)
         else if command = str_lit ''exit'' then Some (Some Exit)
         else if command = str_lit ''memory'' then Some (Some MemoryDump)
         else if command = str_lit ''uptime'' then Some (Some Uptime)
         else if command = str_lit ''sysinfo'' then Some (Some SysInfo)
         else if command = str_lit ''tree'' then Some (Some Tree)
         else if command = str_lit ''history'' then Some (Some History)
         else if command = str_lit ''bench'' then
           Some (do { n \<leftarrow> part_usize parts 1; sz \<leftarrow> part_usize parts 2; Some (Bench n sz) })
         else if command = str_lit ''allocate'' then Some (map_option Allocate (part_usize parts 1))
         else if command = str_lit ''timer'' then Some (map_option Timer (part_usize parts 1))
         else if command = str_lit ''help'' then Some (Some Help)
         else if command = str_lit ''mkdir'' then Some (map_option (\<lambda>p. Mkdir (normalize_root_path p)) (list_get parts 1))
         else if command = str_lit ''touch'' then Some (map_option (\<lambda>p. Touch (normalize_root_path p)) (list_get parts 1))
         else if command = str_lit ''rm'' then Some (map_option (\<lambda>p. Rm (normalize_root_path p)) (list_get parts 1))
         else if command = str_lit ''ls'' then
           Some (Some (Ls (normalize_root_path (case list_get parts 1 of Some p \<Rightarrow> p | None \<Rightarrow> str_lit ''.''))))
         else if command = str_lit ''dumpfs'' then Some (Some DumpFs)
         else if command = str_lit ''flush'' then Some (Some Flush)
         else if command = str_lit ''write'' then
           (if length parts < 2 then None
            else Some (Some (Write (normalize_root_path (parts ! 1)) (join_spaces (drop 2 parts)))))
         else if command = str_lit ''cat'' then Some (map_option (\<lambda>p. Cat (normalize_root_path p)) (list_get parts 1))
         else Some None)"

definition from_line :: "bytes \<Rightarrow> shell_command option panics" where
  "from_line line =
     (let parts = split_at_char 32 (trim line)
      in if parts = [] then Some None else command_of parts)"

section \<open>What the commands do\<close>

text \<open>\<open>{:?}\<close> of a filesystem error; \<open>Display\<close> prints the same.\<close>

fun fmt_fs_error :: "fs_error \<Rightarrow> bytes" where
  "fmt_fs_error NotADirectory = str_lit ''NotADirectory''"
| "fmt_fs_error IsDirectory = str_lit ''IsDirectory''"
| "fmt_fs_error FileTooLarge = str_lit ''FileTooLarge''"
| "fmt_fs_error NoSpaceLeft = str_lit ''NoSpaceLeft''"
| "fmt_fs_error EntryExists = str_lit ''EntryExists''"
| "fmt_fs_error EmptyName = str_lit ''EmptyName''"
| "fmt_fs_error NameTooLong = str_lit ''NameTooLong''"
| "fmt_fs_error NotFound = str_lit ''NotFound''"
| "fmt_fs_error NotEmpty = str_lit ''NotEmpty''"
| "fmt_fs_error NoFreeInodeBlocks = str_lit ''NoFreeInodeBlocks''"
| "fmt_fs_error NoFreeInodes = str_lit ''NoFreeInodes''"
| "fmt_fs_error OperationNotSupported = str_lit ''OperationNotSupported''"
| "fmt_fs_error CorruptedRoot = str_lit ''CorruptedRoot''"
| "fmt_fs_error InvalidSuperblock = str_lit ''InvalidSuperblock''"
| "fmt_fs_error DeviceTooSmall = str_lit ''DeviceTooSmall''"
| "fmt_fs_error (UnsupportedFilesystemVersion v) =
     str_lit ''UnsupportedFilesystemVersion('' @ fmt_dec (unat v) @ str_lit '')''"

definition hello :: bytes where
  "hello = str_lit ''Hello there :)'' @ NEWLINE"

text \<open>\<open>saturating_mul\<close> and \<open>saturating_add\<close> stop at the largest \<open>usize\<close>.\<close>

definition saturate :: "nat \<Rightarrow> usize" where
  "saturate n = min n (usize_limit - 1)"

definition percentage_tenths :: "usize \<Rightarrow> usize \<Rightarrow> usize" where
  "percentage_tenths part tot =
     (if tot = 0 then 0 else saturate (saturate (part * 1000) + tot div 2) div tot)"

definition fmt_kib :: "usize \<Rightarrow> bytes" where
  "fmt_kib n = fmt_dec n @ str_lit '' bytes ('' @ fmt_dec (n div 1024) @ str_lit '' KiB''"

definition fmt_tenths :: "usize \<Rightarrow> bytes" where
  "fmt_tenths t = str_lit '', '' @ fmt_dec (t div 10) @ str_lit ''.'' @ fmt_dec (t mod 10) @ str_lit ''%)''"

definition memory_text :: "memory_stats \<Rightarrow> bytes" where
  "memory_text st =
     str_lit ''Heap memory:'' @ NEWLINE @
     str_lit ''  Used:  '' @ fmt_kib (ms_used st) @ fmt_tenths (percentage_tenths (ms_used st) (ms_total st)) @ NEWLINE @
     str_lit ''  Free:  '' @ fmt_kib (ms_free st) @ fmt_tenths (percentage_tenths (ms_free st) (ms_total st)) @ NEWLINE @
     str_lit ''  Total: '' @ fmt_kib (ms_total st) @ str_lit '')'' @ NEWLINE @
     str_lit ''  Free blocks: '' @ fmt_dec (ms_free_blocks st) @ NEWLINE @
     str_lit ''  Largest free block: '' @ fmt_kib (ms_largest_free_block st) @ str_lit '')'' @ NEWLINE"

definition sysinfo_text :: "system_info option \<Rightarrow> bytes panics" where
  "sysinfo_text sysinfo = do {
     n \<leftarrow> cpus sysinfo;
     isa \<leftarrow> cpu_isa sysinfo;
     tot \<leftarrow> total_memory sysinfo;
     freq \<leftarrow> timer_frequency sysinfo;
     Some (str_lit ''Kernel: LemonShark v0.0.1'' @ NEWLINE @
       str_lit ''CPUs: '' @ fmt_dec n @ str_lit '' ('' @ isa @ str_lit '')'' @ NEWLINE @
       str_lit ''Timer frequency: '' @ fmt_dec (freq div 1000 div 1000) @ str_lit ''MHz'' @ NEWLINE @
       str_lit ''Total memory: '' @ fmt_dec (tot div 1024 div 1024) @ str_lit ''MB'' @ NEWLINE)
   }"

definition help_lines :: "string list" where
  "help_lines =
    [''Available commands:'',
     ''  help                -- show this help menu'',
     ''  exit                -- shutdown the OS'',
     ''  sysinfo             -- print system information'',
     ''  memory              -- show the current state of the global kernel allocator'',
     ''  timer <n>           -- set a timer for N seconds which will cause an interrupt'',
     ''  ls                  -- show directories'',
     ''  mkdir <name>        -- creates a new directory'',
     ''  touch <name>        -- creates a new file'',
     ''  rm <path>           -- removes a file'',
     ''  dumpfs              -- dump of the filesystem'',
     ''  cat <file>          -- print content of file to the console'',
     ''  uptime              -- show for how long the system is running'',
     ''  write <file> <text> -- write text to the file'',
     ''  tree                -- show a tree view of the filesystem'',
     ''  flush               -- flush filesystem metadata to disk'',
     ''  history             -- show recently entered commands'',
     ''  allocate <n>        -- allocate memory of size n to test the kernel allocator'']"

definition help_text :: bytes where
  "help_text = concat (map (\<lambda>l. str_lit l @ NEWLINE) help_lines)"

section \<open>Allocating commands\<close>

text \<open>
  \<open>alloc::vec![0; n]\<close>, \<open>Box::new\<close> and \<open>Vec::push\<close> as calls of the global allocator: an empty vector
  allocates nothing, a null pointer and a size beyond \<open>isize::MAX\<close> panic, zeroed memory is written, a
  full vector of 24-byte elements grows to twice its capacity, at least four. What the elements store is
  not modelled.
\<close>

definition alloc_or_panic :: "heap_state \<Rightarrow> usize \<Rightarrow> usize \<Rightarrow> (usize \<times> heap_state) panics" where
  "alloc_or_panic h sz al =
     (if sz \<ge> 2 ^ 63 then None
      else do {
        (p, h) \<leftarrow> locked_alloc h \<lparr>layout_size = sz, layout_align = al\<rparr>;
        if p = 0 then None else Some (p, h)
      })"

definition write_zeros :: "heap_state \<Rightarrow> usize \<Rightarrow> usize \<Rightarrow> heap_state" where
  "write_zeros h p n = (case h of (c, m, mx) \<Rightarrow> (c, \<lambda>x. if p \<le> x \<and> x < p + n then 0 else m x, mx))"

definition vec_zeroed :: "heap_state \<Rightarrow> usize \<Rightarrow> (usize option \<times> heap_state) panics" where
  "vec_zeroed h n =
     (if n = 0 then Some (None, h)
      else do { (p, h) \<leftarrow> alloc_or_panic h n 1; Some (Some p, write_zeros h p n) })"

definition vec_drop :: "heap_state \<Rightarrow> usize option \<Rightarrow> heap_state panics" where
  "vec_drop h p = (case p of None \<Rightarrow> Some h | Some p \<Rightarrow> locked_dealloc h p)"

definition shell_allocate :: "heap_state \<Rightarrow> usize \<Rightarrow> heap_state panics" where
  "shell_allocate h sz = do {
     (vec, h) \<leftarrow> vec_zeroed h sz;
     (b, h) \<leftarrow> alloc_or_panic h 24 8;
     Some h
   }"

record raw_vec =
  rv_ptr :: "usize option"
  rv_cap :: usize

definition vec_reserve :: "heap_state \<Rightarrow> raw_vec \<Rightarrow> usize \<Rightarrow> (raw_vec \<times> heap_state) panics" where
  "vec_reserve h v len =
     (if len < rv_cap v then Some (v, h)
      else do {
        let cap = max (max (rv_cap v * 2) (len + 1)) 4;
        (p, h) \<leftarrow> alloc_or_panic h (cap * 24) 8;
        h \<leftarrow> vec_drop h (rv_ptr v);
        Some (\<lparr>rv_ptr = Some p, rv_cap = cap\<rparr>, h)
      })"

fun bench_push :: "nat \<Rightarrow> usize \<Rightarrow> raw_vec \<Rightarrow> usize option list \<Rightarrow> heap_state \<Rightarrow> (raw_vec \<times> usize option list \<times> heap_state) panics" where
  "bench_push 0 sz v ps h = Some (v, ps, h)"
| "bench_push (Suc n) sz v ps h = do {
     (p, h) \<leftarrow> vec_zeroed h sz;
     (v, h) \<leftarrow> vec_reserve h v (length ps);
     bench_push n sz v (p # ps) h
   }"

fun bench_pop :: "usize option list \<Rightarrow> heap_state \<Rightarrow> heap_state panics" where
  "bench_pop [] h = Some h"
| "bench_pop (p # ps) h = do { h \<leftarrow> vec_drop h p; bench_pop ps h }"

definition benchmark_allocator ::
  "system_info option \<Rightarrow> usize \<Rightarrow> usize \<Rightarrow> heap_state \<Rightarrow> usize \<Rightarrow> usize \<Rightarrow> (bytes \<times> heap_state) panics" where
  "benchmark_allocator sysinfo t0 t1 h n sz = do {
     f \<leftarrow> timer_frequency sysinfo;
     let freq = f div 1000;
     if freq = 0 then None
     else do {
       (v, ps, h) \<leftarrow> bench_push n sz \<lparr>rv_ptr = None, rv_cap = 0\<rparr> [] h;
       h \<leftarrow> bench_pop ps h;
       ms \<leftarrow> sub_usize (t1 div freq) (t0 div freq);
       h \<leftarrow> vec_drop h (rv_ptr v);
       Some (str_lit ''Took: '' @ fmt_dec ms @ str_lit ''ms'' @ NEWLINE, h)
     }
   }"

section \<open>Dispatch\<close>

text \<open>
  What a command reaches: the heap, the filesystem behind its lock, the timer and the UART. The two
  readings of the time counter that a command can make are arguments. \<open>exit\<close> asks the firmware for a
  shutdown, which does not return.
\<close>

record 'v shell_world =
  sw_heap :: heap_state
  sw_fs :: "'v fs_mutex"
  sw_deadline :: u64
  sw_out :: bytes

datatype outcome = Running | Halted

definition put_out :: "'v shell_world \<Rightarrow> bytes \<Rightarrow> 'v shell_world" where
  "put_out w text = w\<lparr>sw_out := sw_out w @ text\<rparr>"

text \<open>An API call whose error is reported behind a prefix.\<close>

definition report :: "string \<Rightarrow> 'v shell_world \<Rightarrow> ((fs_error + 'r) \<times> 'v fs_mutex) panics \<Rightarrow> 'v shell_world panics" where
  "report msg w res = do {
     (r, x) \<leftarrow> res;
     let w = w\<lparr>sw_fs := x\<rparr>;
     Some (case r of Inl e \<Rightarrow> put_out w (str_lit msg @ fmt_fs_error e @ NEWLINE) | Inr _ \<Rightarrow> w)
   }"

definition exit_shell :: "'v block_device_ops \<Rightarrow> 'v shell_world \<Rightarrow> 'v shell_world panics" where
  "exit_shell V w = do { x \<leftarrow> api_flush V (sw_fs w); Some (w\<lparr>sw_fs := x\<rparr>) }"

definition call_fs :: "'v block_device_ops \<Rightarrow> shell_command \<Rightarrow> 'v shell_world \<Rightarrow> 'v shell_world panics" where
  "call_fs V cmd w =
     (case cmd of
        Ls dir \<Rightarrow> do {
          (r, x) \<leftarrow> api_dump_dir V (sw_fs w) dir (sw_out w);
          let w = w\<lparr>sw_fs := x\<rparr>;
          Some (case r of
              Inl e \<Rightarrow> put_out w (str_lit ''ls failed: '' @ fmt_fs_error e @ NEWLINE)
            | Inr out \<Rightarrow> w\<lparr>sw_out := out\<rparr>)
        }
      | Mkdir name \<Rightarrow> report ''mkdir failed: '' w (api_mkdir V (sw_fs w) name)
      | Touch name \<Rightarrow> report ''touch failed: '' w (api_create_file V (sw_fs w) name)
      | Rm path \<Rightarrow> report ''rm failed: '' w (api_remove_dir_entry V (sw_fs w) path)
      | Write path text \<Rightarrow> report ''Writing to file failed: '' w (api_write_to_file V (sw_fs w) path text)
      | Cat path \<Rightarrow> do {
          (r, x) \<leftarrow> api_read_file V (sw_fs w) path;
          let w = w\<lparr>sw_fs := x\<rparr>;
          Some (put_out w (case r of
              Inl e \<Rightarrow> str_lit ''cat failed: '' @ fmt_fs_error e @ NEWLINE
            | Inr output \<Rightarrow> output @ NEWLINE))
        }
      | DumpFs \<Rightarrow> do { (out, x) \<leftarrow> api_dump V (sw_fs w) (sw_out w); Some (w\<lparr>sw_fs := x, sw_out := out\<rparr>) }
      | Tree \<Rightarrow> do { (out, x) \<leftarrow> api_tree V (sw_fs w) (sw_out w); Some (w\<lparr>sw_fs := x, sw_out := out\<rparr>) }
      | Flush \<Rightarrow> do { x \<leftarrow> api_flush V (sw_fs w); Some (w\<lparr>sw_fs := x\<rparr>) }
      | _ \<Rightarrow> Some w)"

definition call_memory :: "'v shell_world \<Rightarrow> 'v shell_world panics" where
  "call_memory w =
     (case sw_heap w of (c, m, mx) \<Rightarrow> do {
        (st, mx) \<leftarrow> locked_stats m mx;
        Some (put_out (w\<lparr>sw_heap := (c, m, mx)\<rparr>) (memory_text st))
      })"

definition call_uptime :: "system_info option \<Rightarrow> usize \<Rightarrow> 'v shell_world \<Rightarrow> 'v shell_world panics" where
  "call_uptime sysinfo now w = do {
     time \<leftarrow> uptime sysinfo now;
     Some (put_out w (str_lit ''Currently running for '' @ fmt_dec time @ str_lit ''s'' @ NEWLINE))
   }"

definition shell_call ::
  "'v block_device_ops \<Rightarrow> system_info option \<Rightarrow> usize \<Rightarrow> usize \<Rightarrow> shell_command \<Rightarrow> command_history \<Rightarrow> 'v shell_world \<Rightarrow>
     (outcome \<times> 'v shell_world) panics" where
  "shell_call V sysinfo t0 t1 cmd h w =
     (case cmd of
        Exit \<Rightarrow> do { w \<leftarrow> exit_shell V w; Some (Halted, w) }
      | _ \<Rightarrow> map_option (Pair Running)
          (case cmd of
             Help \<Rightarrow> Some (put_out w help_text)
           | Hello \<Rightarrow> Some (put_out w hello)
           | SysInfo \<Rightarrow> map_option (put_out w) (sysinfo_text sysinfo)
           | MemoryDump \<Rightarrow> call_memory w
           | Bench n sz \<Rightarrow> do {
               (text, hp) \<leftarrow> benchmark_allocator sysinfo t0 t1 (sw_heap w) n sz;
               Some (put_out (w\<lparr>sw_heap := hp\<rparr>) text)
             }
           | Allocate sz \<Rightarrow> do { hp \<leftarrow> shell_allocate (sw_heap w) sz; Some (w\<lparr>sw_heap := hp\<rparr>) }
           | Timer secs \<Rightarrow> do { d \<leftarrow> new_time sysinfo (of_nat t0) secs; Some (w\<lparr>sw_deadline := d\<rparr>) }
           | Uptime \<Rightarrow> call_uptime sysinfo t0 w
           | History \<Rightarrow> Some (put_out w (history_print h))
           | _ \<Rightarrow> call_fs V cmd w))"

section \<open>The loop\<close>

text \<open>
  One round: read a line, remember it, run it. The input list is what the UART delivers; the loop waits
  when it is used up, and ends only with \<open>exit\<close>.
\<close>

definition run_line ::
  "'v block_device_ops \<Rightarrow> system_info option \<Rightarrow> usize \<Rightarrow> usize \<Rightarrow> bytes \<Rightarrow> command_history \<Rightarrow> 'v shell_world \<Rightarrow>
     (outcome \<times> 'v shell_world) panics" where
  "run_line V sysinfo t0 t1 line h w = do {
     cmd \<leftarrow> from_line line;
     case cmd of
       Some command \<Rightarrow> shell_call V sysinfo t0 t1 command h w
     | None \<Rightarrow> Some (Running, put_out w (str_lit ''ShellCommand not found: '' @ [39] @ line @ [39] @ NEWLINE))
   }"

lemma read_line_rest: "read_line_loop h ed input out = Some (Some line, rest, out') \<Longrightarrow> length rest < length input"
  by (induction input arbitrary: ed out) (force split: bind_splits if_splits)+

function shell_loop ::
  "'v block_device_ops \<Rightarrow> system_info option \<Rightarrow> (nat \<Rightarrow> usize \<times> usize) \<Rightarrow> nat \<Rightarrow> command_history \<Rightarrow> bytes \<Rightarrow> 'v shell_world \<Rightarrow>
     (outcome \<times> command_history \<times> 'v shell_world) panics" where
  "shell_loop V sysinfo clock k h input w =
     (case read_line_and_display h input (sw_out w) of
        None \<Rightarrow> None
      | Some (None, rest, out) \<Rightarrow> Some (Running, h, w\<lparr>sw_out := out\<rparr>)
      | Some (Some line, rest, out) \<Rightarrow>
          let h' = history_push h line; (t0, t1) = clock k
          in (case run_line V sysinfo t0 t1 line h' (w\<lparr>sw_out := out\<rparr>) of
                None \<Rightarrow> None
              | Some (Halted, w') \<Rightarrow> Some (Halted, h', w')
              | Some (Running, w') \<Rightarrow> shell_loop V sysinfo clock (Suc k) h' rest w'))"
  by pat_completeness auto
termination
  by (relation "measure (\<lambda>(V, sysinfo, clock, k, h, input, w). length input)")
    (auto simp: read_line_and_display_def dest: read_line_rest)

declare shell_loop.simps [simp del]

definition shell ::
  "'v block_device_ops \<Rightarrow> system_info option \<Rightarrow> (nat \<Rightarrow> usize \<times> usize) \<Rightarrow> bytes \<Rightarrow> 'v shell_world \<Rightarrow>
     (outcome \<times> command_history \<times> 'v shell_world) panics" where
  "shell V sysinfo clock input w = shell_loop V sysinfo clock 0 history_new input w"

section \<open>History\<close>

definition last_n :: "nat \<Rightarrow> 'a list \<Rightarrow> 'a list" where
  "last_n n xs = drop (length xs - n) xs"

lemma last_n_snoc: "0 < n \<Longrightarrow> last_n n (xs @ [x]) = (if length xs < n then last_n n xs else tl (last_n n xs)) @ [x]"
  by (auto simp: last_n_def Suc_diff_le tl_drop drop_Suc)

lemma last_n_last: "0 < n \<Longrightarrow> last_opt (last_n n xs) = last_opt xs"
  by (cases xs) (auto simp: last_opt_def last_n_def)

lemma length_last_n [simp]: "length (last_n n xs) = min n (length xs)"
  by (simp add: last_n_def)

lemma remdups_adj_snoc: "remdups_adj (xs @ [x]) = (if last_opt xs = Some x then remdups_adj xs else remdups_adj xs @ [x])"
  by (induction xs rule: remdups_adj.induct) (auto simp: last_opt_def)

lemma last_remdups_adj: "last_opt (remdups_adj xs) = last_opt xs"
  by (cases "xs = []") (simp_all add: last_opt_def)

definition typed_history :: "bytes list \<Rightarrow> bytes list" where
  "typed_history lines = remdups_adj (filter (\<lambda>l. trim l \<noteq> []) lines)"

text \<open>
  C24: the history against its specification. Whatever lines were entered, the entries are the last 100 of
  the lines that are not blank, with consecutive repetitions collapsed to one; so there are at most 100.
\<close>
theorem history_exact:
  "hist_entries (fold (\<lambda>line h. history_push h line) lines history_new) = last_n 100 (typed_history lines)"
proof (induction lines rule: rev_induct)
  case Nil
  then show ?case by (simp add: history_new_def typed_history_def last_n_def)
next
  case (snoc line lines)
  let ?es = "last_n 100 (typed_history lines)"
  have new: "typed_history (lines @ [line]) = (if trim line = [] \<or> last_opt (typed_history lines) = Some line then typed_history lines
      else typed_history lines @ [line])"
    by (simp add: typed_history_def remdups_adj_snoc last_remdups_adj)
  have full: "length ?es = HISTORY_CAPACITY \<longleftrightarrow> \<not> length (typed_history lines) < 100" by (auto simp: HISTORY_CAPACITY_def)
  have "hist_entries (history_push h line) = (if trim line = [] \<or> last_opt (hist_entries h) = Some line then hist_entries h
      else (if length (hist_entries h) = HISTORY_CAPACITY then tl (hist_entries h) else hist_entries h) @ [line])" for h
    by (simp add: history_push_def Let_def)
  note step = this [of "fold (\<lambda>line h. history_push h line) lines history_new", unfolded snoc.IH full]
  show ?case
    unfolding new using step by (simp add: last_n_last last_n_snoc)
qed

section \<open>Parsing\<close>

lemma split_at_char_single: "split_at_char c xs = [p] \<Longrightarrow> xs = p"
  by (induction xs arbitrary: p) (auto split: if_splits list.splits)

lemma join_split: "join_spaces (split_at_char 32 s) = s"
proof (induction s)
  case (Cons x s)
  obtain p ps where sp: "split_at_char 32 s = p # ps" by (cases "split_at_char 32 s") auto
  then show ?case using Cons by (cases "x = 32") (auto simp: join_spaces_def)
qed (simp add: join_spaces_def)

lemma from_line_split: "from_line line = command_of (split_at_char 32 (trim line))"
  by (simp add: from_line_def)

lemma command_of_panics: "command_of parts = None \<longleftrightarrow> hd parts = str_lit ''write'' \<and> length parts < 2"
  unfolding command_of_def Let_def by (simp add: str_lit_def)

lemma command_of_write:
  "2 \<le> length parts \<Longrightarrow> hd parts = str_lit ''write'' \<Longrightarrow>
     command_of parts = Some (Some (Write (normalize_root_path (parts ! 1)) (join_spaces (drop 2 parts))))"
  unfolding command_of_def Let_def by (simp add: str_lit_def)

text \<open>
  C22: the parser of command lines. It panics on exactly one command, a bare \<open>write\<close>, which the code means
  to refuse like the other commands without their argument. A \<open>write\<close> with a path hands over the rest of the
  line as it was typed, blanks included, and the path starts at the root.
\<close>
theorem from_line_exact:
  assumes "32 \<notin> set p" and "trim line = str_lit ''write'' @ 32 # p @ 32 # text"
  shows "(from_line other = None \<longleftrightarrow> trim other = str_lit ''write'') \<and>
    from_line line = Some (Some (Write (normalize_root_path p) text)) \<and>
    hd (normalize_root_path p) = SLASH"
proof (intro conjI)
  show "from_line other = None \<longleftrightarrow> trim other = str_lit ''write''"
  proof
    assume "from_line other = None"
    then have "hd (split_at_char 32 (trim other)) = str_lit ''write''" "length (split_at_char 32 (trim other)) < 2"
      by (simp_all add: from_line_split command_of_panics)
    then have "split_at_char 32 (trim other) = [str_lit ''write'']" by (cases "split_at_char 32 (trim other)") auto
    then show "trim other = str_lit ''write''" by (rule split_at_char_single)
  next
    assume "trim other = str_lit ''write''"
    then show "from_line other = None" by (simp add: from_line_split command_of_panics str_lit_def)
  qed
  have w: "32 \<notin> set (str_lit ''write'')" by (simp add: str_lit_def)
  have "split_at_char 32 (trim line) = str_lit ''write'' # p # split_at_char 32 text"
    unfolding assms(2) split_at_char_cut [OF w] split_at_char_cut [OF assms(1)] ..
  then show "from_line line = Some (Some (Write (normalize_root_path p) text))"
    by (simp add: from_line_split command_of_write join_split)
  show "hd (normalize_root_path p) = SLASH" by (cases p) (auto simp: normalize_root_path_def starts_with_def)
qed

theorem from_line_exact_witness:
  "from_line (str_lit ''write a b  c'') = Some (Some (Write (str_lit ''/a'') (str_lit ''b  c''))) \<and> from_line (str_lit ''write'') = None"
proof -
  have t: "trim (str_lit ''write a b  c'') = str_lit ''write'' @ 32 # str_lit ''a'' @ 32 # str_lit ''b  c''" "trim (str_lit ''write'') = str_lit ''write''"
    by (simp_all add: str_lit_def trim_def trim_start.simps leading_space_def trim_end.simps last_char_def utf8_cont_def)
  have p: "32 \<notin> set (str_lit ''a'')" by (simp add: str_lit_def)
  have "normalize_root_path (str_lit ''a'') = str_lit ''/a''" by (simp add: normalize_root_path_def starts_with_def str_lit_def SLASH_def)
  then show ?thesis using from_line_exact [OF p t(1), of "str_lit ''write''"] t(2) by simp
qed

section \<open>Lines are text\<close>

lemma pop_char_valid: "valid_utf8 s \<Longrightarrow> pop_char s = Some s' \<Longrightarrow> valid_utf8 s'"
proof -
  assume s: "valid_utf8 s" and p: "pop_char s = Some s'"
  then have "s \<noteq> []" by (auto simp: pop_char_def)
  from valid_utf8_last [OF s this] obtain t ch where t: "s = t @ ch" "utf8_char ch" "valid_utf8 t" by blast
  have "s' = t" using p by (simp add: pop_char_def t(1) last_char_append [OF t(2)] split: if_splits)
  then show ?thesis using t by simp
qed

lemma continuation_byte: "utf8_cont (0x80 OR (c AND 0x3F))"
proof -
  have mask: "c AND 0x3F = take_bit 6 c" for c :: u8 by (simp add: take_bit_eq_mask mask_eq_exp_minus_1)
  have "(0x80 :: u8) AND (c AND 0x3F) = 0" by (subst and.left_commute) simp
  then have "(0x80 :: u8) AND take_bit 6 c = 0" by (simp add: mask)
  then have "(0x80 :: u8) OR take_bit 6 c = 0x80 + take_bit 6 c" by (simp add: disjunctive_add_eq_or)
  moreover have "unat (take_bit 6 c) < 64" by (simp add: take_bit_eq_mod unat_mod)
  moreover from this have "unat ((0x80 :: u8) + take_bit 6 c) = 128 + unat (take_bit 6 c)" by (subst unat_word_ariths) simp
  ultimately show ?thesis by (simp add: utf8_cont_def mask word_le_nat_alt word_less_nat_alt)
qed

lemma char_bytes_valid: "valid_utf8 (char_bytes c)"
proof (cases "c < 0x80")
  case False
  have "unat (drop_bit 6 c) = unat c div 64" by (simp add: drop_bit_eq_div unat_div)
  moreover have "unat c < 256" using unsigned_less [of c] by simp
  then have "unat c div 64 = 2 \<or> unat c div 64 = 3" using False by (auto simp: word_less_nat_alt)
  ultimately have "unat (drop_bit 6 c) = unat (2 :: u8) \<or> unat (drop_bit 6 c) = unat (3 :: u8)" by simp
  then have "drop_bit 6 c = 2 \<or> drop_bit 6 c = 3" by (simp only: unat_inject)
  moreover have two: "valid_utf8 [0xC0 OR 2, b]" "valid_utf8 [0xC0 OR 3, b]" if "utf8_cont b" for b using that by simp_all
  ultimately show ?thesis
    unfolding char_bytes_def using False continuation_byte [of c] by (elim disjE) (simp_all only: if_False two)
qed (simp add: char_bytes_def)

text \<open>The editor's invariant: the history position is in range and the strings are text.\<close>

definition editor_ok :: "command_history \<Rightarrow> editor \<Rightarrow> bool" where
  "editor_ok h ed \<longleftrightarrow> ed_index ed \<le> length (hist_entries h) \<and> valid_utf8 (ed_line ed) \<and> valid_utf8 (ed_draft ed)"

lemma history_get:
  "list_all valid_utf8 (hist_entries h) \<Longrightarrow> k < length (hist_entries h) \<Longrightarrow>
     \<exists>s. list_get (hist_entries h) k = Some s \<and> valid_utf8 s"
  by (simp add: list_get_def list_all_length)

lemma control_byte_ok:
  assumes "list_all valid_utf8 (hist_entries h)" and "editor_ok h ed"
  shows "\<exists>ed' text. control_byte h ed c = Some (ed', text) \<and> editor_ok h ed'"
proof -
  let ?n = "length (hist_entries h)"
  consider (up) "c = 0x41" "0 < ed_index ed" | (down) "\<not> (c = 0x41 \<and> 0 < ed_index ed)" "c = 0x42" "ed_index ed < ?n"
    | (other) "\<not> (c = 0x41 \<and> 0 < ed_index ed)" "\<not> (c = 0x42 \<and> ed_index ed < ?n)" by argo
  then show ?thesis
  proof cases
    case up
    then have "ed_index ed - 1 < ?n" using assms(2) by (auto simp: editor_ok_def)
    from history_get [OF assms(1) this] obtain s where "list_get (hist_entries h) (ed_index ed - 1) = Some s" "valid_utf8 s" by blast
    then show ?thesis using up assms(2) by (auto simp: control_byte_def Let_def editor_ok_def)
  next
    case down
    then show ?thesis using history_get [OF assms(1), of "ed_index ed + 1"] assms(2)
      by (cases "ed_index ed + 1 = ?n") (auto simp: control_byte_def Let_def editor_ok_def)
  next
    case other
    then have "control_byte h ed c = Some (ed\<lparr>ed_state := Normal\<rparr>, [])"
      by (cases "c = 0x41"; cases "c = 0x42") (simp_all add: control_byte_def)
    then show ?thesis using assms(2) by (simp add: editor_ok_def)
  qed
qed

lemma edit_byte_ok:
  assumes "list_all valid_utf8 (hist_entries h)" and "editor_ok h ed"
  shows "\<exists>ed' text. edit_byte h ed c = Some (ed', text) \<and> editor_ok h ed'"
proof (cases "ed_state ed")
  case Normal
  have "valid_utf8 (ed_line ed @ char_bytes c)" using assms(2) char_bytes_valid by (intro valid_utf8_append) (simp_all add: editor_ok_def)
  then show ?thesis using Normal assms(2) pop_char_valid [of "ed_line ed"]
    by (cases "pop_char (ed_line ed)") (auto simp: edit_byte_def editor_ok_def)
next
  case Escape
  then show ?thesis using assms(2) by (simp add: edit_byte_def editor_ok_def)
next
  case ControlSequence
  then show ?thesis using control_byte_ok [OF assms] by (simp add: edit_byte_def)
qed

lemma read_line_loop_ok:
  assumes "list_all valid_utf8 (hist_entries h)" and "editor_ok h ed"
  shows "\<exists>line out'. read_line_loop h ed input out = Some (line, tl (dropWhile (\<lambda>b. b \<noteq> 13) input), out') \<and>
    (line \<noteq> None \<longleftrightarrow> 13 \<in> set input) \<and> (\<forall>l. line = Some l \<longrightarrow> valid_utf8 l)"
  using assms(2)
proof (induction input arbitrary: ed out)
  case (Cons c input)
  show ?case
  proof (cases "c = 13")
    case False
    from edit_byte_ok [OF assms(1) Cons.prems, of c] obtain ed' echo where
      e: "edit_byte h ed c = Some (ed', echo)" "editor_ok h ed'" by blast
    show ?thesis using Cons.IH [OF e(2), of "out @ echo"] e(1) False by auto
  qed (use Cons.prems in \<open>simp add: editor_ok_def\<close>)
qed simp

text \<open>
  C23: the line editor is total and yields text. Whatever bytes the UART delivers, escape sequences and arrow
  keys at any position included, reading a line never panics; a line is returned exactly if a carriage
  return arrives, the bytes behind it stay unread, and if the history holds UTF-8 then so does the line, so
  that backspace never cuts a character and \<open>String\<close>'s invariant holds.
\<close>
theorem read_line_sound:
  assumes "list_all valid_utf8 (hist_entries h)"
  shows "\<exists>line out'. read_line_and_display h input out = Some (line, tl (dropWhile (\<lambda>b. b \<noteq> 13) input), out') \<and>
    (line \<noteq> None \<longleftrightarrow> 13 \<in> set input) \<and> (\<forall>l. line = Some l \<longrightarrow> valid_utf8 l \<and> list_all valid_utf8 (hist_entries (history_push h l)))"
proof -
  have "editor_ok h (editor_new h)" by (simp add: editor_ok_def editor_new_def)
  from read_line_loop_ok [OF assms this, of input "out @ str_lit ''> ''"] obtain line out' where
    r: "read_line_and_display h input out = Some (line, tl (dropWhile (\<lambda>b. b \<noteq> 13) input), out')"
      "line \<noteq> None \<longleftrightarrow> 13 \<in> set input" "\<forall>l. line = Some l \<longrightarrow> valid_utf8 l" by (auto simp: read_line_and_display_def)
  have "list_all valid_utf8 (hist_entries (history_push h l))" if "valid_utf8 l" for l
    using assms that by (cases "hist_entries h") (auto simp: history_push_def Let_def)
  then show ?thesis using r by auto
qed

theorem read_line_sound_witness:
  "\<exists>out'. read_line_and_display history_new [97, 8, 0xFF, 27, 91, 65, 13, 98] [] = Some (Some [0xC3, 0xBF], [98], out') \<and> valid_utf8 [0xC3, 0xBF]"
proof -
  have "list_all valid_utf8 (hist_entries history_new)" by (simp add: history_new_def)
  from read_line_sound [OF this, of "[97, 8, 0xFF, 27, 91, 65, 13, 98]" "[]"] show ?thesis
    by (simp add: read_line_and_display_def editor_new_def history_new_def edit_byte_def pop_char_def last_char_def char_bytes_def
        utf8_cont_def control_byte_def)
qed

section \<open>Typed commands\<close>

text \<open>A line of visible characters and blanks, as a user types it: the editor returns it and echoes it.\<close>

definition typed :: "bytes \<Rightarrow> bool" where
  "typed line \<longleftrightarrow> list_all (\<lambda>b. 32 \<le> b \<and> b \<le> 126) line"

definition visible_text :: "bytes \<Rightarrow> bool" where
  "visible_text s \<longleftrightarrow> list_all (\<lambda>b. 33 \<le> b \<and> b \<le> 126) s"

lemma visible_typed: "visible_text s \<Longrightarrow> typed s"
  by (auto simp: visible_text_def typed_def list_all_iff word_le_nat_alt)

lemma typed_byte: "32 \<le> c \<Longrightarrow> c \<le> (126 :: u8) \<Longrightarrow> c \<noteq> 13 \<and> c \<noteq> 27 \<and> c \<noteq> 127 \<and> c \<noteq> 8 \<and> c < 0x80"
  by (auto simp: word_le_nat_alt word_less_nat_alt)

lemma read_line_loop_typed:
  "typed line \<Longrightarrow> ed_state ed = Normal \<Longrightarrow>
     read_line_loop h ed (line @ 13 # rest) out = Some (Some (ed_line ed @ line), rest, out @ line @ NEWLINE)"
proof (induction line arbitrary: ed out)
  case (Cons c line)
  then have c: "c \<noteq> 13" "c \<noteq> 27" "c \<noteq> 127" "c \<noteq> 8" "c < 0x80" and l: "typed line" using typed_byte [of c] by (simp_all add: typed_def)
  then have "edit_byte h ed c = Some (ed\<lparr>ed_line := ed_line ed @ [c]\<rparr>, [c])"
    using Cons.prems(2) by (simp add: edit_byte_def char_bytes_def)
  then show ?case using Cons.IH [OF l, of "ed\<lparr>ed_line := ed_line ed @ [c]\<rparr>" "out @ [c]"] Cons.prems(2) c(1) by simp
qed simp

lemma read_line_typed:
  "typed line \<Longrightarrow> read_line_and_display h (line @ 13 # rest) out = Some (Some line, rest, out @ str_lit ''> '' @ line @ NEWLINE)"
  using read_line_loop_typed [of line "editor_new h" h rest "out @ str_lit ''> ''"]
  by (simp add: read_line_and_display_def editor_new_def)

lemma leading_space_visible: "33 \<le> b \<Longrightarrow> b \<le> (126 :: u8) \<Longrightarrow> leading_space (b # s) = 0"
  by (auto simp: leading_space_def word_le_nat_alt)

lemma last_char_visible: "33 \<le> b \<Longrightarrow> b \<le> (126 :: u8) \<Longrightarrow> last_char (s @ [b]) = [b]"
proof -
  assume "33 \<le> b" "b \<le> 126"
  then have "\<not> utf8_cont b" by (auto simp: utf8_cont_def word_le_nat_alt word_less_nat_alt)
  then show ?thesis by (simp add: last_char_def)
qed

lemma trim_visible:
  assumes "33 \<le> a" and "a \<le> (126 :: u8)" and "33 \<le> b" and "b \<le> (126 :: u8)"
  shows "trim (a # s @ [b]) = a # s @ [b]"
proof -
  have "trim_start (a # s @ [b]) = a # s @ [b]" using leading_space_visible [OF assms(1,2)] by (simp add: trim_start.simps)
  moreover have "last_char (a # s @ [b]) = [b]" using last_char_visible [OF assms(3,4), of "a # s"] by simp
  then have "trim_end (a # s @ [b]) = a # s @ [b]"
    using leading_space_visible [OF assms(3,4), of "[]"] by (simp add: trim_end.simps)
  ultimately show ?thesis by (simp add: trim_def)
qed

lemma no_blank: "visible_text q \<Longrightarrow> 32 \<notin> set q"
  by (auto simp: visible_text_def list_all_iff word_le_nat_alt)

lemma typed_parts:
  assumes "visible_text c" and "c \<noteq> []" and "visible_text q" and "q \<noteq> []"
  shows "split_at_char 32 (trim (c @ 32 # q)) = [c, q]"
proof -
  obtain a s where c: "c = a # s" using assms(2) by (cases c) auto
  obtain t b where q: "q = t @ [b]" using assms(4) by (cases q rule: rev_cases) auto
  have ends: "33 \<le> a" "a \<le> 126" "33 \<le> b" "b \<le> 126" using assms(1,3) by (simp_all add: visible_text_def c q)
  have "trim (c @ 32 # q) = c @ 32 # q" using trim_visible [OF ends, of "s @ 32 # t"] by (simp add: c q)
  moreover have "split_at_char 32 q = [q]" using no_blank [OF assms(3)] by (induction q) auto
  ultimately show ?thesis by (simp only: split_at_char_cut [OF no_blank [OF assms(1)]])
qed

lemma normalize_rooted: "q \<noteq> [] \<Longrightarrow> hd q = SLASH \<Longrightarrow> normalize_root_path q = q"
  by (cases q) (auto simp: normalize_root_path_def starts_with_def)

lemma command_of_cat: "command_of [str_lit ''cat'', q] = Some (Some (Cat (normalize_root_path q)))"
  unfolding command_of_def Let_def by (simp add: str_lit_def list_get_def)

lemma from_line_cat:
  assumes "visible_text q" and "q \<noteq> []" and "hd q = SLASH"
  shows "from_line (str_lit ''cat '' @ q) = Some (Some (Cat q))"
proof -
  have "visible_text (str_lit ''cat'')" "str_lit ''cat'' \<noteq> []" by (simp_all add: visible_text_def str_lit_def)
  from typed_parts [OF this assms(1,2)] have "split_at_char 32 (trim (str_lit ''cat '' @ q)) = [str_lit ''cat'', q]" by (simp add: str_lit_def)
  then show ?thesis using normalize_rooted [OF assms(2,3)] by (simp add: from_line_split command_of_cat)
qed

text \<open>One round of the loop for a typed line, and the prompt that waits for the next.\<close>

lemma shell_loop_typed:
  assumes "typed line" and "run_line V sysinfo (fst (clock k)) (snd (clock k)) line (history_push h line)
      (w\<lparr>sw_out := sw_out w @ str_lit ''> '' @ line @ NEWLINE\<rparr>) = Some (Running, w')"
  shows "shell_loop V sysinfo clock k h (line @ 13 # rest) w = shell_loop V sysinfo clock (Suc k) (history_push h line) rest w'"
  using assms(2) read_line_typed [OF assms(1), of h rest "sw_out w"]
  by (subst shell_loop.simps) (simp add: case_prod_unfold Let_def)

lemma shell_loop_waits: "shell_loop V sysinfo clock k h [] w = Some (Running, h, w\<lparr>sw_out := sw_out w @ str_lit ''> ''\<rparr>)"
  by (subst shell_loop.simps) (simp add: read_line_and_display_def)

end
