(* ===== verification/FS_State.thy ===== *)
theory FS_State
  imports Filesystem
begin

text \<open>
  The state of a mounted filesystem seen from above: the i-node of an index is the cached one or, if
  there is none, the one on disk (\<open>fs_node\<close>), and \<open>fs_ok\<close> says that device, layout, bitmaps and the
  write-back cache fit together. Every access of the code to i-nodes and data blocks is then an access
  to this view, on every device that keeps the contract \<open>block_device\<close>.
\<close>

section \<open>The view\<close>

definition inode_block_no :: "fs_layout \<Rightarrow> inode_index \<Rightarrow> nat" where
  "inode_block_no l i = inode_table_start l + unat i div 7"

definition inode_offset :: "inode_index \<Rightarrow> nat" where
  "inode_offset i = unat i mod 7 * 72"

definition disk_inode :: "bytes list \<Rightarrow> fs_layout \<Rightarrow> inode_index \<Rightarrow> inode" where
  "disk_inode bs l i = fst (the (inode_read_from (br_at (bs ! inode_block_no l i) (inode_offset i))))"

definition cached :: "inode_cache \<Rightarrow> inode_index \<Rightarrow> inode option" where
  "cached c i = (if unat i < length (ic_inodes c) then ic_inodes c ! unat i else None)"

definition fs_node :: "('d \<Rightarrow> bytes list) \<Rightarrow> 'd filesystem \<Rightarrow> inode_index \<Rightarrow> inode" where
  "fs_node B fs i =
     (case cached (fs_inode_cache fs) i of Some nd \<Rightarrow> nd | None \<Rightarrow> disk_inode (B (fs_device fs)) (fs_lay fs) i)"

definition inode_count :: "'d filesystem \<Rightarrow> nat" where
  "inode_count fs = bm_len (fs_inode_bitmap fs)"

definition fs_dirty :: "'d filesystem \<Rightarrow> nat set" where
  "fs_dirty fs = bm_bits (ic_dirty (fs_inode_cache fs))"

definition cache_len :: "'d filesystem \<Rightarrow> nat" where
  "cache_len fs = length (ic_inodes (fs_inode_cache fs))"

text \<open>Device, layout and bitmaps fit together.\<close>

definition geometry_ok :: "bytes list \<Rightarrow> fs_layout \<Rightarrow> bitmap \<Rightarrow> bitmap \<Rightarrow> bool" where
  "geometry_ok bs l ibm dbm \<longleftrightarrow> length bs < 2 ^ 32 \<and> 0 < bm_len ibm \<and> bm_len ibm < 2 ^ 32 \<and>
     layout_new (length bs) (bm_len ibm) = Some (Some l) \<and> bm_ok ibm \<and> bm_ok dbm \<and> bm_len dbm = data_blocks l"

text \<open>The cache: it covers its dirty bits, and an i-node that is not dirty is the one on disk.\<close>

definition cache_ok :: "bytes list \<Rightarrow> fs_layout \<Rightarrow> nat \<Rightarrow> inode_cache \<Rightarrow> bool" where
  "cache_ok bs l n c \<longleftrightarrow> ic_layout c = Some l \<and> bm_ok (ic_dirty c) \<and> bm_len (ic_dirty c) = n \<and>
     (\<forall>i. unat i \<in> bm_bits (ic_dirty c) \<longrightarrow> cached c i \<noteq> None) \<and>
     (\<forall>i nd. cached c i = Some nd \<longrightarrow> unat i < n \<and> inode_wf nd \<and>
        (unat i \<notin> bm_bits (ic_dirty c) \<longrightarrow> disk_inode bs l i = nd))"

definition fs_ok :: "('d \<Rightarrow> bytes list) \<Rightarrow> ('d \<Rightarrow> bool) \<Rightarrow> 'd filesystem \<Rightarrow> bool" where
  "fs_ok B ok fs \<longleftrightarrow> ok (fs_device fs) \<and> list_all (\<lambda>b. length b = 512) (B (fs_device fs)) \<and>
     geometry_ok (B (fs_device fs)) (fs_lay fs) (fs_inode_bitmap fs) (fs_data_bitmap fs) \<and>
     cache_ok (B (fs_device fs)) (fs_lay fs) (inode_count fs) (fs_inode_cache fs)"

text \<open>Two states that differ at most in what the cache holds and which i-nodes are marked dirty.\<close>

definition same_view :: "('d \<Rightarrow> bytes list) \<Rightarrow> 'd filesystem \<Rightarrow> 'd filesystem \<Rightarrow> bool" where
  "same_view B fs fs' \<longleftrightarrow> B (fs_device fs') = B (fs_device fs) \<and> fs_lay fs' = fs_lay fs \<and>
     fs_inode_bitmap fs' = fs_inode_bitmap fs \<and> fs_data_bitmap fs' = fs_data_bitmap fs \<and>
     fs_dirty fs \<subseteq> fs_dirty fs' \<and> cache_len fs \<le> cache_len fs' \<and> (\<forall>i. unat i < inode_count fs \<longrightarrow> fs_node B fs' i = fs_node B fs i)"

lemma same_view_refl [simp]: "same_view B fs fs"
  by (simp add: same_view_def)

lemma same_view_trans: "same_view B a b \<Longrightarrow> same_view B b c \<Longrightarrow> same_view B a c"
  by (auto simp: same_view_def inode_count_def)

section \<open>Geometry\<close>

lemma geometry_layout:
  assumes "geometry_ok bs l ibm dbm"
  shows "layout_ok l (length bs) (bm_len ibm)"
  using assms layout_new_ok by (simp add: geometry_ok_def)

lemma geometry_bounds:
  assumes "geometry_ok bs l ibm dbm"
  shows "0 < inode_table_start l" and "data_start l + bm_len dbm = length bs"
    and "unat i < bm_len ibm \<Longrightarrow> inode_block_no l i < data_start l"
    and "data_start l < length bs" and "length bs < 2 ^ 32" and "0 < data_start l"
proof -
  have l: "layout_ok l (length bs) (bm_len ibm)" by (rule geometry_layout [OF assms])
  then show "0 < inode_table_start l" "data_start l < length bs" "0 < data_start l" by (simp_all add: layout_ok_def)
  show "data_start l + bm_len dbm = length bs" "length bs < 2 ^ 32"
    using assms l by (simp_all add: geometry_ok_def layout_ok_def)
  show "inode_block_no l i < data_start l" if i: "unat i < bm_len ibm"
  proof -
    have "unat i < inode_table_blocks l * 7" using i l by (simp add: layout_ok_def)
    then have "unat i div 7 < inode_table_blocks l" by (simp add: div_less_iff_less_mult)
    then show ?thesis using l by (simp add: layout_ok_def inode_block_no_def)
  qed
qed

lemma inode_offset_fits: "inode_offset i + 72 \<le> 512"
proof -
  have "unat i mod 7 \<le> 6" by (metis less_Suc_eq_le mod_less_divisor numeral_eq_Suc pred_numeral_simps(3) eval_nat_numeral(3) zero_less_numeral)
  then show ?thesis by (simp add: inode_offset_def)
qed

lemma inode_place_inj:
  "inode_block_no l i = inode_block_no l j \<Longrightarrow> inode_offset i = inode_offset j \<Longrightarrow> i = j"
  unfolding inode_block_no_def inode_offset_def by (metis add_left_cancel div_mult_mod_eq mult_right_cancel unat_inject zero_neq_numeral)

lemma inode_offset_apart:
  assumes "inode_offset i \<noteq> inode_offset j"
  shows "inode_offset i + 72 \<le> inode_offset j \<or> inode_offset j + 72 \<le> inode_offset i"
  using assms unfolding inode_offset_def by (cases "unat i mod 7 < unat j mod 7") auto

lemma inode_to_block_eq:
  assumes "geometry_ok bs l ibm dbm" and "unat i < bm_len ibm"
  shows "inode_to_block l i = Some (as_u32 (inode_block_no l i), inode_offset i)"
    and "unat (as_u32 (inode_block_no l i)) = inode_block_no l i"
proof -
  have lt: "inode_block_no l i < length bs" "length bs < 2 ^ 32"
    using geometry_bounds [OF assms(1)] assms(2) by (meson less_trans)+
  then have u: "unat (as_u32 (inode_table_start l)) = inode_table_start l"
    by (intro unat_as_u32) (simp add: inode_block_no_def)
  have d: "unat (i div 7) = unat i div 7" by (simp add: unat_div)
  have m: "unat (i mod 7 * 72) = inode_offset i"
  proof -
    have um: "unat (i mod 7) = unat i mod 7" by (simp add: unat_mod)
    have "unat (i mod 7) * unat (72 :: u32) < 2 ^ 32" using inode_offset_fits [of i] by (simp add: um inode_offset_def)
    then have "unat (i mod 7 * 72) = unat (i mod 7) * unat (72 :: u32)" by (subst unat_mult_lem [symmetric]) simp
    then show ?thesis by (simp add: um inode_offset_def)
  qed
  have "as_u32 (inode_table_start l) + i div 7 = as_u32 (inode_block_no l i)"
  proof -
    have "unat (as_u32 (inode_table_start l) + i div 7) = inode_block_no l i"
      using lt u d by (subst unat_add_lem [THEN iffD1]) (simp_all add: inode_block_no_def)
    then show ?thesis by (metis as_u32_unat)
  qed
  moreover have "unat (as_u32 (inode_table_start l)) + unat (i div 7) < 2 ^ 32"
    using lt u d by (simp add: inode_block_no_def)
  ultimately show "inode_to_block l i = Some (as_u32 (inode_block_no l i), inode_offset i)"
    by (simp add: inode_to_block_def add_u32_def m)
  show "unat (as_u32 (inode_block_no l i)) = inode_block_no l i" using lt by (intro unat_as_u32) simp
qed

section \<open>I-nodes on disk\<close>

lemma read_u32_Some:
  "p + 4 \<le> length buf \<Longrightarrow> \<exists>v. read_u32 (br_at buf p) = Some (v, br_at buf (p + 4))"
  by (simp add: read_u32_def br_at_def slice_def)

lemma read_blocks_Some:
  "p + 4 * n \<le> length buf \<Longrightarrow> \<exists>ds. read_blocks n (br_at buf p) = Some (ds, br_at buf (p + 4 * n)) \<and>
     length ds = n \<and> list_all (\<lambda>d. d \<noteq> Some 0) ds"
proof (induction n arbitrary: p)
  case (Suc n)
  obtain v where v: "read_u32 (br_at buf p) = Some (v, br_at buf (p + 4))" using Suc.prems read_u32_Some [of p buf] by auto
  obtain ds where "read_blocks n (br_at buf (p + 4)) = Some (ds, br_at buf (p + 4 + 4 * n))" "length ds = n"
    "list_all (\<lambda>d. d \<noteq> Some 0) ds" using Suc.IH [of "p + 4"] Suc.prems by auto
  then show ?case by (intro exI [of _ "from_raw_unchecked v # ds"]) (simp add: v from_raw_unchecked_def nonzero_u32_def ac_simps)
qed simp

lemma inode_read_from_Some:
  assumes "p + 69 \<le> length buf"
  shows "\<exists>nd r. inode_read_from (br_at buf p) = Some (nd, r) \<and> inode_wf nd"
proof -
  obtain v where v: "read_u32 (br_at buf p) = Some (v, br_at buf (p + 4))" using assms read_u32_Some [of p buf] by auto
  obtain ds where "read_blocks 16 (br_at buf (p + 4)) = Some (ds, br_at buf (p + 68))" "length ds = 16"
    "list_all (\<lambda>d. d \<noteq> Some 0) ds" using assms read_blocks_Some [of "p + 4" 16 buf] by (auto simp: add.commute)
  moreover have "\<exists>b. read_u8 (br_at buf (p + 68)) = Some (b, br_at buf (p + 69))"
    using assms by (simp add: read_u8_def br_at_def)
  ultimately show ?thesis using v by (auto simp: inode_read_from_def inode_wf_def)
qed

lemma disk_inode_read:
  assumes "length (bs ! inode_block_no l i) = 512"
  shows "\<exists>r. inode_read_from (br_at (bs ! inode_block_no l i) (inode_offset i)) = Some (disk_inode bs l i, r)"
    and "inode_wf (disk_inode bs l i)"
  using inode_read_from_Some [of "inode_offset i" "bs ! inode_block_no l i"] assms inode_offset_fits [of i]
  by (auto simp: disk_inode_def)

lemma read_u32_cong: "slice b p (p + 4) = slice b' p (p + 4) \<Longrightarrow> map_option fst (read_u32 (br_at b p)) = map_option fst (read_u32 (br_at b' p))"
  by (cases "slice b' p (p + 4)") (simp_all add: read_u32_def br_at_def)

text \<open>Decoding reads only the 69 bytes of the encoding.\<close>

lemma decoded_bytes:
  assumes "inode_read_from (br_at buf p) = Some (nd, r)" and "p + 69 \<le> length buf"
    and "\<And>k. p \<le> k \<Longrightarrow> k < p + 69 \<Longrightarrow> buf' ! k = buf ! k" and "length buf' = length buf"
  shows "\<exists>r'. inode_read_from (br_at buf' p) = Some (nd, r')"
proof -
  have u: "map_option fst (read_u32 (br_at buf' q)) = map_option fst (read_u32 (br_at buf q))"
    if "p \<le> q" "q + 4 \<le> p + 69" for q
    using that assms(3,4) by (intro read_u32_cong slice_cong) auto
  have u': "\<exists>v. read_u32 (br_at buf q) = Some (v, br_at buf (q + 4)) \<and> read_u32 (br_at buf' q) = Some (v, br_at buf' (q + 4))"
    if "p \<le> q" "q + 4 \<le> p + 69" for q
    using u [OF that] that read_u32_Some [of q buf] read_u32_Some [of q buf'] assms(2,4) by auto
  have b: "\<exists>ds. read_blocks n (br_at buf q) = Some (ds, br_at buf (q + 4 * n)) \<and>
      read_blocks n (br_at buf' q) = Some (ds, br_at buf' (q + 4 * n))"
    if "p \<le> q" "q + 4 * n \<le> p + 69" for q n
    using that
  proof (induction n arbitrary: q)
    case (Suc n)
    obtain v where "read_u32 (br_at buf q) = Some (v, br_at buf (q + 4))" "read_u32 (br_at buf' q) = Some (v, br_at buf' (q + 4))"
      using u' [of q] Suc.prems by auto
    moreover obtain ds where "read_blocks n (br_at buf (q + 4)) = Some (ds, br_at buf (q + 4 + 4 * n))"
      "read_blocks n (br_at buf' (q + 4)) = Some (ds, br_at buf' (q + 4 + 4 * n))"
      using Suc.IH [of "q + 4"] Suc.prems by auto
    ultimately show ?case by (simp add: ac_simps)
  qed simp
  obtain v where v: "read_u32 (br_at buf p) = Some (v, br_at buf (p + 4))" "read_u32 (br_at buf' p) = Some (v, br_at buf' (p + 4))"
    using u' [of p] by auto
  obtain ds where ds: "read_blocks 16 (br_at buf (p + 4)) = Some (ds, br_at buf (p + 68))"
    "read_blocks 16 (br_at buf' (p + 4)) = Some (ds, br_at buf' (p + 68))"
    using b [of "p + 4" 16] by (auto simp: add.commute)
  have "map_option fst (read_u8 (br_at buf' (p + 68))) = map_option fst (read_u8 (br_at buf (p + 68)))"
    using assms(2,3,4) by (simp add: read_u8_def br_at_def)
  moreover have "\<exists>x. read_u8 (br_at buf (p + 68)) = Some x" "\<exists>x. read_u8 (br_at buf' (p + 68)) = Some x"
    using assms(2,4) by (simp_all add: read_u8_def br_at_def)
  ultimately show ?thesis using assms(1) v ds by (auto simp: inode_read_from_def)
qed

lemma disk_inode_cong:
  assumes "bs' ! inode_block_no l i = bs ! inode_block_no l i"
  shows "disk_inode bs' l i = disk_inode bs l i"
  using assms by (simp add: disk_inode_def)

text \<open>Writing one i-node changes that i-node only.\<close>

lemma disk_inode_update:
  fixes bs l i
  defines "k \<equiv> inode_block_no l i"
  assumes "inode_wf nd" and "k < length bs" and "length (bs ! k) = 512"
  shows "disk_inode (bs[k := put_at (bs ! k) (inode_offset i) (inode_bytes nd)]) l j = (if j = i then nd else disk_inode bs l j)"
proof -
  let ?buf = "put_at (bs ! k) (inode_offset i) (inode_bytes nd)"
  have len: "length (inode_bytes nd) = 69" by (rule length_inode_bytes [OF assms(2)])
  have fit: "inode_offset i + 69 \<le> length (bs ! k)" using inode_offset_fits [of i] assms(4) by simp
  have lb: "length ?buf = length (bs ! k)" using fit len by simp
  show ?thesis
  proof (cases "inode_block_no l j = k")
    case False
    then show ?thesis by (auto simp: disk_inode_def k_def)
  next
    case True
    show ?thesis
    proof (cases "j = i")
      case True
      have "bytes_at ?buf (inode_offset i) (inode_bytes nd)" using fit len by (intro bytes_at_splice) simp
      from inode_read_from_at [OF assms(2) this] show ?thesis using True assms(3) by (simp add: disk_inode_def k_def)
    next
      case False
      then have "inode_offset i \<noteq> inode_offset j" using True inode_place_inj [of l i j] by (auto simp: k_def)
      then have apart: "inode_offset i + 72 \<le> inode_offset j \<or> inode_offset j + 72 \<le> inode_offset i"
        by (rule inode_offset_apart)
      obtain r where r: "inode_read_from (br_at (bs ! k) (inode_offset j)) = Some (disk_inode bs l j, r)"
        using disk_inode_read(1) [of bs l j] True assms(4) by auto
      have "\<exists>r'. inode_read_from (br_at ?buf (inode_offset j)) = Some (disk_inode bs l j, r')"
        using apart inode_offset_fits [of j] assms(4) fit len
        by (intro decoded_bytes [OF r]) (auto simp: nth_splice)
      then show ?thesis using True False assms(3) by (auto simp: disk_inode_def)
    qed
  qed
qed

section \<open>The cache\<close>

lemma cached_resize [simp]: "cached (resize_inodes c i) j = cached c j"
  by (auto simp: cached_def resize_inodes_def nth_append)

lemma length_resize: "unat i < length (ic_inodes (resize_inodes c i))"
  by (simp add: resize_inodes_def)

lemma length_resize_mono: "length (ic_inodes c) \<le> length (ic_inodes (resize_inodes c i))"
  by (simp add: resize_inodes_def)

lemma resize_fields [simp]: "ic_dirty (resize_inodes c i) = ic_dirty c" "ic_layout (resize_inodes c i) = ic_layout c"
  by (simp_all add: resize_inodes_def)

lemma cached_store:
  "unat i < length (ic_inodes c) \<Longrightarrow> cached (cache_store c i nd) j = (if j = i then Some nd else cached c j)"
  by (auto simp: cached_def cache_store_def nth_list_update)

lemma cache_store_fields [simp]: "ic_dirty (cache_store c i nd) = ic_dirty c" "ic_layout (cache_store c i nd) = ic_layout c"
  "length (ic_inodes (cache_store c i nd)) = length (ic_inodes c)"
  by (simp_all add: cache_store_def)

lemma cached_SomeD: "cached c i = Some nd \<Longrightarrow> unat i < length (ic_inodes c)"
  by (simp add: cached_def split: if_splits)

text \<open>Putting an i-node into the cache, clean if it is the one on disk.\<close>

lemma cache_ok_store:
  assumes "cache_ok bs l n c" and "unat i < length (ic_inodes c)" and "unat i < n" and "inode_wf nd"
    and "unat i \<in> bm_bits (ic_dirty c) \<or> disk_inode bs l i = nd"
  shows "cache_ok bs l n (cache_store c i nd)"
  using assms by (auto simp: cache_ok_def cached_store)

lemma cache_ok_resize: "cache_ok bs l n c \<Longrightarrow> cache_ok bs l n (resize_inodes c i)"
  by (simp add: cache_ok_def)

lemma cache_ok_mark:
  assumes "cache_ok bs l n c" and "cached c i \<noteq> None"
  shows "\<exists>dirty. bitmap_set (ic_dirty c) (unat i) = Some dirty \<and> cache_ok bs l n (c\<lparr>ic_dirty := dirty\<rparr>) \<and>
    bm_bits dirty = insert (unat i) (bm_bits (ic_dirty c))"
proof -
  have i: "bm_ok (ic_dirty c)" "unat i < bm_len (ic_dirty c)" using assms by (auto simp: cache_ok_def)
  from bitmap_set_Some [OF this] obtain dirty where d: "bitmap_set (ic_dirty c) (unat i) = Some dirty" "bm_ok dirty"
    "bm_len dirty = bm_len (ic_dirty c)" "bm_bits dirty = insert (unat i) (bm_bits (ic_dirty c))" by blast
  have "cached (c\<lparr>ic_dirty := dirty\<rparr>) j = cached c j" for j by (simp add: cached_def)
  then show ?thesis using assms d by (auto simp: cache_ok_def)
qed

lemma cache_ok_cong:
  assumes "cache_ok bs l n c" and "\<And>i. unat i < n \<Longrightarrow> disk_inode bs' l i = disk_inode bs l i"
  shows "cache_ok bs' l n c"
  using assms by (auto simp: cache_ok_def)

section \<open>Accesses\<close>

lemma fs_okD:
  assumes "fs_ok B ok fs"
  shows "ok (fs_device fs)" and "k < length (B (fs_device fs)) \<Longrightarrow> length (B (fs_device fs) ! k) = 512"
    and "geometry_ok (B (fs_device fs)) (fs_lay fs) (fs_inode_bitmap fs) (fs_data_bitmap fs)"
    and "cache_ok (B (fs_device fs)) (fs_lay fs) (inode_count fs) (fs_inode_cache fs)"
  using assms by (auto simp: fs_ok_def list_all_length)

lemma inode_block_in_range:
  assumes "fs_ok B ok fs" and "unat i < inode_count fs"
  shows "inode_block_no (fs_lay fs) i < length (B (fs_device fs))"
    and "length (B (fs_device fs) ! inode_block_no (fs_lay fs) i) = 512"
proof -
  show "inode_block_no (fs_lay fs) i < length (B (fs_device fs))"
    using geometry_bounds [OF fs_okD(3) [OF assms(1)]] assms(2) by (metis inode_count_def less_trans)
  then show "length (B (fs_device fs) ! inode_block_no (fs_lay fs) i) = 512" by (rule fs_okD(2) [OF assms(1)])
qed

lemma fs_node_wf:
  assumes "fs_ok B ok fs" and "unat i < inode_count fs"
  shows "inode_wf (fs_node B fs i)"
  using fs_okD(4) [OF assms(1)] disk_inode_read(2) inode_block_in_range(2) [OF assms]
  by (auto simp: fs_node_def cache_ok_def split: option.splits)

context block_device
begin

lemma modify_block_law:
  assumes "dev_ok d" and "unat b < length (blocks d)" and "f (blocks d ! unat b) = Some (buf, r)" and "length buf = 512"
  shows "\<exists>d'. modify_block D d b f = Some (r, d') \<and> dev_ok d' \<and> blocks d' = (blocks d)[unat b := buf]"
proof -
  from read_law [OF assms(1,2)] obtain d1 where d1: "read_block D d b = Some (blocks d ! unat b, d1)" "dev_ok d1"
    "blocks d1 = blocks d" by blast
  from write_law [OF d1(2), of b buf] assms(2,4) obtain d2 where "write_block D d1 b buf = Some d2" "dev_ok d2"
    "blocks d2 = (blocks d)[unat b := buf]" by (auto simp: d1(3))
  then show ?thesis using d1(1) assms(3) by (simp add: modify_block_def)
qed

lemma read_from_disk_law:
  assumes "fs_ok blocks dev_ok fs" and "unat i < inode_count fs" and "ic_layout c = Some (fs_lay fs)"
  shows "\<exists>d'. read_from_disk D c i (fs_device fs) = Some (disk_inode (blocks (fs_device fs)) (fs_lay fs) i, d') \<and>
    dev_ok d' \<and> blocks d' = blocks (fs_device fs)"
proof -
  note g = fs_okD [OF assms(1)]
  note at = inode_to_block_eq [OF g(3), of i, folded inode_count_def, OF assms(2)]
  note r = inode_block_in_range [OF assms(1,2)]
  from read_law [OF g(1), of "as_u32 (inode_block_no (fs_lay fs) i)"] r at(2) obtain d' where
    "read_block D (fs_device fs) (as_u32 (inode_block_no (fs_lay fs) i)) =
       Some (blocks (fs_device fs) ! inode_block_no (fs_lay fs) i, d')" "dev_ok d'" "blocks d' = blocks (fs_device fs)" by auto
  then show ?thesis using disk_inode_read(1) [OF r(2)] assms(3) at(1) by (auto simp: read_from_disk_def)
qed

lemma cache_get_law:
  assumes "fs_ok blocks dev_ok fs" and "unat i < inode_count fs"
  shows "\<exists>c' d'. cache_get D (fs_inode_cache fs) i (fs_device fs) = Some (fs_node blocks fs i, c', d') \<and>
    dev_ok d' \<and> blocks d' = blocks (fs_device fs) \<and> ic_dirty c' = ic_dirty (fs_inode_cache fs) \<and> cache_len fs \<le> length (ic_inodes c') \<and>
    cached c' i = Some (fs_node blocks fs i) \<and> (\<forall>j. j \<noteq> i \<longrightarrow> cached c' j = cached (fs_inode_cache fs) j) \<and>
    cache_ok (blocks (fs_device fs)) (fs_lay fs) (inode_count fs) c'"
proof -
  let ?c = "resize_inodes (fs_inode_cache fs) i"
  note g = fs_okD [OF assms(1)]
  have ok: "cache_ok (blocks (fs_device fs)) (fs_lay fs) (inode_count fs) ?c" by (rule cache_ok_resize [OF g(4)])
  have at: "ic_inodes ?c ! unat i = cached (fs_inode_cache fs) i"
    using cached_resize [of "fs_inode_cache fs" i i] length_resize [of i "fs_inode_cache fs"] by (simp add: cached_def)
  show ?thesis
  proof (cases "cached (fs_inode_cache fs) i")
    case (Some nd)
    then have "cache_get D (fs_inode_cache fs) i (fs_device fs) = Some (fs_node blocks fs i, ?c, fs_device fs)"
      by (simp add: cache_get_def at fs_node_def Let_def)
    then show ?thesis using Some ok g(1) length_resize_mono by (auto simp: fs_node_def cache_len_def)
  next
    case None
    then have node: "fs_node blocks fs i = disk_inode (blocks (fs_device fs)) (fs_lay fs) i" by (simp add: fs_node_def)
    have lay: "ic_layout ?c = Some (fs_lay fs)" using g(4) by (simp add: cache_ok_def)
    from read_from_disk_law [OF assms lay] obtain d' where
      d': "read_from_disk D ?c i (fs_device fs) = Some (fs_node blocks fs i, d')" "dev_ok d'" "blocks d' = blocks (fs_device fs)"
      by (auto simp: node)
    have "cache_ok (blocks (fs_device fs)) (fs_lay fs) (inode_count fs) (cache_store ?c i (fs_node blocks fs i))"
      using ok length_resize assms(2) fs_node_wf [OF assms] by (rule cache_ok_store) (simp add: node)
    then show ?thesis using d' length_resize [of i "fs_inode_cache fs"] length_resize_mono [of "fs_inode_cache fs" i]
      by (simp add: cache_get_def at None Let_def cached_store cache_len_def)
  qed
qed

text \<open>Both look-ups return the i-node of the view and keep the view; the mutable one marks it dirty.\<close>

lemma lookup_inode_law:
  assumes "fs_ok blocks dev_ok fs" and "unat i < inode_count fs"
  shows "\<exists>fs'. lookup_inode D fs i = Some (fs_node blocks fs i, fs') \<and> fs_ok blocks dev_ok fs' \<and> same_view blocks fs fs' \<and>
    fs_dirty fs' = fs_dirty fs \<and> unat i < cache_len fs'"
proof -
  from cache_get_law [OF assms] obtain c' d' where
    get: "cache_get D (fs_inode_cache fs) i (fs_device fs) = Some (fs_node blocks fs i, c', d')"
    and d': "dev_ok d'" "blocks d' = blocks (fs_device fs)" and dirty: "ic_dirty c' = ic_dirty (fs_inode_cache fs)" "cache_len fs \<le> length (ic_inodes c')"
    and c': "cached c' i = Some (fs_node blocks fs i)" "\<forall>j. j \<noteq> i \<longrightarrow> cached c' j = cached (fs_inode_cache fs) j"
    "cache_ok (blocks (fs_device fs)) (fs_lay fs) (inode_count fs) c'" by blast
  let ?fs = "fs\<lparr>fs_inode_cache := c', fs_device := d'\<rparr>"
  have "fs_node blocks ?fs j = fs_node blocks fs j" for j
    using c' by (cases "j = i") (auto simp: fs_node_def d'(2) split: option.splits)
  then have "fs_ok blocks dev_ok ?fs" "same_view blocks fs ?fs" "fs_dirty ?fs = fs_dirty fs" "unat i < cache_len ?fs"
    using assms(1) d' c'(3) dirty cached_SomeD [OF c'(1)]
    by (auto simp: fs_ok_def same_view_def fs_dirty_def inode_count_def cache_len_def)
  then show ?thesis using get by (simp add: lookup_inode_def)
qed

lemma lookup_inode_mut_law:
  assumes "fs_ok blocks dev_ok fs" and "unat i < inode_count fs"
  shows "\<exists>fs'. lookup_inode_mut D fs i = Some (fs_node blocks fs i, fs') \<and> fs_ok blocks dev_ok fs' \<and> same_view blocks fs fs' \<and>
    fs_dirty fs' = insert (unat i) (fs_dirty fs) \<and> unat i < cache_len fs'"
proof -
  from cache_get_law [OF assms] obtain c' d' where
    get: "cache_get D (fs_inode_cache fs) i (fs_device fs) = Some (fs_node blocks fs i, c', d')"
    and d': "dev_ok d'" "blocks d' = blocks (fs_device fs)" and dirty: "ic_dirty c' = ic_dirty (fs_inode_cache fs)" "cache_len fs \<le> length (ic_inodes c')"
    and c': "cached c' i = Some (fs_node blocks fs i)" "\<forall>j. j \<noteq> i \<longrightarrow> cached c' j = cached (fs_inode_cache fs) j"
    "cache_ok (blocks (fs_device fs)) (fs_lay fs) (inode_count fs) c'" by blast
  from cache_ok_mark [OF c'(3), of i] c'(1) obtain m where m: "bitmap_set (ic_dirty c') (unat i) = Some m"
    "cache_ok (blocks (fs_device fs)) (fs_lay fs) (inode_count fs) (c'\<lparr>ic_dirty := m\<rparr>)"
    "bm_bits m = insert (unat i) (bm_bits (ic_dirty c'))" by auto
  let ?fs = "fs\<lparr>fs_inode_cache := c'\<lparr>ic_dirty := m\<rparr>, fs_device := d'\<rparr>"
  have "cached (c'\<lparr>ic_dirty := m\<rparr>) j = cached c' j" for j by (simp add: cached_def)
  then have "fs_node blocks ?fs j = fs_node blocks fs j" for j
    using c' by (cases "j = i") (auto simp: fs_node_def d'(2) split: option.splits)
  then have "fs_ok blocks dev_ok ?fs" "same_view blocks fs ?fs" "fs_dirty ?fs = insert (unat i) (fs_dirty fs)" "unat i < cache_len ?fs"
    using assms(1) d' m(2,3) dirty cached_SomeD [OF c'(1)]
    by (auto simp: fs_ok_def same_view_def fs_dirty_def inode_count_def cache_len_def)
  then show ?thesis using get m(1) by (simp add: lookup_inode_mut_def cache_get_mut_def)
qed

end

text \<open>Storing through the mutable reference.\<close>

lemma store_inode_law:
  assumes "fs_ok B ok fs" and "unat i \<in> fs_dirty fs" and "inode_wf nd"
  shows "fs_ok B ok (store_inode fs i nd)" and "fs_node B (store_inode fs i nd) j = (if j = i then nd else fs_node B fs j)"
proof -
  note c = fs_okD(4) [OF assms(1)]
  from assms(2) c have i: "cached (fs_inode_cache fs) i \<noteq> None" by (auto simp: cache_ok_def fs_dirty_def)
  then have len: "unat i < length (ic_inodes (fs_inode_cache fs))" "unat i < inode_count fs"
    using c by (auto dest: cached_SomeD simp: cache_ok_def)
  have "cache_ok (B (fs_device fs)) (fs_lay fs) (inode_count fs) (cache_store (fs_inode_cache fs) i nd)"
    using c len assms(3) by (rule cache_ok_store) (use assms(2) in \<open>simp add: fs_dirty_def\<close>)
  then show "fs_ok B ok (store_inode fs i nd)" using assms(1) by (simp add: fs_ok_def store_inode_def inode_count_def)
  show "fs_node B (store_inode fs i nd) j = (if j = i then nd else fs_node B fs j)"
    using len by (auto simp: fs_node_def store_inode_def cached_store split: option.splits)
qed

lemma store_inode_fields [simp]:
  "fs_device (store_inode fs i nd) = fs_device fs" "fs_inode_bitmap (store_inode fs i nd) = fs_inode_bitmap fs"
  "fs_data_bitmap (store_inode fs i nd) = fs_data_bitmap fs" "fs_lay (store_inode fs i nd) = fs_lay fs"
  "fs_dirty (store_inode fs i nd) = fs_dirty fs" "inode_count (store_inode fs i nd) = inode_count fs"
  "cache_len (store_inode fs i nd) = cache_len fs"
  by (simp_all add: store_inode_def fs_dirty_def inode_count_def cache_len_def)

section \<open>Writes to the device\<close>

lemma fs_ok_device:
  assumes "fs_ok B ok fs" and "ok d" and "length (B d) = length (B (fs_device fs))"
    and "\<And>k. k < length (B d) \<Longrightarrow> length (B d ! k) = 512"
    and "\<And>i. unat i < inode_count fs \<Longrightarrow> disk_inode (B d) (fs_lay fs) i = disk_inode (B (fs_device fs)) (fs_lay fs) i"
  shows "fs_ok B ok (fs\<lparr>fs_device := d\<rparr>)"
    and "unat i < inode_count fs \<Longrightarrow> fs_node B (fs\<lparr>fs_device := d\<rparr>) i = fs_node B fs i"
proof -
  have "geometry_ok (B d) (fs_lay fs) (fs_inode_bitmap fs) (fs_data_bitmap fs)"
    using fs_okD(3) [OF assms(1)] assms(3) by (simp add: geometry_ok_def)
  moreover have "cache_ok (B d) (fs_lay fs) (inode_count fs) (fs_inode_cache fs)"
    using fs_okD(4) [OF assms(1)] assms(5) by (rule cache_ok_cong)
  ultimately show "fs_ok B ok (fs\<lparr>fs_device := d\<rparr>)"
    using assms(2,4) by (simp add: fs_ok_def inode_count_def list_all_length)
  show "unat i < inode_count fs \<Longrightarrow> fs_node B (fs\<lparr>fs_device := d\<rparr>) i = fs_node B fs i"
    using assms(5) by (auto simp: fs_node_def split: option.splits)
qed

lemma fs_ok_data_bitmap:
  assumes "fs_ok B ok fs" and "bm_ok dbm" and "bm_len dbm = bm_len (fs_data_bitmap fs)"
  shows "fs_ok B ok (fs\<lparr>fs_data_bitmap := dbm\<rparr>)"
  using assms by (simp add: fs_ok_def geometry_ok_def inode_count_def)

lemma fs_node_data_bitmap [simp]: "fs_node B (fs\<lparr>fs_data_bitmap := dbm\<rparr>) i = fs_node B fs i"
  by (simp add: fs_node_def split: option.splits)

lemma fs_node_inode_bitmap [simp]: "fs_node B (fs\<lparr>fs_inode_bitmap := ibm\<rparr>) i = fs_node B fs i"
  by (simp add: fs_node_def split: option.splits)

lemma fs_dirty_update [simp]:
  "fs_dirty (fs\<lparr>fs_device := d\<rparr>) = fs_dirty fs" "fs_dirty (fs\<lparr>fs_data_bitmap := dbm\<rparr>) = fs_dirty fs"
  "fs_dirty (fs\<lparr>fs_inode_bitmap := ibm\<rparr>) = fs_dirty fs"
  by (simp_all add: fs_dirty_def)

lemma inode_count_update [simp]:
  "inode_count (fs\<lparr>fs_device := d\<rparr>) = inode_count fs" "inode_count (fs\<lparr>fs_data_bitmap := dbm\<rparr>) = inode_count fs"
  "inode_count (fs\<lparr>fs_inode_cache := c\<rparr>) = inode_count fs" "inode_count (fs\<lparr>fs_inode_bitmap := ibm\<rparr>) = bm_len ibm"
  by (simp_all add: inode_count_def)

lemma cache_len_update [simp]:
  "cache_len (fs\<lparr>fs_device := d\<rparr>) = cache_len fs" "cache_len (fs\<lparr>fs_data_bitmap := dbm\<rparr>) = cache_len fs"
  "cache_len (fs\<lparr>fs_inode_bitmap := ibm\<rparr>) = cache_len fs"
  by (simp_all add: cache_len_def)

context block_device
begin

text \<open>A write to a data block leaves every i-node alone.\<close>

lemma data_block_law:
  assumes "fs_ok blocks dev_ok fs" and "data_start (fs_lay fs) \<le> unat b" and "unat b < length (blocks (fs_device fs))"
    and "f (blocks (fs_device fs) ! unat b) = Some (buf, r)" and "length buf = 512"
  shows "\<exists>d'. modify_block D (fs_device fs) b f = Some (r, d') \<and> blocks d' = (blocks (fs_device fs))[unat b := buf] \<and>
    fs_ok blocks dev_ok (fs\<lparr>fs_device := d'\<rparr>) \<and>
    (\<forall>i. unat i < inode_count fs \<longrightarrow> fs_node blocks (fs\<lparr>fs_device := d'\<rparr>) i = fs_node blocks fs i)"
proof -
  note g = fs_okD [OF assms(1)]
  from modify_block_law [OF g(1) assms(3), of f, OF assms(4,5)] obtain d' where d': "modify_block D (fs_device fs) b f = Some (r, d')"
    "dev_ok d'" "blocks d' = (blocks (fs_device fs))[unat b := buf]" by blast
  have "disk_inode (blocks d') (fs_lay fs) i = disk_inode (blocks (fs_device fs)) (fs_lay fs) i" if "unat i < inode_count fs" for i
    using geometry_bounds(3) [OF g(3), of i] that assms(2) by (intro disk_inode_cong) (simp add: d'(3) inode_count_def)
  note dev = fs_ok_device [OF assms(1) d'(2) _ block_length [OF d'(2)] this]
  have "length (blocks d') = length (blocks (fs_device fs))" by (simp add: d'(3))
  then show ?thesis using dev d' by blast
qed

lemma write_inode_to_disk_law:
  assumes "dev_ok (fs_device fs)" and "geometry_ok (blocks (fs_device fs)) (fs_lay fs) ibm dbm"
    and "unat i < bm_len ibm" and "inode_wf nd"
  shows "\<exists>d'. write_inode_to_disk D fs i nd = Some (fs\<lparr>fs_device := d'\<rparr>) \<and> dev_ok d' \<and>
    blocks d' = (let bs = blocks (fs_device fs); k = inode_block_no (fs_lay fs) i
                 in bs[k := put_at (bs ! k) (inode_offset i) (inode_bytes nd)])"
proof -
  let ?bs = "blocks (fs_device fs)" and ?k = "inode_block_no (fs_lay fs) i"
  note at = inode_to_block_eq [OF assms(2,3)]
  have k: "?k < length ?bs" using geometry_bounds(3,4) [OF assms(2)] assms(3) by (meson less_trans)
  have len: "length (?bs ! ?k) = 512" by (rule block_length [OF assms(1) k])
  have "write_inode_at nd (inode_offset i) (?bs ! ?k) = Some (put_at (?bs ! ?k) (inode_offset i) (inode_bytes nd), ())"
    using inode_write_to_splice [OF assms(4), of "inode_offset i" "?bs ! ?k"] len inode_offset_fits [of i]
    by (simp add: write_inode_at_def)
  moreover have "length (put_at (?bs ! ?k) (inode_offset i) (inode_bytes nd)) = 512"
    using len inode_offset_fits [of i] length_inode_bytes [OF assms(4)] by simp
  ultimately have "\<exists>d'. modify_block D (fs_device fs) (as_u32 ?k) (write_inode_at nd (inode_offset i)) = Some ((), d') \<and>
      dev_ok d' \<and> blocks d' = ?bs[?k := put_at (?bs ! ?k) (inode_offset i) (inode_bytes nd)]"
    using modify_block_law [OF assms(1), of "as_u32 ?k"] k by (simp add: at(2))
  then show ?thesis unfolding Let_def by (auto simp: write_inode_to_disk_def at(1))
qed

text \<open>A new i-node takes the least free index; everything else keeps its view, and no data block changes.\<close>

lemma new_inode_law:
  assumes "fs_ok blocks dev_ok fs" and "inode_wf nd"
  shows "bitmap_find_free (fs_inode_bitmap fs) = None \<Longrightarrow> new_inode D fs nd = Some (None, fs)"
    and "bitmap_find_free (fs_inode_bitmap fs) = Some k \<Longrightarrow>
      \<exists>fs'. new_inode D fs nd = Some (Some (as_u32 k), fs') \<and> fs_ok blocks dev_ok fs' \<and>
        unat (as_u32 k) = k \<and> k < inode_count fs \<and> k \<notin> bm_bits (fs_inode_bitmap fs) \<and>
        bm_bits (fs_inode_bitmap fs') = insert k (bm_bits (fs_inode_bitmap fs)) \<and> inode_count fs' = inode_count fs \<and>
        fs_data_bitmap fs' = fs_data_bitmap fs \<and> fs_lay fs' = fs_lay fs \<and> fs_dirty fs' = fs_dirty fs \<and>
        length (blocks (fs_device fs')) = length (blocks (fs_device fs)) \<and>
        (\<forall>b \<ge> data_start (fs_lay fs). blocks (fs_device fs') ! b = blocks (fs_device fs) ! b) \<and>
        (\<forall>j. unat j < inode_count fs \<longrightarrow> fs_node blocks fs' j = (if j = as_u32 k then nd else fs_node blocks fs j))"
proof -
  show "bitmap_find_free (fs_inode_bitmap fs) = None \<Longrightarrow> new_inode D fs nd = Some (None, fs)" by (simp add: new_inode_def)
  assume free: "bitmap_find_free (fs_inode_bitmap fs) = Some k"
  note g = fs_okD [OF assms(1)]
  have ibm: "bm_ok (fs_inode_bitmap fs)" and n: "inode_count fs < 2 ^ 32" using g(3) by (simp_all add: geometry_ok_def inode_count_def)
  note f = bitmap_find_free_Some [OF ibm free]
  have k: "k < inode_count fs" "unat (as_u32 k) = k" using f(1) n by (simp_all add: inode_count_def unat_as_u32)
  from bitmap_set_Some [OF ibm f(1)] obtain ibm' where ibm': "bitmap_set (fs_inode_bitmap fs) k = Some ibm'" "bm_ok ibm'"
    "bm_len ibm' = bm_len (fs_inode_bitmap fs)" "bm_bits ibm' = insert k (bm_bits (fs_inode_bitmap fs))" by blast
  let ?i = "as_u32 k" and ?bs = "blocks (fs_device fs)" and ?b = "inode_block_no (fs_lay fs) (as_u32 k)"
  have g': "geometry_ok ?bs (fs_lay fs) ibm' (fs_data_bitmap fs)" using g(3) ibm' by (simp add: geometry_ok_def)
  from write_inode_to_disk_law [of "fs\<lparr>fs_inode_bitmap := ibm'\<rparr>" ibm' "fs_data_bitmap fs" ?i nd] g(1) g' k ibm'(3) assms(2)
  obtain d' where d': "write_inode_to_disk D (fs\<lparr>fs_inode_bitmap := ibm'\<rparr>) ?i nd = Some (fs\<lparr>fs_inode_bitmap := ibm', fs_device := d'\<rparr>)"
    "dev_ok d'" "blocks d' = ?bs[?b := put_at (?bs ! ?b) (inode_offset ?i) (inode_bytes nd)]"
    by (auto simp: Let_def inode_count_def)
  note r = inode_block_in_range [OF assms(1), of ?i, unfolded k(2), OF k(1)]
  have disk: "disk_inode (blocks d') (fs_lay fs) j = (if j = ?i then nd else disk_inode ?bs (fs_lay fs) j)" for j
    unfolding d'(3) by (rule disk_inode_update [OF assms(2) r])
  let ?c = "register_new_inode (fs_inode_cache fs) ?i nd"
  let ?fs = "fs\<lparr>fs_inode_bitmap := ibm', fs_device := d', fs_inode_cache := ?c\<rparr>"
  have c: "cached ?c j = (if j = ?i then Some nd else cached (fs_inode_cache fs) j)" for j
    by (simp add: register_new_inode_def cached_store length_resize)
  have dirty: "ic_dirty ?c = ic_dirty (fs_inode_cache fs)" "ic_layout ?c = ic_layout (fs_inode_cache fs)"
    by (simp_all add: register_new_inode_def)
  have "cache_ok (blocks d') (fs_lay fs) (inode_count fs) ?c"
    using g(4) k assms(2) unfolding cache_ok_def dirty c disk by auto
  moreover have "length (b :: bytes) = 512" if "b \<in> set (blocks d')" for b using block_size [OF d'(2) that] .
  ultimately have ok: "fs_ok blocks dev_ok ?fs"
    using d'(2) g' ibm'(3) by (auto simp: fs_ok_def list_all_iff d'(3) geometry_ok_def inode_count_def)
  have node: "fs_node blocks ?fs j = (if j = ?i then nd else fs_node blocks fs j)" for j
    using c [of j] disk [of j] by (auto simp: fs_node_def split: option.splits)
  have "try_into_u32 k = Some ?i" using k n by (simp add: try_into_u32_def as_u32_def)
  then have run: "new_inode D fs nd = Some (Some ?i, ?fs)"
    using free ibm'(1) d'(1) k(2) by (simp add: new_inode_def)
  have "blocks d' ! b = ?bs ! b" if "data_start (fs_lay fs) \<le> b" for b
    using geometry_bounds(3) [OF g(3), of ?i] k that by (simp add: d'(3) inode_count_def)
  then show "\<exists>fs'. new_inode D fs nd = Some (Some (as_u32 k), fs') \<and> fs_ok blocks dev_ok fs' \<and>
        unat (as_u32 k) = k \<and> k < inode_count fs \<and> k \<notin> bm_bits (fs_inode_bitmap fs) \<and>
        bm_bits (fs_inode_bitmap fs') = insert k (bm_bits (fs_inode_bitmap fs)) \<and> inode_count fs' = inode_count fs \<and>
        fs_data_bitmap fs' = fs_data_bitmap fs \<and> fs_lay fs' = fs_lay fs \<and> fs_dirty fs' = fs_dirty fs \<and>
        length (blocks (fs_device fs')) = length (blocks (fs_device fs)) \<and>
        (\<forall>b \<ge> data_start (fs_lay fs). blocks (fs_device fs') ! b = blocks (fs_device fs) ! b) \<and>
        (\<forall>j. unat j < inode_count fs \<longrightarrow> fs_node blocks fs' j = (if j = as_u32 k then nd else fs_node blocks fs j))"
    using run ok k f(2) ibm' node dirty(1) by (intro exI [of _ ?fs]) (simp add: d'(3) inode_count_def fs_dirty_def)
qed

end

end
