(* ===== verification/FS_Model.thy ===== *)
theory FS_Model
  imports FS_State
begin

text \<open>
  The abstract filesystem that the code implements: a finite map from i-node indices to files, which
  are byte strings, and directories, which are lists of names with indices. \<open>fs_abs\<close> reads it off a
  concrete state; \<open>fs_inv\<close> is the invariant under which the operations act on it.
\<close>

section \<open>The abstract filesystem\<close>

datatype fnode = File bytes | Dir "(bytes \<times> inode_index) list"

type_synonym afs = "inode_index \<Rightarrow> fnode option"

definition entries_of :: "afs \<Rightarrow> inode_index \<Rightarrow> (bytes \<times> inode_index) list" where
  "entries_of a i = (case a i of Some (Dir es) \<Rightarrow> es | _ \<Rightarrow> [])"

definition is_dir :: "afs \<Rightarrow> inode_index \<Rightarrow> bool" where
  "is_dir a i = (case a i of Some (Dir _) \<Rightarrow> True | _ \<Rightarrow> False)"

fun spec_walk :: "afs \<Rightarrow> inode_index \<Rightarrow> bytes list \<Rightarrow> fs_error + inode_index" where
  "spec_walk a i [] = Inr i"
| "spec_walk a i (p # ps) =
     (case map_of (entries_of a i) p of
        None \<Rightarrow> Inl NotFound
      | Some j \<Rightarrow> if is_dir a j then spec_walk a j ps else Inl NotADirectory)"

text \<open>The parent directory and the index of a path.\<close>

definition spec_resolve :: "afs \<Rightarrow> bytes \<Rightarrow> fs_error + (inode_index \<times> bytes \<times> inode_index)" where
  "spec_resolve a path =
     (let (dir, basename) = (case rsplit_once SLASH path of Some p \<Rightarrow> p | None \<Rightarrow> (path, path))
      in and_then (spec_walk a 0 (path_parts dir)) (\<lambda>parent.
           case map_of (entries_of a parent) basename of
             None \<Rightarrow> Inl NotFound
           | Some i \<Rightarrow> Inr (parent, basename, i)))"

text \<open>A name that a directory entry stores without loss.\<close>

definition proper_name :: "bytes \<Rightarrow> bool" where
  "proper_name nm \<longleftrightarrow> nm \<noteq> [] \<and> length nm \<le> 24 \<and> valid_utf8 nm \<and> 0 \<notin> set nm \<and> SLASH \<notin> set nm"

text \<open>
  Well-formed trees: the root is a directory; a directory starts with itself and its parent, its
  names are distinct and its entries lead to nodes; a file has one entry.
\<close>

definition dir_wf :: "afs \<Rightarrow> inode_index \<Rightarrow> (bytes \<times> inode_index) list \<Rightarrow> bool" where
  "dir_wf a i es \<longleftrightarrow> distinct (map fst es) \<and> (\<forall>(nm, j) \<in> set es. proper_name nm \<and> a j \<noteq> None) \<and>
     (\<exists>p es'. es = (DOT, i) # (DOTDOT, p) # es' \<and> is_dir a p)"

definition afs_ok :: "afs \<Rightarrow> bool" where
  "afs_ok a \<longleftrightarrow> is_dir a 0 \<and> (\<forall>i es. a i = Some (Dir es) \<longrightarrow> dir_wf a i es) \<and>
     (\<forall>i j p q. is_dir a i \<longrightarrow> is_dir a j \<longrightarrow> p < length (entries_of a i) \<longrightarrow> q < length (entries_of a j) \<longrightarrow>
        snd (entries_of a i ! p) = snd (entries_of a j ! q) \<longrightarrow> \<not> is_dir a (snd (entries_of a i ! p)) \<longrightarrow> i = j \<and> p = q)"

lemma spec_walk_dir: "is_dir a i \<Longrightarrow> spec_walk a i ps = Inr j \<Longrightarrow> is_dir a j"
  by (induction a i ps rule: spec_walk.induct) (auto split: option.splits if_splits)

section \<open>Reading it off a concrete state\<close>

definition entry_at :: "bytes \<Rightarrow> nat \<Rightarrow> dir_entry" where
  "entry_at buf k = the (read_dir_entry_at buf (k * 28))"

definition dir_entries :: "bytes list \<Rightarrow> inode \<Rightarrow> dir_entry list" where
  "dir_entries bs nd =
     (case in_blocks nd ! 0 of
        None \<Rightarrow> []
      | Some b \<Rightarrow> map (entry_at (bs ! unat b)) [0..<unat (in_size nd) div 28])"

definition file_bytes :: "bytes list \<Rightarrow> inode \<Rightarrow> bytes" where
  "file_bytes bs nd = take (unat (in_size nd)) (concat (map (\<lambda>d. bs ! unat (the d)) (used_blocks nd)))"

definition entry_pair :: "dir_entry \<Rightarrow> bytes \<times> inode_index" where
  "entry_pair e = (de_name e, de_inode e)"

definition node_view :: "bytes list \<Rightarrow> inode \<Rightarrow> fnode" where
  "node_view bs nd = (if in_is_directory nd then Dir (map entry_pair (dir_entries bs nd)) else File (file_bytes bs nd))"

definition fs_alloc :: "'d filesystem \<Rightarrow> inode_index set" where
  "fs_alloc fs = {i. unat i \<in> bm_bits (fs_inode_bitmap fs)}"

definition fs_abs :: "('d \<Rightarrow> bytes list) \<Rightarrow> 'd filesystem \<Rightarrow> afs" where
  "fs_abs B fs = (\<lambda>i. if i \<in> fs_alloc fs then Some (node_view (B (fs_device fs)) (fs_node B fs i)) else None)"

text \<open>The device blocks of an i-node, and the data blocks that the bitmap has given out.\<close>

definition node_blocks :: "inode \<Rightarrow> nat set" where
  "node_blocks nd = {unat b |b. Some b \<in> set (in_blocks nd)}"

definition taken_blocks :: "'d filesystem \<Rightarrow> nat set" where
  "taken_blocks fs = {data_start (fs_lay fs) + k |k. k \<in> bm_bits (fs_data_bitmap fs)}"

text \<open>
  The shape of an i-node: the slots that its size needs are filled, with distinct blocks. A directory
  never leaves its first block.
\<close>

definition node_shape :: "inode \<Rightarrow> bool" where
  "node_shape nd \<longleftrightarrow> inode_wf nd \<and> unat (in_size nd) \<le> 8192 \<and> distinct (used_blocks nd) \<and>
     (\<forall>k < 16. in_blocks nd ! k \<noteq> None \<longleftrightarrow> 512 * k < unat (in_size nd))"

definition node_ok :: "inode \<Rightarrow> bool" where
  "node_ok nd \<longleftrightarrow> node_shape nd \<and>
     (in_is_directory nd \<longrightarrow> 28 dvd unat (in_size nd) \<and> unat (in_size nd) \<le> 504)"

definition fs_struct :: "('d \<Rightarrow> bytes list) \<Rightarrow> ('d \<Rightarrow> bool) \<Rightarrow> 'd filesystem \<Rightarrow> bool" where
  "fs_struct B ok fs \<longleftrightarrow> fs_ok B ok fs \<and>
     (\<forall>i \<in> fs_alloc fs. node_ok (fs_node B fs i) \<and> node_blocks (fs_node B fs i) \<subseteq> taken_blocks fs) \<and>
     (\<forall>i \<in> fs_alloc fs. \<forall>j \<in> fs_alloc fs. i \<noteq> j \<longrightarrow> node_blocks (fs_node B fs i) \<inter> node_blocks (fs_node B fs j) = {}) \<and>
     taken_blocks fs \<subseteq> (\<Union>i \<in> fs_alloc fs. node_blocks (fs_node B fs i))"

definition fs_inv :: "('d \<Rightarrow> bytes list) \<Rightarrow> ('d \<Rightarrow> bool) \<Rightarrow> 'd filesystem \<Rightarrow> bool" where
  "fs_inv B ok fs \<longleftrightarrow> fs_struct B ok fs \<and> afs_ok (fs_abs B fs)"

section \<open>Nodes\<close>

lemma filter_prefix:
  assumes "\<And>k. k < length xs \<Longrightarrow> P (xs ! k) \<longleftrightarrow> k < m"
  shows "filter P xs = take m xs"
  using assms
proof (induction xs arbitrary: m)
  case (Cons x xs)
  show ?case
  proof (cases m)
    case 0
    then have "\<not> P y" if "y \<in> set (x # xs)" for y using that Cons.prems by (metis in_set_conv_nth not_less_zero)
    then show ?thesis using 0 by (simp add: filter_empty_conv)
  next
    case (Suc m')
    have "filter P xs = take m' xs" by (rule Cons.IH) (use Cons.prems [of "Suc _"] Suc in auto)
    then show ?thesis using Cons.prems [of 0] Suc by simp
  qed
qed simp

lemma node_shapeD:
  assumes "node_shape nd"
  shows "inode_wf nd" and "length (in_blocks nd) = 16" and "unat (in_size nd) \<le> 8192"
    and "k < 16 \<Longrightarrow> in_blocks nd ! k \<noteq> None \<longleftrightarrow> 512 * k < unat (in_size nd)"
    and "distinct (used_blocks nd)"
  using assms by (auto simp: node_shape_def inode_wf_def)

lemma node_okD:
  assumes "node_ok nd"
  shows "node_shape nd" and "in_is_directory nd \<Longrightarrow> 28 dvd unat (in_size nd) \<and> unat (in_size nd) \<le> 504"
  using assms by (auto simp: node_ok_def)

lemma used_blocks_take:
  assumes "node_shape nd"
  shows "used_blocks nd = take (div_ceil (unat (in_size nd)) 512) (in_blocks nd)"
  unfolding used_blocks_def
proof (rule filter_prefix)
  fix k assume "k < length (in_blocks nd)"
  then show "\<not> index_is_empty (in_blocks nd ! k) \<longleftrightarrow> k < div_ceil (unat (in_size nd)) 512"
    using node_shapeD(2,4) [OF assms] by (simp add: index_is_empty_def div_ceil_less_iff mult.commute)
qed

lemma used_blocks_Some: "d \<in> set (used_blocks nd) \<Longrightarrow> d \<noteq> None \<and> d \<in> set (in_blocks nd)"
  by (auto simp: used_blocks_def index_is_empty_def)

lemma node_blocks_used: "node_blocks nd = (\<lambda>d. unat (the d)) ` set (used_blocks nd)"
  by (force simp: node_blocks_def used_blocks_def index_is_empty_def)

lemma in_node_blocks: "k < length (in_blocks nd) \<Longrightarrow> in_blocks nd ! k = Some b \<Longrightarrow> unat b \<in> node_blocks nd"
  unfolding node_blocks_def by (metis (mono_tags, lifting) mem_Collect_eq nth_mem)

lemma file_bytes_cong:
  assumes "\<And>b. b \<in> node_blocks nd \<Longrightarrow> bs' ! b = bs ! b"
  shows "file_bytes bs' nd = file_bytes bs nd"
proof -
  have "map (\<lambda>d. bs' ! unat (the d)) (used_blocks nd) = map (\<lambda>d. bs ! unat (the d)) (used_blocks nd)"
    using assms by (auto simp: node_blocks_used)
  then show ?thesis by (simp only: file_bytes_def)
qed

lemma dir_entries_cong:
  assumes "\<And>b. b \<in> node_blocks nd \<Longrightarrow> bs' ! b = bs ! b" and "length (in_blocks nd) = 16"
  shows "dir_entries bs' nd = dir_entries bs nd"
proof (cases "in_blocks nd ! 0")
  case (Some b)
  then have "unat b \<in> node_blocks nd" using assms(2) by (intro in_node_blocks [of 0]) simp_all
  then show ?thesis using Some assms(1) by (simp add: dir_entries_def)
qed (simp add: dir_entries_def)

lemma node_view_cong:
  assumes "\<And>b. b \<in> node_blocks nd \<Longrightarrow> bs' ! b = bs ! b" and "inode_wf nd"
  shows "node_view bs' nd = node_view bs nd"
  using file_bytes_cong [of nd bs' bs] dir_entries_cong [of nd bs' bs] assms
  by (simp add: node_view_def inode_wf_def)

lemma read_dir_entry_at_Some: "off + 28 \<le> length buf \<Longrightarrow> \<exists>e. read_dir_entry_at buf off = Some e"
  by (simp add: read_dir_entry_at_def dir_entry_read_from_def read_bytes_def read_u32_def br_at_def slice_def)

lemma read_entries_eq:
  "(\<And>k. k \<in> set ks \<Longrightarrow> k * 28 + 28 \<le> length buf) \<Longrightarrow> read_entries buf ks = Some (map (entry_at buf) ks)"
proof (induction ks)
  case (Cons k ks)
  then obtain e where "read_dir_entry_at buf (k * 28) = Some e" using read_dir_entry_at_Some [of "k * 28" buf] by auto
  then show ?case using Cons by (simp add: entry_at_def)
qed simp

section \<open>The invariant\<close>

lemma fs_structD:
  assumes "fs_struct B ok fs"
  shows "fs_ok B ok fs" and "i \<in> fs_alloc fs \<Longrightarrow> node_ok (fs_node B fs i)"
    and "i \<in> fs_alloc fs \<Longrightarrow> node_blocks (fs_node B fs i) \<subseteq> taken_blocks fs"
    and "i \<in> fs_alloc fs \<Longrightarrow> j \<in> fs_alloc fs \<Longrightarrow> i \<noteq> j \<Longrightarrow> node_blocks (fs_node B fs i) \<inter> node_blocks (fs_node B fs j) = {}"
    and "taken_blocks fs \<subseteq> (\<Union>i \<in> fs_alloc fs. node_blocks (fs_node B fs i))"
  using assms by (auto simp: fs_struct_def)

lemma fs_invD:
  assumes "fs_inv B ok fs"
  shows "fs_ok B ok fs" and "i \<in> fs_alloc fs \<Longrightarrow> node_ok (fs_node B fs i)"
    and "i \<in> fs_alloc fs \<Longrightarrow> node_blocks (fs_node B fs i) \<subseteq> taken_blocks fs"
    and "i \<in> fs_alloc fs \<Longrightarrow> j \<in> fs_alloc fs \<Longrightarrow> i \<noteq> j \<Longrightarrow> node_blocks (fs_node B fs i) \<inter> node_blocks (fs_node B fs j) = {}"
    and "afs_ok (fs_abs B fs)"
  using assms by (auto simp: fs_inv_def dest: fs_structD)

lemma fs_alloc_bound: "i \<in> fs_alloc fs \<Longrightarrow> unat i < inode_count fs"
  using bm_bits_subset [of "fs_inode_bitmap fs"] by (auto simp: fs_alloc_def inode_count_def)

lemma taken_blocks_bound:
  assumes "fs_ok B ok fs" and "b \<in> taken_blocks fs"
  shows "data_start (fs_lay fs) \<le> b" and "b < length (B (fs_device fs))" and "b < 2 ^ 32"
proof -
  note g = fs_okD(3) [OF assms(1)]
  show "data_start (fs_lay fs) \<le> b" using assms(2) by (auto simp: taken_blocks_def)
  show "b < length (B (fs_device fs))"
    using assms(2) bm_bits_subset [of "fs_data_bitmap fs"] geometry_bounds(2) [OF g] by (force simp: taken_blocks_def)
  then show "b < 2 ^ 32" using geometry_bounds(5) [OF g] by linarith
qed

lemma fs_abs_eq: "i \<in> fs_alloc fs \<Longrightarrow> fs_abs B fs i = Some (node_view (B (fs_device fs)) (fs_node B fs i))"
  by (simp add: fs_abs_def)

lemma fs_abs_None: "fs_abs B fs i = None \<longleftrightarrow> i \<notin> fs_alloc fs"
  by (simp add: fs_abs_def)

lemma is_dir_abs: "i \<in> fs_alloc fs \<Longrightarrow> is_dir (fs_abs B fs) i \<longleftrightarrow> in_is_directory (fs_node B fs i)"
  by (simp add: is_dir_def fs_abs_eq node_view_def)

lemma is_dir_alloc: "is_dir (fs_abs B fs) i \<Longrightarrow> i \<in> fs_alloc fs"
  by (auto simp: is_dir_def fs_abs_def split: if_splits)

lemma root_alloc: "fs_inv B ok fs \<Longrightarrow> 0 \<in> fs_alloc fs"
  using fs_invD(5) is_dir_alloc by (fastforce simp: afs_ok_def)

lemma entries_of_abs:
  "i \<in> fs_alloc fs \<Longrightarrow> entries_of (fs_abs B fs) i =
     (if in_is_directory (fs_node B fs i) then map entry_pair (dir_entries (B (fs_device fs)) (fs_node B fs i)) else [])"
  by (simp add: entries_of_def fs_abs_eq node_view_def)

lemma entries_of_wf:
  assumes "afs_ok a" and "(nm, j) \<in> set (entries_of a i)"
  shows "proper_name nm" and "a j \<noteq> None"
proof -
  have "a i = Some (Dir (entries_of a i))"
    using assms(2) by (cases "a i"; cases "the (a i)") (simp_all add: entries_of_def)
  then have "dir_wf a i (entries_of a i)" using assms(1) by (simp add: afs_ok_def)
  then show "proper_name nm" "a j \<noteq> None" using assms(2) by (auto simp: dir_wf_def)
qed

text \<open>A state with the same view has the same abstraction and satisfies the same invariant.\<close>

lemma fs_struct_same_view:
  assumes "fs_struct B ok fs" and "fs_ok B ok fs'" and "same_view B fs fs'"
  shows "fs_struct B ok fs'" and "fs_abs B fs' = fs_abs B fs" and "fs_alloc fs' = fs_alloc fs"
    and "i \<in> fs_alloc fs \<Longrightarrow> fs_node B fs' i = fs_node B fs i"
proof -
  show alloc: "fs_alloc fs' = fs_alloc fs" using assms(3) by (simp add: same_view_def fs_alloc_def)
  have taken: "taken_blocks fs' = taken_blocks fs" using assms(3) by (simp add: same_view_def taken_blocks_def)
  have node: "fs_node B fs' i = fs_node B fs i" if "i \<in> fs_alloc fs" for i
    using that assms(3) fs_alloc_bound by (auto simp: same_view_def)
  then show "i \<in> fs_alloc fs \<Longrightarrow> fs_node B fs' i = fs_node B fs i" .
  have "B (fs_device fs') = B (fs_device fs)" using assms(3) by (simp add: same_view_def)
  then show "fs_abs B fs' = fs_abs B fs" using node by (auto simp: fs_abs_def alloc fun_eq_iff)
  show "fs_struct B ok fs'" using assms(1,2) node unfolding fs_struct_def alloc taken by simp
qed

lemma fs_inv_same_view:
  assumes "fs_inv B ok fs" and "fs_ok B ok fs'" and "same_view B fs fs'"
  shows "fs_inv B ok fs'" and "fs_abs B fs' = fs_abs B fs" and "fs_alloc fs' = fs_alloc fs"
    and "i \<in> fs_alloc fs \<Longrightarrow> fs_node B fs' i = fs_node B fs i"
  using fs_struct_same_view [OF _ assms(2,3)] assms(1) by (auto simp: fs_inv_def)

section \<open>Read-only operations\<close>

lemma byte_compare_proper: "SLASH \<notin> set nm \<Longrightarrow> byte_compare s nm \<longleftrightarrow> s = nm"
  by (cases nm) (auto simp: byte_compare_def)

lemma find_entry_map_of:
  "(\<And>e. e \<in> set es \<Longrightarrow> SLASH \<notin> set (de_name e)) \<Longrightarrow> map_option de_inode (find_entry s es) = map_of (map entry_pair es) s"
  unfolding find_entry_def by (induction es) (auto simp: byte_compare_proper entry_pair_def)

definition resolved_record :: "inode_index \<times> bytes \<times> inode_index \<Rightarrow> resolved_path" where
  "resolved_record = (\<lambda>(p, nm, i). \<lparr>rp_parent = p, rp_basename = nm, rp_basename_inode = i\<rparr>)"

context block_device
begin

lemma read_dir_entry_law:
  assumes "fs_inv blocks dev_ok fs" and "i \<in> fs_alloc fs"
  shows "\<exists>fs'. read_dir_entry D fs i =
      Some (if in_is_directory (fs_node blocks fs i) then dir_entries (blocks (fs_device fs)) (fs_node blocks fs i) else [], fs') \<and>
    fs_ok blocks dev_ok fs' \<and> same_view blocks fs fs'"
proof -
  let ?nd = "fs_node blocks fs i" and ?bs = "blocks (fs_device fs)"
  note inv = fs_invD [OF assms(1)]
  from lookup_inode_law [OF inv(1) fs_alloc_bound [OF assms(2)]] obtain f1 where
    f1: "lookup_inode D fs i = Some (?nd, f1)" "fs_ok blocks dev_ok f1" "same_view blocks fs f1" by blast
  have bs1: "blocks (fs_device f1) = ?bs" using f1(3) by (simp add: same_view_def)
  note ok = node_okD [OF inv(2) [OF assms(2)]]
  note nd = node_shapeD [OF ok(1)]
  show ?thesis
  proof (cases "in_size ?nd = 0 \<or> \<not> in_is_directory ?nd")
    case True
    then have "\<not> in_is_directory ?nd \<or> dir_entries ?bs ?nd = []" by (auto simp: dir_entries_def split: option.splits)
    then show ?thesis using True f1 by (auto simp: read_dir_entry_def)
  next
    case False
    then have dir: "in_is_directory ?nd" and pos: "0 < unat (in_size ?nd)" by (auto simp: unat_gt_0)
    let ?m = "unat (in_size ?nd) div 28"
    have sz: "unat (in_size ?nd) \<le> 504" "28 dvd unat (in_size ?nd)" using ok(2) dir by auto
    have m: "0 < ?m" "?m \<le> 18" using sz pos by (auto elim!: dvdE)
    from nd(4) [of 0] pos obtain b where b: "in_blocks ?nd ! 0 = Some b" by auto
    have "used_blocks ?nd = take 1 (in_blocks ?nd)"
      using used_blocks_take [OF ok(1)] div_ceil_eq_iff [of 512 "unat (in_size ?nd)" 1] pos sz by simp
    then have used: "used_blocks ?nd = [Some b]" using b nd(2) by (cases "in_blocks ?nd") auto
    have "unat b \<in> taken_blocks fs" using inv(3) [OF assms(2)] in_node_blocks [OF _ b] nd(2) by auto
    from taken_blocks_bound(2) [OF inv(1) this] have lt: "unat b < length (blocks (fs_device f1))" by (simp add: bs1)
    from read_law [OF fs_okD(1) [OF f1(2)] this] obtain d2 where
      d2: "read_block D (fs_device f1) b = Some (?bs ! unat b, d2)" "dev_ok d2" "blocks d2 = ?bs" by (auto simp: bs1)
    have len: "length (?bs ! unat b) = 512" using lt fs_okD(2) [OF f1(2)] by (simp add: bs1)
    have es: "read_entries (?bs ! unat b) [0..<?m] = Some (dir_entries ?bs ?nd)"
      using m len by (subst read_entries_eq) (auto simp: dir_entries_def b)
    have "length (dir_entries ?bs ?nd) = ?m" by (simp add: dir_entries_def b)
    then have "read_dir_blocks D (fs_device f1) [b] ?m [] = Some (dir_entries ?bs ?nd, d2)"
      using d2(1) es m by (simp add: sub_usize_def min_def)
    then have run: "read_dir_entry D fs i = Some (dir_entries ?bs ?nd, f1\<lparr>fs_device := d2\<rparr>)"
      using False f1(1) dir by (simp add: read_dir_entry_def current_dir_entries_def used to_block_def List.map_filter_simps del: read_dir_blocks.simps)
    have "fs_ok blocks dev_ok (f1\<lparr>fs_device := d2\<rparr>)"
      by (rule fs_ok_device [OF f1(2) d2(2)]) (use fs_okD(2) [OF f1(2)] in \<open>simp_all add: d2(3) bs1\<close>)
    moreover have "fs_node blocks (f1\<lparr>fs_device := d2\<rparr>) j = fs_node blocks f1 j" for j
      by (simp add: fs_node_def d2(3) bs1 split: option.splits)
    then have "same_view blocks f1 (f1\<lparr>fs_device := d2\<rparr>)" by (simp add: same_view_def d2(3) bs1)
    then have "same_view blocks fs (f1\<lparr>fs_device := d2\<rparr>)" by (rule same_view_trans [OF f1(3)])
    ultimately show ?thesis using run dir by auto
  qed
qed

lemma find_entry_law:
  assumes "fs_inv blocks dev_ok fs" and "i \<in> fs_alloc fs"
  shows "\<exists>es fs'. read_dir_entry D fs i = Some (es, fs') \<and> fs_ok blocks dev_ok fs' \<and> same_view blocks fs fs' \<and>
    map entry_pair es = entries_of (fs_abs blocks fs) i \<and>
    (\<forall>s. map_option de_inode (find_entry s es) = map_of (entries_of (fs_abs blocks fs) i) s)"
proof -
  note ok = fs_invD(5) [OF assms(1)]
  from read_dir_entry_law [OF assms] obtain es fs' where
    r: "read_dir_entry D fs i = Some (es, fs')" "fs_ok blocks dev_ok fs'" "same_view blocks fs fs'"
    "map entry_pair es = entries_of (fs_abs blocks fs) i"
    by (auto simp: entries_of_abs [OF assms(2)])
  have "SLASH \<notin> set (de_name e)" if "e \<in> set es" for e
  proof -
    have "entry_pair e \<in> set (map entry_pair es)" using that by simp
    then show ?thesis using entries_of_wf(1) [OF ok] r(4) by (auto simp: entry_pair_def proper_name_def)
  qed
  then show ?thesis using r find_entry_map_of [of es] by auto
qed

lemma walk_path_law:
  assumes "fs_inv blocks dev_ok fs" and "i \<in> fs_alloc fs"
  shows "\<exists>fs'. walk_path D fs i parts = Some (fs', spec_walk (fs_abs blocks fs) i parts) \<and>
    fs_ok blocks dev_ok fs' \<and> same_view blocks fs fs'"
  using assms
proof (induction parts arbitrary: fs i)
  case Nil
  then show ?case using fs_invD(1) by auto
next
  case (Cons p ps)
  from find_entry_law [OF Cons.prems] obtain es f1 where
    f1: "read_dir_entry D fs i = Some (es, f1)" "fs_ok blocks dev_ok f1" "same_view blocks fs f1"
    "map_option de_inode (find_entry p es) = map_of (entries_of (fs_abs blocks fs) i) p" by blast
  note i1 = fs_inv_same_view [OF Cons.prems(1) f1(2,3)]
  show ?case
  proof (cases "find_entry p es")
    case None
    then show ?thesis using f1 by auto
  next
    case (Some e)
    then have m: "map_of (entries_of (fs_abs blocks fs) i) p = Some (de_inode e)" using f1(4) by simp
    then have j: "de_inode e \<in> fs_alloc f1"
      using entries_of_wf(2) [OF fs_invD(5) [OF Cons.prems(1)] map_of_SomeD] by (auto simp: fs_abs_None i1(3))
    from lookup_inode_law [OF f1(2) fs_alloc_bound [OF j]] obtain f2 where
      f2: "lookup_inode D f1 (de_inode e) = Some (fs_node blocks f1 (de_inode e), f2)" "fs_ok blocks dev_ok f2" "same_view blocks f1 f2" by blast
    note i2 = fs_inv_same_view [OF i1(1) f2(2,3)]
    have dir: "in_is_directory (fs_node blocks f1 (de_inode e)) \<longleftrightarrow> is_dir (fs_abs blocks fs) (de_inode e)"
      using is_dir_abs [OF j, of blocks] i1(2) by simp
    have v: "same_view blocks fs f2" using same_view_trans [OF f1(3) f2(3)] .
    show ?thesis
    proof (cases "is_dir (fs_abs blocks fs) (de_inode e)")
      case True
      have "de_inode e \<in> fs_alloc f2" using j by (simp add: i2(3))
      from Cons.IH [OF i2(1) this] obtain f3 where
        "walk_path D f2 (de_inode e) ps = Some (f3, spec_walk (fs_abs blocks fs) (de_inode e) ps)" "fs_ok blocks dev_ok f3" "same_view blocks f2 f3"
        by (auto simp: i2(2) i1(2))
      then show ?thesis using f1(1) f2(1) Some True m dir same_view_trans [OF v] by auto
    qed (use f1(1) f2 Some m dir v in auto)
  qed
qed

lemma resolve_path_law:
  assumes "fs_inv blocks dev_ok fs"
  shows "\<exists>fs'. resolve_path D fs path = Some (fs', map_sum id resolved_record (spec_resolve (fs_abs blocks fs) path)) \<and>
    fs_ok blocks dev_ok fs' \<and> same_view blocks fs fs'"
proof -
  obtain dir basename where db: "(case rsplit_once SLASH path of Some p \<Rightarrow> p | None \<Rightarrow> (path, path)) = (dir, basename)"
    by (cases "case rsplit_once SLASH path of Some p \<Rightarrow> p | None \<Rightarrow> (path, path)")
  from walk_path_law [OF assms root_alloc [OF assms], of "path_parts dir"] obtain f1 where
    f1: "walk_path D fs 0 (path_parts dir) = Some (f1, spec_walk (fs_abs blocks fs) 0 (path_parts dir))"
    "fs_ok blocks dev_ok f1" "same_view blocks fs f1" by blast
  note i1 = fs_inv_same_view [OF assms f1(2,3)]
  show ?thesis
  proof (cases "spec_walk (fs_abs blocks fs) 0 (path_parts dir)")
    case (Inl e)
    then show ?thesis using f1 by (simp add: resolve_path_def db spec_resolve_def)
  next
    case (Inr parent)
    have "is_dir (fs_abs blocks fs) 0" using fs_invD(5) [OF assms] by (simp add: afs_ok_def)
    from spec_walk_dir [OF this Inr] have p: "parent \<in> fs_alloc f1" using is_dir_alloc i1(3) by blast
    from find_entry_law [OF i1(1) p] obtain es f2 where
      f2: "read_dir_entry D f1 parent = Some (es, f2)" "fs_ok blocks dev_ok f2" "same_view blocks f1 f2"
      "map_option de_inode (find_entry basename es) = map_of (entries_of (fs_abs blocks fs) parent) basename"
      by (auto simp: i1(2))
    have "resolve_path D fs path = Some (f2, map_sum id resolved_record (spec_resolve (fs_abs blocks fs) path))"
      using f1(1) f2(1,4) Inr
      by (cases "find_entry basename es") (simp_all add: resolve_path_def db spec_resolve_def resolved_record_def flip: f2(4))
    then show ?thesis using f2 same_view_trans [OF f1(3)] by auto
  qed
qed

end

end
