(* ===== verification/FS_Files.thy ===== *)
theory FS_Files
  imports FS_Model
begin

text \<open>
  Files: appending and reading (\<open>append_to_file\<close>, \<open>read_file\<close>). Appending grows an i-node chunk by
  chunk, a block at a time; the growth step is shared with directories.
\<close>

section \<open>Growing an i-node\<close>

definition grow :: "inode \<Rightarrow> block_index \<Rightarrow> nat \<Rightarrow> inode" where
  "grow nd b n = nd\<lparr>in_blocks := (in_blocks nd)[unat (in_size nd) div 512 := Some b], in_size := in_size nd + word_of_nat n\<rparr>"

text \<open>The block in which the next byte goes: the one in the slot, or one that the i-node does not have.\<close>

definition fits_slot :: "inode \<Rightarrow> block_index \<Rightarrow> bool" where
  "fits_slot nd b \<longleftrightarrow> b \<noteq> 0 \<and> (let s = in_blocks nd ! (unat (in_size nd) div 512) in s = Some b \<or> s = None \<and> unat b \<notin> node_blocks nd)"

lemma slot_bound:
  fixes s n j :: nat
  assumes "s mod 512 + n \<le> 512" and "s div 512 < j"
  shows "s + n \<le> 512 * j"
proof -
  have "512 * Suc (s div 512) \<le> 512 * j" using assms(2) by (intro mult_le_mono2) simp
  moreover have "s + n = 512 * (s div 512) + (s mod 512 + n)" by simp
  moreover have "512 * (s div 512) + (s mod 512 + n) \<le> 512 * Suc (s div 512)"
    using assms(1) by (simp only: mult_Suc_right add.commute [of 512] add_le_cancel_left)
  ultimately show ?thesis by (metis le_trans)
qed

lemma slot_below: "j < s div 512 \<Longrightarrow> 512 * Suc j \<le> s" for s j :: nat
  by (metis Suc_leI mult_le_mono2 order_trans times_div_less_eq_dividend)

lemma slot_ceil:
  fixes s n :: nat
  assumes "0 < n" and "s mod 512 + n \<le> 512"
  shows "div_ceil (s + n) 512 = Suc (s div 512)"
proof -
  have "512 * (s div 512) < s + n" using assms(1) times_div_less_eq_dividend [of 512 s] by linarith
  moreover have "s + n \<le> 512 * Suc (s div 512)" using assms(2) by (intro slot_bound) simp_all
  ultimately show ?thesis using assms(1) by (subst div_ceil_eq_iff) (simp_all add: mult.commute)
qed

lemma unat_grow:
  assumes "unat (in_size nd) + n \<le> 8192"
  shows "unat (in_size (grow nd b n)) = unat (in_size nd) + n"
proof -
  have "unat (word_of_nat n :: u32) = n" using assms by (simp add: unat_of_nat)
  then show ?thesis using assms by (simp add: grow_def unat_word_ariths)
qed

lemma distinct_update: "distinct xs \<Longrightarrow> y \<notin> set xs \<or> xs ! k = y \<Longrightarrow> distinct (xs[k := y])"
  by (metis distinct_list_update list_update_id Diff_iff list_update_beyond not_less)

lemma node_shape_grow:
  assumes nd: "node_shape nd" and n: "0 < n" "unat (in_size nd) mod 512 + n \<le> 512" "unat (in_size nd) < 8192" and b: "fits_slot nd b"
  shows "node_shape (grow nd b n)" and "node_blocks (grow nd b n) = insert (unat b) (node_blocks nd)"
proof -
  let ?s = "unat (in_size nd)" and ?ds = "in_blocks nd"
  note D = node_shapeD [OF nd]
  have k: "?s div 512 < 16" using n(3) by (simp add: div_less_iff_less_mult)
  have sz: "?s + n \<le> 8192" using slot_bound [OF n(2) k] by simp
  note g = unat_grow [OF sz, of b]
  have blocks: "in_blocks (grow nd b n) = ?ds[?s div 512 := Some b]" by (simp add: grow_def)
  have wf: "inode_wf (grow nd b n)"
    using D(1) b by (auto simp: inode_wf_def blocks list_all_iff fits_slot_def dest!: set_update_subset_insert [THEN subsetD])
  have slots: "in_blocks (grow nd b n) ! j \<noteq> None \<longleftrightarrow> 512 * j < unat (in_size (grow nd b n))" if j: "j < 16" for j
  proof (cases "j = ?s div 512")
    case True
    then have "512 * j \<le> ?s" by simp
    then show ?thesis using True k D(2) n(1) by (simp add: blocks g)
  next
    case False
    have "512 * j < ?s + n \<longleftrightarrow> 512 * j < ?s"
    proof (cases "j < ?s div 512")
      case True
      then have "512 * Suc j \<le> ?s" by (rule slot_below)
      then show ?thesis by simp
    next
      case f: False
      then have "?s + n \<le> 512 * j" using n(2) False by (intro slot_bound) simp_all
      then show ?thesis by simp
    qed
    then show ?thesis using False D(4) [OF j] by (simp add: blocks g)
  qed
  have used: "used_blocks (grow nd b n) = (if ?ds ! (?s div 512) = None then used_blocks nd @ [Some b] else used_blocks nd)"
  proof -
    have "used_blocks (grow nd b n) = take (div_ceil (?s + n) 512) (?ds[?s div 512 := Some b])"
      unfolding used_blocks_def blocks
      using slots D(2) by (intro filter_prefix) (simp add: index_is_empty_def blocks g div_ceil_less_iff mult.commute)
    also have "div_ceil (?s + n) 512 = Suc (?s div 512)"
      by (rule slot_ceil [OF n(1,2)])
    also have "take (Suc (?s div 512)) (?ds[?s div 512 := Some b]) = take (?s div 512) ?ds @ [Some b]"
      using k D(2) by (simp add: take_Suc_conv_app_nth)
    finally have u: "used_blocks (grow nd b n) = take (?s div 512) ?ds @ [Some b]" .
    show ?thesis
    proof (cases "?ds ! (?s div 512) = None")
      case True
      then have "\<not> 512 * (?s div 512) < ?s" using D(4) [OF k] by simp
      then have "?s mod 512 = 0" using mult_div_mod_eq [of 512 ?s] by linarith
      then have "used_blocks nd = take (?s div 512) ?ds" using used_blocks_take [OF nd] by (simp add: div_ceil_def)
      then show ?thesis using u True by simp
    next
      case False
      then have eq: "?ds ! (?s div 512) = Some b" using b by (auto simp: fits_slot_def Let_def)
      have "512 * (?s div 512) < ?s" using D(4) [OF k] False by simp
      then have "?s mod 512 \<noteq> 0" using mult_div_mod_eq [of 512 ?s] by linarith
      then have "used_blocks nd = take (Suc (?s div 512)) ?ds" using used_blocks_take [OF nd] by (simp add: div_ceil_def)
      then show ?thesis using u eq k D(2) by (simp add: take_Suc_conv_app_nth)
    qed
  qed
  have "Some b \<notin> set (used_blocks nd)" if "?ds ! (?s div 512) = None"
    using that b by (auto simp: fits_slot_def Let_def node_blocks_used dest!: imageI [of "Some b" _ "\<lambda>d. unat (the d)"])
  then have "distinct (used_blocks (grow nd b n))" using D(5) by (simp add: used)
  then show "node_shape (grow nd b n)" using wf slots sz by (simp add: node_shape_def g)
  have "?ds ! (?s div 512) \<noteq> None \<Longrightarrow> unat b \<in> node_blocks nd"
    using b k D(2) by (auto simp: fits_slot_def Let_def intro!: in_node_blocks [of "?s div 512"])
  then show "node_blocks (grow nd b n) = insert (unat b) (node_blocks nd)"
    by (auto simp: node_blocks_used used split: if_splits)
qed

text \<open>The contents up to a slot, and the first bytes of the block in the slot.\<close>

lemma length_concat_blocks:
  "(\<And>d. d \<in> set ds \<Longrightarrow> length (f d) = m) \<Longrightarrow> length (concat (map f ds)) = m * length ds"
  by (induction ds) auto

lemma file_bytes_split:
  assumes nd: "node_shape nd" and s: "unat (in_size nd) = 512 * k + off" "off \<le> 512" "k < 16"
    and len: "\<And>b. b \<in> node_blocks nd \<Longrightarrow> length (bs ! b) = 512"
  shows "file_bytes bs nd = concat (map (\<lambda>d. bs ! unat (the d)) (take k (in_blocks nd))) @ take off (bs ! unat (the (in_blocks nd ! k)))"
proof -
  let ?f = "\<lambda>d. bs ! unat (the d)" and ?ds = "in_blocks nd"
  note D = node_shapeD [OF nd]
  have used: "used_blocks nd = (if off = 0 then take k ?ds else take (Suc k) ?ds)"
  proof -
    have "div_ceil (512 * k + off) 512 = (if off = 0 then k else Suc k)"
      using s(2) by (cases "off = 0") (simp_all add: div_ceil_def [of "512 * k"] div_ceil_eq_iff)
    then show ?thesis using used_blocks_take [OF nd] by (simp add: s(1))
  qed
  have "length (?f d) = 512" if "d \<in> set (used_blocks nd)" for d using that len by (auto simp: node_blocks_used)
  then have "length (?f d) = 512" if "d \<in> set (take k ?ds)" for d
    using that set_take_subset_set_take [of k "Suc k" ?ds] by (auto simp: used split: if_splits)
  then have l: "length (concat (map ?f (take k ?ds))) = 512 * k"
    using length_concat_blocks [of "take k ?ds" ?f 512] D(2) s(3) by simp
  show ?thesis
  proof (cases "off = 0")
    case True
    then show ?thesis using l by (simp add: file_bytes_def used s(1))
  next
    case False
    then have "used_blocks nd = take k ?ds @ [?ds ! k]" using used s(3) D(2) by (simp add: take_Suc_conv_app_nth)
    then show ?thesis using l by (simp add: file_bytes_def s(1))
  qed
qed

lemma file_bytes_length:
  assumes "node_shape nd" and "\<And>b. b \<in> node_blocks nd \<Longrightarrow> length (bs ! b) = 512"
  shows "length (file_bytes bs nd) = unat (in_size nd)"
proof -
  have "length (concat (map (\<lambda>d. bs ! unat (the d)) (used_blocks nd))) = 512 * length (used_blocks nd)"
    using assms(2) by (intro length_concat_blocks) (auto simp: node_blocks_used)
  moreover have "unat (in_size nd) \<le> 512 * length (used_blocks nd)"
    using used_blocks_take [OF assms(1)] node_shapeD(2,3) [OF assms(1)] le_div_ceil_mult [of 512 "unat (in_size nd)"]
    by (simp add: min_def mult.commute)
  ultimately show ?thesis by (simp add: file_bytes_def)
qed

lemma file_bytes_grow:
  assumes nd: "node_shape nd" and w: "w \<noteq> []" "unat (in_size nd) mod 512 + length w \<le> 512" "unat (in_size nd) < 8192"
    and b: "fits_slot nd b" and len: "\<And>c. c \<in> insert (unat b) (node_blocks nd) \<Longrightarrow> length (bs ! c) = 512"
    and lt: "unat b < length bs"
  shows "file_bytes (bs[unat b := put_at (bs ! unat b) (unat (in_size nd) mod 512) w]) (grow nd b (length w)) = file_bytes bs nd @ w"
proof -
  let ?s = "unat (in_size nd)" and ?ds = "in_blocks nd"
  let ?k = "?s div 512" and ?off = "?s mod 512"
  let ?buf = "put_at (bs ! unat b) ?off w" and ?nd = "grow nd b (length w)"
  let ?bs = "bs[unat b := ?buf]"
  note D = node_shapeD [OF nd]
  note G = node_shape_grow [OF nd _ w(2,3) b, simplified, OF w(1)]
  have k: "?k < 16" using w(3) by (simp add: div_less_iff_less_mult)
  have sz: "unat (in_size ?nd) = 512 * ?k + (?off + length w)"
    using unat_grow [of nd "length w" b] slot_bound [OF w(2) k] by (simp add: mult_div_mod_eq)
  have lb: "length ?buf = 512" using len [of "unat b"] w(2) by simp
  have "length (?bs ! c) = 512" if "c \<in> node_blocks ?nd" for c
    using that len G(2) lb by (cases "c = unat b") (auto simp: lt)
  from file_bytes_split [OF G(1) sz w(2) k this]
  have new: "file_bytes ?bs ?nd = concat (map (\<lambda>d. ?bs ! unat (the d)) (take ?k ?ds)) @ take (?off + length w) ?buf"
    using k D(2) lt by (simp add: grow_def)
  have "unat (the d) \<noteq> unat b" if d: "d \<in> set (take ?k ?ds)" for d
  proof
    assume eq: "unat (the d) = unat b"
    from d obtain j where j: "j < ?k" "d = ?ds ! j" using k D(2) by (auto simp: in_set_conv_nth)
    have "512 * j < ?s" using slot_below [OF j(1)] by simp
    then have dn: "d = Some b" using D(4) [of j] j k eq by auto
    then have "unat b \<in> node_blocks nd" using in_node_blocks [of j nd b] j k D(2) by simp
    then have "?ds ! ?k = Some b" using b by (auto simp: fits_slot_def Let_def)
    moreover have "take (Suc ?k) ?ds = take ?k ?ds @ [?ds ! ?k]" using k D(2) by (simp add: take_Suc_conv_app_nth)
    moreover have "distinct (take (Suc ?k) ?ds)"
    proof -
      have "512 * ?k < ?s" using D(4) [OF k] \<open>?ds ! ?k = Some b\<close> by simp
      then have "?off \<noteq> 0" using mult_div_mod_eq [of 512 ?s] by linarith
      then have "used_blocks nd = take (Suc ?k) ?ds" using used_blocks_take [OF nd] by (simp add: div_ceil_def)
      then show ?thesis using D(5) by simp
    qed
    ultimately show False using d dn by simp
  qed
  then have "map (\<lambda>d. ?bs ! unat (the d)) (take ?k ?ds) = map (\<lambda>d. bs ! unat (the d)) (take ?k ?ds)"
    by (intro map_cong refl nth_list_update_neq) metis
  moreover have "take (?off + length w) ?buf = take ?off (bs ! unat b) @ w"
    using len [of "unat b"] w(2) by (simp add: put_at_def min.absorb1 min.absorb2 less_imp_le)
  moreover have "take ?off (bs ! unat b) = take ?off (bs ! unat (the (?ds ! ?k)))"
  proof (cases "?ds ! ?k")
    case None
    then have "?off = 0" using D(4) [OF k] mult_div_mod_eq [of 512 ?s] by linarith
    then show ?thesis by simp
  next
    case (Some c)
    then show ?thesis using b by (simp add: fits_slot_def Let_def)
  qed
  moreover have "file_bytes bs nd = concat (map (\<lambda>d. bs ! unat (the d)) (take ?k ?ds)) @ take ?off (bs ! unat (the (?ds ! ?k)))"
    using file_bytes_split [OF nd _ _ k, of ?off bs] len by (simp add: mult_div_mod_eq)
  ultimately show ?thesis using new by (simp only: append_assoc)
qed

section \<open>Attaching blocks\<close>

lemma taken_blocks_fields:
  "taken_blocks (fs\<lparr>fs_device := d\<rparr>) = taken_blocks fs" "taken_blocks (fs\<lparr>fs_inode_cache := c\<rparr>) = taken_blocks fs"
  "taken_blocks (fs\<lparr>fs_inode_bitmap := ibm\<rparr>) = taken_blocks fs" "taken_blocks (store_inode fs i nd) = taken_blocks fs"
  "fs_alloc (fs\<lparr>fs_device := d\<rparr>) = fs_alloc fs" "fs_alloc (fs\<lparr>fs_inode_cache := c\<rparr>) = fs_alloc fs"
  "fs_alloc (fs\<lparr>fs_data_bitmap := dbm\<rparr>) = fs_alloc fs" "fs_alloc (store_inode fs i nd) = fs_alloc fs"
  by (simp_all add: taken_blocks_def fs_alloc_def)

text \<open>
  The block for the next byte: the one of a partly filled slot, or a block that nobody has. It fails
  only when a new block is needed and none is left.
\<close>

lemma attach_block_law:
  assumes ok: "fs_ok B ok fs" and nd: "node_shape nd" and sub: "node_blocks nd \<subseteq> taken_blocks fs" and s: "unat (in_size nd) < 8192"
  shows "(attach_block fs nd (unat (in_size nd) div 512) = Some ((fs, nd), Inl NoSpaceLeft) \<and>
        unat (in_size nd) mod 512 = 0 \<and> bitmap_find_free (fs_data_bitmap fs) = None) \<or>
    (\<exists>dbm b. attach_block fs nd (unat (in_size nd) div 512) =
        Some ((fs\<lparr>fs_data_bitmap := dbm\<rparr>, set_inode_block nd (unat (in_size nd) div 512) (Some b)), Inr b) \<and>
        fs_ok B ok (fs\<lparr>fs_data_bitmap := dbm\<rparr>) \<and> taken_blocks (fs\<lparr>fs_data_bitmap := dbm\<rparr>) = insert (unat b) (taken_blocks fs) \<and>
        fits_slot nd b \<and> (unat b \<in> node_blocks nd \<or> unat b \<notin> taken_blocks fs) \<and>
        data_start (fs_lay fs) \<le> unat b \<and> unat b < length (B (fs_device fs)) \<and>
        (unat (in_size nd) mod 512 \<noteq> 0 \<longrightarrow> dbm = fs_data_bitmap fs))"
proof -
  let ?k = "unat (in_size nd) div 512"
  note D = node_shapeD [OF nd] and g = fs_okD(3) [OF ok]
  have k: "?k < 16" using s by (simp add: div_less_iff_less_mult)
  have slot: "inode_block nd ?k = Some (in_blocks nd ! ?k)" using k D(2) by (simp add: inode_block_def)
  show ?thesis
  proof (cases "in_blocks nd ! ?k")
    case (Some b)
    have b: "unat b \<in> node_blocks nd" using in_node_blocks [OF _ Some] k D(2) by simp
    then have t: "unat b \<in> taken_blocks fs" using sub by blast
    have "b \<noteq> 0" using D(1) Some k D(2) by (auto simp: inode_wf_def list_all_length)
    then have "fits_slot nd b" using Some by (simp add: fits_slot_def)
    moreover have "set_inode_block nd ?k (Some b) = nd" using Some by (simp add: set_inode_block_def list_update_same_conv k D(2))
    ultimately show ?thesis using b t ok taken_blocks_bound [OF ok t] slot Some
      by (intro disjI2 exI [of _ "fs_data_bitmap fs"] exI [of _ b])
        (auto simp: attach_block_def index_is_empty_def to_block_def)
  next
    case None
    then have off: "unat (in_size nd) mod 512 = 0"
      using D(4) [OF k] mult_div_mod_eq [of 512 "unat (in_size nd)"] by linarith
    show ?thesis
    proof (cases "bitmap_find_free (fs_data_bitmap fs)")
      case n: None
      then show ?thesis using off None slot by (simp add: attach_block_def index_is_empty_def)
    next
      case (Some free)
      have dbm: "bm_ok (fs_data_bitmap fs)" using g by (simp add: geometry_ok_def)
      note f = bitmap_find_free_Some [OF dbm Some]
      from bitmap_set_Some [OF dbm f(1)] obtain dbm' where dbm': "bitmap_set (fs_data_bitmap fs) free = Some dbm'" "bm_ok dbm'"
        "bm_len dbm' = bm_len (fs_data_bitmap fs)" "bm_bits dbm' = insert free (bm_bits (fs_data_bitmap fs))" by blast
      let ?n = "data_start (fs_lay fs) + free" and ?b = "as_u32 (data_start (fs_lay fs) + free)"
      have lt: "?n < length (B (fs_device fs))" "?n < 2 ^ 32" "0 < ?n" using f(1) geometry_bounds [OF g] by auto
      then have u: "unat ?b = ?n" by (simp add: unat_as_u32)
      have nz: "?b \<noteq> 0"
      proof
        assume "?b = 0"
        then have "unat ?b = 0" by simp
        then show False using u lt(3) by linarith
      qed
      have "layout_data_block (fs_lay fs) free = Some (Some ?b)"
        using lt(2) nz by (simp add: layout_data_block_def data_index_new_def try_into_u32_def nonzero_u32_def add_usize_def as_u32_def)
      moreover have fresh: "?n \<notin> taken_blocks fs" using f(2) by (auto simp: taken_blocks_def)
      then have "fits_slot nd ?b" using None nz sub u by (auto simp: fits_slot_def)
      moreover have "taken_blocks (fs\<lparr>fs_data_bitmap := dbm'\<rparr>) = insert ?n (taken_blocks fs)"
        by (auto simp: taken_blocks_def dbm'(4))
      ultimately show ?thesis using fresh lt u dbm' fs_ok_data_bitmap [OF ok dbm'(2,3)] slot None Some
        by (intro disjI2 exI [of _ dbm'] exI [of _ ?b]) (simp add: attach_block_def index_is_empty_def to_block_def off)
    qed
  qed
qed

text \<open>
  What growing an i-node does to the rest: it only adds blocks that nobody had, and leaves the blocks
  of everybody else, the i-nodes and the i-node bitmap alone.
\<close>

definition grown :: "('d \<Rightarrow> bytes list) \<Rightarrow> ('d \<Rightarrow> bool) \<Rightarrow> 'd filesystem \<Rightarrow> inode \<Rightarrow> 'd filesystem \<Rightarrow> inode \<Rightarrow> bool" where
  "grown B ok fs nd fs' nd' \<longleftrightarrow> fs_ok B ok fs' \<and> node_shape nd' \<and> in_is_directory nd' = in_is_directory nd \<and>
     node_blocks nd \<subseteq> node_blocks nd' \<and> taken_blocks fs' = taken_blocks fs \<union> node_blocks nd' \<and>
     (node_blocks nd' - node_blocks nd) \<inter> taken_blocks fs = {} \<and>
     length (B (fs_device fs')) = length (B (fs_device fs)) \<and>
     (\<forall>b \<in> taken_blocks fs - node_blocks nd. B (fs_device fs') ! b = B (fs_device fs) ! b) \<and>
     fs_inode_bitmap fs' = fs_inode_bitmap fs \<and> fs_lay fs' = fs_lay fs \<and> fs_dirty fs' = fs_dirty fs \<and>
     (\<forall>i. unat i < inode_count fs \<longrightarrow> fs_node B fs' i = fs_node B fs i)"

lemma grown_refl: "fs_ok B ok fs \<Longrightarrow> node_shape nd \<Longrightarrow> node_blocks nd \<subseteq> taken_blocks fs \<Longrightarrow> grown B ok fs nd fs nd"
  by (auto simp: grown_def)

lemma grown_trans:
  assumes "grown B ok f1 n1 f2 n2" and "grown B ok f2 n2 f3 n3"
  shows "grown B ok f1 n1 f3 n3"
proof -
  have "B (fs_device f3) ! b = B (fs_device f1) ! b" if "b \<in> taken_blocks f1 - node_blocks n1" for b
  proof -
    have "b \<notin> node_blocks n2" "b \<in> taken_blocks f2" using that assms(1) unfolding grown_def by blast+
    then show ?thesis using that assms unfolding grown_def by simp
  qed
  moreover have "(node_blocks n3 - node_blocks n1) \<inter> taken_blocks f1 = {}" "taken_blocks f3 = taken_blocks f1 \<union> node_blocks n3"
    using assms unfolding grown_def by blast+
  ultimately show ?thesis using assms unfolding grown_def inode_count_def by auto
qed

text \<open>Putting the grown i-node in the place of the old one.\<close>

lemma grown_store:
  assumes inv: "fs_struct B ok fs" and i: "i \<in> fs_alloc fs" and g: "grown B ok fs (fs_node B fs i) fs' nd'"
    and dirty: "unat i \<in> fs_dirty fs'" and ok: "node_ok nd'"
  shows "fs_struct B ok (store_inode fs' i nd')"
    and "fs_abs B (store_inode fs' i nd') = (fs_abs B fs)(i \<mapsto> node_view (B (fs_device fs')) nd')"
proof -
  let ?fs = "store_inode fs' i nd'"
  note I = fs_structD [OF inv]
  have ok': "fs_ok B ok fs'" "node_shape nd'" using g by (simp_all add: grown_def)
  note st = store_inode_law [OF ok'(1) dirty node_shapeD(1) [OF ok'(2)]]
  have alloc: "fs_alloc ?fs = fs_alloc fs" using g by (simp add: fs_alloc_def grown_def)
  have node: "fs_node B ?fs j = (if j = i then nd' else fs_node B fs j)" if "j \<in> fs_alloc fs" for j
    using st(2) [of j] g fs_alloc_bound [OF that] by (simp add: grown_def)
  have other: "node_blocks (fs_node B fs j) \<subseteq> taken_blocks fs - node_blocks (fs_node B fs i)" if "j \<in> fs_alloc fs" "j \<noteq> i" for j
    using I(3) [OF that(1)] I(4) [OF that(1) i that(2)] by blast
  have view: "node_view (B (fs_device fs')) (fs_node B fs j) = node_view (B (fs_device fs)) (fs_node B fs j)"
    if "j \<in> fs_alloc fs" "j \<noteq> i" for j
    using other [OF that] g node_shapeD(1) [OF node_okD(1) [OF I(2) [OF that(1)]]]
    by (intro node_view_cong) (auto simp: grown_def)
  show abs: "fs_abs B ?fs = (fs_abs B fs)(i \<mapsto> node_view (B (fs_device fs')) nd')"
    using node view i by (auto simp: fs_abs_def alloc fun_eq_iff)
  have disj: "node_blocks nd' \<inter> node_blocks (fs_node B fs j) = {}" if "j \<in> fs_alloc fs" "j \<noteq> i" for j
    using other [OF that] g by (auto simp: grown_def)
  have taken: "taken_blocks ?fs = taken_blocks fs \<union> node_blocks nd'" using g by (simp add: taken_blocks_fields grown_def)
  show "fs_struct B ok ?fs"
    unfolding fs_struct_def alloc
  proof (intro conjI ballI impI)
    fix j assume j: "j \<in> fs_alloc fs"
    show "node_ok (fs_node B ?fs j)" using node [OF j] ok I(2) [OF j] by simp
    show "node_blocks (fs_node B ?fs j) \<subseteq> taken_blocks ?fs" using node [OF j] I(3) [OF j] by (auto simp: taken)
    fix k assume k: "k \<in> fs_alloc fs" "j \<noteq> k"
    show "node_blocks (fs_node B ?fs j) \<inter> node_blocks (fs_node B ?fs k) = {}"
      using node [OF j] node [OF k(1)] I(4) [OF j k] disj [OF j] disj [OF k(1)] k(2) by (auto split: if_splits)
  next
    show "taken_blocks ?fs \<subseteq> (\<Union>j \<in> fs_alloc fs. node_blocks (fs_node B ?fs j))"
    proof
      fix b assume "b \<in> taken_blocks ?fs"
      then consider "b \<in> node_blocks nd'" | "b \<in> taken_blocks fs" "b \<notin> node_blocks (fs_node B fs i)"
        using g by (auto simp: taken grown_def)
      then show "b \<in> (\<Union>j \<in> fs_alloc fs. node_blocks (fs_node B ?fs j))"
      proof cases
        case 1
        then show ?thesis using node [OF i] i by (intro UN_I [of i]) simp_all
      next
        case 2
        then obtain j where "j \<in> fs_alloc fs" "b \<in> node_blocks (fs_node B fs j)" "j \<noteq> i" using I(5) by blast
        then show ?thesis using node [of j] by (intro UN_I [of j]) simp_all
      qed
    qed
  qed (rule st(1))
qed

context block_device
begin

text \<open>One growth step: attach a block, write the bytes at the end of the contents, advance the size.\<close>

lemma grow_step_law:
  assumes ok: "fs_ok blocks dev_ok fs" and nd: "node_shape nd" and sub: "node_blocks nd \<subseteq> taken_blocks fs"
    and s: "unat (in_size nd) < 8192" and w: "w \<noteq> []" "unat (in_size nd) mod 512 + length w \<le> 512"
    and f: "\<forall>buf. length buf = 512 \<longrightarrow> f buf = Some (put_at buf (unat (in_size nd) mod 512) w, ())"
  shows "(attach_block fs nd (unat (in_size nd) div 512) = Some ((fs, nd), Inl NoSpaceLeft) \<and>
        unat (in_size nd) mod 512 = 0 \<and> bitmap_find_free (fs_data_bitmap fs) = None) \<or>
    (\<exists>fs1 nd1 b d'. attach_block fs nd (unat (in_size nd) div 512) = Some ((fs1, nd1), Inr b) \<and>
        modify_block D (fs_device fs1) b f = Some ((), d') \<and>
        inode_advance nd1 (length w) = Some (grow nd b (length w)) \<and>
        grown blocks dev_ok fs nd (fs1\<lparr>fs_device := d'\<rparr>) (grow nd b (length w)) \<and>
        blocks d' = (blocks (fs_device fs))[unat b := put_at (blocks (fs_device fs) ! unat b) (unat (in_size nd) mod 512) w] \<and>
        fits_slot nd b \<and> unat b < length (blocks (fs_device fs)) \<and>
        (unat (in_size nd) mod 512 \<noteq> 0 \<longrightarrow> fs_data_bitmap fs1 = fs_data_bitmap fs))"
proof -
  let ?s = "unat (in_size nd)" and ?bs = "blocks (fs_device fs)"
  from attach_block_law [OF ok nd sub s] show ?thesis
  proof (elim disjE exE)
    fix dbm b
    let ?f1 = "fs\<lparr>fs_data_bitmap := dbm\<rparr>" and ?n1 = "set_inode_block nd (?s div 512) (Some b)"
    assume "attach_block fs nd (?s div 512) = Some ((?f1, ?n1), Inr b) \<and> fs_ok blocks dev_ok ?f1 \<and>
      taken_blocks ?f1 = insert (unat b) (taken_blocks fs) \<and> fits_slot nd b \<and> (unat b \<in> node_blocks nd \<or> unat b \<notin> taken_blocks fs) \<and>
      data_start (fs_lay fs) \<le> unat b \<and> unat b < length ?bs \<and> (?s mod 512 \<noteq> 0 \<longrightarrow> dbm = fs_data_bitmap fs)"
    then have at: "attach_block fs nd (?s div 512) = Some ((?f1, ?n1), Inr b)" "fs_ok blocks dev_ok ?f1"
      "taken_blocks ?f1 = insert (unat b) (taken_blocks fs)" "fits_slot nd b" "unat b \<in> node_blocks nd \<or> unat b \<notin> taken_blocks fs"
      "data_start (fs_lay fs) \<le> unat b" "unat b < length ?bs" "?s mod 512 \<noteq> 0 \<longrightarrow> dbm = fs_data_bitmap fs" by blast+
    let ?buf = "put_at (?bs ! unat b) (?s mod 512) w"
    have len: "length (?bs ! unat b) = 512" using fs_okD(2) [OF ok at(7)] .
    from data_block_law [OF at(2), of b f ?buf] at(6,7) f [rule_format, OF len] len w(2) obtain d' where
      d': "modify_block D (fs_device ?f1) b f = Some ((), d')" "blocks d' = ?bs[unat b := ?buf]"
      "fs_ok blocks dev_ok (?f1\<lparr>fs_device := d'\<rparr>)"
      "\<forall>i. unat i < inode_count fs \<longrightarrow> fs_node blocks (?f1\<lparr>fs_device := d'\<rparr>) i = fs_node blocks fs i"
      by auto
    have sz: "?s + length w \<le> 8192" using slot_bound [OF w(2), of 16] s by (simp add: div_less_iff_less_mult)
    then have "unat (as_u32 (length w)) = length w" by (intro unat_as_u32) simp
    then have adv: "inode_advance ?n1 (length w) = Some (grow nd b (length w))"
      using sz by (simp add: inode_advance_def set_inode_block_def add_u32_def grow_def as_u32_def)
    have pos: "0 < length w" using w(1) by simp
    note G = node_shape_grow [OF nd pos w(2) s at(4)]
    have "?bs[unat b := ?buf] ! c = ?bs ! c" if "c \<in> taken_blocks fs - node_blocks nd" for c
      using that at(5) by (intro nth_list_update_neq) auto
    moreover have "in_is_directory (grow nd b (length w)) = in_is_directory nd" by (simp add: grow_def)
    ultimately have "grown blocks dev_ok fs nd (?f1\<lparr>fs_device := d'\<rparr>) (grow nd b (length w))"
      unfolding grown_def using G at(3,5) sub d' by (auto simp: taken_blocks_fields)
    then show ?thesis using at d'(1,2) adv by (intro disjI2 exI [of _ ?f1] exI [of _ ?n1] exI [of _ b] exI [of _ d']) simp
  qed blast
qed

text \<open>
  The whole loop: everything is appended, or the device is full and a prefix is.
\<close>

lemma append_loop_law:
  assumes "fs_ok blocks dev_ok fs" and "node_shape nd" and "node_blocks nd \<subseteq> taken_blocks fs"
    and "unat (in_size nd) + length rest \<le> 8192"
  shows "\<exists>fs' nd' r k. append_loop D fs nd rest = Some ((fs', nd'), r) \<and> grown blocks dev_ok fs nd fs' nd' \<and>
    k \<le> length rest \<and> file_bytes (blocks (fs_device fs')) nd' = file_bytes (blocks (fs_device fs)) nd @ take k rest \<and>
    (r = Inr () \<and> k = length rest \<or> r = Inl NoSpaceLeft \<and> k < length rest \<and> bitmap_find_free (fs_data_bitmap fs') = None)"
  using assms
proof (induction "length rest" arbitrary: fs nd rest rule: less_induct)
  case less
  show ?case
  proof (cases "rest = []")
    case True
    then show ?thesis using grown_refl [OF less.prems(1-3)]
      by (intro exI [of _ fs] exI [of _ nd] exI [of _ "Inr ()"] exI [of _ 0]) (simp add: append_loop.simps [of D fs nd "[]"])
  next
    case False
    let ?s = "unat (in_size nd)"
    define n where "n = min (length rest) (512 - ?s mod 512)"
    have s: "?s < 8192" using False less.prems(4) by (cases rest) simp_all
    have k: "?s div 512 < 16" using s by (simp add: div_less_iff_less_mult)
    have n: "0 < n" "n \<le> length rest" "?s mod 512 + n \<le> 512" using False by (simp_all add: n_def)
    have w: "take n rest \<noteq> []" "?s mod 512 + length (take n rest) \<le> 512" "length (take n rest) = n" using n by auto
    have slot: "inode_write_slot nd = \<lparr>ws_block = Some (?s div 512), ws_byte_offset = ?s mod 512, ws_capacity = 512 - ?s mod 512\<rparr>"
      using k node_shapeD(2) [OF less.prems(2)] by (simp add: inode_write_slot_def Let_def)
    have f: "\<forall>buf. length buf = 512 \<longrightarrow> write_chunk_at (?s mod 512) (take n rest) buf = Some (put_at buf (?s mod 512) (take n rest), ())"
      using w by (simp add: write_chunk_at_def copy_to_slice_def)
    from grow_step_law [OF less.prems(1-3) s w(1,2) f] show ?thesis
    proof (elim disjE exE conjE)
      assume a: "attach_block fs nd (?s div 512) = Some ((fs, nd), Inl NoSpaceLeft)" "bitmap_find_free (fs_data_bitmap fs) = None"
      then have "append_loop D fs nd rest = Some ((fs, nd), Inl NoSpaceLeft)"
        using False by (subst append_loop.simps) (simp add: slot)
      then show ?thesis using a(2) False grown_refl [OF less.prems(1-3)]
        by (intro exI [of _ fs] exI [of _ nd] exI [of _ "Inl NoSpaceLeft"] exI [of _ 0]) simp
    next
      fix f1 :: "'d filesystem" and n1 b d'
      let ?nd = "grow nd b n"
      let ?fs = "f1\<lparr>fs_device := d'\<rparr>"
      assume a: "attach_block fs nd (?s div 512) = Some ((f1, n1), Inr b)"
        "modify_block D (fs_device f1) b (write_chunk_at (?s mod 512) (take n rest)) = Some ((), d')"
        "inode_advance n1 (length (take n rest)) = Some (grow nd b (length (take n rest)))"
        "grown blocks dev_ok fs nd ?fs (grow nd b (length (take n rest)))"
        "blocks d' = (blocks (fs_device fs))[unat b := put_at (blocks (fs_device fs) ! unat b) (?s mod 512) (take n rest)]"
        "fits_slot nd b" "unat b < length (blocks (fs_device fs))"
      have g: "grown blocks dev_ok fs nd ?fs ?nd" using a(4) w(3) by simp
      have step: "append_loop D fs nd rest = append_loop D ?fs ?nd (drop n rest)"
        using False a(1-3) w(3) by (subst append_loop.simps) (simp add: slot n_def [symmetric])
      have blk: "length (blocks (fs_device fs) ! c) = 512" if "c \<in> insert (unat b) (node_blocks nd)" for c
        using that a(7) less.prems(3) taken_blocks_bound(2) [OF less.prems(1)] fs_okD(2) [OF less.prems(1)] by blast
      have content: "file_bytes (blocks d') ?nd = file_bytes (blocks (fs_device fs)) nd @ take n rest"
        using file_bytes_grow [OF less.prems(2) w(1,2) s a(6) blk a(7)] w(3) by (simp add: a(5))
      have pre: "fs_ok blocks dev_ok ?fs" "node_shape ?nd" "node_blocks ?nd \<subseteq> taken_blocks ?fs" "length (drop n rest) < length rest"
        using g n by (auto simp: grown_def)
      have "unat (in_size ?nd) = ?s + n" using unat_grow less.prems(4) n(2) by simp
      then have "unat (in_size ?nd) + length (drop n rest) \<le> 8192" using less.prems(4) n(2) by simp
      from less.hyps [OF pre(4,1-3) this] obtain fs' nd' r k where
        r: "append_loop D ?fs ?nd (drop n rest) = Some ((fs', nd'), r)" "grown blocks dev_ok ?fs ?nd fs' nd'"
        "k \<le> length (drop n rest)" "file_bytes (blocks (fs_device fs')) nd' = file_bytes (blocks d') ?nd @ take k (drop n rest)"
        "r = Inr () \<and> k = length (drop n rest) \<or> r = Inl NoSpaceLeft \<and> k < length (drop n rest) \<and> bitmap_find_free (fs_data_bitmap fs') = None"
        by auto
      have "take n rest @ take k (drop n rest) = take (n + k) rest" by (simp add: take_add)
      then show ?thesis using r step content grown_trans [OF g r(2)] n(2)
        by (intro exI [of _ fs'] exI [of _ nd'] exI [of _ r] exI [of _ "n + k"]) auto
    qed
  qed
qed

end

section \<open>Appending and reading\<close>

text \<open>\<open>read_file\<close> decodes every block on its own, so every block has to be text.\<close>

definition utf8_blocks :: "nat \<Rightarrow> bytes \<Rightarrow> bool" where
  "utf8_blocks n c \<longleftrightarrow> (\<forall>k < n. valid_utf8 (take 512 (drop (512 * k) c)))"

lemma utf8_blocks_Suc: "utf8_blocks (Suc n) c \<longleftrightarrow> valid_utf8 (take 512 c) \<and> utf8_blocks n (drop 512 c)"
  by (auto simp: utf8_blocks_def less_Suc_eq_0_disj add.commute)

lemma valid_utf8_ascii: "list_all (\<lambda>b. b < 128) s \<Longrightarrow> valid_utf8 s"
  by (induction s) auto

lemma utf8_blocks_ascii: "list_all (\<lambda>b. b < 128) c \<Longrightarrow> utf8_blocks n c"
  unfolding utf8_blocks_def
  by (intro allI impI valid_utf8_ascii) (auto simp: list_all_iff dest: in_set_takeD in_set_dropD)

lemma used_length: "node_shape nd \<Longrightarrow> length (used_blocks nd) \<le> 16 \<and> unat (in_size nd) \<le> 512 * length (used_blocks nd)"
  using used_blocks_take [of nd] node_shapeD(2,3) [of nd] le_div_ceil_mult [of 512 "unat (in_size nd)"]
  by (simp add: min_def mult.commute)

lemma afs_ok_file:
  assumes "afs_ok a" and "a i = Some (File c)"
  shows "afs_ok (a(i \<mapsto> File c'))"
proof -
  have dir: "is_dir (a(i \<mapsto> File c')) = is_dir a" using assms(2) by (auto simp: is_dir_def fun_eq_iff)
  have ent: "entries_of (a(i \<mapsto> File c')) = entries_of a" using assms(2) by (auto simp: entries_of_def fun_eq_iff)
  have "dir_wf (a(i \<mapsto> File c')) j es \<longleftrightarrow> dir_wf a j es" for j es
    unfolding dir_wf_def dir using assms(2) by (auto simp: case_prod_unfold)
  then show ?thesis using assms unfolding afs_ok_def dir ent by auto
qed

lemma spec_resolve_entry:
  assumes "spec_resolve a path = Inr (p, nm, i)"
  shows "(nm, i) \<in> set (entries_of a p)" and "a i = None \<Longrightarrow> \<not> afs_ok a"
proof -
  show "(nm, i) \<in> set (entries_of a p)"
    using assms by (auto simp: spec_resolve_def Let_def split: prod.splits option.splits dest: map_of_SomeD)
  then show "a i = None \<Longrightarrow> \<not> afs_ok a" using entries_of_wf(2) by blast
qed

lemma resolved_alloc:
  assumes "fs_inv B ok fs" and "spec_resolve (fs_abs B fs) path = Inr (p, nm, i)"
  shows "i \<in> fs_alloc fs" and "p \<in> fs_alloc fs"
proof -
  show "i \<in> fs_alloc fs" using spec_resolve_entry(2) [OF assms(2)] fs_invD(5) [OF assms(1)] by (auto simp: fs_abs_None)
  have "entries_of (fs_abs B fs) p \<noteq> []" using spec_resolve_entry(1) [OF assms(2)] by auto
  then show "p \<in> fs_alloc fs" by (auto simp: entries_of_def fs_abs_def split: if_splits)
qed

context block_device
begin

lemma append_to_file_law:
  assumes "fs_inv blocks dev_ok fs"
  shows "\<exists>fs' r. append_to_file D fs path data = Some (fs', r) \<and> fs_inv blocks dev_ok fs' \<and> fs_lay fs' = fs_lay fs \<and>
    (case spec_resolve (fs_abs blocks fs) path of
       Inl e \<Rightarrow> r = Inl e \<and> fs_abs blocks fs' = fs_abs blocks fs
     | Inr (p, nm, i) \<Rightarrow>
         (case fs_abs blocks fs i of
            Some (File c) \<Rightarrow>
              if length c + length data > 8192 then r = Inl FileTooLarge \<and> fs_abs blocks fs' = fs_abs blocks fs
              else r = Inr (length data) \<and> fs_abs blocks fs' = (fs_abs blocks fs)(i \<mapsto> File (c @ data)) \<or>
                r = Inl NoSpaceLeft \<and> bitmap_find_free (fs_data_bitmap fs') = None \<and>
                  (\<exists>k < length data. fs_abs blocks fs' = (fs_abs blocks fs)(i \<mapsto> File (c @ take k data)))
          | _ \<Rightarrow> r = Inl IsDirectory \<and> fs_abs blocks fs' = fs_abs blocks fs))"
proof -
  from resolve_path_law [OF assms, of path] obtain f1 where
    f1: "resolve_path D fs path = Some (f1, map_sum id resolved_record (spec_resolve (fs_abs blocks fs) path))"
    "fs_ok blocks dev_ok f1" "same_view blocks fs f1" by blast
  note i1 = fs_inv_same_view [OF assms f1(2,3)]
  show ?thesis
  proof (cases "spec_resolve (fs_abs blocks fs) path")
    case (Inl e)
    then show ?thesis using f1(1,3) i1 by (simp add: append_to_file_def same_view_def)
  next
    case (Inr res)
    obtain p nm i where res: "res = (p, nm, i)" by (cases res)
    have i: "i \<in> fs_alloc f1" using resolved_alloc(1) [OF assms] Inr i1(3) by (simp add: res)
    from lookup_inode_mut_law [OF f1(2) fs_alloc_bound [OF i]] obtain f2 where
      f2: "lookup_inode_mut D f1 i = Some (fs_node blocks f1 i, f2)" "fs_ok blocks dev_ok f2" "same_view blocks f1 f2"
      "fs_dirty f2 = insert (unat i) (fs_dirty f1)" by blast
    note i2 = fs_inv_same_view [OF i1(1) f2(2,3)]
    let ?nd = "fs_node blocks f2 i"
    have i': "i \<in> fs_alloc f2" using i by (simp add: i2(3))
    have same: "fs_node blocks f1 i = ?nd" using i2(4) [OF i] by simp
    have abs: "fs_abs blocks f2 = fs_abs blocks fs" using i2(2) i1(2) by simp
    have lay: "fs_lay f2 = fs_lay fs" using f1(3) f2(3) by (simp add: same_view_def)
    have run: "append_to_file D fs path data =
        (if in_is_directory ?nd then Some (f2, Inl IsDirectory)
         else if unat (in_size ?nd) + length data > 8192 then Some (f2, Inl FileTooLarge)
         else do {
           ((f3, nd), r) \<leftarrow> append_loop D f2 ?nd data;
           Some (store_inode f3 i nd, and_then r (\<lambda>_. Inr (length data)))
         })"
      using f1(1) f2(1) Inr by (simp add: append_to_file_def res resolved_record_def same)
    show ?thesis
    proof (cases "in_is_directory ?nd")
      case True
      then have "\<exists>es. fs_abs blocks fs i = Some (Dir es)" using fs_abs_eq [OF i', of blocks] by (simp add: abs node_view_def)
      then show ?thesis using run True Inr i2(1) abs lay by (auto simp: res)
    next
      case False
      note I = fs_invD [OF i2(1)] 
      note sh = node_okD(1) [OF I(2) [OF i']]
      let ?c = "file_bytes (blocks (fs_device f2)) ?nd"
      have fc: "fs_abs blocks fs i = Some (File ?c)" using False fs_abs_eq [OF i', of blocks] by (simp add: abs node_view_def)
      have "length (blocks (fs_device f2) ! b) = 512" if "b \<in> node_blocks ?nd" for b
        using that I(3) [OF i'] taken_blocks_bound(2) [OF I(1)] fs_okD(2) [OF I(1)] by blast
      from file_bytes_length [OF sh this] have len: "length ?c = unat (in_size ?nd)" .
      show ?thesis
      proof (cases "unat (in_size ?nd) + length data > 8192")
        case True
        then show ?thesis using run False Inr i2(1) abs lay fc len by (auto simp: res)
      next
        case small: False
        from append_loop_law [OF I(1) sh I(3) [OF i'], of data] small obtain f3 nd r k where
          l: "append_loop D f2 ?nd data = Some ((f3, nd), r)" "grown blocks dev_ok f2 ?nd f3 nd" "k \<le> length data"
          "file_bytes (blocks (fs_device f3)) nd = ?c @ take k data"
          "r = Inr () \<and> k = length data \<or> r = Inl NoSpaceLeft \<and> k < length data \<and> bitmap_find_free (fs_data_bitmap f3) = None" by auto
        have nd: "node_ok nd" "node_view (blocks (fs_device f3)) nd = File (?c @ take k data)"
          using l(2,4) False by (auto simp: node_ok_def grown_def node_view_def)
        have dirty: "unat i \<in> fs_dirty f3" "fs_lay f3 = fs_lay fs" using l(2) f2(4) lay by (simp_all add: grown_def)
        have tree: "afs_ok ((fs_abs blocks f2)(i \<mapsto> node_view (blocks (fs_device f3)) nd))"
          unfolding nd(2) using I(5) fc by (intro afs_ok_file) (simp_all add: abs)
        have "fs_struct blocks dev_ok f2" using i2(1) by (simp add: fs_inv_def)
        note st = grown_store [OF this i' l(2) dirty(1) nd(1)]
        have inv: "fs_inv blocks dev_ok (store_inode f3 i nd)" using st tree by (simp add: fs_inv_def)
        have "append_to_file D fs path data = Some (store_inode f3 i nd, and_then r (\<lambda>_. Inr (length data)))"
          using run False small l(1) by simp
        then show ?thesis using inv st(2) l(5) Inr fc len small dirty(2) by (auto simp: res abs nd(2))
      qed
    qed
  qed
qed

lemma read_file_blocks_law:
  assumes "dev_ok d" and "\<And>x. x \<in> set ds \<Longrightarrow> x \<noteq> None \<and> unat (the x) < length (blocks d)"
  shows "\<exists>d'. dev_ok d' \<and> blocks d' = blocks d \<and>
    (let c = take n (concat (map (\<lambda>x. blocks d ! unat (the x)) ds))
     in read_file_blocks D d ds n out = (if utf8_blocks (length ds) c then Some (out @ c, d') else None))"
  using assms
proof (induction ds arbitrary: d n out)
  case Nil
  then show ?case by (intro exI [of _ d]) (simp add: utf8_blocks_def)
next
  case (Cons x ds)
  from Cons.prems(2) [of x] obtain b where b: "x = Some b" "unat b < length (blocks d)" by auto
  from read_law [OF Cons.prems(1) b(2)] obtain d1 where
    d1: "read_block D d b = Some (blocks d ! unat b, d1)" "dev_ok d1" "blocks d1 = blocks d" by blast
  have len: "length (blocks d ! unat b) = 512" by (rule block_length [OF Cons.prems(1) b(2)])
  let ?v = "min n 512" and ?r = "concat (map (\<lambda>x. blocks d ! unat (the x)) ds)"
  let ?c = "take n ((blocks d ! unat b) @ ?r)"
  from Cons.IH [OF d1(2), of "n - ?v" "out @ take ?v (blocks d ! unat b)"] Cons.prems(2) obtain d2 where
    d2: "dev_ok d2" "blocks d2 = blocks d" "read_file_blocks D d1 ds (n - ?v) (out @ take ?v (blocks d ! unat b)) =
      (if utf8_blocks (length ds) (take (n - ?v) ?r) then Some (out @ take ?v (blocks d ! unat b) @ take (n - ?v) ?r, d2) else None)"
    by (auto simp: d1(3) Let_def)
  have split: "take 512 ?c = take ?v (blocks d ! unat b)" "drop 512 ?c = take (n - ?v) ?r" "?c = take ?v (blocks d ! unat b) @ take (n - ?v) ?r"
    using len by (auto simp: min_def)
  have "slice (blocks d ! unat b) 0 ?v = Some (take ?v (blocks d ! unat b))" using len by (simp add: slice_def)
  then have "read_file_blocks D d (x # ds) n out = (if utf8_blocks (Suc (length ds)) ?c then Some (out @ ?c, d2) else None)"
    unfolding utf8_blocks_Suc split(1,2) using d1(1) d2(3) b(1) by (simp add: to_block_def Let_def flip: split(3))
  then show ?case using d2(1,2) b(1) by (intro exI [of _ d2]) simp
qed

lemma read_file_law:
  assumes "fs_inv blocks dev_ok fs"
  shows "\<exists>fs'. fs_inv blocks dev_ok fs' \<and> fs_abs blocks fs' = fs_abs blocks fs \<and> read_file D fs path =
    (case spec_resolve (fs_abs blocks fs) path of
       Inl e \<Rightarrow> Some (fs', Inl e)
     | Inr (p, nm, i) \<Rightarrow>
         (case fs_abs blocks fs i of
            Some (File c) \<Rightarrow> if utf8_blocks 16 c then Some (fs', Inr c) else None
          | _ \<Rightarrow> Some (fs', Inl IsDirectory)))"
proof -
  from resolve_path_law [OF assms, of path] obtain f1 where
    f1: "resolve_path D fs path = Some (f1, map_sum id resolved_record (spec_resolve (fs_abs blocks fs) path))"
    "fs_ok blocks dev_ok f1" "same_view blocks fs f1" by blast
  note i1 = fs_inv_same_view [OF assms f1(2,3)]
  show ?thesis
  proof (cases "spec_resolve (fs_abs blocks fs) path")
    case (Inl e)
    then show ?thesis using f1(1) i1 by (auto simp: read_file_def)
  next
    case (Inr res)
    obtain p nm i where res: "res = (p, nm, i)" by (cases res)
    have i: "i \<in> fs_alloc f1" using resolved_alloc(1) [OF assms] Inr i1(3) by (simp add: res)
    from lookup_inode_mut_law [OF f1(2) fs_alloc_bound [OF i]] obtain f2 where
      f2: "lookup_inode_mut D f1 i = Some (fs_node blocks f1 i, f2)" "fs_ok blocks dev_ok f2" "same_view blocks f1 f2" by blast
    note i2 = fs_inv_same_view [OF i1(1) f2(2,3)]
    let ?nd = "fs_node blocks f2 i"
    have i': "i \<in> fs_alloc f2" using i by (simp add: i2(3))
    have same: "fs_node blocks f1 i = ?nd" using i2(4) [OF i] by simp
    have abs: "fs_abs blocks f2 = fs_abs blocks fs" using i2(2) i1(2) by simp
    note I = fs_invD [OF i2(1)]
    show ?thesis
    proof (cases "in_is_directory ?nd")
      case True
      then have "\<exists>es. fs_abs blocks fs i = Some (Dir es)" using fs_abs_eq [OF i', of blocks] by (simp add: abs node_view_def)
      then show ?thesis using f1(1) f2(1) True Inr i2(1) abs by (auto simp: read_file_def res resolved_record_def same)
    next
      case False
      let ?c = "file_bytes (blocks (fs_device f2)) ?nd"
      have fc: "fs_abs blocks fs i = Some (File ?c)" using False fs_abs_eq [OF i', of blocks] by (simp add: abs node_view_def)
      have "x \<noteq> None \<and> unat (the x) < length (blocks (fs_device f2))" if "x \<in> set (used_blocks ?nd)" for x
        using that used_blocks_Some I(3) [OF i'] taken_blocks_bound(2) [OF I(1)] by (auto simp: node_blocks_used)
      from read_file_blocks_law [OF fs_okD(1) [OF I(1)] this, of "used_blocks ?nd" "unat (in_size ?nd)" "[]"] obtain d' where
        d': "dev_ok d'" "blocks d' = blocks (fs_device f2)" "read_file_blocks D (fs_device f2) (used_blocks ?nd) (unat (in_size ?nd)) [] =
          (if utf8_blocks (length (used_blocks ?nd)) ?c then Some (?c, d') else None)"
        by (auto simp: file_bytes_def Let_def)
      have "utf8_blocks (length (used_blocks ?nd)) ?c \<longleftrightarrow> utf8_blocks 16 ?c"
      proof -
        have u: "length (used_blocks ?nd) \<le> 16" "length ?c \<le> 512 * length (used_blocks ?nd)"
          using used_length [OF node_okD(1) [OF I(2) [OF i']]] by (auto simp: file_bytes_def)
        have "drop (512 * k) ?c = []" if "length (used_blocks ?nd) \<le> k" for k using that u(2) by auto
        then have "valid_utf8 (take 512 (drop (512 * k) ?c))" if "length (used_blocks ?nd) \<le> k" for k using that by simp
        then show ?thesis using u(1) unfolding utf8_blocks_def by (meson not_less order_less_le_trans)
      qed
      then have run: "read_file D fs path = (if utf8_blocks 16 ?c then Some (f2\<lparr>fs_device := d'\<rparr>, Inr ?c) else None)"
        using f1(1) f2(1) Inr False d'(3) by (simp add: read_file_def res resolved_record_def same)
      let ?f3 = "f2\<lparr>fs_device := d'\<rparr>"
      have ok3: "fs_ok blocks dev_ok ?f3"
        by (rule fs_ok_device [OF I(1) d'(1)]) (use fs_okD(2) [OF I(1)] in \<open>simp_all add: d'(2)\<close>)
      have "fs_node blocks ?f3 j = fs_node blocks f2 j" for j by (simp add: fs_node_def d'(2) split: option.splits)
      then have "same_view blocks f2 ?f3" by (simp add: same_view_def d'(2))
      note i3 = fs_inv_same_view [OF i2(1) ok3 this]
      show ?thesis using run Inr fc i3(1,2) abs by (intro exI [of _ ?f3]) (simp add: res)
    qed
  qed
qed

end

end
