(* ===== verification/FS_Create.thy ===== *)
theory FS_Create
  imports FS_Files
begin

text \<open>
  Creating files and directories (\<open>new_dir_entry\<close>, \<open>write_dir_entry\<close>, \<open>create_empty_root\<close>).
\<close>

section \<open>Names in paths\<close>

lemma valid_utf8_cut:
  assumes "valid_utf8 (xs @ c # ys)" and "c < 128"
  shows "valid_utf8 xs" and "valid_utf8 ys"
proof -
  have c: "\<not> utf8_cont c" using assms(2) by (simp add: utf8_cont_def not_le)
  have "valid_utf8 xs \<and> valid_utf8 ys"
    using assms(1)
  proof (induction "length xs" arbitrary: xs rule: less_induct)
    case less
    show ?case
    proof (cases xs)
      case Nil
      then show ?thesis using less.prems assms(2) by simp
    next
      case (Cons a s)
      have IH: "valid_utf8 (t @ c # ys) \<Longrightarrow> length t < length xs \<Longrightarrow> valid_utf8 t \<and> valid_utf8 ys" for t
        using less.hyps by blast
      note v = less.prems [unfolded Cons append_Cons valid_utf8.simps]
      consider "a < 128" | "\<not> a < 128" "194 \<le> a \<and> a < 224" | "\<not> a < 128" "\<not> (194 \<le> a \<and> a < 224)" "224 \<le> a \<and> a < 240"
        | "\<not> a < 128" "\<not> (194 \<le> a \<and> a < 224)" "\<not> (224 \<le> a \<and> a < 240)" "240 \<le> a \<and> a < 245"
        using v by argo
      then show ?thesis
      proof cases
        case 1
        then show ?thesis using v IH [of s] by (simp add: Cons)
      next
        case 2
        note eq = valid_utf8.simps(2) [of a, simplified 2 if_False if_True]
        show ?thesis using v c IH [of "tl s"] unfolding Cons eq
          by (cases s) (simp_all add: 2 del: valid_utf8.simps(2))
      next
        case 3
        note eq = valid_utf8.simps(2) [of a, simplified 3 if_False if_True]
        show ?thesis using v c IH [of "tl (tl s)"] unfolding Cons eq
          by (cases s; cases "tl s") (simp_all add: 3 split: list.splits del: valid_utf8.simps(2))
      next
        case 4
        note eq = valid_utf8.simps(2) [of a, simplified 4 if_False if_True]
        show ?thesis using v c IH [of "tl (tl (tl s))"] unfolding Cons eq
          by (cases s; cases "tl s"; cases "tl (tl s)") (simp_all add: 4 split: list.splits del: valid_utf8.simps(2))
      qed
    qed
  qed
  then show "valid_utf8 xs" "valid_utf8 ys" by simp_all
qed

lemma split_at_char_parts:
  assumes "p \<in> set (split_at_char c xs)"
  shows "c \<notin> set p" and "set p \<subseteq> set xs" and "valid_utf8 xs \<Longrightarrow> c < 128 \<Longrightarrow> valid_utf8 p"
proof -
  have "c \<notin> set p \<and> set p \<subseteq> set xs \<and> (valid_utf8 xs \<longrightarrow> c < 128 \<longrightarrow> valid_utf8 p)"
    using assms
  proof (induction "length xs" arbitrary: xs rule: less_induct)
    case less
    show ?case
    proof (cases "c \<in> set xs")
      case False
      then show ?thesis using less.prems by (simp add: split_at_char_none)
    next
      case True
      then obtain q ys where q: "xs = q @ c # ys" "c \<notin> set q" by (metis split_list_first)
      have "valid_utf8 q \<and> valid_utf8 ys" if "valid_utf8 xs" "c < 128"
        using that valid_utf8_cut [of q c ys] by (simp add: q(1))
      moreover from less.prems q have "p = q \<or> p \<in> set (split_at_char c ys)" by (simp add: split_at_char_cut)
      ultimately show ?thesis using less.hyps [of ys] q by auto
    qed
  qed
  then show "c \<notin> set p" "set p \<subseteq> set xs" "valid_utf8 xs \<Longrightarrow> c < 128 \<Longrightarrow> valid_utf8 p" by simp_all
qed

lemma path_parts_proper:
  assumes "p \<in> set (path_parts path)" and "valid_utf8 path" and "0 \<notin> set path" and "length p \<le> 24"
  shows "proper_name p"
proof -
  have p: "p \<noteq> []" "p \<in> set (split_at_char SLASH path)" using assms(1) by (auto simp: path_parts_def)
  have "SLASH < 128" by (simp add: SLASH_def)
  then show ?thesis using split_at_char_parts [OF p(2)] assms p(1) by (auto simp: proper_name_def)
qed

lemma proper_dots [simp]: "proper_name DOT" "proper_name DOTDOT"
  by (simp_all add: proper_name_def DOT_def DOTDOT_def SLASH_def)

lemma entry_pair_new: "proper_name nm \<Longrightarrow> entry_pair (dir_entry_new nm i) = (nm, i)"
  by (simp add: entry_pair_def dir_entry_new_name proper_name_def)

section \<open>Trees\<close>

lemma entries_of_fresh:
  assumes "afs_ok a" and "a i = None" and "(nm, j) \<in> set (entries_of a k)"
  shows "j \<noteq> i"
  using entries_of_wf(2) [OF assms(1,3)] assms(2) by auto

text \<open>Adding an entry for a new node: an empty file or a directory that holds itself and its parent.\<close>

lemma afs_ok_create:
  assumes ok: "afs_ok a" and cur: "a cur = Some (Dir es)" and fresh: "a i = None" and nm: "proper_name nm" "nm \<notin> fst ` set es"
    and n: "n = File [] \<or> n = Dir [(DOT, i), (DOTDOT, cur)]"
  shows "afs_ok (a(i \<mapsto> n, cur \<mapsto> Dir (es @ [(nm, i)])))"
proof -
  let ?a = "a(i \<mapsto> n, cur \<mapsto> Dir (es @ [(nm, i)]))"
  have ne: "i \<noteq> cur" using cur fresh by auto
  have dirs: "is_dir ?a k \<longleftrightarrow> is_dir a k \<or> k = i \<and> n \<noteq> File []" for k
    using n cur fresh ne by (auto simp: is_dir_def)
  have some: "a k \<noteq> None \<Longrightarrow> ?a k \<noteq> None" for k by simp
  have ent: "entries_of ?a k = (if k = cur then es @ [(nm, i)] else if k = i then (if n = File [] then [] else [(DOT, i), (DOTDOT, cur)]) else entries_of a k)" for k
    using n ne by (auto simp: entries_of_def)
  have es: "es = entries_of a cur" using cur by (simp add: entries_of_def)
  have wf_mono: "dir_wf ?a k ds" if "dir_wf a k ds" for k ds
    using that some dirs unfolding dir_wf_def by (fastforce simp: case_prod_unfold)
  have "dir_wf a cur es" using ok cur by (simp add: afs_ok_def)
  then have "dir_wf ?a cur es" by (rule wf_mono)
  then have cur': "dir_wf ?a cur (es @ [(nm, i)])" using nm by (auto simp: dir_wf_def)
  have i': "dir_wf ?a i [(DOT, i), (DOTDOT, cur)]" by (auto simp: dir_wf_def is_dir_def DOT_def DOTDOT_def SLASH_def proper_name_def)
  have wf: "dir_wf ?a k ds" if "?a k = Some (Dir ds)" for k ds
  proof (cases "k = cur")
    case True
    then show ?thesis using that cur' by simp
  next
    case False
    then show ?thesis using that i' n ok wf_mono by (cases "k = i") (auto simp: afs_ok_def)
  qed
  have files: "k = m \<and> p = q" if h: "is_dir ?a k" "is_dir ?a m" "p < length (entries_of ?a k)" "q < length (entries_of ?a m)"
    "snd (entries_of ?a k ! p) = snd (entries_of ?a m ! q)" "\<not> is_dir ?a (snd (entries_of ?a k ! p))" for k m p q
  proof -
    have old: "snd (entries_of ?a x ! y) \<noteq> i \<and> is_dir a x \<and> y < length (entries_of a x) \<and> entries_of ?a x ! y = entries_of a x ! y \<or>
        x = cur \<and> y = length es \<and> snd (entries_of ?a x ! y) = i"
      if "is_dir ?a x" "y < length (entries_of ?a x)" "\<not> is_dir ?a (snd (entries_of ?a x ! y))" for x y
    proof (cases "x = cur")
      case True
      then have "y < length es \<or> y = length es" using that(2) by (auto simp: ent)
      moreover have "is_dir a cur" using cur by (simp add: is_dir_def)
      moreover have "snd (es ! y) \<noteq> i" if "y < length es"
        using entries_of_fresh [OF ok fresh, of "fst (es ! y)" "snd (es ! y)" cur] that nth_mem es by auto
      ultimately show ?thesis using True by (auto simp: ent nth_append simp flip: es)
    next
      case False
      show ?thesis
      proof (cases "x = i")
        case True
        then have nd: "n \<noteq> File []" using that(1) dirs [of i] fresh by (auto simp: is_dir_def)
        then have ei: "entries_of ?a x = [(DOT, i), (DOTDOT, cur)]" using True False ent [of x] by simp
        have "is_dir ?a i" "is_dir ?a cur" using nd dirs cur by (simp_all add: is_dir_def)
        moreover have "y = 0 \<or> y = 1" using that(2) by (auto simp: ei less_Suc_eq)
        ultimately have "is_dir ?a (snd (entries_of ?a x ! y))" unfolding ei by auto
        then show ?thesis using that(3) by simp
      next
        case x: False
        then have "is_dir a x" using that(1) dirs by auto
        moreover have "snd (entries_of a x ! y) \<noteq> i" if "y < length (entries_of a x)"
          using entries_of_fresh [OF ok fresh, of "fst (entries_of a x ! y)" "snd (entries_of a x ! y)" x] that nth_mem by auto
        ultimately show ?thesis using that(2) False x by (auto simp: ent)
      qed
    qed
    from old [OF h(1,3,6)] old [OF h(2,4)] h(5,6) show ?thesis
      using ok h dirs unfolding afs_ok_def by (metis (no_types, lifting))
  qed
  show ?thesis unfolding afs_ok_def
  proof (intro conjI allI impI)
    show "is_dir ?a 0" using ok dirs by (simp add: afs_ok_def)
  qed (use wf files in blast)+
qed

section \<open>Entries in a block\<close>

lemma read_dir_entry_at_cong:
  assumes "length buf' = length buf" and "\<And>k. off \<le> k \<Longrightarrow> k < off + 28 \<Longrightarrow> buf' ! k = buf ! k"
  shows "read_dir_entry_at buf' off = read_dir_entry_at buf off"
proof -
  have "slice buf' off (off + 24) = slice buf off (off + 24)" "slice buf' (off + 24) (28 + off) = slice buf (off + 24) (28 + off)"
    using assms by (auto intro!: slice_cong)
  then show ?thesis
    by (cases "slice buf off (off + 24)"; cases "slice buf (off + 24) (28 + off)")
      (simp_all add: read_dir_entry_at_def dir_entry_read_from_def read_bytes_def read_u32_def br_at_def)
qed

lemma entry_at_put:
  assumes "dir_entry_wf e" and "k * 28 + 28 \<le> length buf" and "j * 28 + 28 \<le> length buf"
  shows "entry_at (put_at buf (k * 28) (dir_entry_bytes e)) j = (if j = k then e else entry_at buf j)"
proof -
  let ?buf = "put_at buf (k * 28) (dir_entry_bytes e)"
  note len = length_dir_entry_bytes [OF assms(1)]
  show ?thesis
  proof (cases "j = k")
    case True
    have "bytes_at ?buf (k * 28) (dir_entry_bytes e)" using assms(2) len by (intro bytes_at_splice) simp
    from dir_entry_read_from_at [OF assms(1) this] show ?thesis
      using True by (simp add: entry_at_def read_dir_entry_at_def)
  next
    case False
    then have "j * 28 + 28 \<le> k * 28 \<or> k * 28 + 28 \<le> j * 28" by auto
    then have "read_dir_entry_at ?buf (j * 28) = read_dir_entry_at buf (j * 28)"
      using assms(2,3) len by (intro read_dir_entry_at_cong) (auto simp: nth_splice)
    then show ?thesis using False by (simp add: entry_at_def)
  qed
qed

lemma dir_entries_grow:
  assumes nd: "node_shape nd" and s: "unat (in_size nd) = 28 * m" "m < 18" and b: "fits_slot nd b" "unat b < length bs"
    and len: "length (bs ! unat b) = 512" and e: "dir_entry_wf e"
  shows "dir_entries (bs[unat b := put_at (bs ! unat b) (unat (in_size nd)) (dir_entry_bytes e)]) (grow nd b 28) = dir_entries bs nd @ [e]"
proof -
  let ?buf = "put_at (bs ! unat b) (m * 28) (dir_entry_bytes e)"
  have z: "unat (in_size nd) div 512 = 0" using s by simp
  have b0: "in_blocks (grow nd b 28) ! 0 = Some b" using node_shapeD(2) [OF nd] z by (simp add: grow_def)
  have sz: "unat (in_size (grow nd b 28)) = 28 * Suc m" using unat_grow [of nd 28 b] s by simp
  have old: "dir_entries bs nd = map (entry_at (bs ! unat b)) [0..<m]"
  proof (cases "m = 0")
    case True
    then show ?thesis using s by (simp add: dir_entries_def split: option.splits)
  next
    case False
    then have "in_blocks nd ! 0 \<noteq> None" using node_shapeD(4) [OF nd, of 0] s by simp
    then have "in_blocks nd ! 0 = Some b" using b(1) z by (auto simp: fits_slot_def Let_def)
    then show ?thesis using s by (simp add: dir_entries_def)
  qed
  have "entry_at ?buf j = (if j = m then e else entry_at (bs ! unat b) j)" if "j \<le> m" for j
    using entry_at_put [OF e, of m "bs ! unat b" j] that s(2) len by simp
  then have "map (entry_at ?buf) [0..<Suc m] = map (entry_at (bs ! unat b)) [0..<m] @ [e]" by simp
  then show ?thesis unfolding old by (simp add: dir_entries_def b0 sz s(1) b(2) mult.commute del: upt_Suc)
qed

section \<open>Writing an entry\<close>

lemma inode_wf_new [simp]: "inode_wf new_empty_file" "inode_wf new_empty_directory"
  by (simp_all add: inode_wf_def new_empty_file_def new_empty_directory_def list_all_iff)

lemma entries_size:
  assumes "fs_struct B ok fs" and "i \<in> fs_alloc fs" and "in_is_directory (fs_node B fs i)"
  shows "unat (in_size (fs_node B fs i)) = 28 * length (entries_of (fs_abs B fs) i)" and "length (entries_of (fs_abs B fs) i) \<le> 18"
proof -
  let ?nd = "fs_node B fs i"
  note ok = node_okD [OF fs_structD(2) [OF assms(1,2)]]
  have d: "28 dvd unat (in_size ?nd)" "unat (in_size ?nd) \<le> 504" using ok(2) assms(3) by auto
  have "length (dir_entries (B (fs_device fs)) ?nd) = unat (in_size ?nd) div 28"
    using node_shapeD(4) [OF ok(1), of 0] by (cases "in_blocks ?nd ! 0") (auto simp: dir_entries_def)
  then have "length (entries_of (fs_abs B fs) i) = unat (in_size ?nd) div 28"
    using assms(3) by (simp add: entries_of_abs [OF assms(2)])
  then show "unat (in_size ?nd) = 28 * length (entries_of (fs_abs B fs) i)" "length (entries_of (fs_abs B fs) i) \<le> 18"
    using d by auto
qed

context block_device
begin

text \<open>
  A directory takes eighteen entries. The nineteenth would cross the end of the block, where the copy
  panics. The first entry needs a data block.
\<close>

lemma write_dir_entry_law:
  assumes S: "fs_struct blocks dev_ok fs" and i: "i \<in> fs_alloc fs" and dir: "fs_abs blocks fs i = Some (Dir es)" and e: "dir_entry_wf e"
  shows "length es = 18 \<Longrightarrow> write_dir_entry D fs e i = None"
    and "length es < 18 \<Longrightarrow> es = [] \<Longrightarrow> bitmap_find_free (fs_data_bitmap fs) = None \<Longrightarrow>
      \<exists>fs'. write_dir_entry D fs e i = Some (fs', Inl NoSpaceLeft)"
    and "length es < 18 \<Longrightarrow> es \<noteq> [] \<or> bitmap_find_free (fs_data_bitmap fs) \<noteq> None \<Longrightarrow>
      \<exists>fs'. write_dir_entry D fs e i = Some (fs', Inr ()) \<and> fs_struct blocks dev_ok fs' \<and>
        fs_abs blocks fs' = (fs_abs blocks fs)(i \<mapsto> Dir (es @ [entry_pair e])) \<and> fs_alloc fs' = fs_alloc fs \<and>
        fs_inode_bitmap fs' = fs_inode_bitmap fs \<and> fs_lay fs' = fs_lay fs \<and> (es \<noteq> [] \<longrightarrow> fs_data_bitmap fs' = fs_data_bitmap fs)"
proof -
  note I = fs_structD [OF S]
  from lookup_inode_mut_law [OF I(1) fs_alloc_bound [OF i]] obtain f2 where
    f2: "lookup_inode_mut D fs i = Some (fs_node blocks fs i, f2)" "fs_ok blocks dev_ok f2" "same_view blocks fs f2"
    "fs_dirty f2 = insert (unat i) (fs_dirty fs)" by blast
  note v = fs_struct_same_view [OF S f2(2,3)]
  note J = fs_structD [OF v(1)]
  let ?nd = "fs_node blocks f2 i" and ?bs = "blocks (fs_device f2)"
  have i2: "i \<in> fs_alloc f2" using i v(3) by simp
  have same: "fs_node blocks fs i = ?nd" using v(4) [OF i] by simp
  have dbm: "fs_data_bitmap f2 = fs_data_bitmap fs" "fs_inode_bitmap f2 = fs_inode_bitmap fs" "fs_lay f2 = fs_lay fs" using f2(3) by (simp_all add: same_view_def)
  have abs2: "fs_abs blocks f2 i = Some (Dir es)" using dir v(2) by simp
  then have d: "in_is_directory ?nd" "entries_of (fs_abs blocks f2) i = es"
    using fs_abs_eq [OF i2, of blocks] by (auto simp: node_view_def entries_of_def split: if_splits)
  note sz = entries_size [OF v(1) i2 d(1), unfolded d(2)]
  note ok = node_okD [OF J(2) [OF i2]]
  have lt: "unat (in_size ?nd) < 512" "unat (in_size ?nd) mod 512 = unat (in_size ?nd)" "unat (in_size ?nd) div 512 = 0" using sz by simp_all
  have slot: "inode_write_slot ?nd = \<lparr>ws_block = Some 0, ws_byte_offset = unat (in_size ?nd), ws_capacity = 512 - unat (in_size ?nd)\<rparr>"
    using node_shapeD(2) [OF ok(1)] lt by (simp add: inode_write_slot_def Let_def)
  have run: "write_dir_entry D fs e i = do {
      ((f3, nd), r) \<leftarrow> attach_block f2 ?nd 0;
      case r of
        Inl err \<Rightarrow> Some (f3, Inl err)
      | Inr b \<Rightarrow> do {
          (_, dev) \<leftarrow> modify_block D (fs_device f3) b (write_dir_entry_at e (unat (in_size ?nd)));
          nd \<leftarrow> inode_advance nd 28;
          Some (store_inode (f3\<lparr>fs_device := dev\<rparr>) i nd, Inr ())
        }
    }"
    using f2(1) d(1) by (simp add: write_dir_entry_def same slot)
  have len: "length (dir_entry_bytes e) = 28" by (rule length_dir_entry_bytes [OF e])
  show "length es = 18 \<Longrightarrow> write_dir_entry D fs e i = None"
  proof -
    assume full: "length es = 18"
    then have s: "unat (in_size ?nd) = 504" using sz by simp
    from node_shapeD(4) [OF ok(1), of 0] s obtain b where b: "in_blocks ?nd ! 0 = Some b" by auto
    then have "unat b \<in> node_blocks ?nd" using node_shapeD(2) [OF ok(1)] by (intro in_node_blocks [of 0]) simp_all
    then have bl: "unat b < length ?bs" using J(3) [OF i2] taken_blocks_bound(2) [OF J(1)] by blast
    from read_law [OF fs_okD(1) [OF f2(2)] bl] obtain d1 where "read_block D (fs_device f2) b = Some (?bs ! unat b, d1)" by blast
    moreover have "write_dir_entry_at e 504 (?bs ! unat b) = None"
      using dir_entry_write_to_None [OF _ e, of "?bs ! unat b" 504] fs_okD(2) [OF f2(2) bl] by (simp add: write_dir_entry_at_def)
    ultimately have "modify_block D (fs_device f2) b (write_dir_entry_at e 504) = None" by (simp add: modify_block_def)
    moreover have "attach_block f2 ?nd 0 = Some ((f2, ?nd), Inr b)"
      using b node_shapeD(2) [OF ok(1)] by (simp add: attach_block_def inode_block_def index_is_empty_def to_block_def)
    ultimately show "write_dir_entry D fs e i = None" by (simp add: run s)
  qed
  assume room: "length es < 18"
  have fit: "dir_entry_bytes e \<noteq> []" "unat (in_size ?nd) mod 512 + length (dir_entry_bytes e) \<le> 512" "unat (in_size ?nd) < 8192"
    using len sz room lt by auto
  have f: "\<forall>buf. length buf = 512 \<longrightarrow> write_dir_entry_at e (unat (in_size ?nd)) buf = Some (put_at buf (unat (in_size ?nd) mod 512) (dir_entry_bytes e), ())"
    using sz room lt(2) by (simp add: write_dir_entry_at_def dir_entry_write_to_splice [OF e])
  note step = grow_step_law [OF J(1) ok(1) J(3) [OF i2] fit(3,1,2) f, unfolded lt(2,3) len]
  have empty: "es = [] \<longleftrightarrow> unat (in_size ?nd) = 0" using sz(1) by simp
  show "\<exists>fs'. write_dir_entry D fs e i = Some (fs', Inl NoSpaceLeft)" if "es = []" "bitmap_find_free (fs_data_bitmap fs) = None"
  proof -
    have "in_blocks ?nd ! 0 = None" using node_shapeD(4) [OF ok(1), of 0] that(1) empty by auto
    then have "attach_block f2 ?nd 0 = Some ((f2, ?nd), Inl NoSpaceLeft)"
      using node_shapeD(2) [OF ok(1)] that(2) by (simp add: attach_block_def inode_block_def index_is_empty_def dbm)
    then show ?thesis by (simp add: run)
  qed
  show "\<exists>fs'. write_dir_entry D fs e i = Some (fs', Inr ()) \<and> fs_struct blocks dev_ok fs' \<and>
        fs_abs blocks fs' = (fs_abs blocks fs)(i \<mapsto> Dir (es @ [entry_pair e])) \<and> fs_alloc fs' = fs_alloc fs \<and>
        fs_inode_bitmap fs' = fs_inode_bitmap fs \<and> fs_lay fs' = fs_lay fs \<and> (es \<noteq> [] \<longrightarrow> fs_data_bitmap fs' = fs_data_bitmap fs)"
    if free: "es \<noteq> [] \<or> bitmap_find_free (fs_data_bitmap fs) \<noteq> None"
    using step
  proof (elim disjE exE conjE)
    fix f3 :: "'d filesystem" and n1 b d'
    assume a: "attach_block f2 ?nd 0 = Some ((f3, n1), Inr b)"
      "modify_block D (fs_device f3) b (write_dir_entry_at e (unat (in_size ?nd))) = Some ((), d')"
      "inode_advance n1 28 = Some (grow ?nd b 28)" "grown blocks dev_ok f2 ?nd (f3\<lparr>fs_device := d'\<rparr>) (grow ?nd b 28)"
      "blocks d' = ?bs[unat b := put_at (?bs ! unat b) (unat (in_size ?nd)) (dir_entry_bytes e)]"
      "fits_slot ?nd b" "unat b < length ?bs" "unat (in_size ?nd) \<noteq> 0 \<longrightarrow> fs_data_bitmap f3 = fs_data_bitmap f2"
    let ?f4 = "f3\<lparr>fs_device := d'\<rparr>" and ?n = "grow ?nd b 28"
    have nok: "node_ok ?n"
      using a(4) sz room unat_grow [of ?nd 28 b] by (simp add: node_ok_def grown_def)
    have dirty: "unat i \<in> fs_dirty ?f4" using a(4) f2(4) by (simp add: grown_def)
    have "node_view (blocks d') ?n = Dir (es @ [entry_pair e])"
      using dir_entries_grow [OF ok(1) sz(1) room a(6,7) fs_okD(2) [OF f2(2) a(7)] e] d entries_of_abs [OF i2, of blocks]
      by (simp add: node_view_def a(5) grow_def)
    moreover note grown_store [OF v(1) i2 a(4) dirty nok]
    ultimately have st: "fs_struct blocks dev_ok (store_inode ?f4 i ?n)"
      "fs_abs blocks (store_inode ?f4 i ?n) = (fs_abs blocks fs)(i \<mapsto> Dir (es @ [entry_pair e]))"
      using v(2) by simp_all
    have ibm: "fs_inode_bitmap f3 = fs_inode_bitmap fs" "fs_lay f3 = fs_lay fs" using a(4) dbm(2,3) by (simp_all add: grown_def)
    have "write_dir_entry D fs e i = Some (store_inode ?f4 i ?n, Inr ())" using a(1-3) by (simp add: run)
    then show ?thesis using st ibm a(8) empty dbm(1)
      by (intro exI [of _ "store_inode ?f4 i ?n"]) (simp add: taken_blocks_fields fs_alloc_def)
  qed (use free empty dbm in auto)
qed

end

section \<open>Creating\<close>

text \<open>Where a path would create its last part: the errors that depend on the tree alone.\<close>

definition spec_create :: "afs \<Rightarrow> bytes \<Rightarrow> fs_error + (inode_index \<times> bytes)" where
  "spec_create a path =
     (let parts = path_parts path
      in if parts = [] then Inl EmptyName
         else if length (last parts) > 24 then Inl NameTooLong
         else and_then (spec_walk a 0 (butlast parts)) (\<lambda>p.
           if map_of (entries_of a p) (last parts) \<noteq> None then Inl EntryExists else Inr (p, last parts)))"

definition empty_inode :: "entry_kind \<Rightarrow> inode" where
  "empty_inode kind = (case kind of EntryFile \<Rightarrow> new_empty_file | EntryDirectory \<Rightarrow> new_empty_directory)"

definition new_node :: "entry_kind \<Rightarrow> inode_index \<Rightarrow> inode_index \<Rightarrow> fnode" where
  "new_node kind i parent = (case kind of EntryFile \<Rightarrow> File [] | EntryDirectory \<Rightarrow> Dir [(DOT, i), (DOTDOT, parent)])"

lemma empty_inode_ok:
  "node_ok (empty_inode kind)" "node_blocks (empty_inode kind) = {}" "inode_wf (empty_inode kind)"
  "node_view bs (empty_inode kind) = (case kind of EntryFile \<Rightarrow> File [] | EntryDirectory \<Rightarrow> Dir [])"
  by (cases kind; simp add: empty_inode_def node_ok_def node_shape_def node_blocks_def node_view_def file_bytes_def
      dir_entries_def used_blocks_def index_is_empty_def new_empty_file_def new_empty_directory_def inode_wf_def list_all_iff)+

lemma list_ex_find: "list_ex P xs \<longleftrightarrow> List.find P xs \<noteq> None"
  by (induction xs) auto

lemma is_dir_entries: "is_dir a i \<longleftrightarrow> a i = Some (Dir (entries_of a i))"
  by (auto simp: is_dir_def entries_of_def split: option.splits fnode.splits)

lemma dir_nonempty:
  assumes "afs_ok a" and "is_dir a i"
  shows "entries_of a i \<noteq> []"
proof -
  have "dir_wf a i (entries_of a i)" using assms is_dir_entries [of a i] unfolding afs_ok_def by blast
  then show ?thesis by (auto simp: dir_wf_def)
qed

lemma directory_has_space:
  assumes "node_ok nd" and "in_is_directory nd"
  shows "has_space nd"
proof -
  note D = node_shapeD [OF node_okD(1) [OF assms(1)]]
  have "in_blocks nd ! 1 = None" using node_okD(2) [OF assms] D(4) [of 1] by auto
  then show ?thesis using D(2) by (auto simp: has_space_def list_ex_length index_is_empty_def intro!: exI [of _ 1])
qed

lemma spec_create_Inr:
  assumes "spec_create a path = Inr (p, nm)" and "afs_ok a" and "valid_utf8 path" and "0 \<notin> set path"
  shows "is_dir a p" and "proper_name nm" and "nm \<notin> fst ` set (entries_of a p)"
proof -
  let ?parts = "path_parts path"
  from assms(1) have c: "?parts \<noteq> []" "length (last ?parts) \<le> 24" "spec_walk a 0 (butlast ?parts) = Inr p" "nm = last ?parts"
    "map_of (entries_of a p) nm = None"
    by (auto simp: spec_create_def Let_def split: if_splits)
  have "is_dir a 0" using assms(2) by (simp add: afs_ok_def)
  then show "is_dir a p" using c(3) by (rule spec_walk_dir)
  show "proper_name nm" using c path_parts_proper [OF last_in_set [OF c(1)] assms(3,4)] by simp
  show "nm \<notin> fst ` set (entries_of a p)" using c(5) by (simp add: map_of_eq_None_iff)
qed

text \<open>The last part of \<open>new_dir_entry\<close>: the new i-node and the entries that name it.\<close>

definition insert_node :: "'d block_device_ops \<Rightarrow> 'd filesystem \<Rightarrow> entry_kind \<Rightarrow> bytes \<Rightarrow> inode_index \<Rightarrow> ('d, inode_index) fs_result" where
  "insert_node D fs kind nm p = do {
     (ino, fs) \<leftarrow> new_inode D fs (empty_inode kind);
     case ino of
       None \<Rightarrow> Some (fs, Inl NoFreeInodes)
     | Some index \<Rightarrow> do {
         (_, fs) \<leftarrow> unwrap_result (write_dir_entry D fs (dir_entry_new nm index) p);
         (case kind of
            EntryFile \<Rightarrow> Some (fs, Inr index)
          | EntryDirectory \<Rightarrow> do {
              (_, fs) \<leftarrow> unwrap_result (write_dir_entry D fs (dir_entry_new DOT index) index);
              (_, fs) \<leftarrow> unwrap_result (write_dir_entry D fs (dir_entry_new DOTDOT p) index);
              Some (fs, Inr index)
            })
       }
   }"

context block_device
begin

lemma new_inode_struct:
  assumes S: "fs_struct blocks dev_ok fs" and free: "bitmap_find_free (fs_inode_bitmap fs) = Some k"
  shows "\<exists>fs'. new_inode D fs (empty_inode kind) = Some (Some (as_u32 k), fs') \<and> fs_struct blocks dev_ok fs' \<and>
    as_u32 k \<notin> fs_alloc fs \<and> fs_alloc fs' = insert (as_u32 k) (fs_alloc fs) \<and> fs_data_bitmap fs' = fs_data_bitmap fs \<and>
    inode_count fs' = inode_count fs \<and> fs_lay fs' = fs_lay fs \<and> fs_abs blocks fs' = (fs_abs blocks fs)(as_u32 k \<mapsto> node_view [] (empty_inode kind))"
proof -
  note I = fs_structD [OF S]
  from new_inode_law(2) [OF I(1) empty_inode_ok(3) free, of kind] obtain fs' where
    n: "new_inode D fs (empty_inode kind) = Some (Some (as_u32 k), fs')" "fs_ok blocks dev_ok fs'" "unat (as_u32 k) = k"
      "k < inode_count fs" "k \<notin> bm_bits (fs_inode_bitmap fs)" "bm_bits (fs_inode_bitmap fs') = insert k (bm_bits (fs_inode_bitmap fs))"
      "fs_data_bitmap fs' = fs_data_bitmap fs" "fs_lay fs' = fs_lay fs"
      "\<forall>b \<ge> data_start (fs_lay fs). blocks (fs_device fs') ! b = blocks (fs_device fs) ! b"
      "\<forall>j. unat j < inode_count fs \<longrightarrow> fs_node blocks fs' j = (if j = as_u32 k then empty_inode kind else fs_node blocks fs j)" "inode_count fs' = inode_count fs"
    by blast
  let ?i = "as_u32 k"
  have fresh: "?i \<notin> fs_alloc fs" using n(3,5) by (simp add: fs_alloc_def)
  have "unat j = k \<longleftrightarrow> j = ?i" for j using n(3) by (metis as_u32_unat)
  then have alloc: "fs_alloc fs' = insert ?i (fs_alloc fs)" by (auto simp: fs_alloc_def n(6))
  have taken: "taken_blocks fs' = taken_blocks fs" by (simp add: taken_blocks_def n(7,8))
  have node: "fs_node blocks fs' j = fs_node blocks fs j" if "j \<in> fs_alloc fs" for j
    using n(10) fs_alloc_bound [OF that] that fresh by auto
  have nodei: "fs_node blocks fs' ?i = empty_inode kind" using n(3,4,10) by simp
  have "blocks (fs_device fs') ! b = blocks (fs_device fs) ! b" if "b \<in> taken_blocks fs" for b
    using n(9) taken_blocks_bound(1) [OF I(1) that] by blast
  then have view: "node_view (blocks (fs_device fs')) (fs_node blocks fs j) = node_view (blocks (fs_device fs)) (fs_node blocks fs j)"
    if "j \<in> fs_alloc fs" for j
    using I(3) [OF that] node_shapeD(1) [OF node_okD(1) [OF I(2) [OF that]]] by (intro node_view_cong) auto
  have abs: "fs_abs blocks fs' = (fs_abs blocks fs)(?i \<mapsto> node_view [] (empty_inode kind))"
    using node view nodei fresh by (auto simp: fs_abs_def alloc fun_eq_iff empty_inode_ok(4))
  have "fs_struct blocks dev_ok fs'"
    unfolding fs_struct_def alloc taken
    using n(2) I(2-5) node nodei fresh by (auto simp: empty_inode_ok)
  then show ?thesis using n(1,7,8,11) fresh alloc abs by blast
qed

text \<open>The two entries of a new directory.\<close>

lemma write_dots_law:
  assumes S: "fs_struct blocks dev_ok fs" and i: "i \<in> fs_alloc fs" "fs_abs blocks fs i = Some (Dir [])"
    and free: "bitmap_find_free (fs_data_bitmap fs) \<noteq> None"
  shows "\<exists>f1 f2. write_dir_entry D fs (dir_entry_new DOT i) i = Some (f1, Inr ()) \<and>
    write_dir_entry D f1 (dir_entry_new DOTDOT p) i = Some (f2, Inr ()) \<and> fs_struct blocks dev_ok f2 \<and>
    fs_abs blocks f2 = (fs_abs blocks fs)(i \<mapsto> Dir [(DOT, i), (DOTDOT, p)]) \<and> fs_alloc f2 = fs_alloc fs \<and>
    fs_inode_bitmap f2 = fs_inode_bitmap fs \<and> fs_lay f2 = fs_lay fs"
proof -
  from write_dir_entry_law(3) [OF S i dir_entry_new_wf, of DOT i] free obtain f1 where
    f1: "write_dir_entry D fs (dir_entry_new DOT i) i = Some (f1, Inr ())" "fs_struct blocks dev_ok f1"
      "fs_abs blocks f1 = (fs_abs blocks fs)(i \<mapsto> Dir [(DOT, i)])" "fs_alloc f1 = fs_alloc fs"
      "fs_inode_bitmap f1 = fs_inode_bitmap fs" "fs_lay f1 = fs_lay fs" by (auto simp: entry_pair_new)
  have d1: "i \<in> fs_alloc f1" "fs_abs blocks f1 i = Some (Dir [(DOT, i)])" using f1(3,4) i(1) by simp_all
  from write_dir_entry_law(3) [OF f1(2) d1 dir_entry_new_wf, of DOTDOT p] obtain f2 where
    "write_dir_entry D f1 (dir_entry_new DOTDOT p) i = Some (f2, Inr ())" "fs_struct blocks dev_ok f2"
      "fs_abs blocks f2 = (fs_abs blocks f1)(i \<mapsto> Dir [(DOT, i), (DOTDOT, p)])" "fs_alloc f2 = fs_alloc f1"
      "fs_inode_bitmap f2 = fs_inode_bitmap f1" "fs_lay f2 = fs_lay f1" by (auto simp: entry_pair_new)
  then show ?thesis using f1 by auto
qed

lemma insert_node_law:
  assumes inv: "fs_inv blocks dev_ok fs" and dir: "fs_abs blocks fs p = Some (Dir es)" and nm: "proper_name nm" "nm \<notin> fst ` set es"
    and k: "bitmap_find_free (fs_inode_bitmap fs) = Some k"
  defines "a \<equiv> fs_abs blocks fs"
  shows "if length es = 18 \<or> kind = EntryDirectory \<and> bitmap_find_free (fs_data_bitmap fs) = None
    then insert_node D fs kind nm p = None
    else \<exists>fs'. insert_node D fs kind nm p = Some (fs', Inr (as_u32 k)) \<and> fs_inv blocks dev_ok fs' \<and> fs_lay fs' = fs_lay fs \<and>
      a (as_u32 k) = None \<and> fs_abs blocks fs' = a(as_u32 k \<mapsto> new_node kind (as_u32 k) p, p \<mapsto> Dir (es @ [(nm, as_u32 k)]))"
proof -
  let ?i = "as_u32 k"
  have S: "fs_struct blocks dev_ok fs" and aok: "afs_ok a" using inv by (simp_all add: fs_inv_def a_def)
  from new_inode_struct [OF S k, of kind] obtain f4 where
    f4: "new_inode D fs (empty_inode kind) = Some (Some ?i, f4)" "fs_struct blocks dev_ok f4" "?i \<notin> fs_alloc fs"
      "fs_alloc f4 = insert ?i (fs_alloc fs)" "fs_data_bitmap f4 = fs_data_bitmap fs"
      "fs_abs blocks f4 = a(?i \<mapsto> node_view [] (empty_inode kind))" "fs_lay f4 = fs_lay fs" by (auto simp: a_def)
  have ai: "a ?i = None" using f4(3) by (simp add: a_def fs_abs_None)
  have ap: "a p = Some (Dir es)" "is_dir a p" "entries_of a p = es" using dir by (simp_all add: a_def is_dir_def entries_of_def)
  have ne: "?i \<noteq> p" using ai ap by auto
  have p: "p \<in> fs_alloc fs" "p \<in> fs_alloc f4" using ap(2) is_dir_alloc [of blocks fs] f4(4) by (auto simp: a_def)
  have d4: "fs_abs blocks f4 p = Some (Dir es)" using f4(6) ap ne by simp
  have ess: "es \<noteq> []" using dir_nonempty [OF aok ap(2)] ap(3) by simp
  have le: "length es \<le> 18" using entries_size(2) [OF S p(1)] is_dir_abs [OF p(1), of blocks] ap by (simp add: a_def)
  note w4 = write_dir_entry_law [OF f4(2) p(2) d4 dir_entry_new_wf, of nm ?i]
  have full: "insert_node D fs kind nm p = None" if "length es = 18"
    using f4(1) w4(1) that by (simp add: insert_node_def unwrap_result_def)
  show ?thesis
  proof (cases "length es = 18")
    case False
    then have room: "length es < 18" using le by simp
    from w4(3) [OF room] ess obtain f5 where
      f5: "write_dir_entry D f4 (dir_entry_new nm ?i) p = Some (f5, Inr ())" "fs_struct blocks dev_ok f5"
        "fs_abs blocks f5 = (fs_abs blocks f4)(p \<mapsto> Dir (es @ [(nm, ?i)]))" "fs_alloc f5 = fs_alloc f4"
        "fs_data_bitmap f5 = fs_data_bitmap fs" "fs_lay f5 = fs_lay fs"
      by (auto simp: entry_pair_new [OF nm(1)] f4(5,7))
    have tree: "afs_ok (a(?i \<mapsto> new_node kind ?i p, p \<mapsto> Dir (es @ [(nm, ?i)])))"
      using aok ap(1) ai nm by (rule afs_ok_create) (cases kind; simp add: new_node_def)
    show ?thesis
    proof (cases kind)
      case EntryFile
      then have "fs_abs blocks f5 = a(?i \<mapsto> new_node kind ?i p, p \<mapsto> Dir (es @ [(nm, ?i)]))"
        using f5(3) f4(6) by (simp add: empty_inode_ok(4) new_node_def)
      moreover have "insert_node D fs kind nm p = Some (f5, Inr ?i)"
        using f4(1) f5(1) EntryFile by (simp add: insert_node_def unwrap_result_def)
      ultimately show ?thesis using False EntryFile tree f5(2,6) ai by (simp add: fs_inv_def)
    next
      case EntryDirectory
      have i5: "?i \<in> fs_alloc f5" "fs_abs blocks f5 ?i = Some (Dir [])"
        using f5(3,4) f4(4,6) ne EntryDirectory by (simp_all add: empty_inode_ok(4))
      show ?thesis
      proof (cases "bitmap_find_free (fs_data_bitmap fs)")
        case None
        then obtain f6 where "write_dir_entry D f5 (dir_entry_new DOT ?i) ?i = Some (f6, Inl NoSpaceLeft)"
          using write_dir_entry_law(2) [OF f5(2) i5 dir_entry_new_wf, of DOT ?i] f5(5) by auto
        then have "insert_node D fs kind nm p = None"
          using f4(1) f5(1) EntryDirectory by (simp add: insert_node_def unwrap_result_def)
        then show ?thesis using None EntryDirectory by simp
      next
        case (Some b)
        from write_dots_law [OF f5(2) i5, of p] Some f5(5) obtain f6 f7 where
          f7: "write_dir_entry D f5 (dir_entry_new DOT ?i) ?i = Some (f6, Inr ())"
            "write_dir_entry D f6 (dir_entry_new DOTDOT p) ?i = Some (f7, Inr ())" "fs_struct blocks dev_ok f7"
            "fs_abs blocks f7 = (fs_abs blocks f5)(?i \<mapsto> Dir [(DOT, ?i), (DOTDOT, p)])" "fs_lay f7 = fs_lay fs" using f5(6) by auto
        have "fs_abs blocks f7 = a(?i \<mapsto> new_node kind ?i p, p \<mapsto> Dir (es @ [(nm, ?i)]))"
          using f7(4) f5(3) f4(6) ne EntryDirectory by (auto simp: new_node_def fun_eq_iff)
        moreover have "insert_node D fs kind nm p = Some (f7, Inr ?i)"
          using f4(1) f5(1) f7(1,2) EntryDirectory by (simp add: insert_node_def unwrap_result_def)
        ultimately show ?thesis using Some False EntryDirectory tree f7(3,5) ai by (simp add: fs_inv_def)
      qed
    qed
  qed (use full in simp)
qed

text \<open>The first part: find the parent and look for the name.\<close>

lemma new_dir_entry_prefix:
  assumes inv: "fs_inv blocks dev_ok fs"
  defines "a \<equiv> fs_abs blocks fs"
  shows "\<exists>fs'. fs_inv blocks dev_ok fs' \<and> fs_abs blocks fs' = a \<and> fs_inode_bitmap fs' = fs_inode_bitmap fs \<and>
    fs_data_bitmap fs' = fs_data_bitmap fs \<and> fs_lay fs' = fs_lay fs \<and>
    new_dir_entry D fs path kind =
      (case spec_create a path of Inl e \<Rightarrow> Some (fs', Inl e) | Inr (p, nm) \<Rightarrow> insert_node D fs' kind nm p)"
proof (cases "path_parts path = [] \<or> length (last (path_parts path)) > 24")
  case True
  then show ?thesis using inv by (intro exI [of _ fs]) (auto simp: spec_create_def new_dir_entry_def a_def Let_def)
next
  case False
  define parts where "parts = path_parts path"
  have parts: "parts \<noteq> []" "\<not> length (last parts) > 24" using False by (simp_all add: parts_def)
  let ?nm = "last parts"
  have aok: "afs_ok a" using fs_invD(5) [OF inv] by (simp add: a_def)
  from walk_path_law [OF inv root_alloc [OF inv], of "butlast parts"] obtain f1 where
    f1: "walk_path D fs 0 (butlast parts) = Some (f1, spec_walk a 0 (butlast parts))" "fs_ok blocks dev_ok f1" "same_view blocks fs f1"
    unfolding a_def by blast
  note i1 = fs_inv_same_view [OF inv f1(2,3)]
  show ?thesis
  proof (cases "spec_walk a 0 (butlast parts)")
    case (Inl e)
    then show ?thesis using parts f1 i1
      by (intro exI [of _ f1]) (simp add: spec_create_def new_dir_entry_def parts_def [symmetric] Let_def a_def same_view_def)
  next
    case (Inr p)
    have "is_dir a 0" using aok by (simp add: afs_ok_def)
    from spec_walk_dir [OF this Inr] have dir: "is_dir a p" .
    then have p: "p \<in> fs_alloc f1" using is_dir_alloc i1(3) by (auto simp: a_def)
    from lookup_inode_law [OF f1(2) fs_alloc_bound [OF p]] obtain f2 where
      f2: "lookup_inode D f1 p = Some (fs_node blocks f1 p, f2)" "fs_ok blocks dev_ok f2" "same_view blocks f1 f2" by blast
    note i2 = fs_inv_same_view [OF i1(1) f2(2,3)]
    have p2: "p \<in> fs_alloc f2" using p i2(3) by simp
    have "in_is_directory (fs_node blocks f1 p)" using dir is_dir_abs [OF p, of blocks] i1(2) by (simp add: a_def)
    then have "has_space (fs_node blocks f1 p)" by (rule directory_has_space [OF fs_invD(2) [OF i1(1) p]])
    moreover from find_entry_law [OF i2(1) p2] obtain es f3 where
      f3: "read_dir_entry D f2 p = Some (es, f3)" "fs_ok blocks dev_ok f3" "same_view blocks f2 f3"
      "map_option de_inode (find_entry ?nm es) = map_of (entries_of (fs_abs blocks f2) p) ?nm" by blast
    note i3 = fs_inv_same_view [OF i2(1) f3(2,3)]
    have abs: "fs_abs blocks f3 = a" "fs_abs blocks f2 = a" using i3(2) i2(2) i1(2) by (simp_all add: a_def)
    have "list_ex (\<lambda>e. byte_compare ?nm (de_name e)) es \<longleftrightarrow> map_of (entries_of a p) ?nm \<noteq> None"
      unfolding list_ex_find find_entry_def [symmetric] using f3(4) abs(2) by (metis option.map_disc_iff)
    ultimately have "new_dir_entry D fs path kind = (if map_of (entries_of a p) ?nm \<noteq> None then Some (f3, Inl EntryExists)
        else insert_node D f3 kind ?nm p)"
      using parts f1(1) Inr f2(1) f3(1)
      by (simp add: new_dir_entry_def parts_def [symmetric] insert_node_def empty_inode_def Let_def)
    then show ?thesis using parts Inr i3(1) abs f1(3) f2(3) f3(3)
      by (intro exI [of _ f3]) (simp add: spec_create_def parts_def [symmetric] same_view_def)
  qed
qed

lemma new_dir_entry_law:
  assumes inv: "fs_inv blocks dev_ok fs" and path: "valid_utf8 path" "0 \<notin> set path"
  defines "a \<equiv> fs_abs blocks fs"
  shows "case spec_create a path of
      Inl e \<Rightarrow> \<exists>fs'. new_dir_entry D fs path kind = Some (fs', Inl e) \<and> fs_inv blocks dev_ok fs' \<and> fs_abs blocks fs' = a
    | Inr (p, nm) \<Rightarrow>
        (case bitmap_find_free (fs_inode_bitmap fs) of
           None \<Rightarrow> \<exists>fs'. new_dir_entry D fs path kind = Some (fs', Inl NoFreeInodes) \<and> fs_inv blocks dev_ok fs' \<and> fs_abs blocks fs' = a
         | Some k \<Rightarrow>
             if length (entries_of a p) = 18 \<or> kind = EntryDirectory \<and> bitmap_find_free (fs_data_bitmap fs) = None
             then new_dir_entry D fs path kind = None
             else \<exists>fs'. new_dir_entry D fs path kind = Some (fs', Inr (as_u32 k)) \<and> fs_inv blocks dev_ok fs' \<and> fs_lay fs' = fs_lay fs \<and>
               a (as_u32 k) = None \<and> fs_abs blocks fs' = a(as_u32 k \<mapsto> new_node kind (as_u32 k) p, p \<mapsto> Dir (entries_of a p @ [(nm, as_u32 k)])))"
proof -
  from new_dir_entry_prefix [OF inv, of path kind] obtain f1 where
    f1: "fs_inv blocks dev_ok f1" "fs_abs blocks f1 = a" "fs_inode_bitmap f1 = fs_inode_bitmap fs" "fs_data_bitmap f1 = fs_data_bitmap fs"
      "fs_lay f1 = fs_lay fs" "new_dir_entry D fs path kind = (case spec_create a path of Inl e \<Rightarrow> Some (f1, Inl e) | Inr (p, nm) \<Rightarrow> insert_node D f1 kind nm p)"
    unfolding a_def by blast
  show ?thesis
  proof (cases "spec_create a path")
    case (Inl e)
    then show ?thesis using f1 by simp
  next
    case (Inr res)
    obtain p nm where res: "res = (p, nm)" by (cases res)
    note c = spec_create_Inr [OF Inr [unfolded res] fs_invD(5) [OF inv, folded a_def] path]
    show ?thesis
    proof (cases "bitmap_find_free (fs_inode_bitmap fs)")
      case None
      then have "insert_node D f1 kind nm p = Some (f1, Inl NoFreeInodes)"
        using new_inode_law(1) [OF fs_invD(1) [OF f1(1)] empty_inode_ok(3), of kind] f1(3) by (simp add: insert_node_def)
      then show ?thesis using None Inr f1 by (simp add: res)
    next
      case (Some k)
      have "fs_abs blocks f1 p = Some (Dir (entries_of a p))" using c(1) f1(2) is_dir_entries by metis
      note r = insert_node_law [OF f1(1) this c(2,3), of k kind, unfolded f1(2-5), OF Some]
      show ?thesis using r by (simp only: Inr res sum.case prod.case Some option.case f1(6))
    qed
  qed
qed

end

end
