(* ===== verification/FS_Mount.thy ===== *)
theory FS_Mount
  imports FS_Create
begin

text \<open>
  What reaches the disk and what is read back: the bitmaps, the superblock, the dirty i-nodes
  (\<open>flush\<close>, \<open>Filesystem::new\<close>, \<open>format\<close>).
\<close>

section \<open>Bitmaps on disk\<close>

lemma le4: "\<exists>a b c d. to_le_bytes 4 (w :: u32) = [a, b, c, d]"
  by (simp add: to_le_bytes_def upt_rec)

lemma block_words_append: "block_words (concat (map (to_le_bytes 4) ws) @ rest) = ws @ block_words rest"
proof (induction ws)
  case (Cons w ws)
  obtain a b c d where w: "to_le_bytes 4 w = [a, b, c, d]" using le4 by blast
  then have "from_le_bytes [a, b, c, d] = w" using from_to_le_u32 [of w] by simp
  then show ?case using Cons by (simp add: w)
qed simp

lemma length_words_bytes: "length (concat (map (to_le_bytes 4) (ws :: u32 list))) = 4 * length ws"
  by (induction ws) simp_all

lemma words_block_eq:
  assumes "length ws \<le> 128"
  shows "words_block ws = concat (map (to_le_bytes 4) ws) @ replicate (512 - 4 * length ws) 0" and "length (words_block ws) = 512"
  using assms by (simp_all add: words_block_def put_at_def empty_block_def length_words_bytes)

lemma block_words_block: "length ws \<le> 128 \<Longrightarrow> \<exists>zs. block_words (words_block ws) = ws @ zs"
  by (simp add: words_block_eq block_words_append)

text \<open>The block of a region that holds the \<open>k\<close>-th part of the words.\<close>

definition words_at :: "u32 list \<Rightarrow> nat \<Rightarrow> bytes" where
  "words_at ws k = words_block (take 128 (drop (128 * k) ws))"

lemma length_words_at [simp]: "length (words_at ws k) = 512"
  unfolding words_at_def by (rule words_block_eq(2)) simp

context block_device
begin

lemma write_bitmap_loop_law:
  assumes "dev_ok d" and "start + o' + k \<le> length (blocks d)" and "length (blocks d) < 2 ^ 32"
  shows "\<exists>d'. write_bitmap_loop D d start [o'..<o' + k] ws = Some (drop (128 * k) ws, d') \<and> dev_ok d' \<and>
    length (blocks d') = length (blocks d) \<and>
    (\<forall>c. blocks d' ! c = (if start + o' \<le> c \<and> c < start + o' + k then words_at ws (c - (start + o')) else blocks d ! c))"
  using assms
proof (induction k arbitrary: d o' ws)
  case (Suc k)
  let ?i = "as_u32 (start + o')"
  have u: "unat ?i = start + o'" using Suc.prems by (intro unat_as_u32) simp
  have "unat ?i < length (blocks d)" using Suc.prems(2) by (simp add: u)
  from write_law [OF Suc.prems(1) this, of "words_at ws 0"] obtain d1 where
    d1: "write_block D d ?i (words_at ws 0) = Some d1" "dev_ok d1" "blocks d1 = (blocks d)[start + o' := words_at ws 0]" by (auto simp: u)
  from Suc.IH [OF d1(2), of "Suc o'" "drop 128 ws"] Suc.prems(2,3) obtain d2 where
    d2: "write_bitmap_loop D d1 start [Suc o'..<Suc o' + k] (drop 128 ws) = Some (drop (128 * k) (drop 128 ws), d2)" "dev_ok d2"
      "length (blocks d2) = length (blocks d)"
      "\<forall>c. blocks d2 ! c = (if start + Suc o' \<le> c \<and> c < start + Suc o' + k then words_at (drop 128 ws) (c - (start + Suc o')) else blocks d1 ! c)"
    by (auto simp: d1(3))
  have "[o'..<o' + Suc k] = o' # [Suc o'..<Suc o' + k]" by (simp add: upt_rec)
  moreover have "words_at (drop 128 ws) (c - (start + Suc o')) = words_at ws (c - (start + o'))" if "start + Suc o' \<le> c" for c
  proof -
    have "c - (start + o') = Suc (c - (start + Suc o'))" using that by simp
    then show ?thesis by (simp add: words_at_def add.commute)
  qed
  moreover have "start + o' < length (blocks d)" using Suc.prems(2) by simp
  ultimately show ?case using d1(1) d2
    by (intro exI [of _ d2]) (auto simp: words_at_def d1(3) nth_list_update add.commute not_le less_Suc_eq)
qed auto

lemma read_bitmap_loop_law:
  assumes "dev_ok d" and "start + o' + k \<le> length (blocks d)" and "length (blocks d) < 2 ^ 32"
    and "\<And>c. c < o' + k \<Longrightarrow> blocks d ! (start + c) = words_at ws c"
  shows "\<exists>d'. read_bitmap_loop D d start (length ws) [o'..<o' + k] (take (128 * o') ws) = Some (take (128 * (o' + k)) ws, d') \<and>
    dev_ok d' \<and> blocks d' = blocks d"
  using assms
proof (induction k arbitrary: d o')
  case (Suc k)
  let ?i = "as_u32 (start + o')" and ?ch = "take 128 (drop (128 * o') ws)"
  have u: "unat ?i = start + o'" using Suc.prems by (intro unat_as_u32) simp
  have "unat ?i < length (blocks d)" using Suc.prems(2) by (simp add: u)
  from read_law [OF Suc.prems(1) this] Suc.prems(4) [of o'] obtain d1 where
    d1: "read_block D d ?i = Some (words_block ?ch, d1)" "dev_ok d1" "blocks d1 = blocks d" by (auto simp: u words_at_def)
  obtain zs where zs: "block_words (words_block ?ch) = ?ch @ zs" using block_words_block [of ?ch] by auto
  have "take (length ws - length (take (128 * o') ws)) (block_words (words_block ?ch)) = ?ch \<or> 128 * Suc o' < length ws"
    unfolding zs by (cases "128 * Suc o' < length ws") auto
  moreover have "length (block_words (words_block ?ch)) = 128"
  proof -
    have n: "length ?ch \<le> 128" by simp
    have "block_words (replicate (4 * m) 0) = replicate m 0" for m by (induction m) (simp_all add: numeral_eq_Suc)
    from this [of "128 - length ?ch"] show ?thesis
      unfolding words_block_eq(1) [OF n] block_words_append using n by (simp add: diff_mult_distrib2)
  qed
  then have "zs = []" if "128 * Suc o' < length ws" using that zs by simp
  ultimately have t: "take (length ws - length (take (128 * o') ws)) (block_words (words_block ?ch)) = ?ch"
    using zs by (auto simp: min_def)
  have w: "take (128 * o') ws @ ?ch = take (128 * Suc o') ws" unfolding mult_Suc_right add.commute [of 128] take_add ..
  have "[o'..<o' + Suc k] = o' # [Suc o'..<Suc o' + k]" by (simp add: upt_rec)
  moreover from Suc.IH [OF d1(2), of "Suc o'"] Suc.prems(2-4) obtain d2 where
    "read_bitmap_loop D d1 start (length ws) [Suc o'..<Suc o' + k] (take (128 * Suc o') ws) = Some (take (128 * (Suc o' + k)) ws, d2)"
    "dev_ok d2" "blocks d2 = blocks d" by (auto simp: d1(3))
  ultimately show ?case using d1(1) t w by (intro exI [of _ d2]) (simp add: sub_usize_def)
qed auto

text \<open>A bitmap that was written into its region is read back from it.\<close>

lemma write_bitmap_law:
  assumes "dev_ok d" and "start + n \<le> length (blocks d)" and "length (blocks d) < 2 ^ 32"
    and "bm_ok b" and "bm_len b \<le> n * 4096"
  shows "\<exists>d'. write_bitmap D d start n b = Some d' \<and> dev_ok d' \<and> length (blocks d') = length (blocks d) \<and>
    (\<forall>c. blocks d' ! c = (if start \<le> c \<and> c < start + n then words_at (bm_words b) (c - start) else blocks d ! c))"
proof -
  have "length (bm_words b) \<le> n * 128"
    using bm_okD_len [OF assms(4)] div_ceil_le_iff [of 32 "bm_len b" "n * 128"] assms(5) by simp
  moreover from write_bitmap_loop_law [OF assms(1), of start 0 n "bm_words b"] assms(2,3) obtain d' where
    "write_bitmap_loop D d start [0..<n] (bm_words b) = Some (drop (128 * n) (bm_words b), d')" "dev_ok d'"
    "length (blocks d') = length (blocks d)"
    "\<forall>c. blocks d' ! c = (if start \<le> c \<and> c < start + n then words_at (bm_words b) (c - start) else blocks d ! c)" by auto
  ultimately show ?thesis by (simp add: write_bitmap_def mult.commute)
qed

lemma read_bitmap_law:
  assumes "dev_ok d" and "start + n \<le> length (blocks d)" and "length (blocks d) < 2 ^ 32"
    and "bm_ok b" and "bm_len b \<le> n * 4096" and "\<And>c. c < n \<Longrightarrow> blocks d ! (start + c) = words_at (bm_words b) c"
  shows "\<exists>d'. read_bitmap D d start n (bm_len b) = Some (d', Inr b) \<and> dev_ok d' \<and> blocks d' = blocks d"
proof -
  let ?wc = "length (bm_words b)"
  have wc: "div_ceil (bm_len b) 32 = ?wc" using bm_okD_len [OF assms(4)] by simp
  have le: "?wc \<le> n * 128" using wc div_ceil_le_iff [of 32 "bm_len b" "n * 128"] assms(5) by simp
  have n: "n < 2 ^ 32" using assms(2,3) by simp
  let ?k = "div_ceil (?wc * 4) 512"
  have k: "?k \<le> n" "?wc * 4 \<le> ?k * 512" using le div_ceil_le_iff [of 512 "?wc * 4" n] le_div_ceil_mult [of 512 "?wc * 4"] by simp_all
  from read_bitmap_loop_law [OF assms(1), of start 0 ?k "bm_words b"] assms(2,3,6) k obtain d' where
    d': "read_bitmap_loop D d start ?wc [0..<?k] [] = Some (bm_words b, d')" "dev_ok d'" "blocks d' = blocks d" by auto
  from bitmap_from_words_Inr [of "bm_words b" "bm_len b"] wc obtain b' where
    b': "bitmap_from_words (bm_len b) (bm_words b) = Inr b'" "bm_ok b'" "bm_len b' = bm_len b" "bm_bits b' = {i. i < bm_len b \<and> bit_at (bm_words b) i}"
    by auto
  have "b' = b" using b'(2-4) assms(4) by (intro bitmap_eqI) (simp_all add: bm_bits_def)
  moreover have "checked_mul ?wc 4 = Some (?wc * 4)" "checked_mul n 512 = Some (n * 512)" using le n by (simp_all add: checked_mul_def)
  ultimately show ?thesis using d' b'(1) le by (simp add: read_bitmap_def wc Let_def)
qed

end

section \<open>The superblock\<close>

definition super_block_block :: "super_block \<Rightarrow> bytes" where
  "super_block_block sb = super_block_bytes sb @ replicate 456 0"

lemma length_super_block_block [simp]: "length (super_block_block sb) = 512"
  by (simp add: super_block_block_def length_super_block_bytes)

context block_device
begin

lemma write_superblock_law:
  assumes "dev_ok (fs_device fs)" and "0 < length (blocks (fs_device fs))"
  shows "\<exists>d'. write_superblock D fs sb = Some (fs\<lparr>fs_device := d'\<rparr>) \<and> dev_ok d' \<and>
    blocks d' = (blocks (fs_device fs))[0 := super_block_block sb]"
proof -
  let ?f = "\<lambda>buf :: bytes. do {
       w \<leftarrow> super_block_write_to sb (bw_new (take SUPERBLOCK_ENCODED_SIZE empty_block));
       Some (bw_bytes w @ drop SUPERBLOCK_ENCODED_SIZE empty_block, ())
     }"
  have "super_block_write_to sb (bw_at (replicate 56 0) 0) = Some (wrote (replicate 56 0) 0 (super_block_bytes sb))"
    by (rule super_block_write_to_splice) simp
  then have "?f buf = Some (super_block_block sb, ())" for buf
    by (simp add: SUPERBLOCK_ENCODED_SIZE_def empty_block_def bw_new_def bw_at_def wrote_def put_at_def
        length_super_block_bytes super_block_block_def)
  from modify_block_law [OF assms(1), of 0 ?f, OF _ this] assms(2) show ?thesis
    by (auto simp: write_superblock_def)
qed

lemma read_superblock_law:
  assumes "dev_ok d" and "0 < length (blocks d)" and "blocks d ! 0 = super_block_block sb"
  shows "\<exists>d'. read_superblock D d = Some (d', Inr sb) \<and> dev_ok d' \<and> blocks d' = blocks d"
proof -
  from read_law [OF assms(1), of 0] assms(2,3) obtain d' where
    d': "read_block D d 0 = Some (super_block_block sb, d')" "dev_ok d'" "blocks d' = blocks d" by auto
  have "bytes_at (super_block_bytes sb) 0 (super_block_bytes sb)" by (simp add: bytes_at_def slice_def)
  from super_block_read_from_at [OF this]
  have "super_block_read_from (br_new (super_block_bytes sb)) = Some (sb, br_at (super_block_bytes sb) 56)" by (simp add: br_new_def br_at_def)
  then show ?thesis using d' total [OF assms(1)] assms(2)
    by (simp add: read_superblock_def SUPERBLOCK_ENCODED_SIZE_def slice_def super_block_block_def length_super_block_bytes)
qed

section \<open>Writing the dirty i-nodes\<close>

lemma write_inodes_law:
  assumes "dev_ok (fs_device fs)" and "geometry_ok (blocks (fs_device fs)) (fs_lay fs) ibm dbm"
    and "\<And>i. i \<in> set is \<Longrightarrow> unat i < bm_len ibm \<and> inode_wf (g i)"
  shows "\<exists>d'. write_inodes D fs (map (\<lambda>i. (i, g i)) is) = Some (fs\<lparr>fs_device := d'\<rparr>) \<and> dev_ok d' \<and>
    length (blocks d') = length (blocks (fs_device fs)) \<and>
    (\<forall>c. c < inode_table_start (fs_lay fs) \<or> data_start (fs_lay fs) \<le> c \<longrightarrow> blocks d' ! c = blocks (fs_device fs) ! c) \<and>
    (\<forall>j. unat j < bm_len ibm \<longrightarrow> disk_inode (blocks d') (fs_lay fs) j = (if j \<in> set is then g j else disk_inode (blocks (fs_device fs)) (fs_lay fs) j))"
  using assms
proof (induction "is" arbitrary: fs)
  case Nil
  then show ?case by (intro exI [of _ "fs_device fs"]) simp
next
  case (Cons i "is")
  let ?bs = "blocks (fs_device fs)" and ?k = "inode_block_no (fs_lay fs) i"
  have i: "unat i < bm_len ibm" "inode_wf (g i)" using Cons.prems(3) by auto
  from write_inode_to_disk_law [OF Cons.prems(1,2) i] obtain d1 where
    d1: "write_inode_to_disk D fs i (g i) = Some (fs\<lparr>fs_device := d1\<rparr>)" "dev_ok d1"
      "blocks d1 = ?bs[?k := put_at (?bs ! ?k) (inode_offset i) (inode_bytes (g i))]" by (auto simp: Let_def)
  have g1: "geometry_ok (blocks d1) (fs_lay fs) ibm dbm" using Cons.prems(2) by (simp add: geometry_ok_def d1(3))
  from Cons.IH [of "fs\<lparr>fs_device := d1\<rparr>"] d1(2) g1 Cons.prems(3) obtain d2 where
    d2: "write_inodes D (fs\<lparr>fs_device := d1\<rparr>) (map (\<lambda>i. (i, g i)) is) = Some (fs\<lparr>fs_device := d2\<rparr>)" "dev_ok d2" "length (blocks d2) = length (blocks d1)"
      "\<forall>c. c < inode_table_start (fs_lay fs) \<or> data_start (fs_lay fs) \<le> c \<longrightarrow> blocks d2 ! c = blocks d1 ! c"
      "\<forall>j. unat j < bm_len ibm \<longrightarrow> disk_inode (blocks d2) (fs_lay fs) j = (if j \<in> set is then g j else disk_inode (blocks d1) (fs_lay fs) j)"
    by auto
  have k: "?k < length ?bs" "?k < data_start (fs_lay fs)" "inode_table_start (fs_lay fs) \<le> ?k"
    using geometry_bounds(3) [OF Cons.prems(2), of i] geometry_bounds(4) [OF Cons.prems(2)] i by (simp_all add: inode_block_no_def)
  have "disk_inode (blocks d1) (fs_lay fs) j = (if j = i then g i else disk_inode ?bs (fs_lay fs) j)" for j
    unfolding d1(3) by (rule disk_inode_update [OF i(2) k(1) block_length [OF Cons.prems(1) k(1)]])
  moreover have "blocks d1 ! c = ?bs ! c" if "c < inode_table_start (fs_lay fs) \<or> data_start (fs_lay fs) \<le> c" for c
    using that k unfolding d1(3) by (intro nth_list_update_neq) auto
  ultimately show ?case using d1(1) d2 by (intro exI [of _ d2]) (simp add: d1(3))
qed

end

lemma drain_inodes_eq:
  "(\<And>k. k \<in> set ks \<Longrightarrow> unat (as_u32 k) = k \<and> cached c (as_u32 k) = Some (g (as_u32 k))) \<Longrightarrow>
     drain_inodes (ic_inodes c) ks = Some (map (\<lambda>i. (i, g i)) (map as_u32 ks))"
proof (induction ks)
  case (Cons k ks)
  then have "unat (as_u32 k) < length (ic_inodes c)" "ic_inodes c ! unat (as_u32 k) = Some (g (as_u32 k))"
    using Cons.prems [of k] by (auto simp: cached_def split: if_splits)
  then show ?case using Cons by (simp add: Let_def)
qed simp

lemma cache_drain_law:
  assumes "cache_ok bs l n c" and "n < 2 ^ 32"
  shows "\<exists>is c'. cache_drain c = Some (map (\<lambda>i. (i, the (cached c i))) is, c') \<and> set is = {i. unat i \<in> bm_bits (ic_dirty c)} \<and>
    ic_inodes c' = ic_inodes c \<and> ic_layout c' = ic_layout c \<and> bm_ok (ic_dirty c') \<and> bm_len (ic_dirty c') = n \<and> bm_bits (ic_dirty c') = {}"
proof -
  have dirty: "bm_ok (ic_dirty c)" "bm_len (ic_dirty c) = n" using assms(1) by (simp_all add: cache_ok_def)
  note s = bitmap_drain_ones_spec [OF dirty(1)]
  obtain ks dm where km: "bitmap_drain_ones (ic_dirty c) = (ks, dm)" by (cases "bitmap_drain_ones (ic_dirty c)")
  have ks: "set ks = bm_bits (ic_dirty c)" using s(1) km by simp
  have u: "unat (as_u32 k) = k" if "k \<in> set ks" for k
    using that ks bm_bits_subset [of "ic_dirty c"] dirty(2) assms(2) by (intro unat_as_u32) auto
  have c: "unat (as_u32 k) = k \<and> cached c (as_u32 k) = Some (the (cached c (as_u32 k)))" if "k \<in> set ks" for k
    using u [OF that] that ks assms(1) by (auto simp: cache_ok_def)
  have dr: "drain_inodes (ic_inodes c) ks = Some (map (\<lambda>i. (i, the (cached c i))) (map as_u32 ks))"
    by (rule drain_inodes_eq [OF c])
  have "set (map as_u32 ks) = {i. unat i \<in> bm_bits (ic_dirty c)}"
    using u ks by (auto simp: image_iff) (metis as_u32_unat)
  then show ?thesis using dr s km dirty(2)
    by (intro exI [of _ "map as_u32 ks"] exI [of _ "c\<lparr>ic_dirty := dm\<rparr>"]) (simp add: cache_drain_def)
qed

section \<open>Flushing\<close>

text \<open>Superblock and bitmaps are on disk.\<close>

definition on_disk :: "bytes list \<Rightarrow> fs_layout \<Rightarrow> bitmap \<Rightarrow> bitmap \<Rightarrow> bool" where
  "on_disk bs l ibm dbm \<longleftrightarrow> bs ! 0 = super_block_block (from_layout (length bs) (bm_len ibm) l) \<and>
     (\<forall>c < inode_bitmap_blocks l. bs ! (inode_bitmap_start l + c) = words_at (bm_words ibm) c) \<and>
     (\<forall>c < data_bitmap_blocks l. bs ! (data_bitmap_start l + c) = words_at (bm_words dbm) c)"

context block_device
begin

lemma write_metadata_law:
  assumes "dev_ok (fs_device fs)" and "geometry_ok (blocks (fs_device fs)) (fs_lay fs) ibm dbm"
  shows "\<exists>d1 d2 d3. write_superblock D fs (from_layout (total_blocks D (fs_device fs)) (bm_len ibm) (fs_lay fs)) = Some (fs\<lparr>fs_device := d1\<rparr>) \<and>
    write_bitmap D d1 (inode_bitmap_start (fs_lay fs)) (inode_bitmap_blocks (fs_lay fs)) ibm = Some d2 \<and>
    write_bitmap D d2 (data_bitmap_start (fs_lay fs)) (data_bitmap_blocks (fs_lay fs)) dbm = Some d3 \<and>
    dev_ok d3 \<and> length (blocks d3) = length (blocks (fs_device fs)) \<and> on_disk (blocks d3) (fs_lay fs) ibm dbm \<and>
    (\<forall>c \<ge> inode_table_start (fs_lay fs). blocks d3 ! c = blocks (fs_device fs) ! c)"
proof -
  let ?bs = "blocks (fs_device fs)" and ?l = "fs_lay fs"
  let ?sb = "from_layout (length ?bs) (bm_len ibm) ?l"
  have L: "layout_ok ?l (length ?bs) (bm_len ibm)" by (rule geometry_layout [OF assms(2)])
  then have lay: "inode_bitmap_start ?l = 1" "data_bitmap_start ?l = 1 + inode_bitmap_blocks ?l"
    "inode_table_start ?l = data_bitmap_start ?l + data_bitmap_blocks ?l" "inode_table_start ?l \<le> length ?bs"
    "bm_len ibm \<le> inode_bitmap_blocks ?l * 4096" "data_blocks ?l \<le> data_bitmap_blocks ?l * 4096"
    by (simp_all add: layout_ok_def)
  have bm: "bm_ok ibm" "bm_ok dbm" "bm_len dbm = data_blocks ?l" "length ?bs < 2 ^ 32" using assms(2) by (simp_all add: geometry_ok_def)
  have pos: "0 < length ?bs" using geometry_bounds(4) [OF assms(2)] by linarith
  from write_superblock_law [OF assms(1) pos] obtain d1 where
    d1: "write_superblock D fs ?sb = Some (fs\<lparr>fs_device := d1\<rparr>)" "dev_ok d1" "blocks d1 = ?bs[0 := super_block_block ?sb]" by blast
  from write_bitmap_law [OF d1(2), of "inode_bitmap_start ?l" "inode_bitmap_blocks ?l" ibm] lay bm obtain d2 where
    d2: "write_bitmap D d1 (inode_bitmap_start ?l) (inode_bitmap_blocks ?l) ibm = Some d2" "dev_ok d2" "length (blocks d2) = length ?bs"
      "\<forall>c. blocks d2 ! c = (if 1 \<le> c \<and> c < 1 + inode_bitmap_blocks ?l then words_at (bm_words ibm) (c - 1) else blocks d1 ! c)"
    by (auto simp: d1(3))
  from write_bitmap_law [OF d2(2), of "data_bitmap_start ?l" "data_bitmap_blocks ?l" dbm] lay bm d2(3) obtain d3 where
    d3: "write_bitmap D d2 (data_bitmap_start ?l) (data_bitmap_blocks ?l) dbm = Some d3" "dev_ok d3" "length (blocks d3) = length ?bs"
      "\<forall>c. blocks d3 ! c = (if data_bitmap_start ?l \<le> c \<and> c < data_bitmap_start ?l + data_bitmap_blocks ?l
         then words_at (bm_words dbm) (c - data_bitmap_start ?l) else blocks d2 ! c)"
    by auto
  have "on_disk (blocks d3) ?l ibm dbm"
    using d3(3,4) d2(4) lay(1-3) pos by (auto simp: on_disk_def d1(3))
  moreover have "blocks d3 ! c = ?bs ! c" if "inode_table_start ?l \<le> c" for c
    using that d3(4) d2(4) lay(1-3) by (auto simp: d1(3))
  moreover have "total_blocks D (fs_device fs) = length ?bs" by (rule total [OF assms(1)])
  ultimately show ?thesis using d1(1) d2(1) d3(1-3) by auto
qed

lemma flush_law:
  assumes ok: "fs_ok blocks dev_ok fs"
  shows "\<exists>fs'. flush D fs = Some fs' \<and> fs_ok blocks dev_ok fs' \<and> fs_lay fs' = fs_lay fs \<and> fs_inode_bitmap fs' = fs_inode_bitmap fs \<and>
    fs_data_bitmap fs' = fs_data_bitmap fs \<and> fs_dirty fs' = {} \<and>
    (\<forall>c \<ge> data_start (fs_lay fs). blocks (fs_device fs') ! c = blocks (fs_device fs) ! c) \<and>
    on_disk (blocks (fs_device fs')) (fs_lay fs) (fs_inode_bitmap fs) (fs_data_bitmap fs) \<and>
    (\<forall>i. unat i < inode_count fs \<longrightarrow> fs_node blocks fs' i = fs_node blocks fs i \<and> disk_inode (blocks (fs_device fs')) (fs_lay fs) i = fs_node blocks fs i)"
proof -
  let ?bs = "blocks (fs_device fs)" and ?l = "fs_lay fs" and ?c = "fs_inode_cache fs" and ?ibm = "fs_inode_bitmap fs" and ?dbm = "fs_data_bitmap fs"
  note g = fs_okD [OF ok]
  have n: "inode_count fs < 2 ^ 32" using g(3) by (simp add: geometry_ok_def inode_count_def)
  from cache_drain_law [OF g(4) n] obtain "is" c' where
    dr: "cache_drain ?c = Some (map (\<lambda>i. (i, the (cached ?c i))) is, c')" "set is = {i. unat i \<in> bm_bits (ic_dirty ?c)}"
      "ic_inodes c' = ic_inodes ?c" "ic_layout c' = ic_layout ?c" "bm_ok (ic_dirty c')" "bm_len (ic_dirty c') = inode_count fs" "bm_bits (ic_dirty c') = {}" by blast
  have wf: "unat i < bm_len ?ibm \<and> inode_wf (the (cached ?c i))" if "i \<in> set is" for i
  proof -
    have "cached ?c i \<noteq> None" using that dr(2) g(4) by (auto simp: cache_ok_def)
    then show ?thesis using g(4) by (auto simp: cache_ok_def inode_count_def)
  qed
  let ?f0 = "fs\<lparr>fs_inode_cache := cache_default\<rparr>"
  from write_inodes_law [of ?f0 ?ibm ?dbm "is" "\<lambda>i. the (cached ?c i)"] g(1,3) wf obtain d1 where
    d1: "write_inodes D ?f0 (map (\<lambda>i. (i, the (cached ?c i))) is) = Some (?f0\<lparr>fs_device := d1\<rparr>)" "dev_ok d1" "length (blocks d1) = length ?bs"
      "\<forall>c. c < inode_table_start ?l \<or> data_start ?l \<le> c \<longrightarrow> blocks d1 ! c = ?bs ! c"
      "\<forall>j. unat j < bm_len ?ibm \<longrightarrow> disk_inode (blocks d1) ?l j = (if j \<in> set is then the (cached ?c j) else disk_inode ?bs ?l j)" by auto
  have node: "disk_inode (blocks d1) ?l j = fs_node blocks fs j" if "unat j < inode_count fs" for j
    using d1(5) that g(4) dr(2) by (auto simp: fs_node_def inode_count_def cache_ok_def split: option.splits)
  let ?f1 = "fs\<lparr>fs_device := d1, fs_inode_cache := c'\<rparr>"
  have g1: "geometry_ok (blocks d1) ?l ?ibm ?dbm" using g(3) by (simp add: geometry_ok_def d1(3))
  from write_metadata_law [of ?f1 ?ibm ?dbm] d1(2) g1 obtain d2 d3 d4 where
    m: "write_superblock D ?f1 (from_layout (total_blocks D d1) (bm_len ?ibm) ?l) = Some (?f1\<lparr>fs_device := d2\<rparr>)"
      "write_bitmap D d2 (inode_bitmap_start ?l) (inode_bitmap_blocks ?l) ?ibm = Some d3"
      "write_bitmap D d3 (data_bitmap_start ?l) (data_bitmap_blocks ?l) ?dbm = Some d4" "dev_ok d4" "length (blocks d4) = length ?bs"
      "on_disk (blocks d4) ?l ?ibm ?dbm" "\<forall>c \<ge> inode_table_start ?l. blocks d4 ! c = blocks d1 ! c"
    using d1(3) by auto
  have disk: "disk_inode (blocks d4) ?l j = fs_node blocks fs j" if "unat j < inode_count fs" for j
    using m(7) node [OF that] disk_inode_cong [of "blocks d4" ?l j "blocks d1"] by (simp add: inode_block_no_def)
  let ?fs = "fs\<lparr>fs_inode_cache := c', fs_device := d4\<rparr>"
  have cc: "cached c' j = cached ?c j" for j using dr(3) by (simp add: cached_def)
  have "cache_ok (blocks d4) ?l (inode_count fs) c'"
    using g(4) dr(4-7) disk unfolding cache_ok_def cc by (auto simp: fs_node_def)
  moreover have "list_all (\<lambda>b. length b = 512) (blocks d4)" using block_size [OF m(4)] by (simp add: list_all_iff)
  moreover have "geometry_ok (blocks d4) ?l ?ibm ?dbm" using g(3) by (simp add: geometry_ok_def m(5))
  ultimately have ok': "fs_ok blocks dev_ok ?fs" using m(4) by (simp add: fs_ok_def inode_count_def)
  have node': "fs_node blocks ?fs j = fs_node blocks fs j" if "unat j < inode_count fs" for j
    using disk [OF that] cc [of j] by (auto simp: fs_node_def split: option.splits)
  have "inode_table_start ?l \<le> data_start ?l" using geometry_layout [OF g(3)] by (simp add: layout_ok_def)
  then have data: "blocks d4 ! c = ?bs ! c" if "data_start ?l \<le> c" for c using that m(7) d1(4) by simp
  have "flush D fs = Some ?fs"
    using dr(1) d1(1) m(1-3) by (simp add: flush_def Let_def)
  then show ?thesis using ok' node' disk data m(6) dr(7) by (intro exI [of _ ?fs]) (simp add: fs_dirty_def)
qed

section \<open>Mounting\<close>

lemma mount_law:
  assumes dev: "dev_ok d" and g: "geometry_ok (blocks d) l ibm dbm" and disk: "on_disk (blocks d) l ibm dbm"
    and root: "in_is_directory (disk_inode (blocks d) l 0)"
  shows "\<exists>fs. filesystem_new D d = Some (Inr fs) \<and> fs_ok blocks dev_ok fs \<and> blocks (fs_device fs) = blocks d \<and> fs_lay fs = l \<and>
    fs_inode_bitmap fs = ibm \<and> fs_data_bitmap fs = dbm \<and> (\<forall>i. fs_node blocks fs i = disk_inode (blocks d) l i)"
proof -
  let ?n = "bm_len ibm" and ?T = "length (blocks d)"
  let ?sb = "from_layout ?T ?n l"
  have L: "layout_ok l ?T ?n" by (rule geometry_layout [OF g])
  then have lay: "inode_bitmap_start l = 1" "data_bitmap_start l = 1 + inode_bitmap_blocks l"
    "inode_table_start l = data_bitmap_start l + data_bitmap_blocks l" "inode_table_start l \<le> ?T"
    "?n \<le> inode_bitmap_blocks l * 4096" "data_blocks l \<le> data_bitmap_blocks l * 4096"
    by (simp_all add: layout_ok_def)
  have G: "?T < 2 ^ 32" "0 < ?n" "?n < 2 ^ 32" "layout_new ?T ?n = Some (Some l)" "bm_ok ibm" "bm_ok dbm" "bm_len dbm = data_blocks l"
    using g by (simp_all add: geometry_ok_def)
  have pos: "0 < ?T" using geometry_bounds(4) [OF g] by linarith
  have sb0: "blocks d ! 0 = super_block_block ?sb" using disk by (simp add: on_disk_def)
  from read_superblock_law [OF dev pos sb0] obtain d1 where
    d1: "read_superblock D d = Some (d1, Inr ?sb)" "dev_ok d1" "blocks d1 = blocks d" by blast
  have val: "validate ?sb (total_blocks D d1) = Some (Inr l)"
    using validate_from_layout [OF G(1-4)] total [OF d1(2)] by (simp add: d1(3))
  have cnt: "unat (sb_inode_count ?sb) = ?n" using G(3) by (simp add: from_layout_def unat_as_u32)
  from read_bitmap_law [OF d1(2), of "inode_bitmap_start l" "inode_bitmap_blocks l" ibm] lay G disk obtain d2 where
    d2: "read_bitmap D d1 (inode_bitmap_start l) (inode_bitmap_blocks l) ?n = Some (d2, Inr ibm)" "dev_ok d2" "blocks d2 = blocks d"
    by (auto simp: d1(3) on_disk_def)
  from read_bitmap_law [OF d2(2), of "data_bitmap_start l" "data_bitmap_blocks l" dbm] lay G disk obtain d3 where
    d3: "read_bitmap D d2 (data_bitmap_start l) (data_bitmap_blocks l) (data_blocks l) = Some (d3, Inr dbm)" "dev_ok d3" "blocks d3 = blocks d"
    by (auto simp: d2(3) on_disk_def)
  let ?f = "\<lambda>dev. \<lparr>fs_device = dev, fs_inode_bitmap = ibm, fs_data_bitmap = dbm, fs_inode_cache = cache_new l ?n, fs_lay = l\<rparr>"
  have none: "cached (cache_new l ?n) i = None" for i by (simp add: cached_def cache_new_def)
  have ok: "fs_ok blocks dev_ok (?f x)" if "dev_ok x" "blocks x = blocks d" for x
    using that g block_size [OF that(1)] none
    by (auto simp: fs_ok_def list_all_iff cache_ok_def inode_count_def) (simp_all add: cache_new_def bitmap_new_ok bitmap_new_len bitmap_new_bits)
  have z: "unat (0 :: inode_index) < inode_count (?f d3)" using G(2) by (simp add: inode_count_def)
  have at: "inode_to_block l 0 = Some (as_u32 (inode_block_no l 0), inode_offset 0)" "unat (as_u32 (inode_block_no l 0)) = inode_block_no l 0"
    using inode_to_block_eq [OF g, of 0] G(2) by simp_all
  note r = inode_block_in_range [OF ok [OF d3(2,3)] z]
  from read_law [OF d3(2), of "as_u32 (inode_block_no l 0)"] r(1) at(2) obtain d4 where
    d4: "read_block D d3 (as_u32 (inode_block_no l 0)) = Some (blocks d ! inode_block_no l 0, d4)" "dev_ok d4" "blocks d4 = blocks d"
    by (auto simp: d3(3))
  obtain x where "inode_read_from (br_at (blocks d ! inode_block_no l 0) (inode_offset 0)) = Some (disk_inode (blocks d) l 0, x)"
    using disk_inode_read(1) [of "blocks d" l 0] r(2) by (auto simp: d3(3))
  then have "validate_root_inode D (?f d3) = Some (?f d4, Inr ())"
    using at(1) d4(1) root by (simp add: validate_root_inode_def)
  then have "filesystem_new D d = Some (Inr (?f d4))"
    using d1(1) val cnt d2(1) d3(1) by (simp add: filesystem_new_def)
  then show ?thesis using ok [OF d4(2,3)] d4(3) none by (intro exI [of _ "?f d4"]) (simp add: fs_node_def)
qed

end

section \<open>Persistence and formatting\<close>

text \<open>A state on another device that has the same layout, bitmaps, i-nodes and data blocks.\<close>

lemma fs_inv_copy:
  assumes inv: "fs_struct B ok fs" and ok: "fs_ok B' ok' fs'" and same: "fs_lay fs' = fs_lay fs" "fs_inode_bitmap fs' = fs_inode_bitmap fs"
    "fs_data_bitmap fs' = fs_data_bitmap fs" and data: "\<And>c. data_start (fs_lay fs) \<le> c \<Longrightarrow> B' (fs_device fs') ! c = B (fs_device fs) ! c"
    and nodes: "\<And>i. i \<in> fs_alloc fs \<Longrightarrow> fs_node B' fs' i = fs_node B fs i"
  shows "fs_struct B' ok' fs'" and "fs_abs B' fs' = fs_abs B fs"
proof -
  note I = fs_structD [OF inv]
  have alloc: "fs_alloc fs' = fs_alloc fs" and taken: "taken_blocks fs' = taken_blocks fs"
    using same by (simp_all add: fs_alloc_def taken_blocks_def)
  have "node_view (B' (fs_device fs')) (fs_node B fs i) = node_view (B (fs_device fs)) (fs_node B fs i)" if "i \<in> fs_alloc fs" for i
    using I(3) [OF that] taken_blocks_bound(1) [OF I(1)] data node_shapeD(1) [OF node_okD(1) [OF I(2) [OF that]]]
    by (intro node_view_cong) blast+
  then show "fs_abs B' fs' = fs_abs B fs" using nodes by (auto simp: fs_abs_def alloc fun_eq_iff)
  show "fs_struct B' ok' fs'" using ok I(2-5) nodes unfolding fs_struct_def alloc taken by simp
qed

text \<open>
  A disk as such, without the device that reads it: its blocks are those of a filesystem that holds the tree
  \<open>t\<close>, with nothing left to write.
\<close>

definition disk_state :: "bytes list \<Rightarrow> fs_layout \<Rightarrow> bitmap \<Rightarrow> bitmap \<Rightarrow> bytes list filesystem" where
  "disk_state bs l ibm dbm = \<lparr>fs_device = bs, fs_inode_bitmap = ibm, fs_data_bitmap = dbm, fs_inode_cache = cache_new l (bm_len ibm), fs_lay = l\<rparr>"

definition disk_holds :: "bytes list \<Rightarrow> fs_layout \<Rightarrow> bitmap \<Rightarrow> bitmap \<Rightarrow> afs \<Rightarrow> bool" where
  "disk_holds bs l ibm dbm t \<longleftrightarrow> on_disk bs l ibm dbm \<and> in_is_directory (disk_inode bs l 0) \<and>
     fs_inv (\<lambda>b. b) (\<lambda>b. True) (disk_state bs l ibm dbm) \<and> fs_abs (\<lambda>b. b) (disk_state bs l ibm dbm) = t"

lemma disk_state_simps [simp]:
  "fs_device (disk_state bs l ibm dbm) = bs" "fs_lay (disk_state bs l ibm dbm) = l"
  "fs_inode_bitmap (disk_state bs l ibm dbm) = ibm" "fs_data_bitmap (disk_state bs l ibm dbm) = dbm"
  "fs_node (\<lambda>b. b) (disk_state bs l ibm dbm) i = disk_inode bs l i"
  by (simp_all add: disk_state_def fs_node_def cached_def cache_new_def)

lemma disk_state_ok:
  assumes "list_all (\<lambda>b. length b = 512) bs" and "geometry_ok bs l ibm dbm"
  shows "fs_ok (\<lambda>b. b) (\<lambda>b. True) (disk_state bs l ibm dbm)"
proof -
  have none: "cached (cache_new l n) i = None" for i n by (simp add: cached_def cache_new_def)
  show ?thesis using assms none
    by (auto simp: fs_ok_def cache_ok_def inode_count_def disk_state_def) (simp_all add: cache_new_def bitmap_new_ok bitmap_new_len bitmap_new_bits)
qed

lemma bitmap_new_free: "0 < n \<Longrightarrow> bitmap_find_free (bitmap_new n) = Some 0"
proof -
  assume n: "0 < n"
  note ok = bitmap_new_ok [of n]
  have "bitmap_find_free (bitmap_new n) \<noteq> None"
    using bitmap_find_free_None [OF ok] n by (auto simp: bitmap_new_bits bitmap_new_len)
  then obtain k where k: "bitmap_find_free (bitmap_new n) = Some k" by auto
  have "\<not> 0 < k" using bitmap_find_free_Some(3) [OF ok k, of 0] by (auto simp: bitmap_new_bits)
  then show ?thesis using k by simp
qed

definition empty_tree :: afs where
  "empty_tree = [0 \<mapsto> Dir [(DOT, 0), (DOTDOT, 0)]]"

lemma afs_ok_empty: "afs_ok empty_tree"
proof -
  have e: "entries_of empty_tree i = (if i = 0 then [(DOT, 0), (DOTDOT, 0)] else [])" "is_dir empty_tree i \<longleftrightarrow> i = 0" for i
    by (simp_all add: entries_of_def is_dir_def empty_tree_def)
  have "dir_wf empty_tree 0 [(DOT, 0), (DOTDOT, 0)]" by (simp add: dir_wf_def e) (simp add: empty_tree_def DOT_def DOTDOT_def)
  moreover have "snd (entries_of empty_tree 0 ! p) = 0" if "p < 2" for p using that by (auto simp: e less_2_cases_iff)
  ultimately show ?thesis unfolding afs_ok_def e(2) by (auto simp: e(1)) (auto simp: empty_tree_def split: if_splits)
qed

context block_device
begin

text \<open>Flushing keeps the tree and leaves a disk that holds it; mounting finds what the disk holds.\<close>

lemma flush_disk_law:
  assumes "fs_inv blocks dev_ok fs"
  shows "\<exists>fs'. flush D fs = Some fs' \<and> fs_inv blocks dev_ok fs' \<and> fs_abs blocks fs' = fs_abs blocks fs \<and>
    disk_holds (blocks (fs_device fs')) (fs_lay fs) (fs_inode_bitmap fs) (fs_data_bitmap fs) (fs_abs blocks fs)"
proof -
  have S: "fs_struct blocks dev_ok fs" and t: "afs_ok (fs_abs blocks fs)" using assms by (simp_all add: fs_inv_def)
  note I = fs_invD [OF assms]
  from flush_law [OF I(1)] obtain fs' where
    f: "flush D fs = Some fs'" "fs_ok blocks dev_ok fs'" "fs_lay fs' = fs_lay fs" "fs_inode_bitmap fs' = fs_inode_bitmap fs"
      "fs_data_bitmap fs' = fs_data_bitmap fs" "\<forall>c \<ge> data_start (fs_lay fs). blocks (fs_device fs') ! c = blocks (fs_device fs) ! c"
      "on_disk (blocks (fs_device fs')) (fs_lay fs) (fs_inode_bitmap fs) (fs_data_bitmap fs)"
      "\<forall>i. unat i < inode_count fs \<longrightarrow> fs_node blocks fs' i = fs_node blocks fs i \<and> disk_inode (blocks (fs_device fs')) (fs_lay fs) i = fs_node blocks fs i"
    by blast
  have n1: "fs_node blocks fs' i = fs_node blocks fs i" if "i \<in> fs_alloc fs" for i using f(8) fs_alloc_bound [OF that] by blast
  note c1 = fs_inv_copy [OF S f(2-5) f(6) [rule_format] n1]
  let ?c = "disk_state (blocks (fs_device fs')) (fs_lay fs) (fs_inode_bitmap fs) (fs_data_bitmap fs)"
  have c: "fs_ok (\<lambda>b. b) (\<lambda>b. True) ?c"
    using fs_okD(2,3) [OF f(2)] by (intro disk_state_ok) (simp_all add: f(3-5) list_all_length)
  have "fs_node (\<lambda>b. b) ?c i = fs_node blocks fs i" if "i \<in> fs_alloc fs" for i using f(8) fs_alloc_bound [OF that] by simp
  note c2 = fs_inv_copy [OF S c _ _ _ _ this, simplified, OF f(6) [rule_format]]
  have "is_dir (fs_abs blocks fs) 0" using t by (simp add: afs_ok_def)
  then have root: "in_is_directory (disk_inode (blocks (fs_device fs')) (fs_lay fs) 0)"
    using is_dir_abs [OF root_alloc [OF assms], of blocks] f(8) fs_alloc_bound [OF root_alloc [OF assms]] by simp
  show ?thesis using f(1,7) c1 c2 t root by (intro exI [of _ fs']) (simp add: fs_inv_def disk_holds_def)
qed

lemma mount_disk_law:
  assumes "dev_ok d" and "disk_holds (blocks d) l ibm dbm t"
  shows "\<exists>fs. filesystem_new D d = Some (Inr fs) \<and> fs_inv blocks dev_ok fs \<and> fs_abs blocks fs = t \<and>
    fs_inode_bitmap fs = ibm \<and> fs_data_bitmap fs = dbm \<and> fs_lay fs = l"
proof -
  let ?c = "disk_state (blocks d) l ibm dbm"
  have h: "on_disk (blocks d) l ibm dbm" "in_is_directory (disk_inode (blocks d) l 0)" "fs_struct (\<lambda>b. b) (\<lambda>b. True) ?c"
    "afs_ok t" "fs_abs (\<lambda>b. b) ?c = t" using assms(2) by (auto simp: disk_holds_def fs_inv_def)
  have "geometry_ok (blocks d) l ibm dbm" using h(3) by (simp add: fs_struct_def fs_ok_def)
  from mount_law [OF assms(1) this h(1,2)] obtain fs where
    m: "filesystem_new D d = Some (Inr fs)" "fs_ok blocks dev_ok fs" "blocks (fs_device fs) = blocks d" "fs_lay fs = l"
      "fs_inode_bitmap fs = ibm" "fs_data_bitmap fs = dbm" "\<forall>i. fs_node blocks fs i = disk_inode (blocks d) l i" by blast
  from fs_inv_copy [OF h(3) m(2)] m h(4,5) show ?thesis by (intro exI [of _ fs]) (simp add: fs_inv_def)
qed

lemma flush_remount_law:
  assumes "fs_inv blocks dev_ok fs"
  shows "\<exists>fs'. flush D fs = Some fs' \<and> fs_inv blocks dev_ok fs' \<and> fs_abs blocks fs' = fs_abs blocks fs \<and>
    (\<forall>d. dev_ok d \<longrightarrow> blocks d = blocks (fs_device fs') \<longrightarrow>
       (\<exists>fs''. filesystem_new D d = Some (Inr fs'') \<and> fs_inv blocks dev_ok fs'' \<and> fs_abs blocks fs'' = fs_abs blocks fs \<and>
         fs_inode_bitmap fs'' = fs_inode_bitmap fs \<and> fs_data_bitmap fs'' = fs_data_bitmap fs \<and> fs_lay fs'' = fs_lay fs))"
  using flush_disk_law [OF assms] mount_disk_law by metis

lemma flush_mount_law:
  assumes "fs_inv blocks dev_ok fs"
  shows "\<exists>fs' fs''. flush D fs = Some fs' \<and> fs_inv blocks dev_ok fs' \<and> fs_abs blocks fs' = fs_abs blocks fs \<and>
    filesystem_new D (fs_device fs') = Some (Inr fs'') \<and> fs_inv blocks dev_ok fs'' \<and> fs_abs blocks fs'' = fs_abs blocks fs \<and>
    fs_inode_bitmap fs'' = fs_inode_bitmap fs \<and> fs_data_bitmap fs'' = fs_data_bitmap fs \<and> fs_lay fs'' = fs_lay fs"
  using flush_remount_law [OF assms] fs_okD(1) fs_invD(1) by blast

lemma create_empty_root_law:
  assumes dev: "dev_ok d" and g: "geometry_ok (blocks d) l (bitmap_new n) (bitmap_new (data_blocks l))"
  defines "fs \<equiv> \<lparr>fs_device = d, fs_inode_bitmap = bitmap_new n, fs_data_bitmap = bitmap_new (data_blocks l),
    fs_inode_cache = cache_new l n, fs_lay = l\<rparr>"
  shows "\<exists>fs'. create_empty_root D fs = Some fs' \<and> fs_inv blocks dev_ok fs' \<and> fs_abs blocks fs' = empty_tree \<and> inode_count fs' = n \<and> fs_lay fs' = l"
proof -
  have none: "cached (cache_new l n) i = None" for i by (simp add: cached_def cache_new_def)
  have "fs_ok blocks dev_ok fs"
    using dev g block_size [OF dev] none
    by (auto simp: fs_ok_def list_all_iff cache_ok_def inode_count_def fs_def bitmap_new_len)
      (simp_all add: cache_new_def bitmap_new_ok bitmap_new_len bitmap_new_bits)
  moreover have empty: "fs_alloc fs = {}" by (simp add: fs_alloc_def fs_def bitmap_new_bits)
  moreover have "taken_blocks fs = {}" by (simp add: taken_blocks_def fs_def bitmap_new_bits)
  ultimately have S: "fs_struct blocks dev_ok fs" by (simp add: fs_struct_def)
  have abs: "fs_abs blocks fs = Map.empty" by (simp add: fs_abs_def empty fun_eq_iff)
  have "0 < n" using g by (simp add: geometry_ok_def bitmap_new_len)
  then have free0: "bitmap_find_free (fs_inode_bitmap fs) = Some 0" using bitmap_new_free by (simp add: fs_def)
  have lay: "fs_lay fs = l" by (simp add: fs_def)
  from new_inode_struct [OF S free0, of EntryDirectory] obtain f1 where
    f1: "new_inode D fs new_empty_directory = Some (Some 0, f1)" "fs_struct blocks dev_ok f1" "0 \<in> fs_alloc f1"
      "fs_data_bitmap f1 = fs_data_bitmap fs" "fs_abs blocks f1 = [0 \<mapsto> Dir []]" "inode_count f1 = inode_count fs" "fs_lay f1 = l"
    using empty_inode_ok(4) [of _ EntryDirectory] by (auto simp: abs empty_inode_def as_u32_def lay)
  have "0 < data_blocks l" using geometry_layout [OF g] by (simp add: layout_ok_def)
  then have free: "bitmap_find_free (fs_data_bitmap f1) \<noteq> None" using bitmap_new_free by (simp add: f1(4)) (simp add: fs_def)
  have d1: "fs_abs blocks f1 0 = Some (Dir [])" using f1(5) by simp
  from write_dots_law [OF f1(2,3) d1 free, of 0] obtain f2 f3 where
    f3: "write_dir_entry D f1 (dir_entry_new DOT 0) 0 = Some (f2, Inr ())" "write_dir_entry D f2 (dir_entry_new DOTDOT 0) 0 = Some (f3, Inr ())"
      "fs_struct blocks dev_ok f3" "fs_abs blocks f3 = empty_tree" "inode_count f3 = n" "fs_lay f3 = l"
    using f1(6,7) by (auto simp: f1(5) empty_tree_def inode_count_def) (simp add: fs_def bitmap_new_len)
  have "create_empty_root D fs = Some f3" using f1(1) f3(1,2) by (simp add: create_empty_root_def unwrap_result_def)
  then show ?thesis using f3(3-6) afs_ok_empty by (simp add: fs_inv_def)
qed

lemma format_remount_law:
  assumes dev: "dev_ok d" and T: "length (blocks d) < 2 ^ 32"
  shows "length (blocks d) < fixed_blocks 4096 + 2 \<Longrightarrow> format D d = Some (d, Inl DeviceTooSmall)"
    and "fixed_blocks 4096 + 2 \<le> length (blocks d) \<Longrightarrow> (length (blocks d) - fixed_blocks 4096) mod 4097 = 1 \<Longrightarrow> format D d = None"
    and "fixed_blocks 4096 + 2 \<le> length (blocks d) \<Longrightarrow> (length (blocks d) - fixed_blocks 4096) mod 4097 \<noteq> 1 \<Longrightarrow>
      \<exists>d'. format D d = Some (d', Inr ()) \<and> dev_ok d' \<and>
        (\<forall>d''. dev_ok d'' \<longrightarrow> blocks d'' = blocks d' \<longrightarrow>
           (\<exists>fs. filesystem_new D d'' = Some (Inr fs) \<and> fs_inv blocks dev_ok fs \<and> fs_abs blocks fs = empty_tree \<and>
             inode_count fs = 4096 \<and> layout_new (length (blocks d)) 4096 = Some (Some (fs_lay fs))))"
proof -
  let ?T = "length (blocks d)"
  note tot = total [OF dev]
  have conv: "try_into_u32 ?T = Some (word_of_nat ?T)" using T by (simp add: try_into_u32_def)
  note cases = layout_new_cases [OF T, of 4096]
  show "format D d = Some (d, Inl DeviceTooSmall)" if "?T < fixed_blocks 4096 + 2"
    using cases(1) that conv by (simp add: format_def tot)
  show "format D d = None" if "fixed_blocks 4096 + 2 \<le> ?T" "(?T - fixed_blocks 4096) mod 4097 = 1"
    using cases(3) that conv by (simp add: format_def tot)
  assume fit: "fixed_blocks 4096 + 2 \<le> ?T" "(?T - fixed_blocks 4096) mod 4097 \<noteq> 1"
  then obtain b where "balanced (?T - fixed_blocks 4096) b" using balanced_exists [of "?T - fixed_blocks 4096"] by auto
  then have l: "layout_new ?T 4096 = Some (Some (mk_layout ?T 4096 b))" using cases(2) by simp
  let ?l = "mk_layout ?T 4096 b"
  have g: "geometry_ok (blocks d) ?l (bitmap_new 4096) (bitmap_new (data_blocks ?l))"
    using T l by (simp add: geometry_ok_def bitmap_new_len bitmap_new_ok)
  from create_empty_root_law [OF dev g] obtain f1 where
    f1: "create_empty_root D \<lparr>fs_device = d, fs_inode_bitmap = bitmap_new 4096, fs_data_bitmap = bitmap_new (data_blocks ?l),
       fs_inode_cache = cache_new ?l 4096, fs_lay = ?l\<rparr> = Some f1" "fs_inv blocks dev_ok f1" "fs_abs blocks f1 = empty_tree" "inode_count f1 = 4096" "fs_lay f1 = ?l" by blast
  from flush_remount_law [OF f1(2)] obtain f2 where
    f2: "flush D f1 = Some f2" "fs_inv blocks dev_ok f2" and m: "\<forall>d. dev_ok d \<longrightarrow> blocks d = blocks (fs_device f2) \<longrightarrow>
       (\<exists>fs''. filesystem_new D d = Some (Inr fs'') \<and> fs_inv blocks dev_ok fs'' \<and> fs_abs blocks fs'' = fs_abs blocks f1 \<and>
         fs_inode_bitmap fs'' = fs_inode_bitmap f1 \<and> fs_data_bitmap fs'' = fs_data_bitmap f1 \<and> fs_lay fs'' = fs_lay f1)" by blast
  have m': "\<exists>fs. filesystem_new D d'' = Some (Inr fs) \<and> fs_inv blocks dev_ok fs \<and> fs_abs blocks fs = empty_tree \<and>
      inode_count fs = 4096 \<and> layout_new ?T 4096 = Some (Some (fs_lay fs))" if "dev_ok d''" "blocks d'' = blocks (fs_device f2)" for d''
    using m that f1(3-5) l unfolding inode_count_def by fastforce
  have "format D d = Some (fs_device f2, Inr ())" using conv l f1(1) f2(1) by (simp add: format_def tot)
  then show "\<exists>d'. format D d = Some (d', Inr ()) \<and> dev_ok d' \<and>
      (\<forall>d''. dev_ok d'' \<longrightarrow> blocks d'' = blocks d' \<longrightarrow>
         (\<exists>fs. filesystem_new D d'' = Some (Inr fs) \<and> fs_inv blocks dev_ok fs \<and> fs_abs blocks fs = empty_tree \<and>
           inode_count fs = 4096 \<and> layout_new ?T 4096 = Some (Some (fs_lay fs))))"
    using m' fs_okD(1) [OF fs_invD(1) [OF f2(2)]] by blast
qed

lemma format_law:
  assumes "dev_ok d" and "length (blocks d) < 2 ^ 32"
  shows "length (blocks d) < fixed_blocks 4096 + 2 \<Longrightarrow> format D d = Some (d, Inl DeviceTooSmall)"
    and "fixed_blocks 4096 + 2 \<le> length (blocks d) \<Longrightarrow> (length (blocks d) - fixed_blocks 4096) mod 4097 = 1 \<Longrightarrow> format D d = None"
    and "fixed_blocks 4096 + 2 \<le> length (blocks d) \<Longrightarrow> (length (blocks d) - fixed_blocks 4096) mod 4097 \<noteq> 1 \<Longrightarrow>
      \<exists>d' fs. format D d = Some (d', Inr ()) \<and> filesystem_new D d' = Some (Inr fs) \<and> fs_inv blocks dev_ok fs \<and>
        fs_abs blocks fs = empty_tree \<and> inode_count fs = 4096 \<and> layout_new (length (blocks d)) 4096 = Some (Some (fs_lay fs))"
  using format_remount_law [OF assms] by blast+

end

end
