(* ===== verification/FS_Remove.thy ===== *)
theory FS_Remove
  imports FS_Create
begin

text \<open>
  Removing a file (\<open>remove_dir_entry\<close>): the last entry of the directory moves into the gap, the blocks
  of the file are cleared and freed, and its i-node is given back.
\<close>

section \<open>Trees\<close>

definition swap_remove :: "'a list \<Rightarrow> nat \<Rightarrow> 'a list" where
  "swap_remove xs q = map (\<lambda>j. xs ! (if j = q then length xs - 1 else j)) [0..<length xs - 1]"

lemma length_swap_remove [simp]: "length (swap_remove xs q) = length xs - 1"
  by (simp add: swap_remove_def)

lemma swap_remove_nth: "j < length xs - 1 \<Longrightarrow> swap_remove xs q ! j = xs ! (if j = q then length xs - 1 else j)"
  by (simp add: swap_remove_def)

lemma set_swap_remove:
  assumes "x \<in> set (swap_remove xs q)" and "q < length xs"
  shows "\<exists>j < length xs. j \<noteq> q \<and> x = xs ! j"
proof -
  from assms(1) obtain j where j: "j < length xs - 1" "x = xs ! (if j = q then length xs - 1 else j)"
    by (auto simp: swap_remove_def)
  then show ?thesis by (intro exI [of _ "if j = q then length xs - 1 else j"]) auto
qed

lemma distinct_swap_remove: "distinct xs \<Longrightarrow> q < length xs \<Longrightarrow> distinct (swap_remove xs q)"
  by (auto simp: distinct_conv_nth swap_remove_nth)

lemma map_swap_remove: "q < length xs \<Longrightarrow> map f (swap_remove xs q) = swap_remove (map f xs) q"
  by (rule nth_equalityI) (auto simp: swap_remove_nth)

lemma afs_ok_remove:
  assumes ok: "afs_ok a" and p: "a p = Some (Dir es)" and q: "q < length es" "snd (es ! q) = i" and i: "a i = Some (File c)"
  shows "afs_ok (a(i := None, p \<mapsto> Dir (swap_remove es q)))"
proof -
  let ?a = "a(i := None, p \<mapsto> Dir (swap_remove es q))"
  have ne: "i \<noteq> p" using p i by auto
  have es: "entries_of a p = es" "is_dir a p" using p by (simp_all add: entries_of_def is_dir_def)
  have dirs: "is_dir ?a = is_dir a" using p i by (auto simp: is_dir_def fun_eq_iff)
  have ent: "entries_of ?a k = (if k = p then swap_remove es q else entries_of a k)" for k
    using p i by (auto simp: entries_of_def)
  have uniq: "k = m \<and> x = y" if "is_dir a k" "is_dir a m" "x < length (entries_of a k)" "y < length (entries_of a m)"
    "snd (entries_of a k ! x) = snd (entries_of a m ! y)" "\<not> is_dir a (snd (entries_of a k ! x))" for k m x y
    using ok that unfolding afs_ok_def by blast
  have only: "snd (entries_of a k ! x) \<noteq> i" if "is_dir a k" "x < length (entries_of a k)" "k \<noteq> p \<or> x \<noteq> q" for k x
  proof
    assume eq: "snd (entries_of a k ! x) = i"
    have "\<not> is_dir a i" using i by (simp add: is_dir_def)
    then have "k = p \<and> x = q" using uniq [OF that(1) es(2) that(2)] q es(1) eq by simp
    then show False using that(3) by simp
  qed
  have wfp: "dir_wf a p es" using ok p by (simp add: afs_ok_def)
  then obtain r es' where r: "es = (DOT, p) # (DOTDOT, r) # es'" "is_dir a r" by (auto simp: dir_wf_def)
  have ir: "i \<noteq> r" using r(2) i by (auto simp: is_dir_def)
  have q2: "2 \<le> q"
  proof (rule ccontr)
    assume "\<not> 2 \<le> q"
    then have "q = 0 \<or> q = 1" by auto
    then show False using q(2) r(1) ne ir by auto
  qed
  have keep: "dir_wf ?a k ds" if "dir_wf a k ds" "\<forall>x < length ds. snd (ds ! x) \<noteq> i" for k ds
  proof -
    have "j \<noteq> i" if "(nm, j) \<in> set ds" for nm j using that \<open>\<forall>x < length ds. snd (ds ! x) \<noteq> i\<close> by (metis in_set_conv_nth snd_conv)
    then show ?thesis using that(1) unfolding dir_wf_def dirs by fastforce
  qed
  have new: "dir_wf ?a p (swap_remove es q)"
  proof -
    have "distinct (map fst (swap_remove es q))"
      unfolding map_swap_remove [OF q(1)] using wfp q(1) by (intro distinct_swap_remove) (simp_all add: dir_wf_def)
    moreover have "proper_name nm \<and> ?a j \<noteq> None" if "(nm, j) \<in> set (swap_remove es q)" for nm j
    proof -
      from set_swap_remove [OF that q(1)] obtain x where x: "x < length es" "x \<noteq> q" "es ! x = (nm, j)" by metis
      then have "(nm, j) \<in> set es" by (metis nth_mem)
      then have "proper_name nm" "a j \<noteq> None" using wfp by (auto simp: dir_wf_def)
      moreover have "j \<noteq> i" using only [of p x] es x by auto
      ultimately show ?thesis by simp
    qed
    moreover have "swap_remove es q = (DOT, p) # (DOTDOT, r) # drop 2 (swap_remove es q)"
    proof -
      have "2 \<le> length (swap_remove es q)" using q q2 by simp
      then have "take 2 (swap_remove es q) = [swap_remove es q ! 0, swap_remove es q ! 1]"
        by (intro nth_equalityI) (auto simp: less_2_cases_iff)
      moreover have "2 \<le> length es - 1" using q q2 by simp
      then have "swap_remove es q ! 0 = es ! 0" "swap_remove es q ! 1 = es ! 1" using q2 by (simp_all add: swap_remove_nth)
      then have "swap_remove es q ! 0 = (DOT, p)" "swap_remove es q ! 1 = (DOTDOT, r)" by (simp_all add: r(1))
      ultimately show ?thesis by (metis append_Cons append_Nil append_take_drop_id)
    qed
    ultimately show ?thesis unfolding dir_wf_def dirs using r(2) by fastforce
  qed
  have wf: "dir_wf ?a k ds" if "?a k = Some (Dir ds)" for k ds
  proof (cases "k = p")
    case True
    then show ?thesis using that new by simp
  next
    case False
    then have k: "a k = Some (Dir ds)" using that by (simp split: if_splits)
    then have "is_dir a k" "entries_of a k = ds" by (simp_all add: is_dir_def entries_of_def)
    then show ?thesis using keep [of k ds] only [of k] False ok k by (auto simp: afs_ok_def)
  qed
  have old: "\<exists>y < length (entries_of a k). entries_of ?a k ! x = entries_of a k ! y \<and> (k = p \<longrightarrow> y = (if x = q then length es - 1 else x)) \<and> (k \<noteq> p \<longrightarrow> y = x)"
    if "x < length (entries_of ?a k)" for k x
    using that q by (auto simp: ent es(1) swap_remove_nth)
  have files: "k = m \<and> x = y" if h: "is_dir ?a k" "is_dir ?a m" "x < length (entries_of ?a k)" "y < length (entries_of ?a m)"
    "snd (entries_of ?a k ! x) = snd (entries_of ?a m ! y)" "\<not> is_dir ?a (snd (entries_of ?a k ! x))" for k m x y
  proof -
    from old [OF h(3)] obtain x' where x': "x' < length (entries_of a k)" "entries_of ?a k ! x = entries_of a k ! x'"
      "k = p \<Longrightarrow> x' = (if x = q then length es - 1 else x)" "k \<noteq> p \<Longrightarrow> x' = x" by auto
    from old [OF h(4)] obtain y' where y': "y' < length (entries_of a m)" "entries_of ?a m ! y = entries_of a m ! y'"
      "m = p \<Longrightarrow> y' = (if y = q then length es - 1 else y)" "m \<noteq> p \<Longrightarrow> y' = y" by auto
    have "k = m \<and> x' = y'" using uniq [OF _ _ x'(1) y'(1)] h(1,2,5,6) x'(2) y'(2) unfolding dirs by simp
    then show ?thesis using x'(3,4) y'(3,4) h(3,4) q by (auto simp: ent split: if_splits)
  qed
  show ?thesis unfolding afs_ok_def
  proof (intro conjI allI impI)
    show "is_dir ?a 0" using ok by (simp add: dirs afs_ok_def)
  qed (use wf files in blast)+
qed

section \<open>Finding the entry\<close>

text \<open>The reader with the directory's only block loaded, \<open>j\<close> of its \<open>m\<close> entries read.\<close>

definition reader_at :: "inode \<Rightarrow> bytes \<Rightarrow> nat \<Rightarrow> nat \<Rightarrow> dir_entry_reader" where
  "reader_at nd buf m j = \<lparr>der_inode = nd, der_block_cursor = 1, der_buf = buf, der_buf_pos = j, der_buf_len = m,
     der_total = m, der_remaining = m - j\<rparr>"

definition position_at :: "bytes \<Rightarrow> block_index \<Rightarrow> nat \<Rightarrow> position_dir_entry" where
  "position_at buf b j = \<lparr>pde_entry = entry_at buf j, pde_block_index = b, pde_byte_offset = j * 28, pde_logical_index = j\<rparr>"

lemma entry_at_read: "j * 28 + 28 \<le> length buf \<Longrightarrow> read_dir_entry_at buf (j * 28) = Some (entry_at buf j)"
  using read_dir_entry_at_Some [of "j * 28" buf] by (auto simp: entry_at_def)

context block_device
begin

lemma der_next_at:
  assumes "in_blocks nd ! 0 = Some b" and "length (in_blocks nd) = 16" and "j < m" and "m \<le> 18" and "length buf = 512"
  shows "der_next D dev (reader_at nd buf m j) = Some (Some (position_at buf b j), reader_at nd buf m (Suc j), dev)"
proof -
  have "read_dir_entry_at buf (j * 28) = Some (entry_at buf j)" using assms(3-5) by (intro entry_at_read) simp
  then show ?thesis using assms
    by (simp add: der_next_def reader_at_def position_at_def inode_block_def sub_usize_def to_block_def Let_def)
qed

lemma der_find_at:
  assumes b: "in_blocks nd ! 0 = Some b" "length (in_blocks nd) = 16" and m: "m \<le> 18" "length buf = 512"
    and q: "q < m" "de_name (entry_at buf q) = nm" "\<And>x. x < q \<Longrightarrow> de_name (entry_at buf x) \<noteq> nm" and j: "j \<le> q"
  shows "der_find D nm (m - j) dev (reader_at nd buf m j) = Some (Some (position_at buf b q), dev)"
  using j
proof (induction "q - j" arbitrary: j)
  case 0
  then have eq: "j = q" "m - j = Suc (m - Suc j)" using q(1) by simp_all
  show ?case unfolding eq(2) using der_next_at [OF b _ m, of j dev] 0 eq(1) q by (simp add: position_at_def)
next
  case (Suc n)
  then have lt: "j < q" "m - j = Suc (m - Suc j)" using q(1) by simp_all
  have "der_find D nm (m - Suc j) dev (reader_at nd buf m (Suc j)) = Some (Some (position_at buf b q), dev)"
    using Suc by simp
  then show ?case unfolding lt(2) using der_next_at [OF b _ m, of j dev] lt q(1) q(3) [OF lt(1)] by (simp add: position_at_def)
qed

text \<open>The search from a new reader: the first step loads the block.\<close>

lemma der_find_law:
  assumes dev: "dev_ok d" and b: "in_blocks nd ! 0 = Some b" "length (in_blocks nd) = 16" "unat b < length (blocks d)"
    and dir: "in_is_directory nd" and m: "m = unat (in_size nd) div 28" "m \<le> 18"
    and q: "q < m" "de_name (entry_at (blocks d ! unat b) q) = nm" "\<And>x. x < q \<Longrightarrow> de_name (entry_at (blocks d ! unat b) x) \<noteq> nm"
  shows "\<exists>r d'. der_new nd = Some r \<and> der_total r = m \<and> der_find D nm m d r = Some (Some (position_at (blocks d ! unat b) b q), d') \<and>
    dev_ok d' \<and> blocks d' = blocks d"
proof -
  let ?buf = "blocks d ! unat b"
  from read_law [OF dev b(3)] obtain d' where d': "read_block D d b = Some (?buf, d')" "dev_ok d'" "blocks d' = blocks d" by blast
  have len: "length ?buf = 512" by (rule block_length [OF dev b(3)])
  let ?r = "\<lparr>der_inode = nd, der_block_cursor = 0, der_buf = empty_block, der_buf_pos = 0, der_buf_len = 0, der_total = m, der_remaining = m\<rparr>"
  have new: "der_new nd = Some ?r" using dir by (simp add: der_new_def current_dir_entries_def m(1))
  have "load_next_block D d ?r = Some (True, reader_at nd ?buf m 0, d')"
    using b d'(1) m(2) by (subst load_next_block.simps) (simp add: inode_block_def to_block_def reader_at_def min_def)
  then have eq: "der_next D d ?r = der_next D d' (reader_at nd ?buf m 0)"
    using q(1) by (simp add: der_next_def reader_at_def)
  have "der_find D nm (Suc x) d ?r = der_find D nm (Suc x) d' (reader_at nd ?buf m 0)" for x
    by (simp only: der_find.simps eq)
  from this [of "m - 1"] have "der_find D nm m d ?r = der_find D nm m d' (reader_at nd ?buf m 0)" using q(1) by simp
  then have "der_find D nm m d ?r = Some (Some (position_at ?buf b q), d')"
    using der_find_at [OF b(1,2) m(2) len q, of 0 d'] by simp
  then show ?thesis using new d'(2,3) by auto
qed

end

section \<open>Moving the last entry into the gap\<close>

lemma entry_at_wf: "j * 28 + 28 \<le> length buf \<Longrightarrow> dir_entry_wf (entry_at buf j)"
  by (simp add: entry_at_def read_dir_entry_at_def dir_entry_read_from_def read_bytes_def read_u32_def br_at_def slice_def dir_entry_wf_def)

lemma entry_at_clear:
  assumes "k * 28 + 28 \<le> length buf" and "j * 28 + 28 \<le> length buf" and "j \<noteq> k"
  shows "entry_at (put_at buf (k * 28) (replicate 28 0)) j = entry_at buf j"
proof -
  have "j * 28 + 28 \<le> k * 28 \<or> k * 28 + 28 \<le> j * 28" using assms(3) by auto
  then have "read_dir_entry_at (put_at buf (k * 28) (replicate 28 0)) (j * 28) = read_dir_entry_at buf (j * 28)"
    using assms(1,2) by (intro read_dir_entry_at_cong) (auto simp: nth_splice)
  then show ?thesis by (simp add: entry_at_def)
qed

definition swapped_block :: "bytes \<Rightarrow> nat \<Rightarrow> nat \<Rightarrow> bytes" where
  "swapped_block buf m q =
     (let cleared = put_at buf ((m - 1) * 28) (replicate 28 0)
      in if q = m - 1 then cleared else put_at cleared (q * 28) (dir_entry_bytes (entry_at buf (m - 1))))"

lemma swapped_block:
  assumes "q < m" and "m \<le> 18" and "length buf = 512"
  shows "length (swapped_block buf m q) = 512"
    and "map (entry_at (swapped_block buf m q)) [0..<m - 1] = swap_remove (map (entry_at buf) [0..<m]) q"
proof -
  let ?c = "put_at buf ((m - 1) * 28) (replicate 28 0)" and ?e = "entry_at buf (m - 1)"
  have fit: "j * 28 + 28 \<le> 512" if "j < m" for j using that assms(2) by simp
  have wf: "dir_entry_wf ?e" using entry_at_wf [of "m - 1" buf] fit [of "m - 1"] assms by simp
  have c: "length ?c = 512" using fit [of "m - 1"] assms by simp
  then show "length (swapped_block buf m q) = 512"
    using fit [OF assms(1)] length_dir_entry_bytes [OF wf] by (simp add: swapped_block_def Let_def)
  have "entry_at (swapped_block buf m q) j = entry_at buf (if j = q then m - 1 else j)" if j: "j < m - 1" for j
  proof -
    have cl: "entry_at ?c j = entry_at buf j" using j fit [of j] fit [of "m - 1"] assms by (intro entry_at_clear) simp_all
    show ?thesis
    proof (cases "q = m - 1")
      case True
      then show ?thesis using cl j by (simp add: swapped_block_def)
    next
      case False
      then have q: "q < m - 1" using assms(1) by simp
      show ?thesis using False cl j q entry_at_put [OF wf, of q ?c j] fit [of q] fit [of j] c
        by (simp add: swapped_block_def Let_def)
    qed
  qed
  then show "map (entry_at (swapped_block buf m q)) [0..<m - 1] = swap_remove (map (entry_at buf) [0..<m]) q"
    using assms(1) by (auto simp: swap_remove_def)
qed

context block_device
begin

lemma swap_entries_law:
  assumes ok: "fs_ok blocks dev_ok fs" and b: "data_start (fs_lay fs) \<le> unat b" "unat b < length (blocks (fs_device fs))"
    and q: "q < m" "m \<le> 18"
  defines "buf \<equiv> blocks (fs_device fs) ! unat b"
  shows "\<exists>d1 d2. modify_block D (fs_device fs) b (take_entry_at ((m - 1) * 28)) = Some (entry_at buf (m - 1), d1) \<and>
    (if q \<noteq> m - 1 then modify_block D d1 b (write_dir_entry_at (entry_at buf (m - 1)) (q * 28)) else Some ((), d1)) = Some ((), d2) \<and>
    blocks d2 = (blocks (fs_device fs))[unat b := swapped_block buf m q] \<and> fs_ok blocks dev_ok (fs\<lparr>fs_device := d2\<rparr>) \<and>
    (\<forall>i. unat i < inode_count fs \<longrightarrow> fs_node blocks (fs\<lparr>fs_device := d2\<rparr>) i = fs_node blocks fs i)"
proof -
  let ?off = "(m - 1) * 28" and ?e = "entry_at buf (m - 1)"
  let ?c = "put_at buf ?off (replicate 28 0)"
  have len: "length buf = 512" using fs_okD(2) [OF ok b(2)] by (simp add: buf_def)
  have fit: "?off + 28 \<le> 512" "q * 28 + 28 \<le> 512" using q by simp_all
  have f: "take_entry_at ?off buf = Some (?c, ?e)"
    using entry_at_read [of "m - 1" buf] fit len by (simp add: take_entry_at_def clear_struct_at_def copy_to_slice_def)
  have lc: "length ?c = 512" using fit len by simp
  from data_block_law [OF ok b, of "take_entry_at ?off" ?c ?e] f lc obtain d1 where
    d1: "modify_block D (fs_device fs) b (take_entry_at ?off) = Some (?e, d1)" "blocks d1 = (blocks (fs_device fs))[unat b := ?c]"
    "fs_ok blocks dev_ok (fs\<lparr>fs_device := d1\<rparr>)"
    "\<forall>i. unat i < inode_count fs \<longrightarrow> fs_node blocks (fs\<lparr>fs_device := d1\<rparr>) i = fs_node blocks fs i"
    unfolding buf_def by blast
  show ?thesis
  proof (cases "q = m - 1")
    case True
    then show ?thesis using d1 by (intro exI [of _ d1]) (simp add: swapped_block_def)
  next
    case False
    have wf: "dir_entry_wf ?e" using entry_at_wf [of "m - 1" buf] fit len by simp
    let ?buf = "put_at ?c (q * 28) (dir_entry_bytes ?e)"
    have "write_dir_entry_at ?e (q * 28) ?c = Some (?buf, ())"
      using dir_entry_write_to_splice [OF wf, of "q * 28" ?c] fit lc by (simp add: write_dir_entry_at_def)
    moreover have "length ?buf = 512" using lc fit length_dir_entry_bytes [OF wf] by simp
    ultimately obtain d2 where
      d2: "modify_block D d1 b (write_dir_entry_at ?e (q * 28)) = Some ((), d2)" "blocks d2 = (blocks d1)[unat b := ?buf]"
      "fs_ok blocks dev_ok (fs\<lparr>fs_device := d2\<rparr>)"
      "\<forall>i. unat i < inode_count fs \<longrightarrow> fs_node blocks (fs\<lparr>fs_device := d2\<rparr>) i = fs_node blocks (fs\<lparr>fs_device := d1\<rparr>) i"
      using data_block_law [OF d1(3), of b "write_dir_entry_at ?e (q * 28)" ?buf "()"] b by (auto simp: d1(2))
    then show ?thesis using d1 False by (intro exI [of _ d1] exI [of _ d2]) (simp add: swapped_block_def Let_def)
  qed
qed

section \<open>Freeing blocks\<close>

lemma free_blocks_of_law:
  assumes "fs_ok blocks dev_ok fs" and "distinct ds" and "\<And>d. d \<in> set ds \<Longrightarrow> d \<noteq> None \<and> unat (the d) \<in> taken_blocks fs"
  shows "\<exists>fs'. free_blocks_of D fs ds = Some fs' \<and> fs_ok blocks dev_ok fs' \<and>
    taken_blocks fs' = taken_blocks fs - (\<lambda>d. unat (the d)) ` set ds \<and>
    (\<forall>c. c \<notin> (\<lambda>d. unat (the d)) ` set ds \<longrightarrow> blocks (fs_device fs') ! c = blocks (fs_device fs) ! c) \<and>
    fs_inode_bitmap fs' = fs_inode_bitmap fs \<and> fs_lay fs' = fs_lay fs \<and> fs_inode_cache fs' = fs_inode_cache fs \<and>
    (\<forall>i. unat i < inode_count fs \<longrightarrow> fs_node blocks fs' i = fs_node blocks fs i)"
  using assms
proof (induction ds arbitrary: fs)
  case (Cons d ds)
  from Cons.prems(3) [of d] obtain b where b: "d = Some b" "unat b \<in> taken_blocks fs" by auto
  note bb = taken_blocks_bound [OF Cons.prems(1) b(2)]
  have "length empty_block = 512" by (simp add: empty_block_def)
  from data_block_law [OF Cons.prems(1) bb(1,2), of "\<lambda>buf. Some (empty_block, ())" empty_block "()"] this obtain d1 where
    d1: "modify_block D (fs_device fs) b (\<lambda>buf. Some (empty_block, ())) = Some ((), d1)"
      "blocks d1 = (blocks (fs_device fs))[unat b := empty_block]" "fs_ok blocks dev_ok (fs\<lparr>fs_device := d1\<rparr>)"
      "\<forall>i. unat i < inode_count fs \<longrightarrow> fs_node blocks (fs\<lparr>fs_device := d1\<rparr>) i = fs_node blocks fs i" by auto
  let ?k = "unat b - data_start (fs_lay fs)"
  have idx: "bitmap_index d (fs_lay fs) = Some ?k" using bb(1) by (simp add: bitmap_index_def b(1) sub_usize_def)
  have k: "?k \<in> bm_bits (fs_data_bitmap fs)" using b(2) by (auto simp: taken_blocks_def)
  then have "?k < bm_len (fs_data_bitmap fs)" using bm_bits_subset by blast
  moreover have "bm_ok (fs_data_bitmap fs)" using fs_okD(3) [OF Cons.prems(1)] by (simp add: geometry_ok_def)
  ultimately obtain dbm where dbm: "bitmap_unset (fs_data_bitmap fs) ?k = Some dbm" "bm_ok dbm" "bm_len dbm = bm_len (fs_data_bitmap fs)"
    "bm_bits dbm = bm_bits (fs_data_bitmap fs) - {?k}" using bitmap_unset_Some by blast
  let ?f = "fs\<lparr>fs_device := d1, fs_data_bitmap := dbm\<rparr>"
  have ok: "fs_ok blocks dev_ok ?f" using fs_ok_data_bitmap [OF d1(3) dbm(2)] dbm(3) by simp
  have taken: "taken_blocks ?f = taken_blocks fs - {unat b}" using bb(1) by (auto simp: taken_blocks_def dbm(4))
  have "d' \<noteq> None \<and> unat (the d') \<in> taken_blocks ?f" if "d' \<in> set ds" for d'
    using that Cons.prems(2,3) b(1) unfolding taken by (auto simp: image_iff)
  from Cons.IH [OF ok _ this] Cons.prems(2) obtain fs' where
    r: "free_blocks_of D ?f ds = Some fs'" "fs_ok blocks dev_ok fs'" "taken_blocks fs' = taken_blocks ?f - (\<lambda>d. unat (the d)) ` set ds"
      "\<forall>c. c \<notin> (\<lambda>d. unat (the d)) ` set ds \<longrightarrow> blocks (fs_device fs') ! c = blocks d1 ! c"
      "fs_inode_bitmap fs' = fs_inode_bitmap fs" "fs_lay fs' = fs_lay fs" "fs_inode_cache fs' = fs_inode_cache fs"
      "\<forall>i. unat i < inode_count fs \<longrightarrow> fs_node blocks fs' i = fs_node blocks (fs\<lparr>fs_device := d1\<rparr>) i" by auto
  have "free_blocks_of D fs (d # ds) = Some fs'" using d1(1) dbm(1) r(1) idx b(1) by (simp add: to_block_def)
  moreover have "blocks (fs_device fs') ! c = blocks (fs_device fs) ! c" if "c \<notin> (\<lambda>d. unat (the d)) ` set (d # ds)" for c
    using that r(4) b(1) by (simp add: d1(2))
  ultimately show ?case using r d1(4) taken b(1) by (intro exI [of _ fs']) auto
qed auto

end

section \<open>Giving the i-node back\<close>

lemma cache_remove_law:
  assumes "cache_ok bs l n c" and "unat i < length (ic_inodes c)" and "unat i < n"
  shows "\<exists>c'. cache_remove c i = Some c' \<and> cache_ok bs l n c' \<and> (\<forall>j. cached c' j = (if j = i then None else cached c j))"
proof -
  let ?c = "c\<lparr>ic_inodes := (ic_inodes c)[unat i := None]\<rparr>"
  have "bm_ok (ic_dirty c)" "unat i < bm_len (ic_dirty c)" using assms(1,3) by (simp_all add: cache_ok_def)
  from bitmap_unset_Some [OF this] obtain dirty where d: "bitmap_unset (ic_dirty c) (unat i) = Some dirty" "bm_ok dirty"
    "bm_len dirty = bm_len (ic_dirty c)" "bm_bits dirty = bm_bits (ic_dirty c) - {unat i}" by blast
  have c: "cached (?c\<lparr>ic_dirty := dirty\<rparr>) j = (if j = i then None else cached c j)" for j
    using assms(2) by (auto simp: cached_def nth_list_update)
  have "cache_ok bs l n (?c\<lparr>ic_dirty := dirty\<rparr>)"
    using assms(1) d(2-4) unfolding cache_ok_def c by auto
  then show ?thesis using assms(2) d(1) c by (auto simp: cache_remove_def)
qed

lemma fs_ok_release:
  assumes "fs_ok B ok fs" and "unat i < inode_count fs" and "unat i < cache_len fs"
  shows "\<exists>ibm c. bitmap_unset (fs_inode_bitmap fs) (unat i) = Some ibm \<and> cache_remove (fs_inode_cache fs) i = Some c \<and>
    fs_ok B ok (fs\<lparr>fs_inode_bitmap := ibm, fs_inode_cache := c\<rparr>) \<and> bm_bits ibm = bm_bits (fs_inode_bitmap fs) - {unat i} \<and>
    (\<forall>j. j \<noteq> i \<longrightarrow> fs_node B (fs\<lparr>fs_inode_bitmap := ibm, fs_inode_cache := c\<rparr>) j = fs_node B fs j)"
proof -
  note g = fs_okD [OF assms(1)]
  from cache_remove_law [OF g(4) assms(3) [unfolded cache_len_def] assms(2)] obtain c where
    c: "cache_remove (fs_inode_cache fs) i = Some c" "cache_ok (B (fs_device fs)) (fs_lay fs) (inode_count fs) c"
    "\<forall>j. cached c j = (if j = i then None else cached (fs_inode_cache fs) j)" by blast
  have "bm_ok (fs_inode_bitmap fs)" using g(3) by (simp add: geometry_ok_def)
  from bitmap_unset_Some [OF this assms(2) [unfolded inode_count_def]] obtain ibm where
    ibm: "bitmap_unset (fs_inode_bitmap fs) (unat i) = Some ibm" "bm_ok ibm" "bm_len ibm = inode_count fs"
    "bm_bits ibm = bm_bits (fs_inode_bitmap fs) - {unat i}" by (auto simp: inode_count_def)
  have "fs_ok B ok (fs\<lparr>fs_inode_bitmap := ibm, fs_inode_cache := c\<rparr>)"
    using assms(1) g(3) c(2) ibm(2,3) by (simp add: fs_ok_def geometry_ok_def inode_count_def)
  then show ?thesis using c ibm by (auto simp: fs_node_def split: option.splits)
qed

lemma shrink_node:
  assumes "node_ok nd" and "in_is_directory nd" and "unat (in_size nd) = 28 * m" and "2 \<le> m"
  defines "nd' \<equiv> nd\<lparr>in_size := in_size nd - 28\<rparr>"
  shows "inode_shrink nd 28 = Some nd'" and "node_ok nd'" and "node_blocks nd' = node_blocks nd" and "unat (in_size nd') = 28 * (m - 1)"
proof -
  have le: "(28 :: u32) \<le> in_size nd" using assms(3,4) by (simp add: word_le_nat_alt)
  have "as_u32 28 = (28 :: u32)" by (simp add: as_u32_def)
  then show "inode_shrink nd 28 = Some nd'" using le by (simp add: inode_shrink_def nd'_def)
  show sz: "unat (in_size nd') = 28 * (m - 1)" using assms(3) le by (simp add: nd'_def unat_sub diff_mult_distrib2)
  show "node_blocks nd' = node_blocks nd" by (simp add: node_blocks_def nd'_def)
  note D = node_shapeD [OF node_okD(1) [OF assms(1)]]
  have s: "unat (in_size nd) \<le> 504" using node_okD(2) [OF assms(1,2)] by simp
  have "in_blocks nd ! k \<noteq> None \<longleftrightarrow> 512 * k < unat (in_size nd')" if "k < 16" for k
    using D(4) [OF that] s sz assms(3,4) by (cases k) auto
  then show "node_ok nd'"
    using D sz s assms(2,3) unfolding node_ok_def node_shape_def inode_wf_def used_blocks_def by (simp add: nd'_def) arith
qed

context block_device
begin

lemma release_inode_law:
  assumes ok: "fs_ok blocks dev_ok fs" and p: "p \<noteq> i" "unat p < inode_count fs" and i: "unat i < inode_count fs" "unat i < cache_len fs"
    and nd: "inode_shrink (fs_node blocks fs p) 28 = Some nd'" "inode_wf nd'"
    and u: "node_shape ndi" "node_blocks ndi \<subseteq> taken_blocks fs"
  shows "\<exists>fs'. release_inode D fs p i ndi = Some fs' \<and> fs_ok blocks dev_ok fs' \<and> fs_lay fs' = fs_lay fs \<and>
    bm_bits (fs_inode_bitmap fs') = bm_bits (fs_inode_bitmap fs) - {unat i} \<and>
    taken_blocks fs' = taken_blocks fs - node_blocks ndi \<and>
    (\<forall>c. c \<notin> node_blocks ndi \<longrightarrow> blocks (fs_device fs') ! c = blocks (fs_device fs) ! c) \<and>
    (\<forall>j. unat j < inode_count fs \<longrightarrow> j \<noteq> i \<longrightarrow> fs_node blocks fs' j = (if j = p then nd' else fs_node blocks fs j))"
proof -
  from lookup_inode_mut_law [OF ok p(2)] obtain f1 where
    f1: "lookup_inode_mut D fs p = Some (fs_node blocks fs p, f1)" "fs_ok blocks dev_ok f1" "same_view blocks fs f1"
    "fs_dirty f1 = insert (unat p) (fs_dirty fs)" by blast
  let ?f2 = "store_inode f1 p nd'"
  have "unat p \<in> fs_dirty f1" using f1(4) by simp
  note st = store_inode_law [OF f1(2) this nd(2)]
  have n1: "inode_count f1 = inode_count fs" using f1(3) by (simp add: same_view_def inode_count_def)
  have t1: "taken_blocks ?f2 = taken_blocks fs" using f1(3) by (simp add: taken_blocks_def same_view_def)
  have "d \<noteq> None \<and> unat (the d) \<in> taken_blocks ?f2" if "d \<in> set (used_blocks ndi)" for d
    using that used_blocks_Some u(2) t1 by (auto simp: node_blocks_used)
  from free_blocks_of_law [OF st(1) node_shapeD(5) [OF u(1)] this] obtain f3 where
    f3: "free_blocks_of D ?f2 (used_blocks ndi) = Some f3" "fs_ok blocks dev_ok f3"
      "taken_blocks f3 = taken_blocks fs - node_blocks ndi"
      "\<forall>c. c \<notin> node_blocks ndi \<longrightarrow> blocks (fs_device f3) ! c = blocks (fs_device f1) ! c"
      "fs_inode_bitmap f3 = fs_inode_bitmap fs" "fs_lay f3 = fs_lay fs" "fs_inode_cache f3 = fs_inode_cache ?f2"
      "\<forall>j. unat j < inode_count fs \<longrightarrow> fs_node blocks f3 j = fs_node blocks ?f2 j"
    using f1(3) by (auto simp: node_blocks_used t1 n1 same_view_def)
  have i3: "unat i < inode_count f3" "unat i < cache_len f3"
    using i f1(3) f3(5,7) by (simp_all add: inode_count_def cache_len_def same_view_def store_inode_def)
  from fs_ok_release [OF f3(2) i3] obtain ibm c where
    r: "bitmap_unset (fs_inode_bitmap f3) (unat i) = Some ibm" "cache_remove (fs_inode_cache f3) i = Some c"
      "fs_ok blocks dev_ok (f3\<lparr>fs_inode_bitmap := ibm, fs_inode_cache := c\<rparr>)" "bm_bits ibm = bm_bits (fs_inode_bitmap fs) - {unat i}"
      "\<forall>j. j \<noteq> i \<longrightarrow> fs_node blocks (f3\<lparr>fs_inode_bitmap := ibm, fs_inode_cache := c\<rparr>) j = fs_node blocks f3 j"
    by (auto simp: f3(5))
  let ?fs = "f3\<lparr>fs_inode_bitmap := ibm, fs_inode_cache := c\<rparr>"
  have "release_inode D fs p i ndi = Some ?fs" using f1(1) nd(1) f3(1) r(1,2) by (simp add: release_inode_def)
  moreover have "fs_node blocks ?fs j = (if j = p then nd' else fs_node blocks fs j)" if "unat j < inode_count fs" "j \<noteq> i" for j
    using that r(5) f3(8) st(2) [of j] f1(3) by (simp add: same_view_def)
  moreover have "blocks (fs_device f1) = blocks (fs_device fs)" using f1(3) by (simp add: same_view_def)
  ultimately show ?thesis using r(3,4) f3(3,4,6) by (intro exI [of _ ?fs]) (simp add: taken_blocks_def)
qed

end

section \<open>Removing\<close>

lemma dots_first:
  assumes "afs_ok a" and "a p = Some (Dir es)"
  shows "\<exists>r es'. es = (DOT, p) # (DOTDOT, r) # es' \<and> is_dir a r"
proof -
  have "dir_wf a p es" using assms by (simp add: afs_ok_def)
  then show ?thesis unfolding dir_wf_def by blast
qed

text \<open>The position of a name in a directory.\<close>

definition name_index :: "bytes \<Rightarrow> (bytes \<times> inode_index) list \<Rightarrow> nat" where
  "name_index nm es = length (takeWhile (\<lambda>e. fst e \<noteq> nm) es)"

lemma name_index:
  assumes "map_of es nm = Some i"
  shows "name_index nm es < length es" and "es ! name_index nm es = (nm, i)" and "x < name_index nm es \<Longrightarrow> fst (es ! x) \<noteq> nm"
proof -
  let ?t = "takeWhile (\<lambda>e. fst e \<noteq> nm) es"
  have "\<exists>e \<in> set es. fst e = nm" using map_of_SomeD [OF assms] by force
  then have "?t \<noteq> es" by (metis (mono_tags, lifting) takeWhile_eq_all_conv)
  then show lt: "name_index nm es < length es"
    unfolding name_index_def by (metis length_takeWhile_le le_neq_implies_less takeWhile_eq_take take_all_iff order_refl)
  show "fst (es ! x) \<noteq> nm" if "x < name_index nm es" for x
  proof -
    have x: "x < length ?t" using that by (simp add: name_index_def)
    from nth_mem [OF x] show ?thesis unfolding takeWhile_nth [OF x] by (rule set_takeWhileD [THEN conjunct2])
  qed
  show "es ! name_index nm es = (nm, i)"
    using assms lt
  proof (induction es)
    case (Cons e es)
    then show ?case by (cases e) (auto simp: name_index_def split: if_splits)
  qed simp
qed

lemma spec_resolve_Inr:
  assumes "spec_resolve a path = Inr (p, nm, i)"
  shows "map_of (entries_of a p) nm = Some i"
  using assms by (auto simp: spec_resolve_def Let_def split: prod.splits option.splits)

context block_device
begin

text \<open>The device and i-node changes of a removal, once the entry is known.\<close>

lemma unlink_law:
  assumes inv: "fs_inv blocks dev_ok fs" and p: "fs_abs blocks fs p = Some (Dir es)" and q: "q < length es" "snd (es ! q) = i"
    and i: "fs_abs blocks fs i = Some (File c)" "unat i < cache_len fs"
    and b: "in_blocks (fs_node blocks fs p) ! 0 = Some b"
  defines "m \<equiv> length es" and "buf \<equiv> blocks (fs_device fs) ! unat b"
  shows "\<exists>d1 d2 fs'. modify_block D (fs_device fs) b (take_entry_at ((m - 1) * 28)) = Some (entry_at buf (m - 1), d1) \<and>
    (if q \<noteq> m - 1 then modify_block D d1 b (write_dir_entry_at (entry_at buf (m - 1)) (q * 28)) else Some ((), d1)) = Some ((), d2) \<and>
    release_inode D (fs\<lparr>fs_device := d2\<rparr>) p i (fs_node blocks fs i) = Some fs' \<and>
    fs_inv blocks dev_ok fs' \<and> fs_abs blocks fs' = (fs_abs blocks fs)(i := None, p \<mapsto> Dir (swap_remove es q))"
proof -
  let ?bs = "blocks (fs_device fs)" and ?np = "fs_node blocks fs p" and ?ni = "fs_node blocks fs i" and ?a = "fs_abs blocks fs"
  note I = fs_invD [OF inv]
  have S: "fs_struct blocks dev_ok fs" using inv by (simp add: fs_inv_def)
  have al: "p \<in> fs_alloc fs" "i \<in> fs_alloc fs" "p \<noteq> i" using p i fs_abs_None [of blocks fs] by force+
  have dir: "in_is_directory ?np" "\<not> in_is_directory ?ni" "es = map entry_pair (dir_entries ?bs ?np)"
    using p i fs_abs_eq [OF al(1), of blocks] fs_abs_eq [OF al(2), of blocks] by (auto simp: node_view_def split: if_splits)
  have es: "entries_of ?a p = es" using p by (simp add: entries_of_def)
  note sz = entries_size [OF S al(1) dir(1), unfolded es, folded m_def]
  obtain r es' where r: "es = (DOT, p) # (DOTDOT, r) # es'" "is_dir ?a r" using dots_first [OF I(5) p] by blast
  have m: "2 \<le> m" "q < m" using r q by (simp_all add: m_def)
  note npo = I(2) [OF al(1)] and nio = I(2) [OF al(2)]
  have bt: "unat b \<in> node_blocks ?np" using in_node_blocks [OF _ b] node_shapeD(2) [OF node_okD(1) [OF npo]] by simp
  then have "unat b \<in> taken_blocks fs" using I(3) [OF al(1)] by blast
  note bb = taken_blocks_bound [OF I(1) this]
  have len: "length buf = 512" using fs_okD(2) [OF I(1) bb(2)] by (simp add: buf_def)
  from swap_entries_law [OF I(1) bb(1,2) m(2) sz(2), folded buf_def] obtain d1 d2 where
    d: "modify_block D (fs_device fs) b (take_entry_at ((m - 1) * 28)) = Some (entry_at buf (m - 1), d1)"
      "(if q \<noteq> m - 1 then modify_block D d1 b (write_dir_entry_at (entry_at buf (m - 1)) (q * 28)) else Some ((), d1)) = Some ((), d2)"
      "blocks d2 = ?bs[unat b := swapped_block buf m q]" "fs_ok blocks dev_ok (fs\<lparr>fs_device := d2\<rparr>)"
      "\<forall>j. unat j < inode_count fs \<longrightarrow> fs_node blocks (fs\<lparr>fs_device := d2\<rparr>) j = fs_node blocks fs j" by blast
  let ?f = "fs\<lparr>fs_device := d2\<rparr>" and ?np' = "?np\<lparr>in_size := in_size ?np - 28\<rparr>"
  note sh = shrink_node [OF npo dir(1) sz(1) m(1)]
  have np: "fs_node blocks ?f p = ?np" using d(5) fs_alloc_bound [OF al(1)] by simp
  from release_inode_law [OF d(4) al(3), of ?np' ?ni] sh(1) np node_shapeD(1) [OF node_okD(1) [OF sh(2)]]
    node_okD(1) [OF nio] I(3) [OF al(2)] fs_alloc_bound [OF al(1)] fs_alloc_bound [OF al(2)] i(2)
  obtain fs' where
    fs': "release_inode D ?f p i ?ni = Some fs'" "fs_ok blocks dev_ok fs'" "fs_lay fs' = fs_lay fs"
      "bm_bits (fs_inode_bitmap fs') = bm_bits (fs_inode_bitmap fs) - {unat i}" "taken_blocks fs' = taken_blocks fs - node_blocks ?ni"
      "\<forall>c. c \<notin> node_blocks ?ni \<longrightarrow> blocks (fs_device fs') ! c = blocks d2 ! c"
      "\<forall>j. unat j < inode_count fs \<longrightarrow> j \<noteq> i \<longrightarrow> fs_node blocks fs' j = (if j = p then ?np' else fs_node blocks ?f j)"
    by (auto simp: taken_blocks_fields)
  have alloc: "fs_alloc fs' = fs_alloc fs - {i}" by (auto simp: fs_alloc_def fs'(4))
  have node: "fs_node blocks fs' j = (if j = p then ?np' else fs_node blocks fs j)" if "j \<in> fs_alloc fs" "j \<noteq> i" for j
    using fs'(7) d(5) fs_alloc_bound [OF that(1)] that(2) by simp
  have disj: "node_blocks (fs_node blocks fs j) \<inter> node_blocks ?ni = {}" if "j \<in> fs_alloc fs" "j \<noteq> i" for j
    using I(4) [OF that(1) al(2) that(2)] .
  have blk: "blocks (fs_device fs') ! c = ?bs ! c" if "c \<noteq> unat b" "c \<notin> node_blocks ?ni" for c
    using that fs'(6) by (simp add: d(3))
  have other: "node_view (blocks (fs_device fs')) (fs_node blocks fs j) = node_view ?bs (fs_node blocks fs j)"
    if "j \<in> fs_alloc fs" "j \<noteq> i" "j \<noteq> p" for j
    using disj [OF that(1,2)] I(4) [OF that(1) al(1) that(3)] bt node_shapeD(1) [OF node_okD(1) [OF I(2) [OF that(1)]]]
    by (intro node_view_cong blk) auto
  have "unat b \<notin> node_blocks ?ni" using disj [OF al(1,3)] bt by auto
  then have bb': "blocks (fs_device fs') ! unat b = swapped_block buf m q" using fs'(6) bb(2) by (simp add: d(3))
  have "dir_entries (blocks (fs_device fs')) ?np' = swap_remove (dir_entries ?bs ?np) q"
    using swapped_block(2) [OF m(2) sz(2) len] b sh(4) sz(1) by (simp add: dir_entries_def bb' buf_def)
  then have view: "node_view (blocks (fs_device fs')) ?np' = Dir (swap_remove es q)"
    using dir map_swap_remove [of q "dir_entries ?bs ?np" entry_pair] q(1) by (simp add: node_view_def)
  have abs: "fs_abs blocks fs' = ?a(i := None, p \<mapsto> Dir (swap_remove es q))"
  proof
    fix j
    show "fs_abs blocks fs' j = (?a(i := None, p \<mapsto> Dir (swap_remove es q))) j"
      using node [of j] other [of j] view al by (auto simp: fs_abs_def alloc)
  qed
  have "afs_ok (fs_abs blocks fs')" unfolding abs using I(5) p q i(1) by (rule afs_ok_remove)
  moreover have "fs_struct blocks dev_ok fs'"
    unfolding fs_struct_def alloc
  proof (intro conjI ballI impI)
    fix j assume j: "j \<in> fs_alloc fs - {i}"
    then have nj: "fs_node blocks fs' j = (if j = p then ?np' else fs_node blocks fs j)" using node by simp
    show "node_ok (fs_node blocks fs' j)" unfolding nj using sh(2) I(2) j by simp
    have nb: "node_blocks (fs_node blocks fs' j) = node_blocks (fs_node blocks fs j)" unfolding nj using sh(3) by simp
    show "node_blocks (fs_node blocks fs' j) \<subseteq> taken_blocks fs'" unfolding nb fs'(5) using I(3) [of j] disj [of j] j by blast
    fix k assume k: "k \<in> fs_alloc fs - {i}" "j \<noteq> k"
    have "node_blocks (fs_node blocks fs' k) = node_blocks (fs_node blocks fs k)" using node [of k] k sh(3) by simp
    then show "node_blocks (fs_node blocks fs' j) \<inter> node_blocks (fs_node blocks fs' k) = {}"
      unfolding nb using I(4) j k by simp
  next
    show "taken_blocks fs' \<subseteq> (\<Union>j \<in> fs_alloc fs - {i}. node_blocks (fs_node blocks fs' j))"
    proof
      fix x assume "x \<in> taken_blocks fs'"
      then have "x \<in> taken_blocks fs" "x \<notin> node_blocks ?ni" by (simp_all add: fs'(5))
      then obtain j where j: "j \<in> fs_alloc fs" "x \<in> node_blocks (fs_node blocks fs j)" "j \<noteq> i" using fs_structD(5) [OF S] by blast
      then have "node_blocks (fs_node blocks fs' j) = node_blocks (fs_node blocks fs j)" using node [of j] sh(3) by simp
      then show "x \<in> (\<Union>j \<in> fs_alloc fs - {i}. node_blocks (fs_node blocks fs' j))" using j by auto
    qed
  qed (rule fs'(2))
  ultimately have "fs_inv blocks dev_ok fs'" by (simp add: fs_inv_def)
  then show ?thesis using d(1,2) fs'(1) abs by blast
qed

lemma remove_dir_entry_law:
  assumes "fs_inv blocks dev_ok fs"
  defines "a \<equiv> fs_abs blocks fs"
  shows "\<exists>fs'. fs_inv blocks dev_ok fs' \<and>
    (case spec_resolve a path of
       Inl e \<Rightarrow> remove_dir_entry D fs path = Some (fs', Inl e) \<and> fs_abs blocks fs' = a
     | Inr (p, nm, i) \<Rightarrow>
         if is_dir a i then remove_dir_entry D fs path = Some (fs', Inl OperationNotSupported) \<and> fs_abs blocks fs' = a
         else remove_dir_entry D fs path = Some (fs', Inr ()) \<and>
           fs_abs blocks fs' = a(i := None, p \<mapsto> Dir (swap_remove (entries_of a p) (name_index nm (entries_of a p)))))"
proof -
  from resolve_path_law [OF assms(1), of path] obtain f1 where
    f1: "resolve_path D fs path = Some (f1, map_sum id resolved_record (spec_resolve a path))" "fs_ok blocks dev_ok f1" "same_view blocks fs f1"
    unfolding a_def by blast
  note i1 = fs_inv_same_view [OF assms(1) f1(2,3), folded a_def]
  show ?thesis
  proof (cases "spec_resolve a path")
    case (Inl e)
    then show ?thesis using f1(1) i1 by (auto simp: remove_dir_entry_def)
  next
    case (Inr res)
    obtain p nm i where res: "res = (p, nm, i)" by (cases res)
    note al = resolved_alloc [OF assms(1) Inr [unfolded res a_def], folded i1(3)]
    from lookup_inode_law [OF f1(2) fs_alloc_bound [OF al(1)]] obtain f2 where
      f2: "lookup_inode D f1 i = Some (fs_node blocks f1 i, f2)" "fs_ok blocks dev_ok f2" "same_view blocks f1 f2" "unat i < cache_len f2" by blast
    note i2 = fs_inv_same_view [OF i1(1) f2(2,3)]
    have al2: "i \<in> fs_alloc f2" "p \<in> fs_alloc f2" using al i2(3) by simp_all
    from lookup_inode_law [OF f2(2) fs_alloc_bound [OF al2(2)]] obtain f3 where
      f3: "lookup_inode D f2 p = Some (fs_node blocks f2 p, f3)" "fs_ok blocks dev_ok f3" "same_view blocks f2 f3" by blast
    note i3 = fs_inv_same_view [OF i2(1) f3(2,3)]
    have al3: "i \<in> fs_alloc f3" "p \<in> fs_alloc f3" using al2 i3(3) by simp_all
    have abs: "fs_abs blocks f3 = a" using i3(2) i2(2) i1(2) by simp
    have ni: "fs_node blocks f1 i = fs_node blocks f3 i" "fs_node blocks f2 p = fs_node blocks f3 p"
      using i2(4) [OF al(1)] i3(4) [OF al2(1)] i3(4) [OF al2(2)] by simp_all
    have di: "in_is_directory (fs_node blocks f3 i) \<longleftrightarrow> is_dir a i" using is_dir_abs [OF al3(1), of blocks] abs by simp
    show ?thesis
    proof (cases "is_dir a i")
      case True
      then show ?thesis using f1(1) f2(1) f3(1) Inr i3(1) abs di by (auto simp: remove_dir_entry_def res resolved_record_def ni)
    next
      case False
      let ?es = "entries_of a p" and ?np = "fs_node blocks f3 p" and ?bs = "blocks (fs_device f3)"
      let ?m = "length ?es" and ?q = "name_index nm ?es"
      note q = name_index [OF spec_resolve_Inr [OF Inr [unfolded res]]]
      have ap: "a p = Some (Dir ?es)" using q(1) by (cases "a p"; cases "the (a p)") (simp_all add: entries_of_def)
      then have dp: "is_dir a p" by (simp add: is_dir_def)
      then have dir: "in_is_directory ?np" using is_dir_abs [OF al3(2), of blocks] abs by simp
      have S3: "fs_struct blocks dev_ok f3" using i3(1) by (simp add: fs_inv_def)
      note sz = entries_size [OF S3 al3(2) dir, unfolded abs]
      note D = node_shapeD [OF node_okD(1) [OF fs_invD(2) [OF i3(1) al3(2)]]]
      from D(4) [of 0] sz(1) q(1) obtain b where b: "in_blocks ?np ! 0 = Some b" by auto
      have "unat b \<in> node_blocks ?np" using in_node_blocks [OF _ b] D(2) by simp
      then have bl: "unat b < length ?bs" using fs_invD(3) [OF i3(1) al3(2)] taken_blocks_bound(2) [OF f3(2)] by blast
      have names: "fst (?es ! x) = de_name (entry_at (?bs ! unat b) x)" if "x < ?m" for x
      proof -
        have eq: "?es = map entry_pair (dir_entries ?bs ?np)" using entries_of_abs [OF al3(2), of blocks] abs dir by simp
        have "?es ! x = entry_pair (dir_entries ?bs ?np ! x)" using that by (metis eq length_map nth_map)
        moreover have "dir_entries ?bs ?np ! x = entry_at (?bs ! unat b) x" using that sz(1) b by (simp add: dir_entries_def)
        ultimately show ?thesis by (simp add: entry_pair_def)
      qed
      have "?m = unat (in_size ?np) div 28" using sz(1) by simp
      from der_find_law [OF fs_okD(1) [OF f3(2)] b D(2) bl dir this sz(2) q(1), of nm] names q obtain rd d' where
        rd: "der_new ?np = Some rd" "der_total rd = ?m" "der_find D nm ?m (fs_device f3) rd = Some (Some (position_at (?bs ! unat b) b ?q), d')"
          "dev_ok d'" "blocks d' = ?bs" by force
      let ?f4 = "f3\<lparr>fs_device := d'\<rparr>"
      have ok4: "fs_ok blocks dev_ok ?f4"
        by (rule fs_ok_device [OF f3(2) rd(4)]) (use fs_okD(2) [OF f3(2)] in \<open>simp_all add: rd(5)\<close>)
      have n4: "fs_node blocks ?f4 j = fs_node blocks f3 j" for j by (simp add: fs_node_def rd(5) split: option.splits)
      then have v4: "same_view blocks f3 ?f4" by (simp add: same_view_def rd(5))
      note i4 = fs_inv_same_view [OF i3(1) ok4 v4, unfolded abs]
      obtain c where ic: "a i = Some (File c)"
        using False al3(1) abs fs_abs_None [of blocks f3 i] by (cases "a i"; cases "the (a i)") (simp_all add: is_dir_def)
      have cl: "unat i < cache_len ?f4" using f2(4) f3(3) by (simp add: same_view_def)
      have pq: "snd (?es ! ?q) = i" using q(2) by simp
      have dev: "fs_device ?f4 = d'" by simp
      from unlink_law [OF i4(1), of p ?es ?q i c b, unfolded i4(2) n4 dev rd(5), OF ap q(1) pq ic cl b] obtain d1 d2 fs' where
        un: "modify_block D d' b (take_entry_at ((?m - 1) * 28)) = Some (entry_at (?bs ! unat b) (?m - 1), d1)"
          "(if ?q \<noteq> ?m - 1 then modify_block D d1 b (write_dir_entry_at (entry_at (?bs ! unat b) (?m - 1)) (?q * 28)) else Some ((), d1)) = Some ((), d2)"
          "release_inode D (?f4\<lparr>fs_device := d2\<rparr>) p i (fs_node blocks f3 i) = Some fs'"
          "fs_inv blocks dev_ok fs'" "fs_abs blocks fs' = a(i := None, p \<mapsto> Dir (swap_remove ?es ?q))"
        by blast
      obtain r es' where "?es = (DOT, p) # (DOTDOT, r) # es'" "is_dir a r"
        using dots_first [OF fs_invD(5) [OF i3(1), unfolded abs] ap] by blast
      then have "2 \<le> ?q"
        using pq dp False by (cases "?q = 0 \<or> ?q = 1") auto
      then have last: "(?m - 1) div 18 = 0" "(?m - 1) mod 18 = ?m - 1" "?m - 1 \<noteq> 0" "1 \<le> ?m" using sz(2) q(1) by simp_all
      have "remove_dir_entry D fs path = Some (fs', Inr ())"
        using f1(1) f2(1) f3(1) Inr False di rd(1-3) un(1-3) last sz(1) dir b D(2)
        by (cases "?q = ?m - 1") (simp_all add: remove_dir_entry_def res resolved_record_def ni current_dir_entries_def
            sub_usize_def inode_block_def to_block_def position_at_def Let_def)
      then show ?thesis using un(4,5) Inr False by (intro exI [of _ fs']) (simp add: res)
    qed
  qed
qed

end

end
