(* ===== verification/FS_Correct.thy ===== *)
theory FS_Correct
  imports FS_Mount FS_Remove
begin

text \<open>
  What the filesystem promises, on every block device that keeps the contract: the operations act on
  the abstract tree, every reachable state satisfies the invariant, and what was flushed is mounted
  again.
\<close>

section \<open>Reachable states\<close>

text \<open>
  A device is formatted and mounted; then the operations run in any order, with any outcome short of
  a panic, and the filesystem is flushed and mounted again at any time. Paths are text without the
  NUL character.
\<close>

definition path_ok :: "bytes \<Rightarrow> bool" where
  "path_ok path \<longleftrightarrow> valid_utf8 path \<and> 0 \<notin> set path"

inductive fs_reach :: "'d block_device_ops \<Rightarrow> 'd \<Rightarrow> 'd filesystem \<Rightarrow> bool" for D d0 where
  formatted: "format D d0 = Some (d, Inr ()) \<Longrightarrow> filesystem_new D d = Some (Inr fs) \<Longrightarrow> fs_reach D d0 fs"
| created: "fs_reach D d0 fs \<Longrightarrow> path_ok path \<Longrightarrow> new_dir_entry D fs path kind = Some (fs', r) \<Longrightarrow> fs_reach D d0 fs'"
| removed: "fs_reach D d0 fs \<Longrightarrow> remove_dir_entry D fs path = Some (fs', r) \<Longrightarrow> fs_reach D d0 fs'"
| appended: "fs_reach D d0 fs \<Longrightarrow> append_to_file D fs path data = Some (fs', r) \<Longrightarrow> fs_reach D d0 fs'"
| was_read: "fs_reach D d0 fs \<Longrightarrow> read_file D fs path = Some (fs', r) \<Longrightarrow> fs_reach D d0 fs'"
| flushed: "fs_reach D d0 fs \<Longrightarrow> flush D fs = Some fs' \<Longrightarrow> fs_reach D d0 fs'"
| remounted: "fs_reach D d0 fs \<Longrightarrow> flush D fs = Some fs' \<Longrightarrow> filesystem_new D (fs_device fs') = Some (Inr fs'') \<Longrightarrow>
    fs_reach D d0 fs''"

context block_device
begin

lemma create_inv:
  assumes "fs_inv blocks dev_ok fs" and "path_ok path" and "new_dir_entry D fs path kind = Some (fs', r)"
  shows "fs_inv blocks dev_ok fs'"
  using new_dir_entry_law [OF assms(1), of path kind] assms(2,3)
  by (auto simp: path_ok_def split: sum.splits option.splits if_splits)

lemma append_inv: "fs_inv blocks dev_ok fs \<Longrightarrow> append_to_file D fs path data = Some (fs', r) \<Longrightarrow> fs_inv blocks dev_ok fs'"
  using append_to_file_law [of fs path data] by auto

lemma read_inv:
  assumes "fs_inv blocks dev_ok fs" and "read_file D fs path = Some (fs', r)"
  shows "fs_inv blocks dev_ok fs'" and "fs_abs blocks fs' = fs_abs blocks fs"
proof -
  from read_file_law [OF assms(1), of path] obtain f where f: "fs_inv blocks dev_ok f" "fs_abs blocks f = fs_abs blocks fs"
    and rf: "read_file D fs path =
      (case spec_resolve (fs_abs blocks fs) path of
         Inl e \<Rightarrow> Some (f, Inl e)
       | Inr (p, nm, i) \<Rightarrow>
           (case fs_abs blocks fs i of
              Some (File c) \<Rightarrow> if utf8_blocks 16 c then Some (f, Inr c) else None
            | _ \<Rightarrow> Some (f, Inl IsDirectory)))" by blast
  from rf [unfolded assms(2)] have "fs' = f" by (simp split: sum.splits prod.splits option.splits fnode.splits if_splits)
  then show "fs_inv blocks dev_ok fs'" "fs_abs blocks fs' = fs_abs blocks fs" using f by simp_all
qed

lemma remove_returns:
  assumes "fs_inv blocks dev_ok fs"
  shows "\<exists>fs' r. remove_dir_entry D fs path = Some (fs', r) \<and> fs_inv blocks dev_ok fs'"
proof (cases "spec_resolve (fs_abs blocks fs) path")
  case (Inl e)
  then show ?thesis using remove_dir_entry_law [OF assms, of path] by auto
next
  case (Inr res)
  obtain p nm i where "res = (p, nm, i)" by (cases res)
  then show ?thesis using Inr remove_dir_entry_law [OF assms, of path] by (cases "is_dir (fs_abs blocks fs) i") auto
qed

lemma remove_inv: "fs_inv blocks dev_ok fs \<Longrightarrow> remove_dir_entry D fs path = Some (fs', r) \<Longrightarrow> fs_inv blocks dev_ok fs'"
  using remove_returns [of fs path] by auto

lemma format_mount_inv:
  assumes "dev_ok d0" and "length (blocks d0) < 2 ^ 32" and "format D d0 = Some (d, Inr ())" and "filesystem_new D d = Some (Inr fs)"
  shows "fs_inv blocks dev_ok fs"
proof -
  note f = format_law [OF assms(1,2)]
  have "fixed_blocks 4096 + 2 \<le> length (blocks d0) \<and> (length (blocks d0) - fixed_blocks 4096) mod 4097 \<noteq> 1"
    using f(1,2) assms(3) by (force simp: not_le)
  then show ?thesis using f(3) assms(3,4) by auto
qed

lemma reach_inv:
  assumes "fs_reach D d0 fs" and "dev_ok d0" and "length (blocks d0) < 2 ^ 32"
  shows "fs_inv blocks dev_ok fs"
  using assms
proof (induction rule: fs_reach.induct)
  case (formatted d fs)
  then show ?case using format_mount_inv by blast
next
  case (created fs path kind fs' r)
  then show ?case using create_inv by blast
next
  case (removed fs path fs' r)
  then show ?case using remove_inv by blast
next
  case (appended fs path data fs' r)
  then show ?case using append_inv by blast
next
  case (was_read fs path fs' r)
  then show ?case using read_inv by blast
next
  case (flushed fs fs')
  then show ?case using flush_mount_law [of fs] by auto
next
  case (remounted fs fs' fs'')
  then show ?case using flush_mount_law [of fs] by auto
qed

end

section \<open>Room on the device\<close>

lemma node_blocks_card: "node_shape nd \<Longrightarrow> finite (node_blocks nd) \<and> card (node_blocks nd) \<le> 16"
  using used_length [of nd] card_image_le [of "set (used_blocks nd)" "\<lambda>d. unat (the d)"] card_length [of "used_blocks nd"]
  by (simp add: node_blocks_used)

lemma finite_fs_alloc [simp]: "finite (fs_alloc fs)"
  by (rule finite)

lemma taken_blocks_card:
  assumes "fs_struct B ok fs"
  shows "card (taken_blocks fs) \<le> 16 * card (fs_alloc fs)"
proof -
  let ?N = "\<lambda>i. node_blocks (fs_node B fs i)"
  note I = fs_structD [OF assms]
  have n: "finite (?N i)" "card (?N i) \<le> 16" if "i \<in> fs_alloc fs" for i
    using node_blocks_card [OF node_okD(1) [OF I(2) [OF that]]] by simp_all
  have "card (taken_blocks fs) \<le> card (\<Union>i \<in> fs_alloc fs. ?N i)" using n(1) I(5) by (intro card_mono) auto
  also have "\<dots> \<le> (\<Sum>i \<in> fs_alloc fs. card (?N i))" by (rule card_UN_le) simp
  also have "\<dots> \<le> 16 * card (fs_alloc fs)" using sum_bounded_above [of "fs_alloc fs" "\<lambda>i. card (?N i)" 16] n(2) by simp
  finally show ?thesis .
qed

lemma block_left:
  assumes "fs_struct B ok fs" and "16 * card (fs_alloc fs) < bm_len (fs_data_bitmap fs)"
  shows "bitmap_find_free (fs_data_bitmap fs) \<noteq> None"
proof
  assume none: "bitmap_find_free (fs_data_bitmap fs) = None"
  have "bm_ok (fs_data_bitmap fs)" using fs_okD(3) [OF fs_structD(1) [OF assms(1)]] by (simp add: geometry_ok_def)
  from bitmap_find_free_None [OF this] none have "bm_bits (fs_data_bitmap fs) = {..<bm_len (fs_data_bitmap fs)}" by simp
  then have "taken_blocks fs = (+) (data_start (fs_lay fs)) ` {..<bm_len (fs_data_bitmap fs)}" by (auto simp: taken_blocks_def)
  then have "card (taken_blocks fs) = bm_len (fs_data_bitmap fs)" by (simp add: card_image)
  then show False using taken_blocks_card [OF assms(1)] assms(2) by simp
qed

lemma balanced_room: "balanced R b \<Longrightarrow> 34 \<le> R \<Longrightarrow> 33 \<le> R - b"
proof (rule ccontr)
  assume b: "balanced R b" and R: "34 \<le> R" and "\<not> 33 \<le> R - b"
  then have le: "R - b \<le> 32" by simp
  have "b = div_ceil (R - b) 4096" "b < R" using b by (simp_all add: balanced_def)
  moreover have "div_ceil (R - b) 4096 \<le> 1" using le by (simp add: div_ceil_def)
  ultimately show False using R le by simp
qed

lemma layout_room:
  assumes "T < 2 ^ 32" and "fixed_blocks 4096 + 34 \<le> T" and "layout_new T 4096 = Some (Some l)"
  shows "33 \<le> data_blocks l"
proof -
  have "(T - fixed_blocks 4096) mod 4097 \<noteq> 1" using layout_new_cases(3) [OF assms(1), of 4096] assms(2,3) by auto
  then obtain b where b: "balanced (T - fixed_blocks 4096) b" using balanced_exists [of "T - fixed_blocks 4096"] assms(2) by auto
  then have "l = mk_layout T 4096 b" using layout_new_cases(2) [OF assms(1), of 4096] assms(3) by simp
  then show ?thesis using balanced_room [OF b] assms(2) by (simp add: mk_layout_def)
qed

lemma room_for_two:
  assumes "fs_struct B ok fs" and "dom (fs_abs B fs) \<subseteq> {i, j}" and "33 \<le> data_blocks (fs_lay fs)"
  shows "bitmap_find_free (fs_data_bitmap fs) \<noteq> None"
proof (rule block_left [OF assms(1)])
  have "fs_alloc fs = dom (fs_abs B fs)" by (auto simp: fs_abs_def split: if_splits)
  then have "card (fs_alloc fs) \<le> 2" using card_mono [OF _ assms(2)] card_insert_le_m1 [of 2 "{j}" i] by simp
  moreover have "bm_len (fs_data_bitmap fs) = data_blocks (fs_lay fs)"
    using fs_okD(3) [OF fs_structD(1) [OF assms(1)]] by (simp add: geometry_ok_def)
  ultimately show "16 * card (fs_alloc fs) < bm_len (fs_data_bitmap fs)" using assms(3) by simp
qed

section \<open>A file in the root directory\<close>

lemma split_once_none: "c \<notin> set xs \<Longrightarrow> split_once c (xs @ c # ys) = Some (xs, ys)"
  by (induction xs) auto

lemma root_path_parts: "proper_name nm \<Longrightarrow> path_parts (SLASH # nm) = [nm]"
  by (simp add: path_parts_def split_at_char_none proper_name_def)

lemma root_path_split: "proper_name nm \<Longrightarrow> rsplit_once SLASH (SLASH # nm) = Some ([], nm)"
  by (simp add: rsplit_once_def split_once_none proper_name_def)

lemma root_path_ok: "proper_name nm \<Longrightarrow> valid_utf8 (SLASH # nm) \<and> 0 \<notin> set (SLASH # nm)"
  by (simp add: proper_name_def SLASH_def)

definition one_file :: "bytes \<Rightarrow> inode_index \<Rightarrow> bytes \<Rightarrow> afs" where
  "one_file nm i c = [i \<mapsto> File c, 0 \<mapsto> Dir [(DOT, 0), (DOTDOT, 0), (nm, i)]]"

lemma one_file_resolve:
  "proper_name nm \<Longrightarrow> nm \<noteq> DOT \<Longrightarrow> nm \<noteq> DOTDOT \<Longrightarrow> spec_resolve (one_file nm i c) (SLASH # nm) = Inr (0, nm, i)"
  by (simp add: spec_resolve_def root_path_split path_parts_def entries_of_def one_file_def)

lemma empty_tree_create:
  "proper_name nm \<Longrightarrow> nm \<noteq> DOT \<Longrightarrow> nm \<noteq> DOTDOT \<Longrightarrow> spec_create empty_tree (SLASH # nm) = Inr (0, nm)"
  by (simp add: spec_create_def root_path_parts) (simp add: proper_name_def entries_of_def empty_tree_def)

lemma inode_left:
  assumes "fs_struct B ok fs" and "fs_abs B fs = empty_tree" and "2 \<le> inode_count fs"
  shows "\<exists>k. bitmap_find_free (fs_inode_bitmap fs) = Some k"
proof (rule ccontr)
  assume none: "\<nexists>k. bitmap_find_free (fs_inode_bitmap fs) = Some k"
  have bm: "bm_ok (fs_inode_bitmap fs)" and lim: "bm_len (fs_inode_bitmap fs) < 2 ^ 32"
    using fs_okD(3) [OF fs_structD(1) [OF assms(1)]] by (simp_all add: geometry_ok_def)
  then have "bm_bits (fs_inode_bitmap fs) = {..<inode_count fs}"
    using bitmap_find_free_None [OF bm] none by (auto simp: inode_count_def)
  then have "(1 :: inode_index) \<in> fs_alloc fs" using assms(3) by (simp add: fs_alloc_def)
  then have "fs_abs B fs 1 \<noteq> None" by (simp add: fs_abs_def)
  then show False by (simp add: assms(2) empty_tree_def)
qed

context block_device
begin

lemma create_in_root:
  assumes "fs_inv blocks dev_ok fs" and "fs_abs blocks fs = empty_tree" and "2 \<le> inode_count fs"
    and "proper_name nm" and "nm \<noteq> DOT" and "nm \<noteq> DOTDOT"
  shows "\<exists>fs' i. new_dir_entry D fs (SLASH # nm) EntryFile = Some (fs', Inr i) \<and> fs_inv blocks dev_ok fs' \<and>
    fs_lay fs' = fs_lay fs \<and> i \<noteq> 0 \<and> fs_abs blocks fs' = one_file nm i []"
proof -
  have S: "fs_struct blocks dev_ok fs" using assms(1) by (simp add: fs_inv_def)
  from inode_left [OF S assms(2,3)] obtain k where k: "bitmap_find_free (fs_inode_bitmap fs) = Some k" by blast
  from root_path_ok [OF assms(4)] have p: "valid_utf8 (SLASH # nm)" "0 \<notin> set (SLASH # nm)" by blast+
  from new_dir_entry_law [OF assms(1) p, of EntryFile, unfolded assms(2) empty_tree_create [OF assms(4-6)]] k obtain fs' where
    f: "new_dir_entry D fs (SLASH # nm) EntryFile = Some (fs', Inr (as_u32 k))" "fs_inv blocks dev_ok fs'" "fs_lay fs' = fs_lay fs"
      "empty_tree (as_u32 k) = None" "fs_abs blocks fs' = empty_tree(as_u32 k \<mapsto> new_node EntryFile (as_u32 k) 0,
        0 \<mapsto> Dir (entries_of empty_tree 0 @ [(nm, as_u32 k)]))"
    by (auto simp: entries_of_def empty_tree_def)
  have ne: "as_u32 k \<noteq> 0" using f(4) by (auto simp: empty_tree_def)
  then have "fs_abs blocks fs' = one_file nm (as_u32 k) []"
    unfolding f(5) one_file_def by (auto simp: empty_tree_def new_node_def entries_of_def fun_eq_iff)
  then show ?thesis using f(1-3) ne by blast
qed

lemma append_in_root:
  assumes "fs_inv blocks dev_ok fs" and "fs_abs blocks fs = one_file nm i c" and "i \<noteq> 0" and "33 \<le> data_blocks (fs_lay fs)"
    and "proper_name nm" and "nm \<noteq> DOT" and "nm \<noteq> DOTDOT" and "length c + length data \<le> 8192"
  shows "\<exists>fs'. append_to_file D fs (SLASH # nm) data = Some (fs', Inr (length data)) \<and> fs_inv blocks dev_ok fs' \<and>
    fs_lay fs' = fs_lay fs \<and> fs_abs blocks fs' = one_file nm i (c @ data)"
proof -
  have upd: "(one_file nm i c)(i \<mapsto> File c') = one_file nm i c'" for c' using assms(3) by (auto simp: one_file_def fun_eq_iff)
  have fc: "one_file nm i c i = Some (File c)" using assms(3) by (simp add: one_file_def)
  from append_to_file_law [OF assms(1), of "SLASH # nm" data, unfolded assms(2) one_file_resolve [OF assms(5-7)]] assms(8) obtain fs' r where
    f: "append_to_file D fs (SLASH # nm) data = Some (fs', r)" "fs_inv blocks dev_ok fs'" "fs_lay fs' = fs_lay fs"
      "r = Inr (length data) \<and> fs_abs blocks fs' = one_file nm i (c @ data) \<or>
       bitmap_find_free (fs_data_bitmap fs') = None \<and> (\<exists>k < length data. fs_abs blocks fs' = one_file nm i (c @ take k data))"
    by (auto simp: fc upd)
  have S: "fs_struct blocks dev_ok fs'" using f(2) by (simp add: fs_inv_def)
  have "dom (one_file nm i c') \<subseteq> {i, 0}" for c' by (simp add: one_file_def)
  then have "bitmap_find_free (fs_data_bitmap fs') \<noteq> None" using room_for_two [OF S, of i 0] f(3,4) assms(4) by auto
  then show ?thesis using f by auto
qed

lemma session_law:
  assumes dev: "dev_ok d" "length (blocks d) < 2 ^ 32" "fixed_blocks 4096 + 34 \<le> length (blocks d)"
    "(length (blocks d) - fixed_blocks 4096) mod 4097 \<noteq> 1"
    and nm: "proper_name nm" "nm \<noteq> DOT" "nm \<noteq> DOTDOT" and data: "length data \<le> 8192" "utf8_blocks 16 data"
  shows "\<exists>d1 fs1 fs2 i fs3 fs4 fs5 fs6. format D d = Some (d1, Inr ()) \<and> filesystem_new D d1 = Some (Inr fs1) \<and>
    new_dir_entry D fs1 (SLASH # nm) EntryFile = Some (fs2, Inr i) \<and>
    append_to_file D fs2 (SLASH # nm) data = Some (fs3, Inr (length data)) \<and>
    flush D fs3 = Some fs4 \<and> filesystem_new D (fs_device fs4) = Some (Inr fs5) \<and>
    read_file D fs5 (SLASH # nm) = Some (fs6, Inr data)"
proof -
  from format_law(3) [OF dev(1,2)] dev(3,4) obtain d1 fs1 where
    f1: "format D d = Some (d1, Inr ())" "filesystem_new D d1 = Some (Inr fs1)" "fs_inv blocks dev_ok fs1" "fs_abs blocks fs1 = empty_tree"
      "inode_count fs1 = 4096" "layout_new (length (blocks d)) 4096 = Some (Some (fs_lay fs1))" by auto
  note room = layout_room [OF dev(2,3) f1(6)]
  from create_in_root [OF f1(3,4) _ nm] f1(5) obtain fs2 i where
    f2: "new_dir_entry D fs1 (SLASH # nm) EntryFile = Some (fs2, Inr i)" "fs_inv blocks dev_ok fs2" "fs_lay fs2 = fs_lay fs1" "i \<noteq> 0"
      "fs_abs blocks fs2 = one_file nm i []" by auto
  from append_in_root [OF f2(2,5,4) _ nm, of data] f2(3) room data(1) obtain fs3 where
    f3: "append_to_file D fs2 (SLASH # nm) data = Some (fs3, Inr (length data))" "fs_inv blocks dev_ok fs3" "fs_abs blocks fs3 = one_file nm i data"
    by auto
  from flush_mount_law [OF f3(2)] f3(3) obtain fs4 fs5 where
    f5: "flush D fs3 = Some fs4" "filesystem_new D (fs_device fs4) = Some (Inr fs5)" "fs_inv blocks dev_ok fs5" "fs_abs blocks fs5 = one_file nm i data"
    by auto
  have fc: "one_file nm i data i = Some (File data)" using f2(4) by (simp add: one_file_def)
  from read_file_law [OF f5(3), of "SLASH # nm", unfolded f5(4) one_file_resolve [OF nm]] data(2) obtain fs6 where
    "read_file D fs5 (SLASH # nm) = Some (fs6, Inr data)" by (auto simp: fc)
  then show ?thesis using f1(1,2) f2(1) f3(1) f5(1,2) by blast
qed

end

section \<open>The ramdisk\<close>

text \<open>The static \<open>RAMDISK\<close> of the kernel, formatted and mounted, and with an empty file \<open>/a\<close>.\<close>

lemma ramdisk_size [simp]: "RAMDISK_SIZE div 512 = 2048" "ramdisk_ok (replicate RAMDISK_SIZE 0)"
  by (simp_all add: ramdisk_ok_def RAMDISK_SIZE_def)

lemma ramdisk_fits: "fixed_blocks 4096 = 588" "((2048 - fixed_blocks 4096) mod 4097 :: nat) \<noteq> 1"
  by (simp_all add: fixed_blocks_def div_ceil_def)

lemma ramdisk_empty:
  "\<exists>fs. fs_reach ramdisk_device (replicate RAMDISK_SIZE 0) fs \<and> fs_inv chunks ramdisk_ok fs \<and> fs_abs chunks fs = empty_tree \<and>
     inode_count fs = 4096 \<and> 33 \<le> data_blocks (fs_lay fs)"
proof -
  from ramdisk.format_law(3) [OF ramdisk_size(2)] ramdisk_fits obtain d fs where
    f: "format ramdisk_device (replicate RAMDISK_SIZE 0) = Some (d, Inr ())" "filesystem_new ramdisk_device d = Some (Inr fs)"
      "fs_inv chunks ramdisk_ok fs" "fs_abs chunks fs = empty_tree" "inode_count fs = 4096" "layout_new 2048 4096 = Some (Some (fs_lay fs))"
    by auto
  from layout_room [OF _ _ f(6)] have "33 \<le> data_blocks (fs_lay fs)" by (simp add: ramdisk_fits)
  then show ?thesis using f fs_reach.formatted [OF f(1,2)] by blast
qed

lemma ramdisk_file:
  "\<exists>fs i. fs_inv chunks ramdisk_ok fs \<and> i \<noteq> 0 \<and> fs_abs chunks fs = one_file [97] i [] \<and>
     spec_resolve (fs_abs chunks fs) [47, 97] = Inr (0, [97], i)"
proof -
  have nm: "proper_name [97]" "[97] \<noteq> DOT" "[97] \<noteq> DOTDOT" by (simp_all add: proper_name_def SLASH_def DOT_def DOTDOT_def)
  from ramdisk_empty obtain fs where fs: "fs_inv chunks ramdisk_ok fs" "fs_abs chunks fs = empty_tree" "2 \<le> inode_count fs" by force
  from ramdisk.create_in_root [OF fs nm] one_file_resolve [OF nm] show ?thesis by (metis SLASH_def)
qed

section \<open>Properties\<close>

text \<open>
  C12: every state that the filesystem reaches is sound. From a device with the block-device contract,
  whatever operations run after \<open>format\<close> and a mount, with whatever results, remounts included: the
  tree is well formed (the root is a directory, every directory starts with itself and its parent, its
  names are distinct, proper and lead to allocated i-nodes, a file has one entry); different i-nodes
  share no block; the data bitmap marks exactly the blocks that the i-nodes own, so none is lost; and
  \<open>append_to_file\<close>, \<open>remove_dir_entry\<close> and \<open>flush\<close> never panic.
\<close>
theorem reachable_fs_sound:
  assumes "block_device D B ok" and "ok d0" and "length (B d0) < 2 ^ 32" and "fs_reach D d0 fs"
  shows "afs_ok (fs_abs B fs) \<and>
    (\<forall>i \<in> fs_alloc fs. \<forall>j \<in> fs_alloc fs. i \<noteq> j \<longrightarrow> node_blocks (fs_node B fs i) \<inter> node_blocks (fs_node B fs j) = {}) \<and>
    taken_blocks fs = (\<Union>i \<in> fs_alloc fs. node_blocks (fs_node B fs i)) \<and>
    (\<forall>path data. append_to_file D fs path data \<noteq> None) \<and> (\<forall>path. remove_dir_entry D fs path \<noteq> None) \<and> flush D fs \<noteq> None"
proof (intro conjI allI)
  note inv = block_device.reach_inv [OF assms(1,4,2,3)]
  show "afs_ok (fs_abs B fs)"
    "\<forall>i \<in> fs_alloc fs. \<forall>j \<in> fs_alloc fs. i \<noteq> j \<longrightarrow> node_blocks (fs_node B fs i) \<inter> node_blocks (fs_node B fs j) = {}"
    "taken_blocks fs = (\<Union>i \<in> fs_alloc fs. node_blocks (fs_node B fs i))"
    using inv by (auto simp: fs_inv_def fs_struct_def)
  show "append_to_file D fs path data \<noteq> None" for path data
    using block_device.append_to_file_law [OF assms(1) inv, of path data] by auto
  show "remove_dir_entry D fs path \<noteq> None" for path using block_device.remove_returns [OF assms(1) inv, of path] by auto
  show "flush D fs \<noteq> None" using block_device.flush_mount_law [OF assms(1) inv] by auto
qed

theorem reachable_fs_sound_witness:
  "\<exists>fs. fs_reach ramdisk_device (replicate RAMDISK_SIZE 0) fs \<and> afs_ok (fs_abs chunks fs) \<and> fs_abs chunks fs = empty_tree"
proof -
  from ramdisk_empty obtain fs where fs: "fs_reach ramdisk_device (replicate RAMDISK_SIZE 0) fs" "fs_abs chunks fs = empty_tree" by blast
  from reachable_fs_sound [OF ramdisk.block_device_axioms _ _ fs(1)] show ?thesis using fs by auto
qed

text \<open>
  C14: \<open>new_dir_entry\<close> on the tree. An empty path, a long name, a missing or non-directory parent and an
  existing name give their errors, and a full i-node bitmap gives \<open>NoFreeInodes\<close>, all without a change
  of the tree. Otherwise a new empty file, or a directory with \<open>.\<close> and \<open>..\<close>, appears under a fresh
  i-node at the end of the parent, and nothing else changes. The two cases that panic are made
  explicit: a parent with 18 entries, and a directory when no data block is left.
\<close>
theorem create_refines:
  assumes "block_device D B ok" and "fs_inv B ok fs" and "path_ok path"
  shows "case spec_create (fs_abs B fs) path of
      Inl e \<Rightarrow> \<exists>fs'. new_dir_entry D fs path kind = Some (fs', Inl e) \<and> fs_inv B ok fs' \<and> fs_abs B fs' = fs_abs B fs
    | Inr (p, nm) \<Rightarrow>
        (case bitmap_find_free (fs_inode_bitmap fs) of
           None \<Rightarrow> \<exists>fs'. new_dir_entry D fs path kind = Some (fs', Inl NoFreeInodes) \<and> fs_inv B ok fs' \<and> fs_abs B fs' = fs_abs B fs
         | Some k \<Rightarrow>
             if length (entries_of (fs_abs B fs) p) = 18 \<or> kind = EntryDirectory \<and> bitmap_find_free (fs_data_bitmap fs) = None
             then new_dir_entry D fs path kind = None
             else \<exists>fs'. new_dir_entry D fs path kind = Some (fs', Inr (as_u32 k)) \<and> fs_inv B ok fs' \<and> fs_lay fs' = fs_lay fs \<and>
               fs_abs B fs (as_u32 k) = None \<and>
               fs_abs B fs' = (fs_abs B fs)(as_u32 k \<mapsto> new_node kind (as_u32 k) p, p \<mapsto> Dir (entries_of (fs_abs B fs) p @ [(nm, as_u32 k)])))"
  using block_device.new_dir_entry_law [OF assms(1,2)] assms(3) unfolding path_ok_def by blast

theorem create_refines_witness:
  "\<exists>fs fs' i. fs_inv chunks ramdisk_ok fs \<and> new_dir_entry ramdisk_device fs [47, 97] EntryFile = Some (fs', Inr i) \<and>
     fs_abs chunks fs' i = Some (File [])"
proof -
  have nm: "proper_name [97]" "[97] \<noteq> DOT" "[97] \<noteq> DOTDOT" and p: "path_ok [47, 97]"
    by (simp_all add: proper_name_def SLASH_def DOT_def DOTDOT_def path_ok_def)
  from ramdisk_empty obtain fs where fs: "fs_inv chunks ramdisk_ok fs" "fs_abs chunks fs = empty_tree" "2 \<le> inode_count fs" by force
  from inode_left [OF _ fs(2,3)] fs(1) obtain k where k: "bitmap_find_free (fs_inode_bitmap fs) = Some k" by (auto simp: fs_inv_def)
  from create_refines [OF ramdisk.block_device_axioms fs(1) p, of EntryFile, unfolded fs(2) empty_tree_create [OF nm, unfolded SLASH_def]] k obtain fs' where
    "new_dir_entry ramdisk_device fs [47, 97] EntryFile = Some (fs', Inr (as_u32 k))" "empty_tree (as_u32 k) = None"
    "fs_abs chunks fs' = empty_tree(as_u32 k \<mapsto> File [], 0 \<mapsto> Dir (entries_of empty_tree 0 @ [([97], as_u32 k)]))"
    by (auto simp: entries_of_def empty_tree_def new_node_def)
  moreover from this have "as_u32 k \<noteq> 0" by (auto simp: empty_tree_def)
  ultimately show ?thesis using fs(1) by auto
qed

text \<open>
  C13: \<open>append_to_file\<close> on the tree. It never panics. A path that does not resolve gives its error, a
  directory \<open>IsDirectory\<close>, a file that would exceed 8192 bytes \<open>FileTooLarge\<close>, all without a change of the
  tree. Otherwise the bytes are appended to that file alone and their number is returned; or the data
  blocks run out, and then a proper prefix has been appended and \<open>NoSpaceLeft\<close> is returned.
\<close>
theorem append_refines:
  assumes "block_device D B ok" and "fs_inv B ok fs"
  shows "\<exists>fs' r. append_to_file D fs path data = Some (fs', r) \<and> fs_inv B ok fs' \<and> fs_lay fs' = fs_lay fs \<and>
    (case spec_resolve (fs_abs B fs) path of
       Inl e \<Rightarrow> r = Inl e \<and> fs_abs B fs' = fs_abs B fs
     | Inr (p, nm, i) \<Rightarrow>
         (case fs_abs B fs i of
            Some (File c) \<Rightarrow>
              if length c + length data > 8192 then r = Inl FileTooLarge \<and> fs_abs B fs' = fs_abs B fs
              else r = Inr (length data) \<and> fs_abs B fs' = (fs_abs B fs)(i \<mapsto> File (c @ data)) \<or>
                r = Inl NoSpaceLeft \<and> bitmap_find_free (fs_data_bitmap fs') = None \<and>
                  (\<exists>k < length data. fs_abs B fs' = (fs_abs B fs)(i \<mapsto> File (c @ take k data)))
          | _ \<Rightarrow> r = Inl IsDirectory \<and> fs_abs B fs' = fs_abs B fs))"
  by (rule block_device.append_to_file_law [OF assms])

theorem append_refines_witness:
  "\<exists>fs i fs' r. fs_inv chunks ramdisk_ok fs \<and> fs_abs chunks fs i = Some (File []) \<and>
     append_to_file ramdisk_device fs [47, 97] [1, 2] = Some (fs', r) \<and>
     (r = Inr 2 \<and> fs_abs chunks fs' i = Some (File [1, 2]) \<or> r = Inl NoSpaceLeft)"
proof -
  from ramdisk_file obtain fs i where fs: "fs_inv chunks ramdisk_ok fs" "i \<noteq> 0" "fs_abs chunks fs = one_file [97] i []"
    "spec_resolve (fs_abs chunks fs) [47, 97] = Inr (0, [97], i)" by blast
  have fc: "fs_abs chunks fs i = Some (File [])" using fs(2,3) by (simp add: one_file_def)
  from append_refines [OF ramdisk.block_device_axioms fs(1), of "[47, 97]" "[1, 2]"] obtain fs' r where
    "append_to_file ramdisk_device fs [47, 97] [1, 2] = Some (fs', r)"
    "r = Inr 2 \<and> fs_abs chunks fs' i = Some (File [1, 2]) \<or> r = Inl NoSpaceLeft"
    unfolding fs(4) by (auto simp: fc)
  then show ?thesis using fs(1) fc by blast
qed

text \<open>
  C16: \<open>read_file\<close> returns exactly the bytes of the file and changes nothing. It panics only when some
  512-byte block of the file is not UTF-8 on its own; a path that does not resolve gives its error and a
  directory \<open>IsDirectory\<close>.
\<close>
theorem read_file_exact:
  assumes "block_device D B ok" and "fs_inv B ok fs"
  shows "\<exists>fs'. fs_inv B ok fs' \<and> fs_abs B fs' = fs_abs B fs \<and> read_file D fs path =
    (case spec_resolve (fs_abs B fs) path of
       Inl e \<Rightarrow> Some (fs', Inl e)
     | Inr (p, nm, i) \<Rightarrow>
         (case fs_abs B fs i of
            Some (File c) \<Rightarrow> if utf8_blocks 16 c then Some (fs', Inr c) else None
          | _ \<Rightarrow> Some (fs', Inl IsDirectory)))"
  by (rule block_device.read_file_law [OF assms])

theorem read_file_exact_witness:
  "\<exists>fs fs'. fs_inv chunks ramdisk_ok fs \<and> read_file ramdisk_device fs [47, 97] = Some (fs', Inr [])"
proof -
  from ramdisk_file obtain fs i where fs: "fs_inv chunks ramdisk_ok fs" "i \<noteq> 0" "fs_abs chunks fs = one_file [97] i []"
    "spec_resolve (fs_abs chunks fs) [47, 97] = Inr (0, [97], i)" by blast
  have fc: "fs_abs chunks fs i = Some (File [])" using fs(2,3) by (simp add: one_file_def)
  from read_file_exact [OF ramdisk.block_device_axioms fs(1), of "[47, 97]"] show ?thesis
    unfolding fs(4) using fs(1) by (auto simp: fc utf8_blocks_def)
qed

text \<open>
  C15: \<open>remove_dir_entry\<close> never panics. A path that does not resolve gives its error, a directory
  \<open>OperationNotSupported\<close>, without a change of the tree. A file disappears: its i-node is free again and the
  last entry of the parent takes the place of its entry, and nothing else changes.
\<close>
theorem remove_refines:
  assumes "block_device D B ok" and "fs_inv B ok fs"
  shows "\<exists>fs'. fs_inv B ok fs' \<and>
    (case spec_resolve (fs_abs B fs) path of
       Inl e \<Rightarrow> remove_dir_entry D fs path = Some (fs', Inl e) \<and> fs_abs B fs' = fs_abs B fs
     | Inr (p, nm, i) \<Rightarrow>
         if is_dir (fs_abs B fs) i then remove_dir_entry D fs path = Some (fs', Inl OperationNotSupported) \<and> fs_abs B fs' = fs_abs B fs
         else remove_dir_entry D fs path = Some (fs', Inr ()) \<and> fs_abs B fs' = (fs_abs B fs)
           (i := None, p \<mapsto> Dir (swap_remove (entries_of (fs_abs B fs) p) (name_index nm (entries_of (fs_abs B fs) p)))))"
  by (rule block_device.remove_dir_entry_law [OF assms])

theorem remove_refines_witness:
  "\<exists>fs i fs'. fs_inv chunks ramdisk_ok fs \<and> fs_abs chunks fs i = Some (File []) \<and>
     remove_dir_entry ramdisk_device fs [47, 97] = Some (fs', Inr ()) \<and> fs_abs chunks fs' i = None"
proof -
  from ramdisk_file obtain fs i where fs: "fs_inv chunks ramdisk_ok fs" "i \<noteq> 0" "fs_abs chunks fs = one_file [97] i []"
    "spec_resolve (fs_abs chunks fs) [47, 97] = Inr (0, [97], i)" by blast
  have fc: "fs_abs chunks fs i = Some (File [])" using fs(2,3) by (simp add: one_file_def)
  then have nd: "\<not> is_dir (fs_abs chunks fs) i" by (simp add: is_dir_def)
  from remove_refines [OF ramdisk.block_device_axioms fs(1), of "[47, 97]"] nd obtain fs' where
    "remove_dir_entry ramdisk_device fs [47, 97] = Some (fs', Inr ())" "fs_abs chunks fs' i = None"
    unfolding fs(4) using fs(2) by auto
  then show ?thesis using fs(1) fc by blast
qed

text \<open>
  C17: what was flushed is mounted again, on whatever device. \<open>flush\<close> terminates without a panic and leaves the
  tree as it is, and \<open>Filesystem::new\<close> on any device with the same blocks accepts the superblock and finds the
  same tree, with the same bitmaps and the same layout: after a restart that lost the driver's state, and
  also when the image is moved to a device of another kind.
\<close>
theorem flush_mount_roundtrip:
  assumes "block_device D B ok" and "block_device E C ok'" and "fs_inv B ok fs"
  shows "\<exists>fs'. flush D fs = Some fs' \<and> fs_inv B ok fs' \<and> fs_abs B fs' = fs_abs B fs \<and>
    (\<forall>d. ok' d \<longrightarrow> C d = B (fs_device fs') \<longrightarrow>
       (\<exists>fs''. filesystem_new E d = Some (Inr fs'') \<and> fs_inv C ok' fs'' \<and> fs_abs C fs'' = fs_abs B fs \<and>
         fs_inode_bitmap fs'' = fs_inode_bitmap fs \<and> fs_data_bitmap fs'' = fs_data_bitmap fs \<and> fs_lay fs'' = fs_lay fs))"
  using block_device.flush_disk_law [OF assms(1,3)] block_device.mount_disk_law [OF assms(2)] by metis

text \<open>The ramdisk of the kernel with the file \<open>/a\<close>, mounted again from an image file of the host.\<close>

theorem flush_mount_roundtrip_witness:
  "\<exists>fs i fs' fs''. fs_inv chunks ramdisk_ok fs \<and> flush ramdisk_device fs = Some fs' \<and>
     filesystem_new file_device \<lparr>fd_bytes = fs_device fs', fd_cursor = 0, fd_total_blocks = 2048\<rparr> = Some (Inr fs'') \<and>
     fs_abs (\<lambda>f. chunks (fd_bytes f)) fs'' = one_file [97] i []"
proof -
  from ramdisk_file obtain fs i where fs: "fs_inv chunks ramdisk_ok fs" "fs_abs chunks fs = one_file [97] i []" by blast
  from flush_mount_roundtrip [OF ramdisk.block_device_axioms image.block_device_axioms fs(1)] obtain fs' where
    f: "flush ramdisk_device fs = Some fs'" "fs_inv chunks ramdisk_ok fs'"
      "\<forall>d. file_ok d \<longrightarrow> chunks (fd_bytes d) = chunks (fs_device fs') \<longrightarrow>
         (\<exists>fs''. filesystem_new file_device d = Some (Inr fs'') \<and> fs_abs (\<lambda>f. chunks (fd_bytes f)) fs'' = fs_abs chunks fs)" by blast
  have "ramdisk_ok (fs_device fs')" using fs_okD(1) [OF fs_invD(1) [OF f(2)]] .
  then have "file_ok \<lparr>fd_bytes = fs_device fs', fd_cursor = 0, fd_total_blocks = 2048\<rparr>"
    by (simp add: file_ok_def ramdisk_ok_def RAMDISK_SIZE_def)
  with f(3) [rule_format, of "\<lparr>fd_bytes = fs_device fs', fd_cursor = 0, fd_total_blocks = 2048\<rparr>"] f(1) fs show ?thesis by fastforce
qed

text \<open>
  C20: \<open>format\<close> on every device of fewer than 2^32 blocks. Too few blocks give \<open>DeviceTooSmall\<close>; a number of
  blocks that no layout balances makes it loop forever; on every other device it returns, and the mount
  that follows finds an empty root directory.
\<close>
theorem format_decides:
  assumes "block_device D B ok" and "ok d" and "length (B d) < 2 ^ 32"
  shows "(length (B d) < fixed_blocks 4096 + 2 \<longrightarrow> format D d = Some (d, Inl DeviceTooSmall)) \<and>
    (fixed_blocks 4096 + 2 \<le> length (B d) \<and> (length (B d) - fixed_blocks 4096) mod 4097 = 1 \<longrightarrow> format D d = None) \<and>
    (fixed_blocks 4096 + 2 \<le> length (B d) \<and> (length (B d) - fixed_blocks 4096) mod 4097 \<noteq> 1 \<longrightarrow>
       (\<exists>d' fs. format D d = Some (d', Inr ()) \<and> filesystem_new D d' = Some (Inr fs) \<and> fs_inv B ok fs \<and> fs_abs B fs = empty_tree))"
  using block_device.format_law [OF assms] by blast

theorem format_decides_witness:
  "\<exists>d' fs. format ramdisk_device (replicate RAMDISK_SIZE 0) = Some (d', Inr ()) \<and> filesystem_new ramdisk_device d' = Some (Inr fs) \<and>
     fs_abs chunks fs = empty_tree"
  using format_decides [OF ramdisk.block_device_axioms ramdisk_size(2)] ramdisk_fits by auto

text \<open>
  A file survives a session. On every device with at least 622 blocks that can be formatted:
  format, mount, create a file in the root directory, append up to 8192 bytes whose blocks are UTF-8,
  flush, mount again and read; every step succeeds and the bytes come back.
\<close>
theorem file_survives_session:
  assumes "block_device D B ok" and "ok d" and "length (B d) < 2 ^ 32" and "fixed_blocks 4096 + 34 \<le> length (B d)"
    and "(length (B d) - fixed_blocks 4096) mod 4097 \<noteq> 1"
    and "proper_name nm" and "nm \<noteq> DOT" and "nm \<noteq> DOTDOT" and "length data \<le> 8192" and "utf8_blocks 16 data"
  shows "\<exists>d1 fs1 fs2 i fs3 fs4 fs5 fs6. format D d = Some (d1, Inr ()) \<and> filesystem_new D d1 = Some (Inr fs1) \<and>
    new_dir_entry D fs1 (SLASH # nm) EntryFile = Some (fs2, Inr i) \<and>
    append_to_file D fs2 (SLASH # nm) data = Some (fs3, Inr (length data)) \<and>
    flush D fs3 = Some fs4 \<and> filesystem_new D (fs_device fs4) = Some (Inr fs5) \<and>
    read_file D fs5 (SLASH # nm) = Some (fs6, Inr data)"
  by (rule block_device.session_law [OF assms])

theorem file_survives_session_witness:
  "\<exists>d1 fs1 fs2 i fs3 fs4 fs5 fs6. format ramdisk_device (replicate RAMDISK_SIZE 0) = Some (d1, Inr ()) \<and>
    filesystem_new ramdisk_device d1 = Some (Inr fs1) \<and> new_dir_entry ramdisk_device fs1 [47, 97] EntryFile = Some (fs2, Inr i) \<and>
    append_to_file ramdisk_device fs2 [47, 97] [104, 105] = Some (fs3, Inr 2) \<and> flush ramdisk_device fs3 = Some fs4 \<and>
    filesystem_new ramdisk_device (fs_device fs4) = Some (Inr fs5) \<and> read_file ramdisk_device fs5 [47, 97] = Some (fs6, Inr [104, 105])"
proof -
  have nm: "proper_name [97]" "[97] \<noteq> DOT" "[97] \<noteq> DOTDOT" by (simp_all add: proper_name_def SLASH_def DOT_def DOTDOT_def)
  have "utf8_blocks 16 [104, 105]" unfolding utf8_blocks_def
    by (intro allI impI valid_utf8_ascii) (auto simp: list_all_iff dest!: in_set_takeD in_set_dropD)
  from file_survives_session [OF ramdisk.block_device_axioms ramdisk_size(2) _ _ _ nm _ this] show ?thesis
    by (simp add: SLASH_def ramdisk_fits(1) flip: numeral_2_eq_2)
qed

end
