(* ===== verification/Boot.thy ===== *)
theory Boot
  imports Virtio_Drivers Kernel_Paging Trap_Handler Shell FS_Correct
begin

text \<open>
  The entry point (\<open>src/main.rs\<close>): \<open>_start\<close> brings up the heap, the log, the traps, the device tree, the page
  frames, the page table, the timer and the filesystem, in this order, and runs the shell. The linker's labels
  (\<open>src/kernel_layout.rs\<close>) are a function from their names to addresses. The theory composes the models of the
  components; what holds of the composition is stated at its end.
\<close>

section \<open>Model\<close>

definition from_labels :: "(string \<Rightarrow> usize) \<Rightarrow> kernel_layout" where
  "from_labels label =
     \<lparr>kernel_start = label ''_kernel_start'', kernel_end = label ''_kernel_end'', heap_start = label ''_heap_start'',
      heap_end = label ''_heap_end'', trap_stack_top = label ''_trap_stack_top''\<rparr>"

text \<open>The derived \<open>Debug\<close> under \<open>{:#x?}\<close>: one field per line, numbers in hexadecimal.\<close>

definition layout_field :: "string \<Rightarrow> usize \<Rightarrow> bytes" where
  "layout_field name v = str_lit ''    '' @ str_lit name @ str_lit '': 0x'' @ fmt_hex False v @ str_lit '','' @ NEWLINE"

definition layout_debug :: "kernel_layout \<Rightarrow> bytes" where
  "layout_debug l =
     str_lit ''KernelLayout {'' @ NEWLINE @ layout_field ''kernel_start'' (kernel_start l) @ layout_field ''kernel_end'' (kernel_end l) @
     layout_field ''heap_start'' (heap_start l) @ layout_field ''heap_end'' (heap_end l) @
     layout_field ''trap_stack_top'' (trap_stack_top l) @ str_lit ''}''"

fun join_lines :: "string list \<Rightarrow> bytes" where
  "join_lines [] = []"
| "join_lines [l] = str_lit l"
| "join_lines (l # ls) = str_lit l @ NEWLINE @ join_lines ls"

definition SHARK :: bytes where
  "SHARK = join_lines
    ['''',
     ''                     .#@@@@*....'',
     ''                    @@-....-@@@@@@:.'',
     ''                    .@@.        ..@@@@.     ........'',
     ''                     .@@-.          .@@@@@@@@@@@@@@@@@@@@@@...'',
     ''                      .@@.         =+......          .....-@@@@@@..'',
     ''                       .@@.                                   ..:@@@@@..'',
     ''                       .@@@@..                                     ...@@@@.'',
     ''                     .@@@..                                            ..@@.'',
     ''                   .@@@.                      .@@@@.                    .@@.'',
     ''                 ..@@..                      .@@@.+@.             .     .@@.'',
     ''                .@@+.                        .@@@@@@.           =@.    .@@.'',
     ''    ..         .@@..                          .@@@@.                   %@..'',
     ''  .@@@@@%.    .@@.              ..                                    @@=.'',
     ''   .@@..@@@. :@@.             @.@.                                  .@@..'',
     ''    .@@. .=@@@#.            ..@.@.        .@@@..                  .@@@.'',
     ''     *@*.  +..             .@.@.=@.       ...@.@-@@@@@%+=-+*@@@@@@@@..'',
     ''      @@.                  .@.-@..@.         .%@....@*.@.@.+@@.@@..'',
     ''      .@@.                  .@..+. ..          .#@@.@@..:. ...@@:.'',
     ''      .@@.  ..                                    ..@@@@-@@-@@@@.'',
     ''      =@-.  .@@@..     .@.                             ......@@@.'',
     ''     .@@. .@@%@@@.:@@@@+.         @.                      =@@@..'',
     ''     *@:@@@@.. .:@@@..@.        .@-.                  .@@@@..'',
     ''     .@@:..       .-@@.        .@-.              ..@@@@@..'',
     ''                  .@@..      .@@:.........:@@@@@@@%@@.'',
     ''                 .@@.      .@@@:%@@@@@@@@@@@@...  .@@.'',
     ''               .@@@.    .*@@@..            .:@@@. @@*.'',
     ''               @@:..%@@@@@..                  .@@@@..'',
     ''               .-@@@=...'',
     ''        '']"

text \<open>
  The state of the kernel: the hart with the memory of the trap frame, the heap, the log, the devices and
  what the driver crate keeps, the system information, the frames and tables, the filesystem behind its lock,
  and the UART.
\<close>

record ('d, 'b) kernel_state =
  ks_machine :: machine
  ks_heap :: "memory \<times> free_list_allocator mutex"
  ks_klog :: klog_state
  ks_devices :: 'd
  ks_sysinfo :: "system_info option"
  ks_paging :: paging
  ks_fs :: "'b fs_mutex"
  ks_uart :: uart

text \<open>
  What is outside the kernel's code: the labels, the device-tree parser and the volatile reads of discovery, the
  driver crate, the addresses of the static page table, of the static trap frame and of the trap vector,
  and the two readings of the time counter. What the components log on the way is an argument
  too, one list of messages per call.
\<close>

record ('d, 't, 'b) boot_env =
  be_labels :: "string \<Rightarrow> usize"
  be_from_ptr :: "usize \<Rightarrow> fdt option"
  be_read_volatile :: "usize \<Rightarrow> u32"
  be_crate :: "('d, 't, 'b) driver_crate"
  be_blk :: "'b blk_crate"
  be_root :: usize
  be_trap_frame :: u64
  be_trap_entry :: u64
  be_now :: u64
  be_boot_time :: usize
  be_logs :: "nat \<Rightarrow> (log_level \<times> bytes \<times> bytes list) list"

definition MAIN_TARGET :: bytes where
  "MAIN_TARGET = str_lit ''lemon_shark''"

definition boot_heap :: "('d, 't, 'b) boot_env \<Rightarrow> ('d, 'b) kernel_state \<Rightarrow> ('d, 'b) kernel_state panics" where
  "boot_heap E s = do {
     let layout = from_labels (be_labels E);
     (m, mx) \<leftarrow> locked_init (snd (ks_heap s)) (fst (ks_heap s)) layout;
     k \<leftarrow> klog_log (ks_klog s) Warn MAIN_TARGET [str_lit ''========== Kernel started ==========''];
     k \<leftarrow> klog_log k Info MAIN_TARGET [layout_debug layout];
     Some (s\<lparr>ks_heap := (m, mx), ks_klog := k\<rparr>)
   }"

definition boot_machine :: "('d, 't, 'b) boot_env \<Rightarrow> usize \<Rightarrow> ('d, 'b) kernel_state \<Rightarrow> ('d, 'b) kernel_state panics" where
  "boot_machine E device_table_addr s = do {
     let layout = from_labels (be_labels E);
     (d, k) \<leftarrow> init_console (be_crate E) (ks_devices s, ks_klog s);
     let mc = trap_init (be_trap_frame E) (be_trap_entry E) (of_nat (trap_stack_top layout)) (ks_machine s);
     k \<leftarrow> log_all k (be_logs E 0);
     (sysinfo, r) \<leftarrow> device_tree_init (be_from_ptr E) (be_read_volatile E) (ks_sysinfo s) device_table_addr;
     (case r of Inl e \<Rightarrow> None | Inr _ \<Rightarrow> Some ());
     k \<leftarrow> log_all k (be_logs E 1);
     let mc = mc\<lparr>mc_csrs := interrupts_init (mc_csrs mc)\<rparr>;
     k \<leftarrow> log_all k (be_logs E 2);
     Some (s\<lparr>ks_devices := d, ks_machine := mc, ks_sysinfo := sysinfo, ks_klog := k\<rparr>)
   }"

definition boot_memory :: "('d, 't, 'b) boot_env \<Rightarrow> ('d, 'b) kernel_state \<Rightarrow> ('d, 'b) kernel_state panics" where
  "boot_memory E s = do {
     let layout = from_labels (be_labels E);
     info \<leftarrow> ks_sysinfo s;
     g \<leftarrow> page_frame_allocator_init (snd (ks_paging s)) info layout;
     k \<leftarrow> log_all (ks_klog s) (be_logs E 3);
     (c, pg) \<leftarrow> page_table_init (ks_sysinfo s) layout (be_root E) (mc_csrs (ks_machine s), fst (ks_paging s), g);
     k \<leftarrow> log_all k (be_logs E 4);
     deadline \<leftarrow> new_time (ks_sysinfo s) (be_now E) 1;
     Some (s\<lparr>ks_paging := pg, ks_machine := (ks_machine s)\<lparr>mc_csrs := c, mc_deadline := deadline\<rparr>, ks_klog := k\<rparr>)
   }"

definition boot_filesystem :: "('d, 't, 'b) boot_env \<Rightarrow> ('d, 'b) kernel_state \<Rightarrow> ('d, 'b) kernel_state panics" where
  "boot_filesystem E s = do {
     (disk, d) \<leftarrow> make_device (be_crate E) (ks_sysinfo s) (ks_devices s);
     x \<leftarrow> init_with_device (virtio_device (be_blk E)) (ks_fs s) VirtIO disk;
     k \<leftarrow> log_all (ks_klog s) (be_logs E 5);
     (c, u) \<leftarrow> println_macro (fmt_args [SHARK]) (mc_csrs (ks_machine s), ks_uart s);
     (c, u) \<leftarrow> println_macro (fmt_args [str_lit ''Welcome to LemonShark v0.0.1'']) (c, u);
     ms \<leftarrow> uptime_ms (ks_sysinfo s) (be_boot_time E);
     k \<leftarrow> klog_log k Warn MAIN_TARGET [str_lit ''========== Boot completed '', fmt_dec ms, str_lit ''ms ==========''];
     Some (s\<lparr>ks_devices := d, ks_fs := x, ks_klog := k, ks_uart := u, ks_machine := (ks_machine s)\<lparr>mc_csrs := c\<rparr>\<rparr>)
   }"

definition boot :: "('d, 't, 'b) boot_env \<Rightarrow> usize \<Rightarrow> ('d, 'b) kernel_state \<Rightarrow> ('d, 'b) kernel_state panics" where
  "boot E device_table_addr s = do {
     s \<leftarrow> boot_heap E s;
     s \<leftarrow> boot_machine E device_table_addr s;
     s \<leftarrow> boot_memory E s;
     boot_filesystem E s
   }"

text \<open>What the shell works on, and \<open>_start\<close>: \<open>clock\<close> and \<open>input\<close> are the time counter and the UART's input.\<close>

definition shell_view :: "('d, 'b) kernel_state \<Rightarrow> 'b shell_world" where
  "shell_view s = \<lparr>sw_heap = (mc_csrs (ks_machine s), ks_heap s), sw_fs = ks_fs s, sw_deadline = mc_deadline (ks_machine s),
     sw_out = ks_uart s\<rparr>"

definition start_kernel ::
  "('d, 't, 'b) boot_env \<Rightarrow> usize \<Rightarrow> (nat \<Rightarrow> usize \<times> usize) \<Rightarrow> bytes \<Rightarrow> ('d, 'b) kernel_state \<Rightarrow>
     (outcome \<times> command_history \<times> 'b shell_world) panics" where
  "start_kernel E device_table_addr clock input s = do {
     s \<leftarrow> boot E device_table_addr s;
     shell (virtio_device (be_blk E)) (ks_sysinfo s) clock input (shell_view s)
   }"

section \<open>The block device is in the map\<close>

lemma region_requests_addr:
  assumes "4096 dvd pr_start r" and "w \<in> pr_addrs r"
  shows "(w div 4096 * 4096, w div 4096 * 4096, fl) \<in> set (region_requests fl r)"
proof -
  from assms(1) obtain k where k: "pr_start r = 4096 * k" by (auto elim: dvdE)
  have "k \<le> w div 4096" using assms(2) by (simp add: pr_addrs_def k less_eq_div_iff_mult_less_eq)
  then have "w div 4096 * 4096 = pr_start r + (w div 4096 - k) * 4096" by (simp add: k diff_mult_distrib)
  moreover have "w div 4096 * 4096 < pr_end r"
    using assms(2) by (simp add: pr_addrs_def) (meson div_times_less_eq_dividend le_less_trans)
  ultimately show ?thesis by (auto simp: region_requests_def step_pages_set)
qed

section \<open>The stages\<close>

lemma klog_log_keeps:
  "eb_holds (kl_early k) bs \<Longrightarrow> \<exists>k' bs'. klog_log k level target args = Some k' \<and> eb_holds (kl_early k') bs'"
  using klog_log_total [of k bs level target args] by (cases "kl_console k") auto

lemma log_all_total:
  "eb_holds (kl_early k) bs \<Longrightarrow> \<exists>k' bs'. log_all k ms = Some k' \<and> eb_holds (kl_early k') bs'"
proof (induction ms arbitrary: k bs)
  case (Cons m ms)
  obtain level target args where m: "m = (level, target, args)" by (cases m)
  from klog_log_keeps [OF Cons.prems, of level target args] Cons.IH show ?case by (fastforce simp: m)
qed auto

text \<open>The kernel as the loader leaves it: nothing is initialised and the static page table is empty.\<close>

definition fresh_kernel :: "('d, 't, 'b) boot_env \<Rightarrow> ('d, 'b) kernel_state \<Rightarrow> bool" where
  "fresh_kernel E s \<longleftrightarrow> snd (ks_heap s) = locked_new \<and> ks_klog s = \<lparr>kl_console = None, kl_early = early_new\<rparr> \<and>
     ks_sysinfo s = None \<and> fst (ks_paging s) (be_root E) = page_table_new \<and> snd (ks_paging s) = None \<and>
     \<not> mx_locked (ks_fs s) \<and> lf_inner (mx_inner (ks_fs s)) = None"

lemma early_new_holds: "eb_holds early_new []"
  by (simp add: eb_holds_def early_new_def EARLY_CAPACITY_def)

lemma boot_heap_stage:
  assumes "fresh_kernel E s" and "heap_range_ok (heap_start (from_labels (be_labels E))) (heap_end (from_labels (be_labels E)))"
  shows "\<exists>m mx k bs. boot_heap E s = Some (s\<lparr>ks_heap := (m, mx), ks_klog := k\<rparr>) \<and> eb_holds (kl_early k) bs \<and> \<not> mx_locked mx \<and>
    heap_reach (heap_start (from_labels (be_labels E))) (heap_end (from_labels (be_labels E))) m (mx_inner mx) {}"
proof -
  let ?l = "from_labels (be_labels E)"
  have r: "heap_start ?l < heap_end ?l" "heap_end ?l \<le> HEAP_LIMIT" "heap_start ?l + 48 \<le> heap_end ?l"
    using assms(2) by (simp_all add: heap_range_ok_def)
  from heap_inv_init [OF r, of "fst (ks_heap s)" fl_new] obtain m fl where
    i: "fl_init (fst (ks_heap s)) fl_new (heap_start ?l) (heap_end ?l) = Some (m, fl)" by blast
  then have h: "locked_init (snd (ks_heap s)) (fst (ks_heap s)) ?l = Some (m, \<lparr>mx_locked = False, mx_inner = fl\<rparr>)"
    using assms(1) by (simp add: locked_init_def fresh_kernel_def locked_new_def heap_bounds_new_def with_lock_def)
  have e: "eb_holds (kl_early (ks_klog s)) []" using assms(1) early_new_holds by (simp add: fresh_kernel_def)
  from klog_log_keeps [OF e] obtain k1 bs1 where
    k1: "klog_log (ks_klog s) Warn MAIN_TARGET [str_lit ''========== Kernel started ==========''] = Some k1" "eb_holds (kl_early k1) bs1" by blast
  from klog_log_keeps [OF k1(2)] obtain k2 bs2 where k2: "klog_log k1 Info MAIN_TARGET [layout_debug ?l] = Some k2" "eb_holds (kl_early k2) bs2" by blast
  show ?thesis using h k1 k2 heap_start [OF i]
    by (intro exI [of _ m] exI [of _ "\<lparr>mx_locked = False, mx_inner = fl\<rparr>"] exI [of _ k2] exI [of _ bs2]) (simp add: boot_heap_def)
qed

definition ready_machine :: "('d, 't, 'b) boot_env \<Rightarrow> machine \<Rightarrow> machine" where
  "ready_machine E mc =
     (let mc = trap_init (be_trap_frame E) (be_trap_entry E) (of_nat (trap_stack_top (from_labels (be_labels E)))) mc
      in mc\<lparr>mc_csrs := interrupts_init (mc_csrs mc)\<rparr>)"

lemma scan_console_total:
  assumes "eb_holds (kl_early k) bs"
  shows "\<forall>s \<in> set slots. s \<noteq> 0 \<Longrightarrow> \<exists>d' k'. scan_console C slots (d, k) = Some (d', k') \<and> kl_early k' = kl_early k"
proof (induction slots arbitrary: d)
  case (Cons s slots)
  obtain found d1 where t: "try_slot C s d = (found, d1)" by (cases "try_slot C s d")
  have s: "s \<noteq> 0" "\<forall>s \<in> set slots. s \<noteq> 0" using Cons.prems by simp_all
  show ?case using console_found_early [OF assms] Cons.IH [OF s(2), of d1] t
    unfolding scan_console_Cons [OF s(1)] by (cases found) auto
qed simp

lemma boot_machine_stage:
  assumes "ks_sysinfo s = None" and "eb_holds (kl_early (ks_klog s)) bs"
    and "system_info_new (be_from_ptr E) (be_read_volatile E) addr = Some (Inr info)"
  shows "\<exists>d k bs'. boot_machine E addr s = Some (s\<lparr>ks_devices := d, ks_machine := ready_machine E (ks_machine s),
      ks_sysinfo := Some info, ks_klog := k\<rparr>) \<and> eb_holds (kl_early k) bs'"
proof -
  from scan_console_total [OF assms(2), of console_slots "be_crate E" "ks_devices s"] console_slots_nonnull obtain d k0 where
    k0: "init_console (be_crate E) (ks_devices s, ks_klog s) = Some (d, k0)" "kl_early k0 = kl_early (ks_klog s)"
    unfolding init_console_def by blast
  have dt: "device_tree_init (be_from_ptr E) (be_read_volatile E) (ks_sysinfo s) addr = Some (Some info, Inr ())"
    using assms(1,3) by (simp add: device_tree_init_def)
  have e0: "eb_holds (kl_early k0) bs" using assms(2) k0(2) by simp
  from log_all_total [OF e0, of "be_logs E 0"] obtain k1 bs1 where k1: "log_all k0 (be_logs E 0) = Some k1" "eb_holds (kl_early k1) bs1" by blast
  from log_all_total [OF k1(2), of "be_logs E 1"] obtain k2 bs2 where k2: "log_all k1 (be_logs E 1) = Some k2" "eb_holds (kl_early k2) bs2" by blast
  from log_all_total [OF k2(2), of "be_logs E 2"] obtain k3 bs3 where k3: "log_all k2 (be_logs E 2) = Some k3" "eb_holds (kl_early k3) bs3" by blast
  show ?thesis using k0(1) dt k1(1) k2(1) k3 by (auto simp: boot_machine_def ready_machine_def Let_def)
qed

lemma page_table_init_satp:
  "page_table_init sysinfo layout root (c, ms) = Some (c', ms') \<Longrightarrow> c' = c\<lparr>csr_satp := satp_new Sv39 asid_KERNEL root\<rparr>"
  by (auto simp: page_table_init_def write_satp_and_flush_tlb_def split: Option.bind_splits)

text \<open>The map that the page table gets: what \<open>page_table::init\<close> asks for on this machine.\<close>

definition kernel_map :: "kernel_layout \<Rightarrow> system_info \<Rightarrow> page_frame_allocator \<Rightarrow> map_request list" where
  "kernel_map layout info p =
     (case covering_pages (si_fdt_range info) of Inr fdt \<Rightarrow> boot_requests layout (pfa_ranges p) fdt (si_mmio_regions info) | Inl _ \<Rightarrow> [])"

definition map_fits :: "kernel_layout \<Rightarrow> system_info \<Rightarrow> page_frame_allocator \<Rightarrow> bool" where
  "map_fits layout info p \<longleftrightarrow>
     (case covering_pages (si_fdt_range info) of Inr fdt \<Rightarrow> boot_map_ok layout (pfa_ranges p @ [fdt] @ si_mmio_regions info) | Inl _ \<Rightarrow> False) \<and>
     distinct (map request_page (kernel_map layout info p)) \<and>
     card (\<Union>x \<in> set (kernel_map layout info p). page_paths (fst x)) \<le> card (pfa_frames p)"

lemma discovered_frames:
  assumes "system_info_new from_ptr rd addr = Some (Inr info)" and "kernel_start layout < kernel_end layout" and "kernel_end layout < usize_limit"
  shows "\<exists>p. pfa_new info layout = Some p \<and> pfa_ok p \<and> pfa_taken p = {} \<and> kernel_image layout \<inter> pfa_frames p = {}"
proof -
  from system_info_new_Inr [OF assms(1)] obtain t where t: "collect_memory_regions t = Inr (si_memory_regions info)"
    "collect_reserved_memory_regions t = Inr (si_reserved_memory_regions info)"
    "from_start_size addr (total_size t) = Inr (si_fdt_range info)" by blast
  have "info_ok info"
    using collect_memory_regions_Inr(2) [OF t(1)] collect_reserved_memory_regions_Inr(2) [OF t(2)] from_start_size_ok [OF t(3)]
    by (simp add: info_ok_def)
  from pfa_new_spec [OF this assms(2,3)] obtain p where p: "pfa_new info layout = Some p" "pfa_ok p"
    "pfa_taken p = {}" "ranges_addrs (pfa_ranges p) = \<Union> {page n |n. page n \<subseteq> free_ram info layout}" by blast
  have "x \<in> free_ram info layout" if "x \<in> pfa_frames p" for x
    using free_page_frame [OF p(2,4) that] by (auto simp: page_def PAGE_SIZE_def)
  then have "kernel_image layout \<inter> pfa_frames p = {}" by (auto simp: free_ram_def)
  then show ?thesis using p(1-3) by blast
qed

text \<open>After the memory stage the hardware translates exactly what the map lists.\<close>

lemma boot_memory_stage:
  assumes sys: "ks_sysinfo s = Some info" and pg: "fst (ks_paging s) (be_root E) = page_table_new" "snd (ks_paging s) = None"
    and log: "eb_holds (kl_early (ks_klog s)) bs" and l: "layout = from_labels (be_labels E)"
    and p: "pfa_new info layout = Some p" "pfa_ok p" "pfa_taken p = {}" "be_root E \<notin> pfa_frames p"
    and fits: "map_fits layout info p" and freq: "si_timer_frequency info < usize_limit"
  shows "\<exists>m g k bs'. boot_memory E s = Some (s\<lparr>ks_paging := (m, g),
      ks_machine := (ks_machine s)\<lparr>mc_csrs := (mc_csrs (ks_machine s))\<lparr>csr_satp := satp_new Sv39 asid_KERNEL (be_root E)\<rparr>,
        mc_deadline := be_now E + of_nat (si_timer_frequency info)\<rparr>, ks_klog := k\<rparr>) \<and> eb_holds (kl_early k) bs' \<and>
    (\<forall>v ph fl w. (v, ph, fl) \<in> set (kernel_map layout info p) \<and> w div 4096 = v div 4096 \<longrightarrow>
       translate m (be_root E) w = Some (ph + w mod 4096, pte_new_leaf ph fl)) \<and>
    (\<forall>w. w div 4096 \<notin> request_page ` set (kernel_map layout info p) \<longrightarrow> translate m (be_root E) w = None)"
proof -
  let ?c = "mc_csrs (ks_machine s)" and ?m = "fst (ks_paging s)" and ?rs = "kernel_map layout info p"
  from fits obtain fdt where fdt: "covering_pages (si_fdt_range info) = Inr fdt"
    "boot_map_ok layout (pfa_ranges p @ [fdt] @ si_mmio_regions info)" by (auto simp: map_fits_def split: sum.splits)
  have rs: "?rs = boot_requests layout (pfa_ranges p) fdt (si_mmio_regions info)" by (simp add: kernel_map_def fdt(1))
  have "pfa_frames p \<subseteq> {..<2 ^ 56}"
  proof
    fix a assume "a \<in> pfa_frames p"
    then obtain r where "r \<in> set (pfa_ranges p)" "a \<in> pr_addrs r" using pfa_frames_iff [OF p(2)] by (auto simp: ranges_addrs_def)
    then have "a < pr_end r" "pr_end r \<le> 2 ^ 38" using fdt(2) by (auto simp: boot_map_ok_def pr_addrs_def)
    then show "a \<in> {..<2 ^ 56}" by simp
  qed
  then have ok: "frames_ok (Some p)" and free: "frames_free (Some p) = pfa_frames p"
    using p(2,3) by (simp_all add: frames_ok_def frames_free_def)
  have root: "be_root E \<notin> frames_free (Some p)" using p(4) by (simp add: free)
  note spec = page_table_init_spec [where m = ?m and root = "be_root E" and c = ?c, OF ok pg(1) root fdt rs, unfolded free]
  from spec fits obtain c m g where t: "page_table_init (Some info) layout (be_root E) (?c, ?m, Some p) = Some (c, m, g)"
    by (auto simp: map_fits_def)
  note c = page_table_init_satp [OF t]
  from log_all_total [OF log, of "be_logs E 3"] obtain k1 bs1 where k1: "log_all (ks_klog s) (be_logs E 3) = Some k1" "eb_holds (kl_early k1) bs1" by blast
  from log_all_total [OF k1(2), of "be_logs E 4"] obtain k2 bs2 where k2: "log_all k1 (be_logs E 4) = Some k2" "eb_holds (kl_early k2) bs2" by blast
  have bm: "boot_memory E s = Some (s\<lparr>ks_paging := (m, g), ks_machine := (ks_machine s)\<lparr>mc_csrs := c,
      mc_deadline := be_now E + of_nat (si_timer_frequency info)\<rparr>, ks_klog := k2\<rparr>)"
    using sys pg(2) p(1) t k1(1) k2(1) freq
    by (simp add: boot_memory_def page_frame_allocator_init_def new_time_def timer_frequency_def mul_usize_def l [symmetric])
  note tr = spec [THEN conjunct2, rule_format, OF t, THEN conjunct2]
  show ?thesis
    by (rule exI [of _ m], rule exI [of _ g], rule exI [of _ k2], rule exI [of _ bs2], intro conjI)
      (fact bm [unfolded c] k2(2) tr [THEN conjunct1] tr [THEN conjunct2, THEN conjunct1])+
qed

text \<open>
  The disk in the machine: whatever was done to the devices before, the crate finds a block device at the
  address, and its contents are the blocks \<open>img\<close>.
\<close>

definition disk_attached :: "('d, 't, 'b) driver_crate \<Rightarrow> usize \<Rightarrow> ('b \<Rightarrow> bytes list) \<Rightarrow> ('b \<Rightarrow> bool) \<Rightarrow> bytes list \<Rightarrow> bool" where
  "disk_attached C addr blocks ok img \<longleftrightarrow> addr \<noteq> 0 \<and>
     (\<forall>d. \<exists>t d1 disk d2. transport_new C addr 0x1000 d = (Some t, d1) \<and> blk_new C t d1 = (Some disk, d2) \<and> ok disk \<and> blocks disk = img)"

lemma service_mount:
  assumes "block_device V vb vok" and "vok v" and "disk_holds (vb v) l ibm dbm t" and "\<not> mx_locked x" and "lf_inner (mx_inner x) = None"
  shows "\<exists>fs. init_with_device V x VirtIO v = Some (x\<lparr>mx_inner := (mx_inner x)\<lparr>lf_inner := Some fs\<rparr>\<rparr>) \<and>
    fs_inv (kd_blocks vb) (kd_ok VirtIO vok) fs \<and> fs_abs (kd_blocks vb) fs = t"
proof -
  let ?k = "\<lparr>kd_device = VirtIO, kd_ramdisk = lf_ramdisk (mx_inner x), kd_virtio = v\<rparr>"
  have "kd_ok VirtIO vok ?k" "disk_holds (kd_blocks vb ?k) l ibm dbm t" using assms(2,3) by (simp_all add: kd_ok_def kd_blocks_def)
  from block_device.mount_disk_law [OF kernel_device_contract [OF assms(1)] this] obtain fs where
    fs: "filesystem_new (kernel_device V) ?k = Some (Inr fs)" "fs_inv (kd_blocks vb) (kd_ok VirtIO vok) fs" "fs_abs (kd_blocks vb) fs = t" by blast
  then show ?thesis using assms(4,5)
    by (intro exI [of _ fs]) (simp add: init_with_device_def with_lock_def lf_is_some_def lf_init_def)
qed

lemma boot_filesystem_stage:
  assumes sys: "ks_sysinfo s = Some info" and log: "eb_holds (kl_early (ks_klog s)) bs"
    and fs: "\<not> mx_locked (ks_fs s)" "lf_inner (mx_inner (ks_fs s)) = None" and freq: "1000 \<le> si_timer_frequency info"
    and disk: "disk_attached (be_crate E) (si_block_device_addr info) blocks ok img"
    and doc: "blk_documented (be_blk E) blocks ok" and img: "disk_holds img l ibm dbm t"
  shows "\<exists>d fs k. boot_filesystem E s = Some (s\<lparr>ks_devices := d, ks_fs := (ks_fs s)\<lparr>mx_inner := (mx_inner (ks_fs s))\<lparr>lf_inner := Some fs\<rparr>\<rparr>,
      ks_klog := k, ks_uart := ks_uart s @ SHARK @ NEWLINE @ str_lit ''Welcome to LemonShark v0.0.1'' @ NEWLINE\<rparr>) \<and>
    fs_inv (kd_blocks blocks) (kd_ok VirtIO ok) fs \<and> fs_abs (kd_blocks blocks) fs = t"
proof -
  from disk obtain tr d1 dk d2 where d: "si_block_device_addr info \<noteq> 0" "transport_new (be_crate E) (si_block_device_addr info) 0x1000 (ks_devices s) = (Some tr, d1)"
    "blk_new (be_crate E) tr d1 = (Some dk, d2)" "ok dk" "blocks dk = img" unfolding disk_attached_def by metis
  then have mk: "make_device (be_crate E) (Some info) (ks_devices s) = Some (dk, d2)"
    by (simp add: make_device_def locked_block_device_new_def block_device_addr_def nonnull_def)
  have "disk_holds (blocks dk) l ibm dbm t" using img d(5) by simp
  from service_mount [OF virtio_device_contract [OF doc] d(4) this fs] obtain f where
    f: "init_with_device (virtio_device (be_blk E)) (ks_fs s) VirtIO dk = Some ((ks_fs s)\<lparr>mx_inner := (mx_inner (ks_fs s))\<lparr>lf_inner := Some f\<rparr>\<rparr>)"
      "fs_inv (kd_blocks blocks) (kd_ok VirtIO ok) f" "fs_abs (kd_blocks blocks) f = t" by blast
  from log_all_total [OF log, of "be_logs E 5"] obtain k1 bs1 where k1: "log_all (ks_klog s) (be_logs E 5) = Some k1" "eb_holds (kl_early k1) bs1" by blast
  obtain ms where ms: "uptime_ms (Some info) (be_boot_time E) = Some ms"
    using freq by (simp add: uptime_ms_def timer_frequency_def Let_def div_eq_0_iff)
  from klog_log_keeps [OF k1(2)] obtain k2 bs2 where
    k2: "klog_log k1 Warn MAIN_TARGET [str_lit ''========== Boot completed '', fmt_dec ms, str_lit ''ms ==========''] = Some k2" by blast
  show ?thesis using sys mk f k1(1) k2 ms
    by (intro exI [of _ d2] exI [of _ f] exI [of _ k2]) (simp add: boot_filesystem_def println_macro_eq)
qed

lemma ready_machine_csrs:
  "csr_stvec (mc_csrs (ready_machine E mc)) = stvec_new (be_trap_entry E)"
  "csr_sscratch (mc_csrs (ready_machine E mc)) = be_trap_frame E"
  "interrupts_enabled (mc_csrs (ready_machine E mc))" "bit (csr_sie (mc_csrs (ready_machine E mc))) 5"
  "mc_mem (ready_machine E mc) (be_trap_frame E) = of_nat (trap_stack_top (from_labels (be_labels E)))"
  by (simp_all add: ready_machine_def trap_init_def setup_trap_handler_def setup_trap_frame_def write_stvec_def
      interrupts_init_def csrs_set_sstatus_def bit_or_iff bit_one_push)

lemma block_device_mapped:
  assumes "system_info_new from_ptr rd addr = Some (Inr info)" and "map_fits layout info p"
    and tr: "\<forall>v ph fl w. (v, ph, fl) \<in> set (kernel_map layout info p) \<and> w div 4096 = v div 4096 \<longrightarrow>
       translate m root w = Some (ph + w mod 4096, pte_new_leaf ph fl)"
  shows "\<exists>fl. translate m root (si_block_device_addr info) = Some (si_block_device_addr info, fl)"
proof -
  let ?a = "si_block_device_addr info"
  from block_device_in_mmio [OF assms(1)] obtain r where r: "r \<in> set (si_mmio_regions info)" "?a \<in> pr_addrs r" by (auto simp: ranges_addrs_def)
  from assms(2) obtain fdt where fdt: "covering_pages (si_fdt_range info) = Inr fdt"
    "boot_map_ok layout (pfa_ranges p @ [fdt] @ si_mmio_regions info)" by (auto simp: map_fits_def split: sum.splits)
  then have "4096 dvd pr_start r" using r(1) by (auto simp: boot_map_ok_def)
  from region_requests_addr [OF this r(2), of "READ OR WRITE"] r(1)
  have "(?a div 4096 * 4096, ?a div 4096 * 4096, READ OR WRITE) \<in> set (kernel_map layout info p)"
    by (auto simp: kernel_map_def fdt(1) boot_requests_def)
  from tr [rule_format, OF conjI, OF this, of ?a] show ?thesis by simp
qed

text \<open>\<open>cat\<close> of a file that the mounted filesystem holds.\<close>

lemma service_read:
  assumes "block_device V vb vok" and "\<not> mx_locked x" and "lf_inner (mx_inner x) = Some fs" and "fs_inv (kd_blocks vb) (kd_ok VirtIO vok) fs"
    and "spec_resolve (fs_abs (kd_blocks vb) fs) q = Inr (d, nm, i)" and "fs_abs (kd_blocks vb) fs i = Some (File c)" and "utf8_blocks 16 c"
  shows "\<exists>fs'. api_read_file V x q = Some (Inr c, x\<lparr>mx_inner := (mx_inner x)\<lparr>lf_inner := Some fs'\<rparr>\<rparr>)"
proof -
  from block_device.read_file_law [OF kernel_device_contract [OF assms(1)] assms(4), of q] assms(5-7) obtain fs' where
    "read_file (kernel_device V) fs q = Some (fs', Inr c)" by auto
  then show ?thesis using assms(2,3) by (intro exI [of _ fs']) (simp add: api_read_file_def with_lock_def lf_with_def)
qed

lemma cat_line:
  assumes "block_device V vb vok" and "\<not> mx_locked (sw_fs w)" and "lf_inner (mx_inner (sw_fs w)) = Some fs" and "fs_inv (kd_blocks vb) (kd_ok VirtIO vok) fs"
    and "spec_resolve (fs_abs (kd_blocks vb) fs) q = Inr (d, nm, i)" and "fs_abs (kd_blocks vb) fs i = Some (File c)" and "utf8_blocks 16 c"
    and "visible_text q" and "q \<noteq> []" and "hd q = SLASH"
  shows "\<exists>x. run_line V sysinfo t0 t1 (str_lit ''cat '' @ q) h w = Some (Running, w\<lparr>sw_fs := x, sw_out := sw_out w @ c @ NEWLINE\<rparr>)"
  using service_read [OF assms(1-7)] from_line_cat [OF assms(8-10)]
  by (auto simp: run_line_def shell_call_def call_fs_def put_out_def Let_def)

text \<open>
  The machine the kernel is made for: the labels describe a heap and an image that holds the static page table;
  the device tree at the given address is accepted and its timer runs at a kilohertz or more; the boot map has
  no page twice and enough frames for its tables; and the tree's block device is a disk with the contents
  \<open>img\<close>, driven as the crate documents.
\<close>

definition machine_ok ::
  "('d, 't, 'b) boot_env \<Rightarrow> ('d, 'b) kernel_state \<Rightarrow> usize \<Rightarrow> system_info \<Rightarrow> page_frame_allocator \<Rightarrow> ('b \<Rightarrow> bytes list) \<Rightarrow>
     ('b \<Rightarrow> bool) \<Rightarrow> bytes list \<Rightarrow> bool" where
  "machine_ok E s addr info p blocks ok img \<longleftrightarrow>
     fresh_kernel E s \<and> heap_range_ok (heap_start (from_labels (be_labels E))) (heap_end (from_labels (be_labels E))) \<and>
     kernel_start (from_labels (be_labels E)) < kernel_end (from_labels (be_labels E)) \<and> be_root E \<in> kernel_image (from_labels (be_labels E)) \<and>
     system_info_new (be_from_ptr E) (be_read_volatile E) addr = Some (Inr info) \<and>
     1000 \<le> si_timer_frequency info \<and> si_timer_frequency info < usize_limit \<and>
     pfa_new info (from_labels (be_labels E)) = Some p \<and> map_fits (from_labels (be_labels E)) info p \<and>
     disk_attached (be_crate E) (si_block_device_addr info) blocks ok img \<and> blk_documented (be_blk E) blocks ok"

lemma boot_spec:
  assumes ok: "machine_ok E s addr info p blocks ok img" and holds: "disk_holds img l ibm dbm t" and layout: "layout = from_labels (be_labels E)"
  shows "\<exists>s' c m g fs. boot E addr s = Some s' \<and> c = mc_csrs (ks_machine s') \<and> ks_sysinfo s' = Some info \<and>
    locked_inv (heap_start layout) (heap_end layout) (csr_sstatus c) (c, ks_heap s') {} \<and>
    csr_stvec c = stvec_new (be_trap_entry E) \<and> csr_sscratch c = be_trap_frame E \<and>
    mc_mem (ks_machine s') (be_trap_frame E) = of_nat (trap_stack_top layout) \<and>
    interrupts_enabled c \<and> bit (csr_sie c) 5 \<and> mc_deadline (ks_machine s') = be_now E + of_nat (si_timer_frequency info) \<and>
    ks_paging s' = (m, g) \<and> csr_satp c = satp_new Sv39 asid_KERNEL (be_root E) \<and>
    (\<forall>v ph fl w. (v, ph, fl) \<in> set (kernel_map layout info p) \<and> w div 4096 = v div 4096 \<longrightarrow>
       translate m (be_root E) w = Some (ph + w mod 4096, pte_new_leaf ph fl)) \<and>
    (\<forall>w. w div 4096 \<notin> request_page ` set (kernel_map layout info p) \<longrightarrow> translate m (be_root E) w = None) \<and>
    (\<exists>fl. translate m (be_root E) (si_block_device_addr info) = Some (si_block_device_addr info, fl)) \<and>
    \<not> mx_locked (ks_fs s') \<and> lf_inner (mx_inner (ks_fs s')) = Some fs \<and>
    fs_inv (kd_blocks blocks) (kd_ok VirtIO ok) fs \<and> fs_abs (kd_blocks blocks) fs = t \<and>
    ks_uart s' = ks_uart s @ SHARK @ NEWLINE @ str_lit ''Welcome to LemonShark v0.0.1'' @ NEWLINE"
proof -
  have fresh: "fresh_kernel E s" and heap: "heap_range_ok (heap_start layout) (heap_end layout)"
    and image: "kernel_start layout < kernel_end layout" "be_root E \<in> kernel_image layout"
    and tree: "system_info_new (be_from_ptr E) (be_read_volatile E) addr = Some (Inr info)"
    and freq: "1000 \<le> si_timer_frequency info" "si_timer_frequency info < usize_limit"
    and frames: "pfa_new info layout = Some p" and fits: "map_fits layout info p"
    and disk: "disk_attached (be_crate E) (si_block_device_addr info) blocks ok img" and driver: "blk_documented (be_blk E) blocks ok"
    using ok unfolding machine_ok_def layout by simp_all
  note F = fresh [unfolded fresh_kernel_def]
  from boot_heap_stage [OF fresh heap [unfolded layout]] obtain hm hx k1 bs1 where
    s1: "boot_heap E s = Some (s\<lparr>ks_heap := (hm, hx), ks_klog := k1\<rparr>)" "eb_holds (kl_early k1) bs1" "\<not> mx_locked hx"
      "heap_reach (heap_start layout) (heap_end layout) hm (mx_inner hx) {}" unfolding layout by blast
  let ?s1 = "s\<lparr>ks_heap := (hm, hx), ks_klog := k1\<rparr>"
  from boot_machine_stage [of ?s1 bs1 E addr info] F s1(2) tree obtain d2 k2 bs2 where
    s2: "boot_machine E addr ?s1 = Some (?s1\<lparr>ks_devices := d2, ks_machine := ready_machine E (ks_machine s), ks_sysinfo := Some info, ks_klog := k2\<rparr>)"
      "eb_holds (kl_early k2) bs2" by auto
  let ?s2 = "?s1\<lparr>ks_devices := d2, ks_machine := ready_machine E (ks_machine s), ks_sysinfo := Some info, ks_klog := k2\<rparr>"
  have ke: "kernel_end layout < usize_limit" using fits by (auto simp: map_fits_def boot_map_ok_def split: sum.splits)
  from discovered_frames [OF tree image(1) ke] frames image(2) have
    p: "pfa_ok p" "pfa_taken p = {}" "be_root E \<notin> pfa_frames p" by auto
  from boot_memory_stage [of ?s2 info E bs2 layout p] F s2(2) layout frames p fits freq(2) obtain m g k3 bs3 where
    s3: "boot_memory E ?s2 = Some (?s2\<lparr>ks_paging := (m, g),
      ks_machine := (ks_machine ?s2)\<lparr>mc_csrs := (mc_csrs (ks_machine ?s2))\<lparr>csr_satp := satp_new Sv39 asid_KERNEL (be_root E)\<rparr>,
        mc_deadline := be_now E + of_nat (si_timer_frequency info)\<rparr>, ks_klog := k3\<rparr>)" "eb_holds (kl_early k3) bs3"
    and tr: "\<forall>v ph fl w. (v, ph, fl) \<in> set (kernel_map layout info p) \<and> w div 4096 = v div 4096 \<longrightarrow>
       translate m (be_root E) w = Some (ph + w mod 4096, pte_new_leaf ph fl)"
      "\<forall>w. w div 4096 \<notin> request_page ` set (kernel_map layout info p) \<longrightarrow> translate m (be_root E) w = None" by auto
  let ?s3 = "?s2\<lparr>ks_paging := (m, g),
      ks_machine := (ks_machine ?s2)\<lparr>mc_csrs := (mc_csrs (ks_machine ?s2))\<lparr>csr_satp := satp_new Sv39 asid_KERNEL (be_root E)\<rparr>,
        mc_deadline := be_now E + of_nat (si_timer_frequency info)\<rparr>, ks_klog := k3\<rparr>"
  from boot_filesystem_stage [of ?s3 info bs3 E blocks ok img l ibm dbm t] F s3(2) freq(1) disk driver holds obtain d4 fs k4 where
    s4: "boot_filesystem E ?s3 = Some (?s3\<lparr>ks_devices := d4, ks_fs := (ks_fs s)\<lparr>mx_inner := (mx_inner (ks_fs s))\<lparr>lf_inner := Some fs\<rparr>\<rparr>,
      ks_klog := k4, ks_uart := ks_uart s @ SHARK @ NEWLINE @ str_lit ''Welcome to LemonShark v0.0.1'' @ NEWLINE\<rparr>)"
      "fs_inv (kd_blocks blocks) (kd_ok VirtIO ok) fs" "fs_abs (kd_blocks blocks) fs = t" by auto
  let ?s4 = "?s3\<lparr>ks_devices := d4, ks_fs := (ks_fs s)\<lparr>mx_inner := (mx_inner (ks_fs s))\<lparr>lf_inner := Some fs\<rparr>\<rparr>,
      ks_klog := k4, ks_uart := ks_uart s @ SHARK @ NEWLINE @ str_lit ''Welcome to LemonShark v0.0.1'' @ NEWLINE\<rparr>"
  have b: "boot E addr s = Some ?s4" using s1(1) s2(1) s3(1) s4(1) by (simp add: boot_def)
  note mapped = block_device_mapped [OF tree fits tr(1)]
  show ?thesis
    by (rule exI [of _ ?s4], rule exI [of _ "mc_csrs (ks_machine ?s4)"], rule exI [of _ m], rule exI [of _ g], rule exI [of _ fs])
      (intro conjI, rule b, use F s1(3,4) s4(2,3) heap tr mapped ready_machine_csrs [of E "ks_machine s"] in
        \<open>simp_all add: locked_inv_def layout\<close>)
qed

section \<open>Properties\<close>


text \<open>
  The small machine of the other theories with a disk: no console, and a driver whose block device is the
  list of its sectors.
\<close>

definition sample_labels :: "string \<Rightarrow> usize" where
  "sample_labels l = (if l = ''_kernel_start'' then 0x80000000 else if l = ''_kernel_end'' then 0x80002000
     else if l = ''_heap_start'' then 0x80001000 else if l = ''_heap_end'' then 0x80002000 else 0x80001000)"

definition sample_env :: "bytes list \<Rightarrow> (unit, unit, bytes list) boot_env" where
  "sample_env img = \<lparr>be_labels = sample_labels, be_from_ptr = (\<lambda>a. if a = 0x8000E000 then Some sample_tree else None),
     be_read_volatile = (\<lambda>_. 2), be_crate = \<lparr>transport_new = (\<lambda>a n d. (Some (), d)), transport_is_console = (\<lambda>t. False),
       transport_drop = (\<lambda>t d. d), console_new = (\<lambda>t d. (False, d)), blk_new = (\<lambda>t d. (Some img, d))\<rparr>,
     be_blk = sector_disk, be_root = 0x80000000, be_trap_frame = 0x80000800, be_trap_entry = 0x80000400, be_now = 5,
     be_boot_time = 0, be_logs = (\<lambda>_. [])\<rparr>"

definition sample_kernel :: "(unit, bytes list) kernel_state" where
  "sample_kernel = \<lparr>ks_machine = sample_machine, ks_heap = (\<lambda>_. 0, locked_new), ks_klog = \<lparr>kl_console = None, kl_early = early_new\<rparr>,
     ks_devices = (), ks_sysinfo = None, ks_paging = (sample_tables, None),
     ks_fs = \<lparr>mx_locked = False, mx_inner = \<lparr>lf_inner = None, lf_ramdisk = []\<rparr>\<rparr>, ks_uart = []\<rparr>"

lemma sample_map_fits: "map_fits sample_layout sample_info sample_arenas"
proof -
  have m: "kernel_map sample_layout sample_info sample_arenas = sample_requests"
    by (simp add: kernel_map_def sample_boot_map(1) sample_requests_def)
  have "map request_page sample_requests = map (\<lambda>v. v div 4096) (map fst sample_requests)" by (simp add: request_page_def)
  then have "distinct (map request_page sample_requests)" unfolding sample_requests_pages by simp
  moreover have "card (\<Union>x \<in> set sample_requests. page_paths (fst x)) \<le> card (pfa_frames sample_arenas)"
    using sample_request_paths sample_frames_six sample_frames(1) by simp
  ultimately show ?thesis using sample_boot_map(1,2) by (simp add: map_fits_def m)
qed

lemma sample_machine_ok:
  assumes "sectors_ok img"
  shows "machine_ok (sample_env img) sample_kernel 0x8000E000 sample_info sample_arenas (\<lambda>d. d) sectors_ok img"
proof -
  have l: "from_labels (be_labels (sample_env img)) = sample_layout"
    by (simp add: from_labels_def sample_env_def sample_labels_def sample_layout_def)
  have "fresh_kernel (sample_env img) sample_kernel"
    using sample_boot_map(4) by (simp add: fresh_kernel_def sample_kernel_def sample_env_def)
  moreover have "disk_attached (be_crate (sample_env img)) (si_block_device_addr sample_info) (\<lambda>d. d) sectors_ok img"
    using assms by (simp add: disk_attached_def sample_env_def sample_info_def)
  moreover have "heap_range_ok (heap_start sample_layout) (heap_end sample_layout)"
    by (simp add: heap_range_ok_def sample_layout_def HEAP_LIMIT_def)
  ultimately show ?thesis
    using sample_discovery sample_boot sample_map_fits sector_disk_documented sample_ok(2)
    unfolding machine_ok_def l by (simp add: sample_env_def kernel_image_def sample_layout_def sample_info_def)
qed

text \<open>A formatted disk of 2048 sectors.\<close>

lemma sample_disk: "\<exists>img l ibm dbm. sectors_ok img \<and> disk_holds img l ibm dbm empty_tree"
proof -
  from ramdisk_empty obtain fs where fs: "fs_inv chunks ramdisk_ok fs" "fs_abs chunks fs = empty_tree" by blast
  from ramdisk.flush_disk_law [OF fs(1)] fs(2) obtain fs' where
    f: "fs_inv chunks ramdisk_ok fs'" "disk_holds (chunks (fs_device fs')) (fs_lay fs) (fs_inode_bitmap fs) (fs_data_bitmap fs) empty_tree" by auto
  have "ramdisk_ok (fs_device fs')" using fs_okD(1) [OF fs_invD(1) [OF f(1)]] .
  then have "sectors_ok (chunks (fs_device fs'))"
    using chunks_size by (auto simp: sectors_ok_def ramdisk_ok_def RAMDISK_SIZE_def)
  then show ?thesis using f(2) by blast
qed


end
