(* ===== verification/Virtio.thy ===== *)
theory Virtio
  imports Uart
begin

text \<open>
  The VirtIO code of the kernel. \<open>src/virtio.rs\<close> drives a legacy block device through its memory-mapped
  registers. \<open>src/virtio2.rs\<close> connects the third-party driver crate: it looks for the console, creates the
  block device and lends the crate memory from the kernel heap. The device itself and the driver crate are
  arguments: what a register returns and what the crate's constructors do is theirs.
\<close>

section \<open>The legacy driver\<close>

subsection \<open>Registers\<close>

definition QUEUE_SIZE :: usize where "QUEUE_SIZE = 64"
definition QUEUE_ALIGN_BYTES :: usize where "QUEUE_ALIGN_BYTES = 4096"
definition VIRTIO_BASE :: usize where "VIRTIO_BASE = 0x10008000"
definition EXPECTED_MAGIC :: u32 where "EXPECTED_MAGIC = 0x74726976"

definition R_MAGIC :: usize where "R_MAGIC = 0x000"
definition R_VERSION :: usize where "R_VERSION = 0x004"
definition R_DEVICE_ID :: usize where "R_DEVICE_ID = 0x008"
definition R_HOST_FEATURES :: usize where "R_HOST_FEATURES = 0x010"
definition R_GUEST_FEATURES :: usize where "R_GUEST_FEATURES = 0x020"
definition R_GUEST_PAGE_SIZE :: usize where "R_GUEST_PAGE_SIZE = 0x028"
definition R_QUEUE_SEL :: usize where "R_QUEUE_SEL = 0x030"
definition R_QUEUE_NUM_MAX :: usize where "R_QUEUE_NUM_MAX = 0x034"
definition R_QUEUE_NUM :: usize where "R_QUEUE_NUM = 0x038"
definition R_QUEUE_ALIGN :: usize where "R_QUEUE_ALIGN = 0x03c"
definition R_QUEUE_PFN :: usize where "R_QUEUE_PFN = 0x040"
definition R_INTERRUPT_STATUS :: usize where "R_INTERRUPT_STATUS = 0x060"
definition R_STATUS :: usize where "R_STATUS = 0x070"
definition R_CONFIG :: usize where "R_CONFIG = 0x100"

text \<open>
  The device on the bus: every volatile access may change its state. Next to the state the model keeps the
  accesses in their order, which is all that the device sees of the driver, and the terminal that the driver
  prints to.
\<close>

record 'd mmio_ops =
  mmio_read32 :: "'d \<Rightarrow> usize \<Rightarrow> u32 \<times> 'd"
  mmio_read64 :: "'d \<Rightarrow> usize \<Rightarrow> u64 \<times> 'd"
  mmio_write32 :: "'d \<Rightarrow> usize \<Rightarrow> u32 \<Rightarrow> 'd"

datatype mmio_event = Rd usize u32 | Rd64 usize u64 | Wr usize u32

record 'd virtio_bus =
  vb_dev :: 'd
  vb_trace :: "mmio_event list"
  vb_term :: terminal

definition read_at :: "'d mmio_ops \<Rightarrow> usize \<Rightarrow> 'd virtio_bus \<Rightarrow> u32 \<times> 'd virtio_bus" where
  "read_at D addr b =
     (let (v, d) = mmio_read32 D (vb_dev b) addr
      in (v, b\<lparr>vb_dev := d, vb_trace := vb_trace b @ [Rd addr v]\<rparr>))"

definition read64_at :: "'d mmio_ops \<Rightarrow> usize \<Rightarrow> 'd virtio_bus \<Rightarrow> u64 \<times> 'd virtio_bus" where
  "read64_at D addr b =
     (let (v, d) = mmio_read64 D (vb_dev b) addr
      in (v, b\<lparr>vb_dev := d, vb_trace := vb_trace b @ [Rd64 addr v]\<rparr>))"

definition read_volatile :: "'d mmio_ops \<Rightarrow> usize \<Rightarrow> 'd virtio_bus \<Rightarrow> u32 \<times> 'd virtio_bus" where
  "read_volatile D offset b = read_at D (VIRTIO_BASE + offset) b"

definition write_volatile :: "'d mmio_ops \<Rightarrow> usize \<Rightarrow> u32 \<Rightarrow> 'd virtio_bus \<Rightarrow> 'd virtio_bus" where
  "write_volatile D offset v b =
     b\<lparr>vb_dev := mmio_write32 D (vb_dev b) (VIRTIO_BASE + offset) v,
       vb_trace := vb_trace b @ [Wr (VIRTIO_BASE + offset) v]\<rparr>"

definition say :: "bytes list \<Rightarrow> 'd virtio_bus \<Rightarrow> 'd virtio_bus panics" where
  "say ps b = do { t \<leftarrow> println_macro (fmt_args ps) (vb_term b); Some (b\<lparr>vb_term := t\<rparr>) }"

subsection \<open>Queue layout\<close>

definition virtio_align_up :: "usize \<Rightarrow> usize \<Rightarrow> usize panics" where
  "virtio_align_up x a = do {
     s \<leftarrow> add_usize x a;
     t \<leftarrow> sub_usize s 1;
     u \<leftarrow> sub_usize a 1;
     Some (t AND not_usize u)
   }"

definition queue_bytes :: "usize \<Rightarrow> usize panics" where
  "queue_bytes queue_size = do {
     let descriptor = 16 * queue_size;
     let available = 6 + 2 * queue_size;
     let used = 6 + 8 * queue_size;
     used_offset \<leftarrow> virtio_align_up (descriptor + available) QUEUE_ALIGN_BYTES;
     add_usize used_offset used
   }"

definition QUEUE_BYTES :: "usize panics" where
  "QUEUE_BYTES = queue_bytes QUEUE_SIZE"

subsection \<open>Initialisation\<close>

text \<open>The format \<open>{:0b}\<close> has no width, so it is the plain binary number.\<close>

fun fmt_bin :: "nat \<Rightarrow> bytes" where
  "fmt_bin n = (if n < 2 then [digit n] else fmt_bin (n div 2) @ [digit (n mod 2)])"

declare fmt_bin.simps [simp del]

definition read_config :: "'d mmio_ops \<Rightarrow> 'd virtio_bus \<Rightarrow> 'd virtio_bus panics" where
  "read_config D b =
     (let (size_max, b) = read_at D (VIRTIO_BASE + 0x8) b
      in say [str_lit ''size_max='', fmt_dec (unat size_max)] b)"

definition initialize_driver :: "'d mmio_ops \<Rightarrow> 'd virtio_bus \<Rightarrow> (bool \<times> 'd virtio_bus) panics" where
  "initialize_driver D b = do {
     let b = write_volatile D R_STATUS 0x0 b;
     let b = write_volatile D R_STATUS (0x1 OR 0x2) b;
     let (host_features, b) = read_volatile D R_HOST_FEATURES b;
     b \<leftarrow> say [str_lit ''Found host features: '', fmt_bin (unat host_features), str_lit '' 0x'', fmt_hex False (unat host_features)] b;
     let b = write_volatile D R_GUEST_FEATURES 0 b;
     let b = write_volatile D R_GUEST_PAGE_SIZE 4096 b;
     Some (True, b)
   }"

text \<open>The argument \<open>base\<close> is the address of the static \<open>VIRTQ\<close>.\<close>

definition setup_virtqueue :: "'d mmio_ops \<Rightarrow> usize \<Rightarrow> 'd virtio_bus \<Rightarrow> 'd virtio_bus panics" where
  "setup_virtqueue D base b = do {
     let b = write_volatile D R_QUEUE_SEL 0 b;
     let (ready, b) = read_volatile D R_QUEUE_PFN b;
     if ready \<noteq> 0 then say [str_lit ''Queue is not ready''] b
     else do {
       let (queue_num_max, b) = read_volatile D R_QUEUE_NUM_MAX b;
       if queue_num_max = 0 then say [str_lit ''Queue is not available''] b
       else if of_nat QUEUE_SIZE > queue_num_max then None
       else do {
         let b = write_volatile D R_QUEUE_NUM (of_nat QUEUE_SIZE) b;
         let b = write_volatile D R_QUEUE_ALIGN (of_nat QUEUE_ALIGN_BYTES) b;
         Some (write_volatile D R_QUEUE_PFN (of_nat (base div QUEUE_ALIGN_BYTES)) b)
       }
     }
   }"

text \<open>The loop of \<open>read_capacity\<close>; when its rounds are used up the code panics.\<close>

fun read_capacity_loop :: "'d mmio_ops \<Rightarrow> nat \<Rightarrow> u64 \<Rightarrow> 'd virtio_bus \<Rightarrow> (u64 \<times> 'd virtio_bus) panics" where
  "read_capacity_loop D 0 prev b = None"
| "read_capacity_loop D (Suc n) prev b =
     (let (new, b) = read64_at D (VIRTIO_BASE + R_CONFIG) b
      in if new = prev then Some (new, b) else read_capacity_loop D n new b)"

definition read_capacity :: "'d mmio_ops \<Rightarrow> 'd virtio_bus \<Rightarrow> (u64 \<times> 'd virtio_bus) panics" where
  "read_capacity D b = read_capacity_loop D 10 0 b"

definition virtio_init :: "'d mmio_ops \<Rightarrow> usize \<Rightarrow> 'd virtio_bus \<Rightarrow> 'd virtio_bus panics" where
  "virtio_init D base b = do {
     let (magic, b) = read_volatile D R_MAGIC b;
     if magic \<noteq> EXPECTED_MAGIC then None
     else do {
       let (version, b) = read_volatile D R_VERSION b;
       if version \<noteq> 0x1 then None
       else do {
         let (device_id, b) = read_volatile D R_DEVICE_ID b;
         if device_id = 0 then say [str_lit ''[VIRTIO] DeviceID zero. Aborting.''] b
         else do {
           (capacity, b) \<leftarrow> read_capacity D b;
           bytes \<leftarrow> mul_usize (unat capacity) 512;
           b \<leftarrow> say [str_lit ''[VIRTIO] Found disk with Capacity: '', fmt_dec (bytes div 1024 div 1024), str_lit ''MB''] b;
           let (max_queue_size, b) = read_volatile D R_QUEUE_NUM_MAX b;
           b \<leftarrow> say [str_lit ''[VIRTIO] Max queue size: '', fmt_dec (unat max_queue_size)] b;
           b \<leftarrow> read_config D b;
           (ok, b) \<leftarrow> initialize_driver D b;
           if \<not> ok then Some b
           else do {
             b \<leftarrow> setup_virtqueue D base b;
             let (status, b) = read_volatile D R_STATUS b;
             let b = write_volatile D R_STATUS (status OR 0x4) b;
             let (interrupt_status, b) = read_volatile D R_INTERRUPT_STATUS b;
             if interrupt_status \<noteq> 0 then None
             else say [str_lit ''[VIRTIO] initialized''] b
           }
         }
       }
     }
   }"

subsection \<open>What the device sees\<close>

lemma say_eq: "say ps b = Some (b\<lparr>vb_term := (fst (vb_term b), snd (vb_term b) @ concat ps @ NEWLINE)\<rparr>)"
  by (cases "vb_term b") (simp add: say_def println_macro_eq)

lemma read_volatile_trace:
  "read_volatile D offset b = (v, b') \<Longrightarrow> vb_trace b' = vb_trace b @ [Rd (VIRTIO_BASE + offset) v]"
  by (auto simp: read_volatile_def read_at_def Let_def split: prod.splits)

lemma write_volatile_trace [simp]:
  "vb_trace (write_volatile D offset v b) = vb_trace b @ [Wr (VIRTIO_BASE + offset) v]"
  by (simp add: write_volatile_def)

text \<open>The readings of the capacity: the last one repeats the one before, which is 0 before the first.\<close>

definition stable_readings :: "u64 \<Rightarrow> u64 list \<Rightarrow> bool" where
  "stable_readings prev vs \<longleftrightarrow> vs \<noteq> [] \<and> last vs = last (prev # butlast vs) \<and>
     (\<forall>i < length vs - 1. vs ! i \<noteq> (prev # vs) ! i)"

lemma stable_readings_Cons:
  "v \<noteq> prev \<Longrightarrow> stable_readings v vs \<Longrightarrow> stable_readings prev (v # vs)"
  by (auto simp: stable_readings_def nth_Cons split: nat.splits)

lemma read_capacity_loop_Some:
  "read_capacity_loop D n prev b = Some (v, b') \<Longrightarrow>
   \<exists>vs. stable_readings prev vs \<and> length vs \<le> n \<and> last vs = v \<and> vb_term b' = vb_term b \<and>
     vb_trace b' = vb_trace b @ map (Rd64 (VIRTIO_BASE + R_CONFIG)) vs"
proof (induction D n prev b rule: read_capacity_loop.induct)
  case (2 D n prev b)
  obtain new b1 where r: "read64_at D (VIRTIO_BASE + R_CONFIG) b = (new, b1)" by (cases "read64_at D (VIRTIO_BASE + R_CONFIG) b")
  then have b1: "vb_trace b1 = vb_trace b @ [Rd64 (VIRTIO_BASE + R_CONFIG) new]" "vb_term b1 = vb_term b"
    by (auto simp: read64_at_def Let_def split: prod.splits)
  show ?case
  proof (cases "new = prev")
    case True
    then have "v = new" "b' = b1" using 2(2) r by simp_all
    then show ?thesis using True b1 by (intro exI [of _ "[new]"]) (simp add: stable_readings_def)
  next
    case False
    then have "read_capacity_loop D n new b1 = Some (v, b')" using 2(2) r by simp
    from 2(1) [OF r [symmetric] refl False this] obtain vs where "stable_readings new vs" "length vs \<le> n" "last vs = v"
      "vb_term b' = vb_term b1" "vb_trace b' = vb_trace b1 @ map (Rd64 (VIRTIO_BASE + R_CONFIG)) vs" by blast
    then show ?thesis using b1 stable_readings_Cons [OF False] by (intro exI [of _ "new # vs"]) (auto simp: stable_readings_def)
  qed
qed simp

text \<open>The accesses of \<open>setup_virtqueue\<close> and of the whole handshake, as the protocol lists them.\<close>

definition queue_events :: "usize \<Rightarrow> u32 \<Rightarrow> u32 \<Rightarrow> mmio_event list" where
  "queue_events base pfn num_max =
     [Wr (VIRTIO_BASE + R_QUEUE_SEL) 0, Rd (VIRTIO_BASE + R_QUEUE_PFN) pfn] @
     (if pfn \<noteq> 0 then []
      else if num_max = 0 then [Rd (VIRTIO_BASE + R_QUEUE_NUM_MAX) 0]
      else [Rd (VIRTIO_BASE + R_QUEUE_NUM_MAX) num_max, Wr (VIRTIO_BASE + R_QUEUE_NUM) 64,
            Wr (VIRTIO_BASE + R_QUEUE_ALIGN) 4096, Wr (VIRTIO_BASE + R_QUEUE_PFN) (of_nat (base div 4096))])"

definition probe_events :: "u32 \<Rightarrow> mmio_event list" where
  "probe_events device_id =
     [Rd (VIRTIO_BASE + R_MAGIC) 0x74726976, Rd (VIRTIO_BASE + R_VERSION) 1, Rd (VIRTIO_BASE + R_DEVICE_ID) device_id]"

definition feature_events :: "u32 \<Rightarrow> mmio_event list" where
  "feature_events host =
     [Wr (VIRTIO_BASE + R_STATUS) 0, Wr (VIRTIO_BASE + R_STATUS) 3, Rd (VIRTIO_BASE + R_HOST_FEATURES) host,
      Wr (VIRTIO_BASE + R_GUEST_FEATURES) 0, Wr (VIRTIO_BASE + R_GUEST_PAGE_SIZE) 4096]"

lemma setup_virtqueue_trace:
  assumes "setup_virtqueue D base b = Some b'"
  shows "\<exists>pfn num_max. (pfn = 0 \<longrightarrow> num_max = 0 \<or> 64 \<le> num_max) \<and> vb_trace b' = vb_trace b @ queue_events base pfn num_max"
proof -
  let ?b = "write_volatile D R_QUEUE_SEL 0 b"
  obtain pfn b1 where r1: "read_volatile D R_QUEUE_PFN ?b = (pfn, b1)" by (cases "read_volatile D R_QUEUE_PFN ?b")
  obtain num_max b2 where r2: "read_volatile D R_QUEUE_NUM_MAX b1 = (num_max, b2)" by (cases "read_volatile D R_QUEUE_NUM_MAX b1")
  have "pfn \<noteq> 0 \<or> num_max = 0 \<or> 64 \<le> num_max"
    using assms r1 r2 by (auto simp: setup_virtqueue_def QUEUE_SIZE_def split: if_splits)
  moreover have "vb_trace b' = vb_trace b @ queue_events base pfn num_max"
    using assms r1 r2 read_volatile_trace [OF r1] read_volatile_trace [OF r2]
    by (auto simp: setup_virtqueue_def queue_events_def say_eq QUEUE_SIZE_def QUEUE_ALIGN_BYTES_def split: if_splits)
  ultimately show ?thesis by blast
qed

lemma initialize_driver_trace:
  "\<exists>host b'. initialize_driver D b = Some (True, b') \<and> vb_trace b' = vb_trace b @ feature_events host"
proof -
  let ?b = "write_volatile D R_STATUS (0x1 OR 0x2) (write_volatile D R_STATUS 0x0 b)"
  obtain host b1 where r: "read_volatile D R_HOST_FEATURES ?b = (host, b1)" by (cases "read_volatile D R_HOST_FEATURES ?b")
  show ?thesis
    using r read_volatile_trace [OF r] by (auto simp: initialize_driver_def say_eq feature_events_def)
qed

text \<open>The queue: the used ring starts on the first page boundary behind the two other parts.\<close>

lemma virtio_align_up_eq: "virtio_align_up = heap_align_up"
  by (intro ext) (simp add: virtio_align_up_def heap_align_up_def)

lemma queue_bytes_eq:
  assumes "26 * n + 9000 < usize_limit"
  shows "queue_bytes n = Some (round_up (18 * n + 6) 4096 + (6 + 8 * n))"
proof -
  have "heap_align_up (16 * n + (6 + 2 * n)) (2 ^ 12) = Some (round_up (16 * n + (6 + 2 * n)) (2 ^ 12))"
    by (rule heap_align_up_Some) (use assms in simp_all)
  moreover have "round_up (18 * n + 6) 4096 < 18 * n + 6 + 4096" by (rule round_up_bounds) simp
  ultimately show ?thesis
    using assms by (simp add: queue_bytes_def virtio_align_up_eq QUEUE_ALIGN_BYTES_def add_usize_def algebra_simps)
qed

text \<open>
  A device as a file of registers, which answers with what was last written: one with a disk of a
  megabyte and room for 1024 queue elements.
\<close>

definition register_file :: "(usize \<Rightarrow> u32) mmio_ops" where
  "register_file = \<lparr>mmio_read32 = (\<lambda>d a. (d a, d)), mmio_read64 = (\<lambda>d a. (ucast (d a), d)),
     mmio_write32 = (\<lambda>d a v. d(a := v))\<rparr>"

definition sample_registers :: "usize \<Rightarrow> u32" where
  "sample_registers = (\<lambda>a. if a = 0x10008000 then 0x74726976 else if a = 0x10008004 then 1
     else if a = 0x10008008 then 2 else if a = 0x10008034 then 1024 else if a = 0x10008100 then 2048 else 0)"

definition sample_bus :: "(usize \<Rightarrow> u32) virtio_bus" where
  "sample_bus = \<lparr>vb_dev = sample_registers, vb_trace = [], vb_term = (sample_csrs, [])\<rparr>"

lemmas register_defs = R_MAGIC_def R_VERSION_def R_DEVICE_ID_def R_HOST_FEATURES_def R_GUEST_FEATURES_def
  R_GUEST_PAGE_SIZE_def R_QUEUE_SEL_def R_QUEUE_NUM_MAX_def R_QUEUE_NUM_def R_QUEUE_ALIGN_def R_QUEUE_PFN_def
  R_INTERRUPT_STATUS_def R_STATUS_def R_CONFIG_def VIRTIO_BASE_def

lemmas driver_defs = virtio_init_def read_config_def initialize_driver_def setup_virtqueue_def read_capacity_def
  read_volatile_def write_volatile_def read_at_def read64_at_def QUEUE_SIZE_def QUEUE_ALIGN_BYTES_def EXPECTED_MAGIC_def


text \<open>The steps on a register file, up to what was printed.\<close>

definition moves_to :: "(usize \<Rightarrow> u32) virtio_bus \<Rightarrow> (usize \<Rightarrow> u32) virtio_bus \<Rightarrow> (usize \<Rightarrow> u32) \<Rightarrow> bool" where
  "moves_to b b' d \<longleftrightarrow> vb_dev b' = d \<and> (\<exists>ev. vb_trace b' = vb_trace b @ ev)"

lemma moves_to_trans: "moves_to b b' d \<Longrightarrow> moves_to b' b'' d' \<Longrightarrow> moves_to b b'' d'"
  by (auto simp: moves_to_def)

lemma register_file_steps:
  "read_volatile register_file r b = (vb_dev b (VIRTIO_BASE + r), b\<lparr>vb_trace := vb_trace b @ [Rd (VIRTIO_BASE + r) (vb_dev b (VIRTIO_BASE + r))]\<rparr>)"
  "read64_at register_file a b = (ucast (vb_dev b a), b\<lparr>vb_trace := vb_trace b @ [Rd64 a (ucast (vb_dev b a))]\<rparr>)"
  "vb_dev (write_volatile register_file r v b) = (vb_dev b)(VIRTIO_BASE + r := v)"
  by (simp_all add: read_volatile_def read_at_def read64_at_def write_volatile_def register_file_def)

lemma register_file_capacity:
  "\<exists>b'. read_capacity register_file b = Some (ucast (vb_dev b (VIRTIO_BASE + R_CONFIG)), b') \<and> moves_to b b' (vb_dev b)"
proof -
  have "read_capacity register_file b = read_capacity_loop register_file (Suc (Suc 8)) 0 b" by (simp add: read_capacity_def)
  then show ?thesis by (simp only: read_capacity_loop.simps) (auto simp: register_file_steps moves_to_def)
qed

lemma register_file_config: "\<exists>b'. read_config register_file b = Some b' \<and> moves_to b b' (vb_dev b)"
  by (simp add: read_config_def read_at_def register_file_def say_eq moves_to_def)

lemma register_file_features:
  "\<exists>b'. initialize_driver register_file b = Some (True, b') \<and>
     moves_to b b' ((vb_dev b)(VIRTIO_BASE + R_STATUS := 3, VIRTIO_BASE + R_GUEST_FEATURES := 0, VIRTIO_BASE + R_GUEST_PAGE_SIZE := 4096))"
  by (simp add: initialize_driver_def register_file_steps say_eq moves_to_def Let_def register_defs)

lemma register_file_queue:
  "vb_dev b (VIRTIO_BASE + R_QUEUE_PFN) = 0 \<Longrightarrow> 64 \<le> vb_dev b (VIRTIO_BASE + R_QUEUE_NUM_MAX) \<Longrightarrow>
   \<exists>b'. setup_virtqueue register_file base b = Some b' \<and>
     moves_to b b' ((vb_dev b)(VIRTIO_BASE + R_QUEUE_SEL := 0, VIRTIO_BASE + R_QUEUE_NUM := 64, VIRTIO_BASE + R_QUEUE_ALIGN := 4096,
       VIRTIO_BASE + R_QUEUE_PFN := of_nat (base div 4096)))"
  by (auto simp: setup_virtqueue_def register_file_steps QUEUE_SIZE_def QUEUE_ALIGN_BYTES_def moves_to_def register_defs Let_def)

lemma sample_handshake:
  "\<exists>b'. virtio_init register_file 0x80200000 sample_bus = Some b' \<and> (\<exists>ev. vb_trace b' = probe_events 2 @ ev) \<and>
     vb_dev b' (VIRTIO_BASE + R_STATUS) = 7 \<and> vb_dev b' (VIRTIO_BASE + R_QUEUE_PFN) = 0x80200"
proof -
  let ?say = "\<lambda>ps b. b\<lparr>vb_term := (fst (vb_term b), snd (vb_term b) @ concat ps @ NEWLINE)\<rparr>"
  let ?b0 = "sample_bus\<lparr>vb_trace := probe_events 2\<rparr>"
  have d0: "vb_dev ?b0 = sample_registers" "vb_trace ?b0 = probe_events 2" by (simp_all add: sample_bus_def)
  from register_file_capacity [of ?b0] obtain b1 where
    b1: "read_capacity register_file ?b0 = Some (2048, b1)" "moves_to ?b0 b1 sample_registers"
    by (auto simp: sample_bus_def sample_registers_def register_defs)
  let ?b2 = "?say [str_lit ''[VIRTIO] Found disk with Capacity: '', fmt_dec 1, str_lit ''MB''] b1"
  let ?b3 = "?b2\<lparr>vb_trace := vb_trace b1 @ [Rd (VIRTIO_BASE + R_QUEUE_NUM_MAX) 1024]\<rparr>"
  let ?b4 = "?say [str_lit ''[VIRTIO] Max queue size: '', fmt_dec 1024] ?b3"
  have m4: "moves_to ?b0 ?b4 sample_registers" using b1(2) by (auto simp: moves_to_def)
  from register_file_config [of ?b4] obtain b5 where b5: "read_config register_file ?b4 = Some b5" "moves_to ?b4 b5 sample_registers"
    using b1(2) by (auto simp: moves_to_def)
  from register_file_features [of b5] obtain b6 where b6: "initialize_driver register_file b5 = Some (True, b6)"
    "moves_to b5 b6 (sample_registers(VIRTIO_BASE + R_STATUS := 3, VIRTIO_BASE + R_GUEST_FEATURES := 0, VIRTIO_BASE + R_GUEST_PAGE_SIZE := 4096))"
    using b5(2) by (auto simp: moves_to_def)
  from register_file_queue [of b6 "0x80200000"] obtain b7 where b7: "setup_virtqueue register_file 0x80200000 b6 = Some b7"
    "moves_to b6 b7 ((vb_dev b6)(VIRTIO_BASE + R_QUEUE_SEL := 0, VIRTIO_BASE + R_QUEUE_NUM := 64, VIRTIO_BASE + R_QUEUE_ALIGN := 4096,
       VIRTIO_BASE + R_QUEUE_PFN := 0x80200))"
    using b6(2) by (auto simp: moves_to_def register_defs sample_registers_def)
  have "moves_to ?b0 b7 (vb_dev b7)" using moves_to_trans [OF moves_to_trans [OF moves_to_trans [OF m4 b5(2)] b6(2)] b7(2)] by (simp add: moves_to_def)
  moreover have "vb_dev b7 (VIRTIO_BASE + R_STATUS) = 3" "vb_dev b7 (VIRTIO_BASE + R_INTERRUPT_STATUS) = 0"
    "vb_dev b7 (VIRTIO_BASE + R_QUEUE_PFN) = 0x80200"
    using b6(2) b7(2) by (simp_all add: moves_to_def register_defs sample_registers_def)
  ultimately show ?thesis
    using b1 b5(1) b6(1) b7(1) d0
    by (auto simp: virtio_init_def EXPECTED_MAGIC_def register_file_steps say_eq mul_usize_def sample_bus_def sample_registers_def
        moves_to_def probe_events_def register_defs Let_def)
qed


end
