(* ===== verification/Mkfs.thy ===== *)
theory Mkfs
  imports FS_Correct Console_Text "HOL-Library.List_Lexorder" "HOL-Library.Multiset"
begin

text \<open>
  The image builder (\<open>mkfs/src/lib.rs\<close>): the command line, the import of a host directory into a fresh
  filesystem, and the replacement of the output image. The host is a record of what its calls return; a
  call that can fail gives an error text or a result. A \<open>BuildError\<close> is a value of a datatype with one
  constructor per message, in place of the formatted text.
\<close>

section \<open>Paths\<close>

text \<open>
  A path is whether it starts at the root and its components, as \<open>Path::components\<close> yields them: empty
  components are dropped, and \<open>.\<close> is too, unless it comes first in a relative path.
\<close>

type_synonym path = "bool \<times> bytes list"

definition path_from :: "bytes \<Rightarrow> path" where
  "path_from s =
     (let parts = filter (\<lambda>p. p \<noteq> []) (split_at_char SLASH s); rooted = starts_with s [SLASH]
      in (rooted,
          (if \<not> rooted \<and> parts \<noteq> [] \<and> hd parts = DOT then [DOT] else []) @ filter (\<lambda>p. p \<noteq> DOT) parts))"

definition file_name :: "path \<Rightarrow> bytes option" where
  "file_name p = (case rev (snd p) of [] \<Rightarrow> None | c # _ \<Rightarrow> if c = DOT \<or> c = DOTDOT then None else Some c)"

definition parent_path :: "path \<Rightarrow> path option" where
  "parent_path p = (if snd p = [] then None else Some (fst p, butlast (snd p)))"

definition join_name :: "path \<Rightarrow> bytes \<Rightarrow> path" where
  "join_name p name = (fst p, snd p @ [name])"

definition path_starts_with :: "path \<Rightarrow> path \<Rightarrow> bool" where
  "path_starts_with p q \<longleftrightarrow> fst p = fst q \<and> take (length (snd q)) (snd p) = snd q"

section \<open>Command line\<close>

definition DEFAULT_SOURCE :: bytes where
  "DEFAULT_SOURCE = str_lit ''rootfs''"

definition DEFAULT_OUTPUT :: bytes where
  "DEFAULT_OUTPUT = str_lit ''lemonfs.img''"

definition DEFAULT_BLOCKS :: usize where
  "DEFAULT_BLOCKS = 16 * 1024 * 1024 div BLOCK_SIZE"

definition MAX_FILE_SIZE :: nat where
  "MAX_FILE_SIZE = 16 * BLOCK_SIZE"

record config =
  cfg_source :: path
  cfg_output :: path
  cfg_total_blocks :: usize

definition config_default :: config where
  "config_default = \<lparr>cfg_source = path_from DEFAULT_SOURCE, cfg_output = path_from DEFAULT_OUTPUT, cfg_total_blocks = DEFAULT_BLOCKS\<rparr>"

datatype mkfs_command = Build config | HelpCommand

datatype build_error =
    DuplicateOption bytes | MissingValue bytes | BlocksNotUtf8 | InvalidBlockCount bytes | BlocksZero
  | UnknownArgument bytes | ArgumentsNotUtf8
  | IoError bytes path bytes | NotADirectorySource path | TooManyBlocks usize | ImageOverflow
  | NotWholeBlocks path | OutputNeedsName | OutputInsideSource path path | NoTemporaryName path
  | FormatFailed fs_error | MountFailed fs_error
  | NameNotUtf8 path | SourceTooLarge path nat
  | CreateDirectoryFailed bytes path fs_error | CreateFileFailed bytes path fs_error | WriteFileFailed bytes path fs_error

record seen_options =
  source_seen :: bool
  output_seen :: bool
  blocks_seen :: bool

definition reject_duplicate :: "bool \<Rightarrow> bytes \<Rightarrow> build_error + bool" where
  "reject_duplicate seen option = (if seen then Inl (DuplicateOption option) else Inr True)"

definition next_value :: "bytes list \<Rightarrow> bytes \<Rightarrow> build_error + (bytes \<times> bytes list)" where
  "next_value args option = (case args of [] \<Rightarrow> Inl (MissingValue option) | v # rest \<Rightarrow> Inr (v, rest))"

definition parse_blocks :: "bytes \<Rightarrow> build_error + usize" where
  "parse_blocks value =
     (if \<not> valid_utf8 value then Inl BlocksNotUtf8
      else case parse_usize value of
             None \<Rightarrow> Inl (InvalidBlockCount value)
           | Some n \<Rightarrow> if n = 0 then Inl BlocksZero else Inr n)"

text \<open>One option with its value: the duplicate is refused before the value is taken.\<close>

definition option_value :: "bool \<Rightarrow> bytes \<Rightarrow> bytes list \<Rightarrow> build_error + (bytes \<times> bytes list)" where
  "option_value seen option args = and_then (reject_duplicate seen option) (\<lambda>_. next_value args option)"

lemma option_value_less: "option_value seen opt args = Inr (v, rest) \<Longrightarrow> length rest < length args"
  by (auto simp: option_value_def reject_duplicate_def next_value_def split: if_splits list.splits)

function parse_loop :: "config \<Rightarrow> seen_options \<Rightarrow> bytes list \<Rightarrow> build_error + mkfs_command" where
  "parse_loop cfg seen [] = Inr (Build cfg)"
| "parse_loop cfg seen (argument # args) =
     (if \<not> valid_utf8 argument then Inl ArgumentsNotUtf8
      else if argument = str_lit ''-h'' \<or> argument = str_lit ''--help'' then Inr HelpCommand
      else if argument = str_lit ''--source'' then
        (case option_value (source_seen seen) argument args of
           Inl e \<Rightarrow> Inl e
         | Inr (v, rest) \<Rightarrow> parse_loop (cfg\<lparr>cfg_source := path_from v\<rparr>) (seen\<lparr>source_seen := True\<rparr>) rest)
      else if argument = str_lit ''--output'' then
        (case option_value (output_seen seen) argument args of
           Inl e \<Rightarrow> Inl e
         | Inr (v, rest) \<Rightarrow> parse_loop (cfg\<lparr>cfg_output := path_from v\<rparr>) (seen\<lparr>output_seen := True\<rparr>) rest)
      else if argument = str_lit ''--blocks'' then
        (case option_value (blocks_seen seen) argument args of
           Inl e \<Rightarrow> Inl e
         | Inr (v, rest) \<Rightarrow>
             (case parse_blocks v of
                Inl e \<Rightarrow> Inl e
              | Inr n \<Rightarrow> parse_loop (cfg\<lparr>cfg_total_blocks := n\<rparr>) (seen\<lparr>blocks_seen := True\<rparr>) rest))
      else Inl (UnknownArgument argument))"
  by pat_completeness auto
termination
  by (relation "measure (\<lambda>(cfg, seen, args). length args)") (auto dest: option_value_less)

definition parse_command :: "bytes list \<Rightarrow> build_error + mkfs_command" where
  "parse_command args = parse_loop config_default \<lparr>source_seen = False, output_seen = False, blocks_seen = False\<rparr> args"

section \<open>The host\<close>

text \<open>
  A directory entry as the host's calls report it: the kind, then what \<open>read_dir\<close>, \<open>metadata\<close> and \<open>read\<close>
  return. \<open>HBroken\<close> is an entry whose kind cannot be read.
\<close>

datatype host_node =
    HDir "bytes + (bytes \<times> host_node) list"
  | HFile "bytes + nat" "bytes + bytes"
  | HOther
  | HBroken bytes

text \<open>
  The other calls: \<open>symlink_metadata\<close> of the source, \<open>canonicalize\<close>, the outcome of creating, sizing,
  opening, inspecting and renaming a file (no error text means success), and the process id.
\<close>

record host =
  h_source :: "bytes + host_node"
  h_canonicalize :: "path \<Rightarrow> bytes + path"
  h_create_error :: "path \<Rightarrow> bytes option"
  h_set_len_error :: "path \<Rightarrow> bytes option"
  h_open_error :: "path \<Rightarrow> bytes option"
  h_metadata_error :: "path \<Rightarrow> bytes option"
  h_rename_error :: "path \<Rightarrow> path \<Rightarrow> bytes option"
  h_pid :: nat

text \<open>The files that \<open>mkfs\<close> writes: contents by path.\<close>

type_synonym host_files = "path \<Rightarrow> bytes option"

section \<open>Import\<close>

record import_summary =
  is_directories :: nat
  is_files :: nat
  is_skipped :: "path list"

definition summary_default :: import_summary where
  "summary_default = \<lparr>is_directories = 0, is_files = 0, is_skipped = []\<rparr>"

definition utf8_name :: "bytes \<Rightarrow> path \<Rightarrow> build_error + bytes" where
  "utf8_name name p = (if valid_utf8 name then Inr name else Inl (NameNotUtf8 p))"

definition child_path :: "bytes \<Rightarrow> bytes \<Rightarrow> bytes" where
  "child_path parent name = (if parent = [SLASH] then SLASH # name else parent @ SLASH # name)"

text \<open>The branch for a regular file.\<close>

definition import_file ::
  "'d block_device_ops \<Rightarrow> 'd filesystem \<Rightarrow> path \<Rightarrow> bytes \<Rightarrow> bytes + nat \<Rightarrow> bytes + bytes \<Rightarrow>
     ('d filesystem \<times> (build_error + unit)) panics" where
  "import_file D fs host_path lemon_path len contents =
     (case len of
        Inl e \<Rightarrow> Some (fs, Inl (IoError (str_lit ''inspect source file'') host_path e))
      | Inr n \<Rightarrow>
          if n > MAX_FILE_SIZE then Some (fs, Inl (SourceTooLarge host_path n))
          else case contents of
            Inl e \<Rightarrow> Some (fs, Inl (IoError (str_lit ''read source file'') host_path e))
          | Inr bs \<Rightarrow> do {
              (fs, r) \<leftarrow> create_file D fs lemon_path;
              case r of
                Inl e \<Rightarrow> Some (fs, Inl (CreateFileFailed lemon_path host_path e))
              | Inr _ \<Rightarrow> do {
                  (fs, r) \<leftarrow> write_to_file D fs lemon_path bs;
                  Some (fs, case r of Inl e \<Rightarrow> Inl (WriteFileFailed lemon_path host_path e) | Inr _ \<Rightarrow> Inr ())
                }
            })"

lemma size_list_sort [simp]: "size_list f (sort_key k xs) = size_list f xs"
proof -
  have "size_list f ys = sum_mset (image_mset f (mset ys)) + length ys" for ys :: "'a list" by (induction ys) auto
  then show ?thesis by simp
qed

function (sequential)
  import_directory :: "'d block_device_ops \<Rightarrow> 'd filesystem \<Rightarrow> path \<Rightarrow> bytes + (bytes \<times> host_node) list \<Rightarrow> bytes \<Rightarrow> import_summary \<Rightarrow>
     ('d filesystem \<times> (build_error + import_summary)) panics"
  and import_entries :: "'d block_device_ops \<Rightarrow> 'd filesystem \<Rightarrow> path \<Rightarrow> (bytes \<times> host_node) list \<Rightarrow> bytes \<Rightarrow> import_summary \<Rightarrow>
     ('d filesystem \<times> (build_error + import_summary)) panics" where
  "import_directory D fs host_directory (Inl e) lemon_directory summary =
     Some (fs, Inl (IoError (str_lit ''read source directory'') host_directory e))"
| "import_directory D fs host_directory (Inr entries) lemon_directory summary =
     import_entries D fs host_directory (sort_key fst entries) lemon_directory summary"
| "import_entries D fs host_directory [] lemon_directory summary = Some (fs, Inr summary)"
| "import_entries D fs host_directory ((name, HBroken e) # es) lemon_directory summary =
     Some (fs, Inl (IoError (str_lit ''inspect source entry'') (join_name host_directory name) e))"
| "import_entries D fs host_directory ((name, HOther) # es) lemon_directory summary =
     import_entries D fs host_directory es lemon_directory
       (summary\<lparr>is_skipped := is_skipped summary @ [join_name host_directory name]\<rparr>)"
| "import_entries D fs host_directory ((name, HDir rd) # es) lemon_directory summary =
     (case utf8_name name (join_name host_directory name) of
        Inl e \<Rightarrow> Some (fs, Inl e)
      | Inr nm \<Rightarrow>
          (case mkdir D fs (child_path lemon_directory nm) of
             None \<Rightarrow> None
           | Some (fs, Inl e) \<Rightarrow> Some (fs, Inl (CreateDirectoryFailed (child_path lemon_directory nm) (join_name host_directory name) e))
           | Some (fs, Inr _) \<Rightarrow>
               (case import_directory D fs (join_name host_directory name) rd (child_path lemon_directory nm)
                       (summary\<lparr>is_directories := is_directories summary + 1\<rparr>) of
                  None \<Rightarrow> None
                | Some (fs, Inl e) \<Rightarrow> Some (fs, Inl e)
                | Some (fs, Inr summary) \<Rightarrow> import_entries D fs host_directory es lemon_directory summary)))"
| "import_entries D fs host_directory ((name, HFile len contents) # es) lemon_directory summary =
     (case utf8_name name (join_name host_directory name) of
        Inl e \<Rightarrow> Some (fs, Inl e)
      | Inr nm \<Rightarrow>
          (case import_file D fs (join_name host_directory name) (child_path lemon_directory nm) len contents of
             None \<Rightarrow> None
           | Some (fs, Inl e) \<Rightarrow> Some (fs, Inl e)
           | Some (fs, Inr _) \<Rightarrow> import_entries D fs host_directory es lemon_directory (summary\<lparr>is_files := is_files summary + 1\<rparr>)))"
  by pat_completeness auto
termination
  by (relation "measure (\<lambda>x. case x of
      Inl (D, fs, hp, rd, lp, sm) \<Rightarrow> (case rd of Inl _ \<Rightarrow> 0 | Inr es \<Rightarrow> 1 + size_list (size_prod (\<lambda>_. 0) size) es)
    | Inr (D, fs, hp, es, lp, sm) \<Rightarrow> size_list (size_prod (\<lambda>_. 0) size) es)") (auto split: sum.splits)

section \<open>Building the image\<close>

definition io_result :: "string \<Rightarrow> path \<Rightarrow> bytes + 'a \<Rightarrow> build_error + 'a" where
  "io_result action p r = map_err (IoError (str_lit action) p) r"

definition io_check :: "string \<Rightarrow> path \<Rightarrow> bytes option \<Rightarrow> build_error + unit" where
  "io_check action p e = (case e of None \<Rightarrow> Inr () | Some msg \<Rightarrow> Inl (IoError (str_lit action) p msg))"

definition output_parent :: "path \<Rightarrow> path" where
  "output_parent output = (case parent_path output of Some p \<Rightarrow> p | None \<Rightarrow> (False, [DOT]))"

definition validate_output_location :: "host \<Rightarrow> path \<Rightarrow> path \<Rightarrow> build_error + unit" where
  "validate_output_location h source output =
     and_then (io_result ''resolve source directory'' source (h_canonicalize h source)) (\<lambda>source'.
     and_then (ok_or OutputNeedsName (file_name output)) (\<lambda>name.
     and_then (io_result ''resolve output directory'' (output_parent output) (h_canonicalize h (output_parent output))) (\<lambda>parent'.
       let output' = join_name parent' name
       in if path_starts_with output' source' then Inl (OutputInsideSource output' source') else Inr ())))"

text \<open>
  A new file of the given size, all zero. An existing path is refused by \<open>create_new\<close>, with an error text
  that nobody sees.
\<close>

definition file_device_create ::
  "host \<Rightarrow> host_files \<Rightarrow> path \<Rightarrow> usize \<Rightarrow> host_files \<times> (build_error + file_block_device)" where
  "file_device_create h files p tot =
     (case checked_mul tot BLOCK_SIZE of
        None \<Rightarrow> (files, Inl ImageOverflow)
      | Some image_bytes \<Rightarrow>
          if files p \<noteq> None then (files, Inl (IoError (str_lit ''create temporary image'') p (str_lit ''File exists'')))
          else case h_create_error h p of
            Some e \<Rightarrow> (files, Inl (IoError (str_lit ''create temporary image'') p e))
          | None \<Rightarrow>
              (case h_set_len_error h p of
                 Some e \<Rightarrow> (files, Inl (IoError (str_lit ''size temporary image'') p e))
               | None \<Rightarrow>
                   let bs = replicate image_bytes 0
                   in (files(p \<mapsto> bs), Inr \<lparr>fd_bytes = bs, fd_cursor = 0, fd_total_blocks = tot\<rparr>)))"

definition file_device_open :: "host \<Rightarrow> path \<Rightarrow> bytes \<Rightarrow> build_error + file_block_device" where
  "file_device_open h p bs =
     and_then (io_check ''open formatted image'' p (h_open_error h p)) (\<lambda>_.
     and_then (io_check ''inspect formatted image'' p (h_metadata_error h p)) (\<lambda>_.
       if length bs mod BLOCK_SIZE \<noteq> 0 then Inl (NotWholeBlocks p)
       else Inr \<lparr>fd_bytes = bs, fd_cursor = 0, fd_total_blocks = length bs div BLOCK_SIZE\<rparr>))"

definition temporary_name :: "host \<Rightarrow> bytes \<Rightarrow> nat \<Rightarrow> bytes" where
  "temporary_name h name attempt = name @ str_lit ''.tmp-'' @ fmt_dec (h_pid h) @ str_lit ''-'' @ fmt_dec attempt"

fun temporary_loop ::
  "host \<Rightarrow> host_files \<Rightarrow> path \<Rightarrow> path \<Rightarrow> bytes \<Rightarrow> usize \<Rightarrow> nat list \<Rightarrow> host_files \<times> (build_error + (path \<times> file_block_device))" where
  "temporary_loop h files output parent name tot [] = (files, Inl (NoTemporaryName output))"
| "temporary_loop h files output parent name tot (attempt # rest) =
     (let p = join_name parent (temporary_name h name attempt)
      in case file_device_create h files p tot of
           (files, Inr device) \<Rightarrow> (files, Inr (p, device))
         | (files, Inl e) \<Rightarrow>
             if files p \<noteq> None then temporary_loop h files output parent name tot rest else (files, Inl e))"

definition create_temporary_image ::
  "host \<Rightarrow> host_files \<Rightarrow> path \<Rightarrow> usize \<Rightarrow> host_files \<times> (build_error + (path \<times> file_block_device))" where
  "create_temporary_image h files output tot =
     (case file_name output of
        None \<Rightarrow> (files, Inl OutputNeedsName)
      | Some name \<Rightarrow> temporary_loop h files output (output_parent output) name tot [0..<100])"

text \<open>Format, mount, import and flush; the result is the image.\<close>

definition fill_image ::
  "host \<Rightarrow> path \<Rightarrow> bytes + (bytes \<times> host_node) list \<Rightarrow> path \<Rightarrow> file_block_device \<Rightarrow> (build_error + (bytes \<times> import_summary)) panics" where
  "fill_image h source entries temp device = do {
     (device, r) \<leftarrow> format file_device device;
     case r of
       Inl e \<Rightarrow> Some (Inl (FormatFailed e))
     | Inr _ \<Rightarrow>
         (case file_device_open h temp (fd_bytes device) of
            Inl e \<Rightarrow> Some (Inl e)
          | Inr device \<Rightarrow> do {
              r \<leftarrow> filesystem_new file_device device;
              case r of
                Inl e \<Rightarrow> Some (Inl (MountFailed e))
              | Inr fs \<Rightarrow> do {
                  (fs, r) \<leftarrow> import_directory file_device fs source entries [SLASH] summary_default;
                  case r of
                    Inl e \<Rightarrow> Some (Inl e)
                  | Inr summary \<Rightarrow> do {
                      fs \<leftarrow> flush file_device fs;
                      Some (Inr (fd_bytes (fs_device fs), summary))
                    }
                }
            })
   }"

text \<open>\<open>Drop\<close> of the temporary image removes it on every path but the last.\<close>

definition build_image :: "host \<Rightarrow> host_files \<Rightarrow> config \<Rightarrow> (host_files \<times> (build_error + import_summary)) panics" where
  "build_image h files cfg =
     (case h_source h of
        Inl e \<Rightarrow> Some (files, Inl (IoError (str_lit ''inspect source directory'') (cfg_source cfg) e))
      | Inr (HDir entries) \<Rightarrow>
          (case validate_output_location h (cfg_source cfg) (cfg_output cfg) of
             Inl e \<Rightarrow> Some (files, Inl e)
           | Inr _ \<Rightarrow>
               if \<not> cfg_total_blocks cfg < 2 ^ 32 then Some (files, Inl (TooManyBlocks (cfg_total_blocks cfg)))
               else case create_temporary_image h files (cfg_output cfg) (cfg_total_blocks cfg) of
                 (files, Inl e) \<Rightarrow> Some (files, Inl e)
               | (files, Inr (temp, device)) \<Rightarrow> do {
                   r \<leftarrow> fill_image h (cfg_source cfg) entries temp device;
                   Some (case r of
                       Inl e \<Rightarrow> (files(temp := None), Inl e)
                     | Inr (img, summary) \<Rightarrow>
                         (case h_rename_error h temp (cfg_output cfg) of
                            Some e \<Rightarrow> (files(temp := None), Inl (IoError (str_lit ''replace output image'') (cfg_output cfg) e))
                          | None \<Rightarrow> (files(temp := None, cfg_output cfg \<mapsto> img), Inr summary)))
                 })
      | Inr _ \<Rightarrow> Some (files, Inl (NotADirectorySource (cfg_source cfg))))"

text \<open>\<open>main\<close>: the exit code, with the summary that is printed on success.\<close>

definition mkfs_main :: "host \<Rightarrow> host_files \<Rightarrow> bytes list \<Rightarrow> (nat \<times> host_files \<times> import_summary option) panics" where
  "mkfs_main h files args =
     (case parse_command args of
        Inl e \<Rightarrow> Some (2, files, None)
      | Inr HelpCommand \<Rightarrow> Some (0, files, None)
      | Inr (Build cfg) \<Rightarrow> do {
          (files, r) \<leftarrow> build_image h files cfg;
          case r of
            Inr summary \<Rightarrow> do { _ \<leftarrow> mul_usize (cfg_total_blocks cfg) BLOCK_SIZE; Some (0, files, Some summary) }
          | Inl e \<Rightarrow> Some (1, files, None)
        })"

end
