(* ===== verification/FS_Tree.thy ===== *)
theory FS_Tree
  imports FS_Correct
begin

text \<open>
  The directories of a filesystem form a tree. The well-formedness of single directories does not say so: a cycle of
  directories off the root satisfies it. It is an invariant of the reachable states, shown by a rank that grows from a
  directory to its subdirectories.
\<close>

section \<open>Ranks\<close>

definition child_of :: "afs \<Rightarrow> inode_index \<Rightarrow> inode_index \<Rightarrow> bool" where
  "child_of a d e \<longleftrightarrow> is_dir a e \<and> (\<exists>nm. (nm, e) \<in> set (entries_of a d) \<and> nm \<noteq> DOT \<and> nm \<noteq> DOTDOT)"

definition ranked :: "afs \<Rightarrow> (inode_index \<Rightarrow> nat) \<Rightarrow> bool" where
  "ranked a rank \<longleftrightarrow> (\<forall>d e. child_of a d e \<longrightarrow> rank d < rank e)"

lemma rankedD: "ranked a rank \<Longrightarrow> child_of a d e \<Longrightarrow> rank d < rank e"
  by (simp add: ranked_def)

lemma ranked_mono: "ranked a rank \<Longrightarrow> (\<And>d e. child_of a' d e \<Longrightarrow> child_of a d e) \<Longrightarrow> ranked a' rank"
  by (auto simp: ranked_def)

lemma ranked_empty: "ranked empty_tree (\<lambda>_. 0)"
  by (auto simp: ranked_def child_of_def entries_of_def empty_tree_def split: if_splits)

text \<open>A node without subdirectories: a file, or a directory with itself and its parent at most.\<close>

definition plain_node :: "fnode \<Rightarrow> bool" where
  "plain_node nd = (case nd of File _ \<Rightarrow> True | Dir es \<Rightarrow> fst ` set es \<subseteq> {DOT, DOTDOT})"

lemma plain_nodes [simp]: "plain_node (File c)" "plain_node (new_node kind i p)"
  by (auto simp: plain_node_def new_node_def split: entry_kind.splits)

lemma ranked_create:
  assumes "ranked a rank" and "afs_ok a" and "a k = None" and "is_dir a p" and "plain_node nd"
  shows "ranked (a(k \<mapsto> nd, p \<mapsto> Dir (entries_of a p @ [(nm, k)]))) (rank(k := Suc (rank p)))"
    (is "ranked ?a _")
  unfolding ranked_def
proof (intro allI impI)
  fix d e assume c: "child_of ?a d e"
  have kp: "k \<noteq> p" using assms(3,4) by (auto simp: is_dir_def)
  have ents: "entries_of ?a d = (if d = p then entries_of a p @ [(nm, k)] else if d = k then entries_of ?a k else entries_of a d)"
    using kp by (simp add: entries_of_def)
  have "d \<noteq> k" using c kp assms(5) by (force simp: child_of_def entries_of_def plain_node_def split: fnode.splits)
  from c obtain x where x: "(x, e) \<in> set (entries_of ?a d)" "x \<noteq> DOT" "x \<noteq> DOTDOT" "is_dir ?a e" by (auto simp: child_of_def)
  show "(rank(k := Suc (rank p))) d < (rank(k := Suc (rank p))) e"
  proof (cases "e = k")
    case True
    have "(x, k) \<notin> set (entries_of a d)" using entries_of_fresh [OF assms(2,3)] by blast
    then have "d = p" using x(1) True \<open>d \<noteq> k\<close> by (auto simp: ents split: if_splits)
    then show ?thesis using True kp by simp
  next
    case False
    then have "(x, e) \<in> set (entries_of a d)" using x(1) \<open>d \<noteq> k\<close> by (auto simp: ents split: if_splits)
    moreover have "is_dir a e" using x(4) False assms(4) by (auto simp: is_dir_def split: if_splits)
    ultimately have "child_of a d e" using x(2,3) by (auto simp: child_of_def)
    then show ?thesis using rankedD [OF assms(1)] False \<open>d \<noteq> k\<close> by simp
  qed
qed

lemma ranked_remove:
  assumes "ranked a rank" and "is_dir a p" and "q < length (entries_of a p)" and "\<not> is_dir a i"
  shows "ranked (a(i := None, p \<mapsto> Dir (swap_remove (entries_of a p) q))) rank" (is "ranked ?a rank")
proof (rule ranked_mono [OF assms(1)])
  fix d e assume "child_of ?a d e"
  then obtain x where x: "(x, e) \<in> set (entries_of ?a d)" "x \<noteq> DOT" "x \<noteq> DOTDOT" "is_dir ?a e" by (auto simp: child_of_def)
  have "(x, e) \<in> set (entries_of a d)"
  proof (cases "d = p")
    case True
    then have "(x, e) \<in> set (swap_remove (entries_of a p) q)" using x(1) by (simp add: entries_of_def)
    from set_swap_remove [OF this assms(3)] show ?thesis using True by (metis nth_mem)
  next
    case False
    then show ?thesis using x(1) by (auto simp: entries_of_def split: if_splits)
  qed
  moreover have "is_dir a e" using x(4) assms(2) by (auto simp: is_dir_def split: if_splits)
  ultimately show "child_of a d e" using x(2,3) by (auto simp: child_of_def)
qed

lemma ranked_write: "ranked a rank \<Longrightarrow> a i = Some (File c) \<Longrightarrow> ranked (a(i \<mapsto> File c')) rank"
  by (erule ranked_mono) (auto simp: child_of_def is_dir_def entries_of_def split: if_splits)

context block_device
begin

lemma create_ranked:
  assumes "fs_inv blocks dev_ok fs" and "path_ok path" and "new_dir_entry D fs path kind = Some (fs', r)"
    and "ranked (fs_abs blocks fs) rank"
  shows "\<exists>rank. ranked (fs_abs blocks fs') rank"
proof (cases "fs_abs blocks fs' = fs_abs blocks fs")
  case False
  have path: "valid_utf8 path" "0 \<notin> set path" using assms(2) by (simp_all add: path_ok_def)
  note ok = fs_invD(5) [OF assms(1)]
  from False new_dir_entry_law [OF assms(1) path, of kind] assms(3) obtain p nm k where
    c: "spec_create (fs_abs blocks fs) path = Inr (p, nm)" "fs_abs blocks fs (as_u32 k) = None"
    "fs_abs blocks fs' = (fs_abs blocks fs)(as_u32 k \<mapsto> new_node kind (as_u32 k) p, p \<mapsto> Dir (entries_of (fs_abs blocks fs) p @ [(nm, as_u32 k)]))"
    by (auto split: sum.splits option.splits if_splits)
  show ?thesis using ranked_create [OF assms(4) ok c(2) spec_create_Inr(1) [OF c(1) ok path] plain_nodes(2)] unfolding c(3) by blast
qed (use assms(4) in auto)

lemma remove_ranked:
  assumes "fs_inv blocks dev_ok fs" and "remove_dir_entry D fs path = Some (fs', r)" and "ranked (fs_abs blocks fs) rank"
  shows "ranked (fs_abs blocks fs') rank"
proof (cases "fs_abs blocks fs' = fs_abs blocks fs")
  case False
  let ?a = "fs_abs blocks fs"
  from False remove_dir_entry_law [OF assms(1), of path] assms(2) obtain p nm i where
    c: "spec_resolve ?a path = Inr (p, nm, i)" "\<not> is_dir ?a i"
    "fs_abs blocks fs' = ?a(i := None, p \<mapsto> Dir (swap_remove (entries_of ?a p) (name_index nm (entries_of ?a p))))"
    by (cases "spec_resolve ?a path") (auto split: if_splits)
  have "is_dir ?a p" using spec_resolve_entry(1) [OF c(1)]
    by (cases "?a p") (auto simp: is_dir_def entries_of_def split: fnode.splits)
  from ranked_remove [OF assms(3) this name_index(1) [OF spec_resolve_Inr [OF c(1)]] c(2)] show ?thesis by (simp only: c(3))
qed (use assms(3) in simp)

lemma append_ranked:
  assumes "fs_inv blocks dev_ok fs" and "append_to_file D fs path data = Some (fs', r)" and "ranked (fs_abs blocks fs) rank"
  shows "ranked (fs_abs blocks fs') rank"
proof (cases "fs_abs blocks fs' = fs_abs blocks fs")
  case False
  let ?a = "fs_abs blocks fs"
  from append_to_file_law [OF assms(1), of path data] assms(2) False obtain p nm i where
    r: "spec_resolve ?a path = Inr (p, nm, i)" by (cases "spec_resolve ?a path") auto
  from append_to_file_law [OF assms(1), of path data] assms(2) False obtain c c' where
    "?a i = Some (File c)" "fs_abs blocks fs' = ?a(i \<mapsto> File c')"
    by (cases "?a i"; cases "the (?a i)") (auto simp: r split: if_splits)
  then show ?thesis using ranked_write [OF assms(3)] by simp
qed (use assms(3) in simp)

lemma reach_ranked:
  assumes "fs_reach D d0 fs" and "dev_ok d0" and "length (blocks d0) < 2 ^ 32"
  shows "\<exists>rank. ranked (fs_abs blocks fs) rank"
  using assms
proof (induction rule: fs_reach.induct)
  case (formatted d fs)
  note f = format_law [OF formatted(3,4)]
  have "fixed_blocks 4096 + 2 \<le> length (blocks d0) \<and> (length (blocks d0) - fixed_blocks 4096) mod 4097 \<noteq> 1"
    using f(1,2) formatted(1) by (force simp: not_le)
  then have "fs_abs blocks fs = empty_tree" using f(3) formatted(1,2) by auto
  then show ?case using ranked_empty by auto
next
  case (created fs path kind fs' r)
  then show ?case using create_ranked reach_inv by blast
next
  case (removed fs path fs' r)
  then show ?case using remove_ranked reach_inv by blast
next
  case (appended fs path data fs' r)
  then show ?case using append_ranked reach_inv by blast
next
  case (was_read fs path fs' r)
  then show ?case using read_inv(2) [OF reach_inv] by metis
next
  case (flushed fs fs')
  then show ?case using flush_mount_law [OF reach_inv] by fastforce
next
  case (remounted fs fs' fs'')
  then show ?case using flush_mount_law [OF reach_inv] by fastforce
qed

end

section \<open>Trees\<close>

definition tree_like :: "afs \<Rightarrow> bool" where
  "tree_like a \<longleftrightarrow> (\<exists>rank. ranked a rank)"

lemma tree_like_empty: "tree_like empty_tree"
  using ranked_empty by (auto simp: tree_like_def)

lemma tree_like_create:
  "tree_like a \<Longrightarrow> afs_ok a \<Longrightarrow> a k = None \<Longrightarrow> is_dir a p \<Longrightarrow> plain_node nd \<Longrightarrow>
     tree_like (a(k \<mapsto> nd, p \<mapsto> Dir (entries_of a p @ [(nm, k)])))"
  unfolding tree_like_def using ranked_create by blast

end
