(* ===== verification/Mkfs_Correct.thy ===== *)
theory Mkfs_Correct
  imports Mkfs FS_Tree
begin

text \<open>
  What an image built by \<open>mkfs\<close> holds: the import follows the abstract tree of the filesystem, so a
  successful build contains every file and directory of the host, and a failed one leaves the host's files
  as they were.
\<close>

section \<open>Growing trees\<close>

text \<open>
  Importing only adds: files keep their contents, directories keep their entries in front, and no cycle of directories
  appears.
\<close>

definition grows :: "afs \<Rightarrow> afs \<Rightarrow> bool" where
  "grows a a' \<longleftrightarrow> (\<forall>i c. a i = Some (File c) \<longrightarrow> a' i = Some (File c)) \<and>
     (\<forall>i es. a i = Some (Dir es) \<longrightarrow> (\<exists>es'. a' i = Some (Dir (es @ es')))) \<and> (tree_like a \<longrightarrow> tree_like a')"

lemma grows_refl [simp]: "grows a a"
  by (simp add: grows_def)

lemma growsD:
  assumes "grows a a'"
  shows "a i = Some (File c) \<Longrightarrow> a' i = Some (File c)" and "a i = Some (Dir es) \<Longrightarrow> \<exists>es'. a' i = Some (Dir (es @ es'))"
    and "tree_like a \<Longrightarrow> tree_like a'"
  using assms by (simp_all add: grows_def)

lemma grows_chain:
  assumes "grows a b" and "grows b c"
  shows "grows a c"
  unfolding grows_def
proof (intro conjI allI impI)
  show "c i = Some (File x)" if "a i = Some (File x)" for i x using that growsD(1) [OF assms(1)] growsD(1) [OF assms(2)] by simp
  show "\<exists>es'. c i = Some (Dir (es @ es'))" if "a i = Some (Dir es)" for i es
  proof -
    from growsD(2) [OF assms(1) that] obtain xs where "b i = Some (Dir (es @ xs))" by blast
    from growsD(2) [OF assms(2) this] show ?thesis by auto
  qed
  show "tree_like c" if "tree_like a" using that growsD(3) [OF assms(1)] growsD(3) [OF assms(2)] by simp
qed

lemma is_dir_Some: "is_dir a i \<longleftrightarrow> (\<exists>es. a i = Some (Dir es))"
  by (auto simp: is_dir_def split: option.splits fnode.splits)

lemma grows_dir: "grows a a' \<Longrightarrow> is_dir a i \<Longrightarrow> is_dir a' i"
  using growsD(2) by (fastforce simp: is_dir_Some)

lemma grows_entry:
  assumes "grows a a'" and "map_of (entries_of a i) nm = Some j"
  shows "map_of (entries_of a' i) nm = Some j"
proof -
  obtain es where es: "a i = Some (Dir es)" using assms(2) by (auto simp: entries_of_def split: option.splits fnode.splits)
  then obtain es' where "a' i = Some (Dir (es @ es'))" using growsD(2) [OF assms(1)] by blast
  then show ?thesis using assms(2) es by (simp add: entries_of_def map_add_Some_iff)
qed

lemma grows_walk: "spec_walk a i ps = Inr j \<Longrightarrow> grows a a' \<Longrightarrow> spec_walk a' i ps = Inr j"
proof (induction ps arbitrary: i)
  case (Cons p ps)
  then obtain k where k: "map_of (entries_of a i) p = Some k" "is_dir a k" "spec_walk a k ps = Inr j"
    by (auto split: option.splits if_splits)
  then show ?case using grows_entry [OF Cons.prems(2) k(1)] grows_dir [OF Cons.prems(2) k(2)] Cons.IH [OF k(3) Cons.prems(2)] by simp
qed simp

lemma spec_walk_snoc:
  "spec_walk a i ps = Inr j \<Longrightarrow> map_of (entries_of a j) nm = Some k \<Longrightarrow> is_dir a k \<Longrightarrow> spec_walk a i (ps @ [nm]) = Inr k"
  by (induction a i ps rule: spec_walk.induct) (auto split: option.splits if_splits)

text \<open>What a path names: a file with its contents, or a directory.\<close>

definition holds_at :: "afs \<Rightarrow> bytes \<Rightarrow> bytes option \<Rightarrow> bool" where
  "holds_at a q co =
     (case co of
        Some c \<Rightarrow> (case spec_resolve a q of Inr (p, nm, i) \<Rightarrow> a i = Some (File c) | _ \<Rightarrow> False)
      | None \<Rightarrow> (case spec_walk a 0 (path_parts q) of Inr i \<Rightarrow> is_dir a i | _ \<Rightarrow> False))"

lemma grows_resolve: "spec_resolve a q = Inr r \<Longrightarrow> grows a a' \<Longrightarrow> spec_resolve a' q = Inr r"
proof -
  assume r: "spec_resolve a q = Inr r" and g: "grows a a'"
  obtain d b where db: "(case rsplit_once SLASH q of Some p \<Rightarrow> p | None \<Rightarrow> (q, q)) = (d, b)" by fastforce
  with r obtain p i where p: "spec_walk a 0 (path_parts d) = Inr p" "map_of (entries_of a p) b = Some i" "r = (p, b, i)"
    by (auto simp: spec_resolve_def and_then_eq_Inr split: option.splits)
  then show ?thesis using grows_walk [OF p(1) g] grows_entry [OF g p(2)] db by (simp add: spec_resolve_def)
qed

lemma grows_holds: "holds_at a q co \<Longrightarrow> grows a a' \<Longrightarrow> holds_at a' q co"
proof (cases co)
  case None
  assume h: "holds_at a q co" and g: "grows a a'"
  then obtain i where i: "spec_walk a 0 (path_parts q) = Inr i" "is_dir a i" by (auto simp: holds_at_def None split: sum.splits)
  show ?thesis using grows_walk [OF i(1) g] grows_dir [OF g i(2)] by (simp add: holds_at_def None)
next
  case (Some c)
  assume h: "holds_at a q co" and g: "grows a a'"
  then obtain p nm i where i: "spec_resolve a q = Inr (p, nm, i)" "a i = Some (File c)"
    by (auto simp: holds_at_def Some split: sum.splits prod.splits)
  show ?thesis using grows_resolve [OF i(1) g] growsD(1) [OF g i(2)] by (simp add: holds_at_def Some)
qed

section \<open>Paths of children\<close>

lemma split_at_char_append: "split_at_char c (xs @ c # ys) = split_at_char c xs @ split_at_char c ys"
  by (induction xs) (auto split: list.splits)

lemma child_path_parts:
  assumes "SLASH \<notin> set name" and "name \<noteq> []"
  shows "path_parts (child_path ld name) = path_parts ld @ [name]"
  using assms by (auto simp: child_path_def path_parts_def split_at_char_append split_at_char_none)

lemma child_path_resolve:
  assumes "SLASH \<notin> set name"
  shows "spec_resolve a (child_path ld name) = and_then (spec_walk a 0 (path_parts ld)) (\<lambda>parent.
    case map_of (entries_of a parent) name of None \<Rightarrow> Inl NotFound | Some i \<Rightarrow> Inr (parent, name, i))"
proof -
  have "rsplit_once SLASH (child_path ld name) = Some (if ld = [SLASH] then [] else ld, name)"
    using split_once_none [of SLASH "rev name"] assms by (simp add: rsplit_once_def child_path_def)
  moreover have "path_parts [SLASH] = []" "path_parts [] = []" by (simp_all add: path_parts_def)
  ultimately show ?thesis by (simp add: spec_resolve_def)
qed

lemma child_path_ok: "path_ok ld \<Longrightarrow> valid_utf8 name \<Longrightarrow> 0 \<notin> set name \<Longrightarrow> path_ok (child_path ld name)"
  using valid_utf8_append [of ld "SLASH # name"] by (simp add: path_ok_def child_path_def) (simp add: SLASH_def)

section \<open>Steps of the import\<close>

lemma spec_create_child:
  assumes "spec_create a (child_path ld name) = Inr (p, nm)" and "SLASH \<notin> set name" and "name \<noteq> []"
  shows "nm = name" and "spec_walk a 0 (path_parts ld) = Inr p" and "map_of (entries_of a p) name = None"
  using assms(1) by (auto simp: spec_create_def child_path_parts [OF assms(2,3)] Let_def and_then_eq_Inr split: if_splits)

lemma insert_grows:
  assumes "a i = None" and "is_dir a p" and "afs_ok a" and "plain_node nd"
  shows "grows a (a(i \<mapsto> nd, p \<mapsto> Dir (entries_of a p @ [(nm, i)])))"
proof -
  have "a p = Some (Dir (entries_of a p))" using assms(2) by (simp add: is_dir_entries)
  then show ?thesis using assms(1) tree_like_create [OF _ assms(3,1,2,4)] by (auto simp: grows_def)
qed

definition name_ok :: "bytes \<Rightarrow> bool" where
  "name_ok name \<longleftrightarrow> name \<noteq> [] \<and> 0 \<notin> set name \<and> SLASH \<notin> set name"

context block_device
begin

text \<open>A creation that succeeds, at a path below a directory.\<close>

lemma create_child:
  assumes inv: "fs_inv blocks dev_ok fs" and ld: "path_ok ld" and nm: "name_ok name" "valid_utf8 name"
    and run: "new_dir_entry D fs (child_path ld name) kind = Some (fs', Inr i)"
  defines "a \<equiv> fs_abs blocks fs" and "a' \<equiv> fs_abs blocks fs'"
  shows "\<exists>p. fs_inv blocks dev_ok fs' \<and> spec_walk a 0 (path_parts ld) = Inr p \<and> is_dir a p \<and> map_of (entries_of a p) name = None \<and>
    a i = None \<and> a' = a(i \<mapsto> new_node kind i p, p \<mapsto> Dir (entries_of a p @ [(name, i)]))"
proof -
  let ?q = "child_path ld name"
  have q: "valid_utf8 ?q" "0 \<notin> set ?q" using child_path_ok [OF ld] nm by (simp_all add: path_ok_def name_ok_def)
  note law = new_dir_entry_law [OF inv q, of kind, folded a_def]
  obtain p nm' where c: "spec_create a ?q = Inr (p, nm')" using law run by (cases "spec_create a ?q") auto
  note cs = spec_create_child [OF c] nm(1) [unfolded name_ok_def]
  obtain k where k: "bitmap_find_free (fs_inode_bitmap fs) = Some k"
    using law run c by (cases "bitmap_find_free (fs_inode_bitmap fs)") auto
  have "fs_inv blocks dev_ok fs' \<and> a i = None \<and> a' = a(i \<mapsto> new_node kind i p, p \<mapsto> Dir (entries_of a p @ [(nm', i)]))"
    using law run unfolding c a'_def by (auto simp: k split: if_splits)
  moreover have "is_dir a p" using spec_create_Inr(1) [OF c fs_invD(5) [OF inv, folded a_def] q] .
  ultimately show ?thesis using cs by auto
qed

lemma mkdir_step:
  assumes "fs_inv blocks dev_ok fs" and "path_ok ld" and "name_ok name" "valid_utf8 name"
    and "mkdir D fs (child_path ld name) = Some (fs', Inr i)"
  shows "fs_inv blocks dev_ok fs' \<and> grows (fs_abs blocks fs) (fs_abs blocks fs') \<and> holds_at (fs_abs blocks fs') (child_path ld name) None"
proof -
  let ?a = "fs_abs blocks fs" and ?a' = "fs_abs blocks fs'"
  from create_child [OF assms(1-4) assms(5) [unfolded mkdir_def]] obtain p where
    p: "fs_inv blocks dev_ok fs'" "spec_walk ?a 0 (path_parts ld) = Inr p" "is_dir ?a p" "map_of (entries_of ?a p) name = None" "?a i = None"
      "?a' = ?a(i \<mapsto> new_node EntryDirectory i p, p \<mapsto> Dir (entries_of ?a p @ [(name, i)]))" by blast
  have g: "grows ?a ?a'" unfolding p(6) by (rule insert_grows [OF p(5,3) fs_invD(5) [OF assms(1)]]) simp
  have ne: "i \<noteq> p" using p(3,5) by (auto simp: is_dir_Some)
  have e: "map_of (entries_of ?a' p) name = Some i" using p(4) by (simp add: p(6) entries_of_def [of "_(_ := _)"] map_add_Some_iff)
  have d: "is_dir ?a' i" using ne by (simp add: p(6) is_dir_def new_node_def)
  have "spec_walk ?a' 0 (path_parts ld @ [name]) = Inr i"
    using spec_walk_snoc [OF grows_walk [OF p(2) g] e d] .
  then show ?thesis using p(1) g d assms(3) by (simp add: holds_at_def child_path_parts name_ok_def)
qed

end

context block_device
begin

lemma file_step:
  assumes inv: "fs_inv blocks dev_ok fs" and ld: "path_ok ld" and nm: "name_ok name" "valid_utf8 name"
    and c1: "create_file D fs (child_path ld name) = Some (f1, Inr i)" and c2: "write_to_file D f1 (child_path ld name) bs = Some (f2, Inr n)"
  shows "fs_inv blocks dev_ok f2 \<and> grows (fs_abs blocks fs) (fs_abs blocks f2) \<and> holds_at (fs_abs blocks f2) (child_path ld name) (Some bs)"
proof -
  let ?a = "fs_abs blocks fs" and ?b = "fs_abs blocks f1" and ?c = "fs_abs blocks f2" and ?q = "child_path ld name"
  from create_child [OF inv ld nm c1 [unfolded create_file_def]] obtain p where
    p: "fs_inv blocks dev_ok f1" "spec_walk ?a 0 (path_parts ld) = Inr p" "is_dir ?a p" "map_of (entries_of ?a p) name = None" "?a i = None"
      "?b = ?a(i \<mapsto> new_node EntryFile i p, p \<mapsto> Dir (entries_of ?a p @ [(name, i)]))" by blast
  have ne: "i \<noteq> p" using p(3,5) by (auto simp: is_dir_Some)
  have walk: "spec_walk ?b 0 (path_parts ld) = Inr p" unfolding p(6) by (rule grows_walk [OF p(2) insert_grows [OF p(5,3) fs_invD(5) [OF inv]]]) simp
  have entry: "map_of (entries_of ?b p) name = Some i" using p(4) by (simp add: p(6) entries_of_def [of "_(_ := _)"] map_add_Some_iff)
  have res: "spec_resolve ?b ?q = Inr (p, name, i)" using walk entry nm(1) by (simp add: child_path_resolve name_ok_def)
  have empty: "?b i = Some (File [])" using ne by (simp add: p(6) new_node_def)
  from append_to_file_law [OF p(1), of ?q bs, unfolded res] c2 have w: "fs_inv blocks dev_ok f2" "?c = ?b(i \<mapsto> File bs)"
    by (auto simp: write_to_file_def empty split: if_splits)
  have c: "?c = ?a(i \<mapsto> File bs, p \<mapsto> Dir (entries_of ?a p @ [(name, i)]))" using ne by (auto simp: w(2) p(6) fun_eq_iff)
  have g: "grows ?a ?c" unfolding c by (rule insert_grows [OF p(5,3) fs_invD(5) [OF inv]]) simp
  have "map_of (entries_of ?c p) name = Some i" using p(4) by (simp add: c entries_of_def [of "_(_ := _)"] map_add_Some_iff)
  then have "spec_resolve ?c ?q = Inr (p, name, i)" using grows_walk [OF p(2) g] nm(1) by (simp add: child_path_resolve name_ok_def)
  then show ?thesis using w g by (simp add: holds_at_def)
qed

lemma import_file_step:
  assumes "fs_inv blocks dev_ok fs" and "path_ok ld" and "name_ok name" "valid_utf8 name"
    and run: "import_file D fs hp (child_path ld name) len contents = Some (fs', Inr ())"
  shows "\<exists>bs. contents = Inr bs \<and> fs_inv blocks dev_ok fs' \<and> grows (fs_abs blocks fs) (fs_abs blocks fs') \<and>
    holds_at (fs_abs blocks fs') (child_path ld name) (Some bs)"
proof -
  from run obtain n bs f1 i m where "contents = Inr bs" "create_file D fs (child_path ld name) = Some (f1, Inr i)"
    "write_to_file D f1 (child_path ld name) bs = Some (fs', Inr m)"
    by (auto simp: import_file_def split: sum.splits if_splits bind_splits)
  then show ?thesis using file_step [OF assms(1-4)] by blast
qed

end

section \<open>The host's tree\<close>

text \<open>
  The entries below a list of directory entries, under the path that the import gives them: a file with
  its contents, a directory without. Names never contain NUL or a slash and are not empty, as the host's
  directories guarantee.
\<close>

inductive host_entry :: "(bytes \<times> host_node) list \<Rightarrow> bytes \<Rightarrow> bytes \<Rightarrow> bytes option \<Rightarrow> bool" where
  host_file: "(name, HFile len (Inr c)) \<in> set es \<Longrightarrow> host_entry es ld (child_path ld name) (Some c)"
| host_dir: "(name, HDir rd) \<in> set es \<Longrightarrow> host_entry es ld (child_path ld name) None"
| host_below: "(name, HDir (Inr es')) \<in> set es \<Longrightarrow> host_entry es' (child_path ld name) q co \<Longrightarrow> host_entry es ld q co"

inductive_cases host_entryE: "host_entry es ld q co"

inductive host_name :: "(bytes \<times> host_node) list \<Rightarrow> bytes \<Rightarrow> bool" where
  name_here: "(name, nd) \<in> set es \<Longrightarrow> host_name es name"
| name_below: "(name, HDir (Inr es')) \<in> set es \<Longrightarrow> host_name es' nm \<Longrightarrow> host_name es nm"

definition host_names_ok :: "(bytes \<times> host_node) list \<Rightarrow> bool" where
  "host_names_ok es \<longleftrightarrow> (\<forall>nm. host_name es nm \<longrightarrow> name_ok nm)"

lemma host_names_ConsD:
  assumes "host_names_ok ((name, nd) # es)"
  shows "name_ok name" and "host_names_ok es" and "nd = HDir (Inr es') \<Longrightarrow> host_names_ok es'"
proof -
  note all = assms [unfolded host_names_ok_def, rule_format]
  show "name_ok name" by (rule all, rule name_here [of name nd]) simp
  have "host_name ((name, nd) # es) nm" if "host_name es nm" for nm
    using that by (cases rule: host_name.cases) (auto intro: host_name.intros)
  then show "host_names_ok es" using all by (simp add: host_names_ok_def)
  show "host_names_ok es'" if "nd = HDir (Inr es')"
    unfolding host_names_ok_def using that by (intro allI impI all) (auto intro: name_below)
qed

lemma host_entry_Cons:
  assumes "host_entry ((name, nd) # es) ld q co"
  shows "host_entry [(name, nd)] ld q co \<or> host_entry es ld q co"
  using assms by (cases rule: host_entry.cases) (auto intro: host_entry.intros)

lemma host_entry_cong: "host_entry es ld q co \<Longrightarrow> set es = set es' \<Longrightarrow> host_entry es' ld q co"
  by (cases rule: host_entry.cases, assumption) (auto intro: host_entry.intros)

lemma host_names_cong: "set es = set es' \<Longrightarrow> host_names_ok es \<Longrightarrow> host_names_ok es'"
  unfolding host_names_ok_def by (metis host_name.simps)

text \<open>One entry, then the rest.\<close>

lemma import_cons:
  assumes "\<And>q co. host_entry [e] ld q co \<Longrightarrow> holds_at b q co" and "grows a b" and "grows b c"
    and "\<And>q co. host_entry es ld q co \<Longrightarrow> holds_at c q co"
  shows "grows a c \<and> (\<forall>q co. host_entry (e # es) ld q co \<longrightarrow> holds_at c q co)"
proof (intro conjI allI impI)
  show "grows a c" by (rule grows_chain [OF assms(2,3)])
  fix q co assume "host_entry (e # es) ld q co"
  then have "host_entry [e] ld q co \<or> host_entry es ld q co" using host_entry_Cons by (cases e) blast
  then show "holds_at c q co" using assms(1,4) grows_holds [OF _ assms(3)] by blast
qed

lemma host_entry_single_dir:
  "host_entry [(name, HDir rd)] ld q co \<Longrightarrow> q = child_path ld name \<and> co = None \<or> (\<exists>es. rd = Inr es \<and> host_entry es (child_path ld name) q co)"
  by (cases rule: host_entry.cases, assumption) auto

lemma host_entry_single_file:
  "host_entry [(name, HFile len contents)] ld q co \<Longrightarrow> \<exists>c. contents = Inr c \<and> q = child_path ld name \<and> co = Some c"
  by (cases rule: host_entry.cases, assumption) auto

lemma host_entry_single_other: "\<not> host_entry [(name, HOther)] ld q co" "\<not> host_entry [] ld q co"
  by (auto elim: host_entry.cases)

lemma import_ok:
  fixes fs :: "'d filesystem"
  shows "block_device D B ok \<Longrightarrow> fs_inv B ok fs \<Longrightarrow> path_ok ld \<Longrightarrow> (\<forall>es. rd = Inr es \<longrightarrow> host_names_ok es) \<Longrightarrow>
      import_directory D fs hp rd ld sm = Some (fs', Inr sm') \<Longrightarrow>
      fs_inv B ok fs' \<and> grows (fs_abs B fs) (fs_abs B fs') \<and>
      (\<exists>es. rd = Inr es \<and> (\<forall>q co. host_entry es ld q co \<longrightarrow> holds_at (fs_abs B fs') q co))"
    and "block_device D B ok \<Longrightarrow> fs_inv B ok fs \<Longrightarrow> path_ok ld \<Longrightarrow> host_names_ok es \<Longrightarrow>
      import_entries D fs hp es ld sm = Some (fs', Inr sm') \<Longrightarrow>
      fs_inv B ok fs' \<and> grows (fs_abs B fs) (fs_abs B fs') \<and> (\<forall>q co. host_entry es ld q co \<longrightarrow> holds_at (fs_abs B fs') q co)"
proof (induction D fs hp rd ld sm and D fs hp es ld sm arbitrary: fs' sm' and fs' sm' rule: import_directory_import_entries.induct)
  case (1 D fs hp e ld sm)
  then show ?case by simp
next
  case (2 D fs hp es ld sm)
  have "host_names_ok (sort_key fst es)" using 2(5) by (auto intro: host_names_cong [of es])
  from 2(1) [OF 2(2-4) this 2(6) [simplified]] show ?case using host_entry_cong [of es _ _ _ "sort_key fst es"] by auto
next
  case (3 D fs hp ld sm)
  then show ?case using host_entry_single_other by auto
next
  case (4 D fs hp name e es ld sm)
  then show ?case by simp
next
  case (5 D fs hp name es ld sm)
  note r = 5(1) [OF 5(2-4) host_names_ConsD(2) [OF 5(5)] 5(6) [simplified]]
  have "grows (fs_abs B fs) (fs_abs B fs') \<and> (\<forall>q co. host_entry ((name, HOther) # es) ld q co \<longrightarrow> holds_at (fs_abs B fs') q co)"
    by (rule import_cons [OF _ grows_refl]) (use r host_entry_single_other in blast)+
  then show ?case using r by blast
next
  case (6 D fs hp name rd es ld sm)
  note nm = host_names_ConsD [OF 6(6)]
  let ?q = "child_path ld name"
  have un: "utf8_name name (join_name hp name) = Inr name" and u: "valid_utf8 name"
    using 6(7) by (auto simp: utf8_name_def split: if_splits)
  obtain f1 i where m: "mkdir D fs ?q = Some (f1, Inr i)"
    using 6(7) by (auto simp: un split: option.splits sum.splits)
  obtain f2 sm2 where sub: "import_directory D f1 (join_name hp name) rd ?q (sm\<lparr>is_directories := is_directories sm + 1\<rparr>) = Some (f2, Inr sm2)"
    and rest: "import_entries D f2 hp es ld sm2 = Some (fs', Inr sm')"
    using 6(7) by (auto simp: un m split: option.splits sum.splits)
  note ms = block_device.mkdir_step [OF 6(3,4,5) nm(1) u m]
  have q: "path_ok ?q" using child_path_ok [OF 6(5) u] nm(1) by (simp add: name_ok_def)
  have sn: "\<forall>es'. rd = Inr es' \<longrightarrow> host_names_ok es'" using nm(3) by simp
  have s: "fs_inv B ok f2 \<and> grows (fs_abs B f1) (fs_abs B f2) \<and>
      (\<exists>es. rd = Inr es \<and> (\<forall>q co. host_entry es ?q q co \<longrightarrow> holds_at (fs_abs B f2) q co))"
    by (rule 6(1) [OF un m _ _ 6(3) _ q sn sub]) (use ms in simp_all)
  have r: "fs_inv B ok fs' \<and> grows (fs_abs B f2) (fs_abs B fs') \<and> (\<forall>q co. host_entry es ld q co \<longrightarrow> holds_at (fs_abs B fs') q co)"
    by (rule 6(2) [OF un m _ _ sub _ _ 6(3) _ 6(5) nm(2) rest]) (use s in simp_all)
  have "grows (fs_abs B fs) (fs_abs B f2)" using ms s grows_chain by blast
  moreover have "holds_at (fs_abs B f2) ?q None" using ms s grows_holds by blast
  then have "holds_at (fs_abs B f2) x co" if "host_entry [(name, HDir rd)] ld x co" for x co
    using host_entry_single_dir [OF that] s by auto
  ultimately show ?case using import_cons [of "(name, HDir rd)" ld "fs_abs B f2" "fs_abs B fs" "fs_abs B fs'" es] r by blast
next
  case (7 D fs hp name len contents es ld sm)
  note nm = host_names_ConsD [OF 7(5)]
  let ?q = "child_path ld name"
  have un: "utf8_name name (join_name hp name) = Inr name" and u: "valid_utf8 name"
    using 7(6) by (auto simp: utf8_name_def split: if_splits)
  obtain f1 where m: "import_file D fs (join_name hp name) ?q len contents = Some (f1, Inr ())"
    and rest: "import_entries D f1 hp es ld (sm\<lparr>is_files := is_files sm + 1\<rparr>) = Some (fs', Inr sm')"
    using 7(6) by (auto simp: un split: option.splits sum.splits)
  from block_device.import_file_step [OF 7(2-4) nm(1) u m] obtain bs where
    f: "contents = Inr bs" "fs_inv B ok f1" "grows (fs_abs B fs) (fs_abs B f1)" "holds_at (fs_abs B f1) ?q (Some bs)" by blast
  have r: "fs_inv B ok fs' \<and> grows (fs_abs B f1) (fs_abs B fs') \<and> (\<forall>q co. host_entry es ld q co \<longrightarrow> holds_at (fs_abs B fs') q co)"
    by (rule 7(1) [OF un m _ _ 7(2) f(2) 7(4) nm(2) rest]) simp_all
  have "holds_at (fs_abs B f1) x co" if "host_entry [(name, HFile len contents)] ld x co" for x co
    using host_entry_single_file [OF that] f(1,4) by auto
  then show ?case using import_cons [of "(name, HFile len contents)" ld "fs_abs B f1" "fs_abs B fs" "fs_abs B fs'" es] r f(3) by blast
qed

section \<open>The image\<close>

abbreviation image_blocks :: "file_block_device \<Rightarrow> bytes list" where
  "image_blocks f \<equiv> chunks (fd_bytes f)"

text \<open>An image file, opened as \<open>FileBlockDevice::open\<close> opens it.\<close>

definition opened_image :: "bytes \<Rightarrow> file_block_device" where
  "opened_image img = \<lparr>fd_bytes = img, fd_cursor = 0, fd_total_blocks = length img div 512\<rparr>"

lemma opened_image_same:
  assumes "file_ok f"
  shows "file_ok (opened_image (fd_bytes f))" and "image_blocks (opened_image (fd_bytes f)) = image_blocks f"
  using assms by (simp_all add: opened_image_def file_ok_def)

lemma file_device_open_Inr: "file_device_open h p bs = Inr d \<Longrightarrow> d = opened_image bs"
  by (auto simp: file_device_open_def opened_image_def and_then_eq_Inr split: if_splits)

lemma file_device_create_cases:
  "file_device_create h files p tot = (files', r) \<Longrightarrow>
     (\<exists>e. r = Inl e \<and> files' = files) \<or>
     files p = None \<and> (\<exists>bs. files' = files(p \<mapsto> bs) \<and> r = Inr \<lparr>fd_bytes = replicate (tot * 512) 0, fd_cursor = 0, fd_total_blocks = tot\<rparr>)"
  by (auto simp: file_device_create_def checked_mul_def Let_def split: option.splits if_splits)

lemma temporary_loop_cases:
  "temporary_loop h files output parent name tot attempts = (files', r) \<Longrightarrow>
     (\<exists>e. r = Inl e \<and> files' = files) \<or>
     (\<exists>p bs. files p = None \<and> files' = files(p \<mapsto> bs) \<and> r = Inr (p, \<lparr>fd_bytes = replicate (tot * 512) 0, fd_cursor = 0, fd_total_blocks = tot\<rparr>))"
proof (induction attempts)
  case (Cons k ks)
  let ?p = "join_name parent (temporary_name h name k)"
  obtain f1 r1 where c: "file_device_create h files ?p tot = (f1, r1)" by fastforce
  from file_device_create_cases [OF c] show ?case
  proof (elim disjE exE conjE)
    fix e assume "r1 = Inl e" "f1 = files"
    then show ?thesis using Cons c by (cases "files ?p = None") (auto simp: Let_def)
  next
    fix bs assume p: "files ?p = None" "f1 = files(?p \<mapsto> bs)"
      "r1 = Inr \<lparr>fd_bytes = replicate (tot * 512) 0, fd_cursor = 0, fd_total_blocks = tot\<rparr>"
    then have "files' = files(?p \<mapsto> bs)" "r = Inr (?p, \<lparr>fd_bytes = replicate (tot * 512) 0, fd_cursor = 0, fd_total_blocks = tot\<rparr>)"
      using Cons.prems c by (simp_all add: Let_def)
    then show ?thesis using p(1) by blast
  qed
qed auto

lemma create_temporary_cases:
  "create_temporary_image h files output tot = (files', r) \<Longrightarrow>
     (\<exists>e. r = Inl e \<and> files' = files) \<or>
     (\<exists>p bs. files p = None \<and> files' = files(p \<mapsto> bs) \<and> r = Inr (p, \<lparr>fd_bytes = replicate (tot * 512) 0, fd_cursor = 0, fd_total_blocks = tot\<rparr>))"
  using temporary_loop_cases by (auto simp: create_temporary_image_def split: option.splits)

lemma path_ok_root: "path_ok [SLASH]"
  by (simp add: path_ok_def SLASH_def)

lemma fill_image_ok:
  assumes run: "fill_image h source rd temp \<lparr>fd_bytes = replicate (tot * 512) 0, fd_cursor = 0, fd_total_blocks = tot\<rparr> = Some (Inr (img, sm))"
    and tot: "tot < 2 ^ 32" and names: "\<forall>es. rd = Inr es \<longrightarrow> host_names_ok es"
  shows "\<exists>es l ibm dbm t. rd = Inr es \<and> file_ok (opened_image img) \<and> disk_holds (chunks img) l ibm dbm t \<and> tree_like t \<and>
    (\<forall>q co. host_entry es [SLASH] q co \<longrightarrow> holds_at t q co)"
proof -
  let ?d0 = "\<lparr>fd_bytes = replicate (tot * 512) 0, fd_cursor = 0, fd_total_blocks = tot\<rparr>"
  have d0: "file_ok ?d0" "length (image_blocks ?d0) < 2 ^ 32" using tot by (simp_all add: file_ok_def)
  from run obtain d1 f1 f2 f3 where
    r1: "format file_device ?d0 = Some (d1, Inr ())" and r2: "filesystem_new file_device (opened_image (fd_bytes d1)) = Some (Inr f1)"
    and r3: "import_directory file_device f1 source rd [SLASH] summary_default = Some (f2, Inr sm)"
    and r4: "flush file_device f2 = Some f3" and img: "img = fd_bytes (fs_device f3)"
    by (auto simp: fill_image_def split: bind_splits sum.splits dest!: file_device_open_Inr)
  note law = image.format_remount_law [OF d0]
  have "fixed_blocks 4096 + 2 \<le> length (image_blocks ?d0) \<and> (length (image_blocks ?d0) - fixed_blocks 4096) mod 4097 \<noteq> 1"
    using law(1,2) r1 by (force simp: not_le)
  with law(3) r1 have d1: "file_ok d1" and mnt: "\<forall>d. file_ok d \<longrightarrow> image_blocks d = image_blocks d1 \<longrightarrow>
      (\<exists>fs. filesystem_new file_device d = Some (Inr fs) \<and> fs_inv image_blocks file_ok fs \<and> fs_abs image_blocks fs = empty_tree)" by auto
  have f1: "fs_inv image_blocks file_ok f1" and e1: "fs_abs image_blocks f1 = empty_tree" using mnt opened_image_same [OF d1] r2 by fastforce+
  from import_ok(1) [OF image.block_device_axioms f1 path_ok_root names r3] obtain es where
    f2: "fs_inv image_blocks file_ok f2" "rd = Inr es" "\<forall>q co. host_entry es [SLASH] q co \<longrightarrow> holds_at (fs_abs image_blocks f2) q co" "grows (fs_abs image_blocks f1) (fs_abs image_blocks f2)" by blast
  have "tree_like (fs_abs image_blocks f2)" using growsD(3) [OF f2(4)] tree_like_empty e1 by simp
  note t2 = this
  from image.flush_disk_law [OF f2(1)] r4 have f3: "fs_inv image_blocks file_ok f3"
    and m3: "disk_holds (chunks img) (fs_lay f2) (fs_inode_bitmap f2) (fs_data_bitmap f2) (fs_abs image_blocks f2)"
    by (auto simp: img)
  have "file_ok (fs_device f3)" using fs_okD(1) [OF fs_invD(1) [OF f3]] .
  from opened_image_same(1) [OF this] m3 f2(2,3) t2 show ?thesis unfolding img by blast
qed

section \<open>The build\<close>

lemma build_image_spec:
  assumes "build_image h files cfg = Some (files', r)" and "\<forall>es. h_source h = Inr (HDir (Inr es)) \<longrightarrow> host_names_ok es"
  shows "case r of
      Inl e \<Rightarrow> files' = files
    | Inr summary \<Rightarrow> \<exists>es img l ibm dbm t. h_source h = Inr (HDir (Inr es)) \<and> files' = files(cfg_output cfg \<mapsto> img) \<and>
        file_ok (opened_image img) \<and> disk_holds (chunks img) l ibm dbm t \<and> tree_like t \<and> (\<forall>q co. host_entry es [SLASH] q co \<longrightarrow> holds_at t q co)"
proof (cases "h_source h")
  case (Inl e)
  then show ?thesis using assms(1) by (auto simp: build_image_def)
next
  case (Inr nd)
  show ?thesis
  proof (cases nd)
    case (HDir rd)
    let ?o = "cfg_output cfg" and ?tot = "cfg_total_blocks cfg"
    obtain f1 r1 where c: "create_temporary_image h files ?o ?tot = (f1, r1)" by fastforce
    consider (early) e where "files' = files" "r = Inl e"
      | (full) temp bs where "files temp = None" "f1 = files(temp \<mapsto> bs)" "?tot < 2 ^ 32"
        "r1 = Inr (temp, \<lparr>fd_bytes = replicate (?tot * 512) 0, fd_cursor = 0, fd_total_blocks = ?tot\<rparr>)"
        "validate_output_location h (cfg_source cfg) ?o = Inr ()"
      using assms(1) create_temporary_cases [OF c]
      by (auto simp: build_image_def Inr HDir c split: sum.splits if_splits)
    then show ?thesis
    proof cases
      case full
      from assms(1) full obtain x where
        x: "fill_image h (cfg_source cfg) rd temp \<lparr>fd_bytes = replicate (?tot * 512) 0, fd_cursor = 0, fd_total_blocks = ?tot\<rparr> = Some x"
        by (auto simp: build_image_def Inr HDir c split: bind_splits)
      have same: "f1(temp := None) = files" using full(1,2) by auto
      show ?thesis
      proof (cases x)
        case (Inl e)
        then show ?thesis using assms(1) full x same by (auto simp: build_image_def Inr HDir c)
      next
        case img: (Inr y)
        obtain i sm where y: "y = (i, sm)" by (cases y)
        have "\<forall>es. rd = Inr es \<longrightarrow> host_names_ok es" using assms(2) Inr HDir by simp
        note ok = fill_image_ok [OF x [unfolded img y] full(3) this]
        have "files' = files \<and> (\<exists>e. r = Inl e) \<or> files' = files(?o \<mapsto> i) \<and> r = Inr sm"
          using assms(1) full x same by (cases "h_rename_error h temp ?o") (auto simp: build_image_def Inr HDir c img y)
        then show ?thesis
        proof
          assume "files' = files(?o \<mapsto> i) \<and> r = Inr sm"
          with ok Inr HDir show ?thesis by (simp only: sum.case) blast
        qed auto
      qed
    qed simp
  qed (use assms(1) Inr in \<open>auto simp: build_image_def\<close>)
qed

section \<open>A sample build\<close>

definition sample_entries :: "(bytes \<times> host_node) list" where
  "sample_entries = [([97], HFile (Inr 2) (Inr [104, 105]))]"

definition sample_host :: host where
  "sample_host = \<lparr>h_source = Inr (HDir (Inr sample_entries)), h_canonicalize = (\<lambda>p. if snd p = [] then Inl (str_lit ''not found'') else Inr (True, snd p)),
     h_create_error = (\<lambda>p. None), h_set_len_error = (\<lambda>p. None), h_open_error = (\<lambda>p. None), h_metadata_error = (\<lambda>p. None),
     h_rename_error = (\<lambda>p q. None), h_pid = 1\<rparr>"

definition sample_config :: config where
  "sample_config = \<lparr>cfg_source = (False, [[115]]), cfg_output = (False, [[111], [105]]), cfg_total_blocks = 2048\<rparr>"

lemma sample_fill:
  "\<exists>img sm. fill_image sample_host source (Inr sample_entries) temp \<lparr>fd_bytes = replicate (2048 * 512) 0, fd_cursor = 0, fd_total_blocks = 2048\<rparr> =
     Some (Inr (img, sm))"
proof -
  let ?d0 = "\<lparr>fd_bytes = replicate (2048 * 512) 0, fd_cursor = 0, fd_total_blocks = 2048\<rparr>"
  have d0: "file_ok ?d0" "length (image_blocks ?d0) = 2048" by (simp_all add: file_ok_def)
  have nm: "proper_name [97]" "[97] \<noteq> DOT" "[97] \<noteq> DOTDOT" by (simp_all add: proper_name_def SLASH_def DOT_def DOTDOT_def)
  from image.format_remount_law(3) [OF d0(1)] d0(2) ramdisk_fits obtain d1 where
    d1: "format file_device ?d0 = Some (d1, Inr ())" "file_ok d1" and mnt: "\<forall>d. file_ok d \<longrightarrow> image_blocks d = image_blocks d1 \<longrightarrow>
      (\<exists>fs. filesystem_new file_device d = Some (Inr fs) \<and> fs_inv image_blocks file_ok fs \<and> fs_abs image_blocks fs = empty_tree \<and>
         inode_count fs = 4096 \<and> layout_new 2048 4096 = Some (Some (fs_lay fs)))" by auto
  from mnt opened_image_same [OF d1(2)] obtain f1 where
    f1: "filesystem_new file_device (opened_image (fd_bytes d1)) = Some (Inr f1)" "fs_inv image_blocks file_ok f1" "fs_abs image_blocks f1 = empty_tree"
      "2 \<le> inode_count f1" "layout_new 2048 4096 = Some (Some (fs_lay f1))" by force
  from image.create_in_root [OF f1(2-4) nm] obtain f2 i where
    f2: "create_file file_device f1 [47, 97] = Some (f2, Inr i)" "fs_inv image_blocks file_ok f2" "fs_lay f2 = fs_lay f1" "i \<noteq> 0"
      "fs_abs image_blocks f2 = one_file [97] i []" by (auto simp: create_file_def SLASH_def)
  have room: "33 \<le> data_blocks (fs_lay f2)" using layout_room [OF _ _ f1(5)] f2(3) by (simp add: ramdisk_fits)
  from image.append_in_root [OF f2(2,5,4) room nm, of "[104, 105]"] obtain f3 where
    f3: "write_to_file file_device f2 [47, 97] [104, 105] = Some (f3, Inr 2)" "fs_inv image_blocks file_ok f3"
    by (auto simp: write_to_file_def SLASH_def)
  from image.flush_remount_law [OF f3(2)] obtain f4 where f4: "flush file_device f3 = Some f4" by blast
  have opn: "file_device_open sample_host temp (fd_bytes d1) = Inr (opened_image (fd_bytes d1))"
    using d1(2) by (simp add: file_device_open_def sample_host_def io_check_def opened_image_def file_ok_def)
  have "\<exists>sm. import_directory file_device f1 source (Inr sample_entries) [SLASH] summary_default = Some (f3, Inr sm)"
    using f2(1) f3(1) by (simp add: sample_entries_def utf8_name_def child_path_def SLASH_def import_file_def MAX_FILE_SIZE_def)
  then show ?thesis using d1(1) f1(1) f4 opn by (auto simp: fill_image_def)
qed

lemma sample_names: "host_names_ok sample_entries"
  unfolding host_names_ok_def by (auto simp: sample_entries_def name_ok_def SLASH_def elim: host_name.cases)

lemma sample_run:
  "\<exists>files sm. build_image sample_host (\<lambda>p. None) sample_config = Some (files, Inr sm)"
proof -
  have v: "validate_output_location sample_host (False, [[115]]) (False, [[111], [105]]) = Inr ()"
    by (simp add: validate_output_location_def sample_host_def io_result_def map_err_def file_name_def output_parent_def parent_path_def
        join_name_def path_starts_with_def DOT_def DOTDOT_def)
  have c: "\<exists>files p. create_temporary_image sample_host (\<lambda>p. None) (False, [[111], [105]]) 2048 =
      (files, Inr (p, \<lparr>fd_bytes = replicate (2048 * 512) 0, fd_cursor = 0, fd_total_blocks = 2048\<rparr>))"
    by (simp add: create_temporary_image_def file_name_def DOT_def DOTDOT_def upt_conv_Cons file_device_create_def checked_mul_def sample_host_def Let_def)
  then obtain files p where c: "create_temporary_image sample_host (\<lambda>p. None) (False, [[111], [105]]) 2048 =
      (files, Inr (p, \<lparr>fd_bytes = replicate (2048 * 512) 0, fd_cursor = 0, fd_total_blocks = 2048\<rparr>))" by blast
  from sample_fill [of "(False, [[115]])" p] obtain img sm where
    f: "fill_image sample_host (False, [[115]]) (Inr sample_entries) p \<lparr>fd_bytes = replicate (2048 * 512) 0, fd_cursor = 0, fd_total_blocks = 2048\<rparr> =
      Some (Inr (img, sm))" by blast
  have h: "h_source sample_host = Inr (HDir (Inr sample_entries))" "h_rename_error sample_host p q = None" for q
    by (simp_all add: sample_host_def)
  show ?thesis unfolding build_image_def by (simp add: h sample_config_def v c f [simplified])
qed

section \<open>Properties\<close>

text \<open>
  C21: building an image. Whatever the host's calls return: if the build fails, no file of the host has changed
  and the temporary image is gone; if it succeeds, exactly the output file has changed, it mounts, its
  directories form a tree, and at the path of every directory and every file of the source tree the image has
  that directory, or that file with its contents.
\<close>
theorem build_image_exact:
  assumes "build_image h files cfg = Some (files', r)" and "\<forall>es. h_source h = Inr (HDir (Inr es)) \<longrightarrow> host_names_ok es"
  shows "case r of
      Inl e \<Rightarrow> files' = files
    | Inr summary \<Rightarrow> \<exists>es img fs. h_source h = Inr (HDir (Inr es)) \<and> files' = files(cfg_output cfg \<mapsto> img) \<and>
        filesystem_new file_device (opened_image img) = Some (Inr fs) \<and> fs_inv (\<lambda>f. chunks (fd_bytes f)) file_ok fs \<and>
        tree_like (fs_abs (\<lambda>f. chunks (fd_bytes f)) fs) \<and>
        (\<forall>q co. host_entry es [SLASH] q co \<longrightarrow> holds_at (fs_abs (\<lambda>f. chunks (fd_bytes f)) fs) q co)"
proof (cases r)
  case (Inr summary)
  with build_image_spec [OF assms] obtain es img l ibm dbm t where
    b: "h_source h = Inr (HDir (Inr es))" "files' = files(cfg_output cfg \<mapsto> img)" "file_ok (opened_image img)"
      "disk_holds (chunks img) l ibm dbm t" "tree_like t" "\<forall>q co. host_entry es [SLASH] q co \<longrightarrow> holds_at t q co" by auto
  have "disk_holds (image_blocks (opened_image img)) l ibm dbm t" using b(4) by (simp add: opened_image_def)
  from image.mount_disk_law [OF b(3) this] b(1,2,5,6) Inr show ?thesis by auto
qed (use build_image_spec [OF assms] in simp)

theorem build_image_exact_witness:
  "\<exists>files sm img fs. build_image sample_host (\<lambda>p. None) sample_config = Some (files, Inr sm) \<and> files (cfg_output sample_config) = Some img \<and>
     filesystem_new file_device (opened_image img) = Some (Inr fs) \<and> holds_at (fs_abs (\<lambda>f. chunks (fd_bytes f)) fs) [47, 97] (Some [104, 105])"
proof -
  from sample_run obtain files sm where run: "build_image sample_host (\<lambda>p. None) sample_config = Some (files, Inr sm)" by blast
  have src: "h_source sample_host = Inr (HDir (Inr sample_entries))" by (simp add: sample_host_def)
  then have "\<forall>es. h_source sample_host = Inr (HDir (Inr es)) \<longrightarrow> host_names_ok es" using sample_names by simp
  from build_image_exact [OF run this] obtain img fs where
    r: "files = (\<lambda>p. None)(cfg_output sample_config \<mapsto> img)" "filesystem_new file_device (opened_image img) = Some (Inr fs)"
      "\<forall>q co. host_entry sample_entries [SLASH] q co \<longrightarrow> holds_at (fs_abs (\<lambda>f. chunks (fd_bytes f)) fs) q co" by (auto simp: src)
  have "host_entry sample_entries [SLASH] (child_path [SLASH] [97]) (Some [104, 105])"
    by (rule host_file [of _ "Inr 2"]) (simp add: sample_entries_def)
  then have "host_entry sample_entries [SLASH] [47, 97] (Some [104, 105])" by (simp add: child_path_def SLASH_def)
  with r(3) have "holds_at (fs_abs (\<lambda>f. chunks (fd_bytes f)) fs) [47, 97] (Some [104, 105])" by blast
  moreover have "files (cfg_output sample_config) = Some img" by (simp add: r(1))
  ultimately show ?thesis using run r(2) by blast
qed

text \<open>
  C26: the build with default options, which \<open>make fs\<close> runs, cannot succeed. The default output has no directory
  part, so its parent is the empty path and not a missing one; resolving the empty path fails on the host,
  and the tool stops with exit code 1 and without touching a file.
\<close>
theorem default_build_refused:
  assumes "h_source h = Inr (HDir rd)" and "h_canonicalize h (path_from DEFAULT_SOURCE) = Inr s" and "h_canonicalize h (False, []) = Inl e"
  shows "build_image h files config_default = Some (files, Inl (IoError (str_lit ''resolve output directory'') (False, []) e)) \<and>
    mkfs_main h files [] = Some (1, files, None)"
proof -
  have "path_from DEFAULT_OUTPUT = (False, [str_lit ''lemonfs.img''])"
    by (simp add: path_from_def DEFAULT_OUTPUT_def str_lit_def SLASH_def starts_with_def DOT_def)
  moreover have "str_lit ''lemonfs.img'' \<noteq> DOT" "str_lit ''lemonfs.img'' \<noteq> DOTDOT" by (simp_all add: str_lit_def DOT_def DOTDOT_def)
  ultimately have v: "validate_output_location h (path_from DEFAULT_SOURCE) (path_from DEFAULT_OUTPUT) =
      Inl (IoError (str_lit ''resolve output directory'') (False, []) e)"
    using assms(2,3) by (simp add: validate_output_location_def io_result_def map_err_def file_name_def output_parent_def parent_path_def)
  have b: "build_image h files config_default = Some (files, Inl (IoError (str_lit ''resolve output directory'') (False, []) e))"
    using assms(1) v by (simp add: build_image_def config_default_def)
  then show ?thesis by (simp add: mkfs_main_def parse_command_def)
qed

theorem default_build_refused_witness: "mkfs_main sample_host (\<lambda>p. None) [] = Some (1, \<lambda>p. None, None)"
proof -
  have "h_source sample_host = Inr (HDir (Inr sample_entries))" "h_canonicalize sample_host (False, []) = Inl (str_lit ''not found'')"
    "h_canonicalize sample_host (path_from DEFAULT_SOURCE) = Inr (True, snd (path_from DEFAULT_SOURCE))"
    by (simp_all add: sample_host_def path_from_def DEFAULT_SOURCE_def str_lit_def SLASH_def starts_with_def DOT_def)
  from default_build_refused [OF this(1,3,2), of "\<lambda>p. None"] show ?thesis by simp
qed

end
