(* ===== verification/Shell_Heap.thy ===== *)
theory Shell_Heap
  imports Shell
begin

text \<open>
  The allocating commands of the shell on the kernel heap: every vector and box they create is a live allocation of
  the global allocator. \<open>allocate\<close> leaks what it allocates and nothing else; \<open>bench\<close> gives everything back, its
  vector of vectors and the buffers that this vector outgrew included.
\<close>

section \<open>Single allocations\<close>

definition pointer_of :: "usize option \<Rightarrow> allocation list \<Rightarrow> bool" where
  "pointer_of p als \<longleftrightarrow> (case p of None \<Rightarrow> als = [] | Some x \<Rightarrow> \<exists>al. als = [al] \<and> al_ptr al = x)"

text \<open>The allocations of a client, apart from the others that are live.\<close>

definition owns :: "usize \<Rightarrow> usize \<Rightarrow> u64 \<Rightarrow> heap_state \<Rightarrow> allocation set \<Rightarrow> allocation list \<Rightarrow> bool" where
  "owns start e st h live als \<longleftrightarrow> locked_inv start e st h (live \<union> set als) \<and> distinct als \<and> set als \<inter> live = {}"

lemma owns_nil [simp]: "owns start e st h live [] \<longleftrightarrow> locked_inv start e st h live"
  by (simp add: owns_def)

lemma owns_swap: "owns start e st h live (als @ bls @ cls) \<Longrightarrow> owns start e st h live (bls @ als @ cls)"
proof -
  have "live \<union> set (als @ bls @ cls) = live \<union> set (bls @ als @ cls)" by auto
  then show "owns start e st h live (als @ bls @ cls) \<Longrightarrow> owns start e st h live (bls @ als @ cls)" unfolding owns_def by auto
qed

lemma locked_inv_region:
  assumes "locked_inv start e st h live" and "al \<in> live"
  shows "al_ptr al \<in> live_bytes live"
proof -
  obtain c m mx where h: "h = (c, m, mx)" by (cases h)
  then have "heap_inv (round_up start 8) m (mx_inner mx) live"
    using assms(1) heap_reach_inv by (auto simp: locked_inv_def)
  from heap_invE [OF this] assms(2) have "allocation_ok m al" by metis
  then have "al_ptr al \<in> region (al_block al)" by (cases "al_block al") (auto simp: allocation_ok_def)
  then show ?thesis using assms(2) by auto
qed

lemma alloc_or_panic_law:
  assumes "owns start e st h live als" and "alloc_or_panic h sz a = Some (p, h')" and "0 < sz" and "a = 1 \<or> a = 8 \<and> 8 dvd sz"
  shows "\<exists>al. al_ptr al = p \<and> al_size al = sz \<and> owns start e st h' live (al # als)"
proof -
  let ?l = "\<lparr>layout_size = sz, layout_align = a\<rparr>"
  have sz: "sz < 2 ^ 63" and run: "locked_alloc h ?l = Some (p, h')" and p: "p \<noteq> 0"
    using assms(2) by (auto simp: alloc_or_panic_def split: if_splits bind_splits)
  have "layout_valid ?l"
    using assms(4) sz by (auto simp: layout_valid_def div_ceil_def intro: exI [of _ 0] exI [of _ 3] elim!: dvdE)
  moreover have "locked_inv start e st h (live \<union> set als)" using assms(1) by (simp add: owns_def)
  moreover have "0 < layout_size ?l" using assms(3) by simp
  ultimately obtain al where al: "al_ptr al = p" "al_size al = sz" "{p - 16 ..< p + sz} \<inter> live_bytes (live \<union> set als) = {}"
      "locked_inv start e st h' (insert al (live \<union> set als))"
    using run p by (elim locked_alloc_law) auto
  have "p \<in> {p - 16 ..< p + sz}" using assms(3) by simp
  then have "p \<notin> live_bytes (live \<union> set als)" using al(3) by blast
  then have "al \<notin> live \<union> set als" using locked_inv_region [of start e st h "live \<union> set als" al] al(1) assms(1) by (auto simp: owns_def)
  then show ?thesis using al assms(1) by (intro exI [of _ al]) (auto simp: owns_def)
qed

lemma write_zeros_law:
  assumes "owns start e st h live als" and "al \<in> set als" and "n \<le> al_size al"
  shows "owns start e st (write_zeros h (al_ptr al) n) live als"
proof -
  obtain c m mx where h: "h = (c, m, mx)" by (cases h)
  let ?m = "\<lambda>x. if al_ptr al \<le> x \<and> x < al_ptr al + n then 0 else m x"
  have "heap_reach start e m (mx_inner mx) (live \<union> set als)" using assms(1) by (simp add: owns_def locked_inv_def h)
  then have "heap_reach start e ?m (mx_inner mx) (live \<union> set als)"
    by (rule heap_write) (use assms(2,3) in \<open>force simp: user_bytes_def\<close>)
  then show ?thesis using assms(1) by (simp add: owns_def locked_inv_def write_zeros_def h)
qed

lemma vec_zeroed_law:
  assumes "owns start e st h live als" and "vec_zeroed h n = Some (p, h')"
  shows "\<exists>bls. pointer_of p bls \<and> owns start e st h' live (bls @ als)"
proof (cases "n = 0")
  case True
  then show ?thesis using assms by (intro exI [of _ "[]"]) (auto simp: vec_zeroed_def pointer_of_def)
next
  case False
  then obtain q h1 where q: "alloc_or_panic h n 1 = Some (q, h1)" "p = Some q" "h' = write_zeros h1 q n"
    using assms(2) by (auto simp: vec_zeroed_def split: bind_splits)
  from alloc_or_panic_law [OF assms(1) q(1)] False obtain al where
    al: "al_ptr al = q" "al_size al = n" "owns start e st h1 live (al # als)" by auto
  from write_zeros_law [OF al(3), of al n] al show ?thesis by (intro exI [of _ "[al]"]) (simp add: pointer_of_def q)
qed

lemma vec_drop_law:
  assumes "owns start e st h live (bls @ als)" and "pointer_of p bls"
  shows "\<exists>h'. vec_drop h p = Some h' \<and> owns start e st h' live als"
proof (cases p)
  case None
  then show ?thesis using assms by (simp add: pointer_of_def vec_drop_def)
next
  case (Some x)
  then obtain al where al: "bls = [al]" "al_ptr al = x" using assms(2) by (auto simp: pointer_of_def)
  have inv: "locked_inv start e st h (live \<union> set (al # als))" and new: "al \<notin> live" "al \<notin> set als" "distinct als" "set als \<inter> live = {}"
    using assms(1) by (auto simp: owns_def al(1))
  from kheap.release_law [OF inv, of al] obtain h' where
    "locked_dealloc h x = Some h'" "locked_inv start e st h' (live \<union> set (al # als) - {al})" by (auto simp: al(2))
  moreover have "live \<union> set (al # als) - {al} = live \<union> set als" using new by auto
  ultimately show ?thesis using Some new by (simp add: vec_drop_def owns_def)
qed

section \<open>The commands\<close>

lemma shell_allocate_law:
  assumes "locked_inv start e st h live" and "shell_allocate h n = Some h'"
  shows "\<exists>leak. owns start e st h' live leak \<and> length leak \<le> 2"
proof -
  from assms(2) obtain p h1 q where r: "vec_zeroed h n = Some (p, h1)" "alloc_or_panic h1 24 8 = Some (q, h')"
    by (auto simp: shell_allocate_def split: bind_splits)
  from vec_zeroed_law [OF _ r(1), of start e st live "[]"] assms(1) obtain bls where
    b: "pointer_of p bls" "owns start e st h1 live bls" by auto
  from alloc_or_panic_law [OF b(2) r(2)] obtain al where "owns start e st h' live (al # bls)" by auto
  moreover have "length bls \<le> 1" using b(1) by (auto simp: pointer_of_def split: option.splits)
  ultimately show ?thesis by (intro exI [of _ "al # bls"]) simp
qed

lemma vec_reserve_law:
  assumes "owns start e st h live (vls @ als)" and "pointer_of (rv_ptr v) vls" and "vec_reserve h v n = Some (v', h')"
  shows "\<exists>vls'. pointer_of (rv_ptr v') vls' \<and> owns start e st h' live (vls' @ als)"
proof (cases "n < rv_cap v")
  case True
  then show ?thesis using assms by (auto simp: vec_reserve_def)
next
  case False
  let ?cap = "max (max (rv_cap v * 2) (n + 1)) 4"
  from False assms(3) obtain p h1 where
    r: "alloc_or_panic h (?cap * 24) 8 = Some (p, h1)" "vec_drop h1 (rv_ptr v) = Some h'" "v' = \<lparr>rv_ptr = Some p, rv_cap = ?cap\<rparr>"
    by (auto simp: vec_reserve_def Let_def split: bind_splits)
  have "0 < ?cap * 24" by (simp add: less_max_iff_disj)
  from alloc_or_panic_law [OF assms(1) r(1) this] obtain al where
    al: "al_ptr al = p" "owns start e st h1 live (al # vls @ als)" by auto
  from owns_swap [of start e st h1 live "[al]" vls als] al(2) have "owns start e st h1 live (vls @ al # als)" by simp
  from vec_drop_law [OF this assms(2)] r(2,3) al(1) show ?thesis by (intro exI [of _ "[al]"]) (auto simp: pointer_of_def)
qed

fun pointers_of :: "usize option list \<Rightarrow> allocation list list \<Rightarrow> bool" where
  "pointers_of [] [] = True"
| "pointers_of (p # ps) (bls # blss) \<longleftrightarrow> pointer_of p bls \<and> pointers_of ps blss"
| "pointers_of _ _ = False"

lemma bench_push_law:
  assumes "bench_push n sz v ps h = Some (v', ps', h')" and "pointer_of (rv_ptr v) vls" and "pointers_of ps blss"
    and "owns start e st h live (vls @ concat blss)"
  shows "\<exists>vls' blss'. pointer_of (rv_ptr v') vls' \<and> pointers_of ps' blss' \<and> owns start e st h' live (vls' @ concat blss')"
  using assms
proof (induction n arbitrary: v ps h vls blss)
  case 0
  then show ?case by auto
next
  case (Suc n)
  from Suc.prems(1) obtain p h1 v1 h2 where
    r: "vec_zeroed h sz = Some (p, h1)" "vec_reserve h1 v (length ps) = Some (v1, h2)" "bench_push n sz v1 (p # ps) h2 = Some (v', ps', h')"
    by (auto split: bind_splits)
  from vec_zeroed_law [OF Suc.prems(4) r(1)] obtain bls where
    b: "pointer_of p bls" "owns start e st h1 live (bls @ vls @ concat blss)" by blast
  from vec_reserve_law [OF owns_swap [OF b(2)] Suc.prems(2) r(2)] obtain vls1 where
    "pointer_of (rv_ptr v1) vls1" "owns start e st h2 live (vls1 @ concat (bls # blss))" by auto
  from Suc.IH [OF r(3) this(1) _ this(2)] b(1) Suc.prems(3) show ?case by simp
qed

lemma bench_pop_law:
  assumes "pointers_of ps blss" and "owns start e st h live (concat blss @ als)"
  shows "\<exists>h'. bench_pop ps h = Some h' \<and> owns start e st h' live als"
  using assms
proof (induction ps blss arbitrary: h rule: pointers_of.induct)
  case (2 p ps bls blss)
  then show ?case using vec_drop_law [of start e st h live bls "concat blss @ als" p] by fastforce
qed auto

lemma benchmark_law:
  assumes "locked_inv start e st h live" and "benchmark_allocator sysinfo t0 t1 h n sz = Some (out, h')"
  shows "locked_inv start e st h' live"
proof -
  from assms(2) obtain v ps h1 h2 where
    r: "bench_push n sz \<lparr>rv_ptr = None, rv_cap = 0\<rparr> [] h = Some (v, ps, h1)" "bench_pop ps h1 = Some h2" "vec_drop h2 (rv_ptr v) = Some h'"
    by (auto simp: benchmark_allocator_def Let_def split: bind_splits if_splits)
  from bench_push_law [OF r(1), of "[]" "[]" start e st live] assms(1) obtain vls blss where
    p: "pointer_of (rv_ptr v) vls" "pointers_of ps blss" "owns start e st h1 live (vls @ concat blss)" by (auto simp: pointer_of_def)
  from owns_swap [of start e st h1 live vls "concat blss" "[]"] p(3) have "owns start e st h1 live (concat blss @ vls)" by simp
  from bench_pop_law [OF p(2) this] r(2) have "owns start e st h2 live (vls @ [])" by simp
  from vec_drop_law [OF this p(1)] r(3) show ?thesis by simp
qed

end
