(* ===== verification/FS_Listing.thy ===== *)
theory FS_Listing
  imports FS_Tree FS_Output
begin

text \<open>
  What the listings print. \<open>tree\<close> follows the directories that the disk names; where they form a tree it
  returns, and both \<open>tree\<close> and \<open>dump_dir\<close> print the text that the abstract tree determines.
\<close>

section \<open>The text of a listing\<close>

definition node_display :: "fnode \<Rightarrow> bytes \<Rightarrow> u8 \<times> bytes \<times> bytes" where
  "node_display nd nm = (case nd of File c \<Rightarrow> (102, fmt_dec (length c), nm) | Dir _ \<Rightarrow> (100, [45], nm @ [47]))"

definition listing_row :: "inode_index \<Rightarrow> u8 \<times> bytes \<times> bytes \<Rightarrow> bytes" where
  "listing_row i = (\<lambda>(type_char, size_str, display_name).
     str_lit ''  '' @ [type_char] @ str_lit ''     ['' @ pad_left 3 (fmt_dec (unat i)) @
     str_lit '']  '' @ pad_left 9 size_str @ str_lit ''  '' @ display_name @ NEWLINE)"

definition dump_text :: "afs \<Rightarrow> (bytes \<times> inode_index) list \<Rightarrow> bytes" where
  "dump_text a es =
     str_lit ''  TYPE  INODE       SIZE  NAME'' @ NEWLINE @
     str_lit ''  ----  -----  ---------  ----'' @ NEWLINE @
     concat (map (\<lambda>(nm, i). listing_row i (node_display (the (a i)) nm)) es)"

definition shown :: "(bytes \<times> inode_index) list \<Rightarrow> (bytes \<times> inode_index) list" where
  "shown es = filter (\<lambda>(nm, _). \<not> starts_with nm [46]) es"

definition tree_row :: "bytes \<Rightarrow> bool \<Rightarrow> u8 \<times> bytes \<times> bytes \<Rightarrow> bytes" where
  "tree_row prefix is_last = (\<lambda>(type_char, size_str, name).
     prefix @ (if is_last then BOX_LAST else BOX_MIDDLE) @ [type_char] @ str_lit ''  '' @ pad_left 9 size_str @
     str_lit ''  '' @ name @ NEWLINE)"

definition child_prefix :: "bytes \<Rightarrow> bool \<Rightarrow> bytes" where
  "child_prefix prefix is_last = prefix @ (if is_last then [32] else BOX_LINE) @ str_lit ''   ''"

text \<open>The rows of a directory: each entry, followed by the rows below it, in the order of the entries.\<close>

inductive tree_text :: "afs \<Rightarrow> bytes \<Rightarrow> (bytes \<times> inode_index) list \<Rightarrow> bytes \<Rightarrow> bool" for a where
  no_entry: "tree_text a prefix [] []"
| file_entry: "a i = Some (File c) \<Longrightarrow> tree_text a prefix es t \<Longrightarrow>
    tree_text a prefix ((nm, i) # es) (tree_row prefix (es = []) (node_display (File c) nm) @ t)"
| dir_entry: "a i = Some (Dir ds) \<Longrightarrow> tree_text a (child_prefix prefix (es = [])) (shown ds) s \<Longrightarrow> tree_text a prefix es t \<Longrightarrow>
    tree_text a prefix ((nm, i) # es) (tree_row prefix (es = []) (node_display (Dir ds) nm) @ s @ t)"

inductive_cases tree_text_NilE: "tree_text a prefix [] t"
inductive_cases tree_text_ConsE: "tree_text a prefix ((nm, i) # es) t"

lemma tree_text_unique: "tree_text a prefix es t \<Longrightarrow> tree_text a prefix es u \<Longrightarrow> u = t"
proof (induction arbitrary: u rule: tree_text.induct)
  case (no_entry prefix)
  then show ?case by (rule tree_text_NilE)
next
  case (file_entry i c prefix es t nm)
  from file_entry.prems show ?case by (rule tree_text_ConsE) (use file_entry in auto)
next
  case (dir_entry i ds prefix es s t nm)
  from dir_entry.prems show ?case
  proof (rule tree_text_ConsE)
    fix ds' s' t' assume "a i = Some (Dir ds')" "tree_text a (child_prefix prefix (es = [])) (shown ds') s'" "tree_text a prefix es t'"
      and u: "u = tree_row prefix (es = []) (node_display (Dir ds') nm) @ s' @ t'"
    then show ?thesis using dir_entry.hyps(1) dir_entry.IH by simp
  qed (use dir_entry.hyps(1) in simp)
qed

lemma shown_visible: "map entry_pair (visible es) = shown (map entry_pair es)"
  by (induction es) (auto simp: visible_def shown_def entry_pair_def)

lemma shown_child:
  assumes "(nm, e) \<in> set (shown (entries_of a d))" and "is_dir a e"
  shows "child_of a d e"
proof -
  have "(nm, e) \<in> set (entries_of a d)" "nm \<noteq> DOT" "nm \<noteq> DOTDOT"
    using assms(1) by (auto simp: shown_def starts_with_def DOT_def DOTDOT_def)
  then show ?thesis using assms(2) by (auto simp: child_of_def)
qed

lemma node_display_abs:
  assumes "fs_inv B ok fs" and "fs_abs B fs i = Some nd"
  shows "entry_display (fs_node B fs i) nm = node_display nd nm" and "in_is_directory (fs_node B fs i) \<longleftrightarrow> is_dir (fs_abs B fs) i"
proof -
  note inv = fs_invD [OF assms(1)]
  have al: "i \<in> fs_alloc fs" using assms(2) fs_abs_None [of B fs i] by auto
  show "in_is_directory (fs_node B fs i) \<longleftrightarrow> is_dir (fs_abs B fs) i" using is_dir_abs [OF al, of B] by simp
  have nd: "nd = node_view (B (fs_device fs)) (fs_node B fs i)" using assms(2) fs_abs_eq [OF al, of B] by simp
  have "length (file_bytes (B (fs_device fs)) (fs_node B fs i)) = unat (in_size (fs_node B fs i))"
  proof (rule file_bytes_length [OF node_okD(1) [OF inv(2) [OF al]]])
    fix b assume "b \<in> node_blocks (fs_node B fs i)"
    then have "b < length (B (fs_device fs))" using inv(3) [OF al] taken_blocks_bound(2) [OF inv(1)] by blast
    then show "length (B (fs_device fs) ! b) = 512" using fs_okD(2) [OF inv(1)] by simp
  qed
  then show "entry_display (fs_node B fs i) nm = node_display nd nm"
    by (simp add: nd entry_display_def node_display_def node_view_def)
qed

context block_device
begin

lemma display_law:
  assumes "fs_inv blocks dev_ok fs" and "fs_abs blocks fs i = Some nd"
  shows "\<exists>ino fs'. lookup_inode D fs i = Some (ino, fs') \<and> fs_inv blocks dev_ok fs' \<and> fs_abs blocks fs' = fs_abs blocks fs \<and>
    (\<forall>nm. entry_display ino nm = node_display nd nm) \<and> (in_is_directory ino \<longleftrightarrow> is_dir (fs_abs blocks fs) i)"
proof -
  have "i \<in> fs_alloc fs" using assms(2) fs_abs_None [of blocks fs i] by auto
  from lookup_inode_law [OF fs_invD(1) [OF assms(1)] fs_alloc_bound [OF this]] obtain fs' where
    f: "lookup_inode D fs i = Some (fs_node blocks fs i, fs')" "fs_ok blocks dev_ok fs'" "same_view blocks fs fs'" by blast
  show ?thesis using f(1) fs_inv_same_view(1,2) [OF assms(1) f(2,3)] node_display_abs [OF assms] by auto
qed

lemma entries_law:
  assumes "fs_inv blocks dev_ok fs" and "is_dir (fs_abs blocks fs) i"
  shows "\<exists>es fs'. read_dir_entry D fs i = Some (es, fs') \<and> fs_inv blocks dev_ok fs' \<and> fs_abs blocks fs' = fs_abs blocks fs \<and>
    map entry_pair es = entries_of (fs_abs blocks fs) i"
  using find_entry_law [OF assms(1) is_dir_alloc [OF assms(2)]] fs_inv_same_view(1,2) [OF assms(1)] by blast

lemma tree_children_law:
  assumes "ranked a rank" and "\<And>j. rank j \<le> N" and "afs_ok a" and "fs_inv blocks dev_ok fs" and "fs_abs blocks fs = a"
    and "\<forall>(nm, i) \<in> set (map entry_pair es). a i \<noteq> None \<and> (is_dir a i \<longrightarrow> N - rank i < n)"
  shows "\<exists>fs' t. tree_children D prefix es fs out = Some (fs', out @ t) \<and> fs_inv blocks dev_ok fs' \<and> fs_abs blocks fs' = a \<and>
    tree_text a prefix (map entry_pair es) t"
  using assms(4-)
proof (induction n arbitrary: prefix es fs out rule: less_induct)
  case (less n)
  note deeper = less.IH
  from less.prems show ?case
  proof (induction es arbitrary: fs out)
    case Nil
    then show ?case by (auto simp: tree_children.simps intro: no_entry)
  next
    case (Cons e es)
    obtain nd where nd: "a (de_inode e) = Some nd" using Cons.prems(3) by (auto simp: entry_pair_def)
    have rest: "\<forall>(nm, i) \<in> set (map entry_pair es). a i \<noteq> None \<and> (is_dir a i \<longrightarrow> N - rank i < n)" using Cons.prems(3) by simp
    let ?row = "tree_row prefix (es = []) (node_display nd (de_name e))"
    from display_law [OF Cons.prems(1)] nd Cons.prems(2) obtain ino f1 where
      f1: "lookup_inode D fs (de_inode e) = Some (ino, f1)" "fs_inv blocks dev_ok f1" "fs_abs blocks f1 = a"
      "entry_display ino (de_name e) = node_display nd (de_name e)" "in_is_directory ino \<longleftrightarrow> is_dir a (de_inode e)" by blast
    show ?case
    proof (cases nd)
      case (File c)
      from Cons.IH [OF f1(2,3) rest, of "out @ ?row"] obtain f2 t where
        "tree_children D prefix es f1 (out @ ?row) = Some (f2, (out @ ?row) @ t)" "fs_inv blocks dev_ok f2" "fs_abs blocks f2 = a"
        "tree_text a prefix (map entry_pair es) t" by blast
      then show ?thesis using f1 nd File file_entry [of a "de_inode e" c prefix "map entry_pair es" t "de_name e"]
        by (subst tree_children.simps) (auto simp: is_dir_def entry_pair_def tree_row_def node_display_def)
    next
      case (Dir ds)
      let ?pre = "child_prefix prefix (es = [])" and ?i = "de_inode e"
      have dir: "is_dir a ?i" "entries_of a ?i = ds" using nd Dir by (simp_all add: is_dir_def entries_of_def)
      from entries_law [OF f1(2)] dir f1(3) obtain cs f2 where
        f2: "read_dir_entry D f1 ?i = Some (cs, f2)" "fs_inv blocks dev_ok f2" "fs_abs blocks f2 = a" "map entry_pair cs = ds" by blast
      have low: "\<forall>(nm, j) \<in> set (map entry_pair (visible cs)). a j \<noteq> None \<and> (is_dir a j \<longrightarrow> N - rank j < N - rank ?i)"
      proof (clarsimp simp only: shown_visible f2(4))
        fix nm j assume j: "(nm, j) \<in> set (shown ds)"
        then have "(nm, j) \<in> set (entries_of a ?i)" by (simp add: shown_def dir(2))
        then have "a j \<noteq> None" by (rule entries_of_wf(2) [OF assms(3)])
        moreover have "N - rank j < N - rank ?i" if "is_dir a j"
          using rankedD [OF assms(1) shown_child [OF j [folded dir(2)] that]] assms(2) [of j] by linarith
        ultimately show "a j \<noteq> None \<and> (is_dir a j \<longrightarrow> N - rank j < N - rank ?i)" by blast
      qed
      have "N - rank ?i < n" using Cons.prems(3) dir(1) by (simp add: entry_pair_def)
      from deeper [OF this f2(2,3) low, of ?pre "out @ ?row", unfolded shown_visible f2(4)] obtain f3 s where
        f3: "tree_children D ?pre (visible cs) f2 (out @ ?row) = Some (f3, (out @ ?row) @ s)" "fs_inv blocks dev_ok f3" "fs_abs blocks f3 = a"
        "tree_text a ?pre (shown ds) s" by blast
      from Cons.IH [OF f3(2,3) rest, of "out @ ?row @ s"] obtain f4 t where
        "tree_children D prefix es f3 (out @ ?row @ s) = Some (f4, (out @ ?row @ s) @ t)" "fs_inv blocks dev_ok f4" "fs_abs blocks f4 = a"
        "tree_text a prefix (map entry_pair es) t" by blast
      then show ?thesis using f1 f2 f3 nd dir(1) Dir dir_entry [of a ?i ds prefix "map entry_pair es" s t "de_name e"]
        by (subst tree_children.simps) (auto simp: entry_pair_def tree_row_def child_prefix_def node_display_def)
    qed
  qed
qed

end

context block_device
begin

lemma tree_law:
  assumes "fs_inv blocks dev_ok fs" and "ranked (fs_abs blocks fs) rank"
  shows "\<exists>fs' t. tree D fs out = Some (fs', out @ [47] @ NEWLINE @ t) \<and> fs_inv blocks dev_ok fs' \<and> fs_abs blocks fs' = fs_abs blocks fs \<and>
    tree_text (fs_abs blocks fs) [] (shown (entries_of (fs_abs blocks fs) 0)) t"
proof -
  let ?a = "fs_abs blocks fs" and ?N = "Max (Set.range rank)"
  note ok = fs_invD(5) [OF assms(1)]
  have bound: "rank j \<le> ?N" for j by (rule Max_ge) simp_all
  have "is_dir ?a 0" using ok by (simp add: afs_ok_def)
  from entries_law [OF assms(1) this] obtain es f1 where
    f1: "read_dir_entry D fs 0 = Some (es, f1)" "fs_inv blocks dev_ok f1" "fs_abs blocks f1 = ?a" "map entry_pair es = entries_of ?a 0" by blast
  have "\<forall>(nm, i) \<in> set (map entry_pair (visible es)). ?a i \<noteq> None \<and> (is_dir ?a i \<longrightarrow> ?N - rank i < Suc ?N)"
    using entries_of_wf(2) [OF ok] by (auto simp: shown_visible f1(4) shown_def simp del: not_None_eq)
  from tree_children_law [OF assms(2) bound ok f1(2,3) this, of "[]" "out @ [47] @ NEWLINE"] show ?thesis
    using f1(1) by (auto simp: tree_def shown_visible f1(4))
qed

lemma dump_entries_law:
  assumes "fs_inv blocks dev_ok fs" and "\<forall>(nm, i) \<in> set (map entry_pair es). nm \<noteq> [] \<and> fs_abs blocks fs i \<noteq> None"
  shows "\<exists>fs'. dump_entries D fs es out =
      Some (fs', out @ concat (map (\<lambda>(nm, i). listing_row i (node_display (the (fs_abs blocks fs i)) nm)) (map entry_pair es))) \<and>
    fs_inv blocks dev_ok fs' \<and> fs_abs blocks fs' = fs_abs blocks fs"
  using assms
proof (induction es arbitrary: fs out)
  case (Cons e es)
  obtain nd where nd: "fs_abs blocks fs (de_inode e) = Some nd" using Cons.prems(2) by (auto simp: entry_pair_def)
  from display_law [OF Cons.prems(1) nd] obtain ino f1 where
    f1: "lookup_inode D fs (de_inode e) = Some (ino, f1)" "fs_inv blocks dev_ok f1" "fs_abs blocks f1 = fs_abs blocks fs"
    "entry_display ino (de_name e) = node_display nd (de_name e)" by blast
  from Cons.IH [OF f1(2), of "out @ listing_row (de_inode e) (node_display nd (de_name e))"] Cons.prems(2) f1 nd show ?case
    by (cases "node_display nd (de_name e)") (auto simp: entry_pair_def listing_row_def f1(3))
qed simp

lemma dump_listing_law:
  assumes "fs_inv blocks dev_ok fs" and "is_dir (fs_abs blocks fs) i"
  shows "\<exists>es f1 fs'. read_dir_entry D fs i = Some (es, f1) \<and>
    dump_entries D f1 es (out @ str_lit ''  TYPE  INODE       SIZE  NAME'' @ NEWLINE @ str_lit ''  ----  -----  ---------  ----'' @ NEWLINE) =
      Some (fs', out @ dump_text (fs_abs blocks fs) (entries_of (fs_abs blocks fs) i)) \<and>
    fs_inv blocks dev_ok fs' \<and> fs_abs blocks fs' = fs_abs blocks fs"
proof -
  from entries_law [OF assms] obtain es f1 where
    f1: "read_dir_entry D fs i = Some (es, f1)" "fs_inv blocks dev_ok f1" "fs_abs blocks f1 = fs_abs blocks fs"
    "map entry_pair es = entries_of (fs_abs blocks fs) i" by blast
  have "\<forall>(nm, j) \<in> set (map entry_pair es). nm \<noteq> [] \<and> fs_abs blocks f1 j \<noteq> None"
    using entries_of_wf [OF fs_invD(5) [OF assms(1)]] by (fastforce simp: f1(3,4) proper_name_def)
  from dump_entries_law [OF f1(2) this, of "out @ str_lit ''  TYPE  INODE       SIZE  NAME'' @ NEWLINE @ str_lit ''  ----  -----  ---------  ----'' @ NEWLINE"] f1
  show ?thesis by (auto simp: dump_text_def)
qed

end

text \<open>The directory or file that the path of a listing names.\<close>

definition spec_listed :: "afs \<Rightarrow> bytes \<Rightarrow> fs_error + inode_index" where
  "spec_listed a path = (if path = [SLASH] then Inr 0 else map_sum id (\<lambda>(p, nm, i). i) (spec_resolve a path))"

lemma spec_listed_alloc: "afs_ok a \<Longrightarrow> spec_listed a path = Inr i \<Longrightarrow> \<exists>nd. a i = Some nd"
  using spec_resolve_entry(2) [of a path]
  by (cases "spec_resolve a path") (fastforce simp: spec_listed_def afs_ok_def is_dir_entries split: if_splits prod.splits)+

context block_device
begin

lemma listed_law:
  assumes "fs_inv blocks dev_ok fs"
  shows "\<exists>fs'. (if path = [SLASH] then Some (fs, Inr 0)
      else do {
        (fs, r) \<leftarrow> resolve_path D fs path;
        Some (fs, and_then r (\<lambda>p. Inr (rp_basename_inode p)))
      }) = Some (fs', spec_listed (fs_abs blocks fs) path) \<and>
    fs_inv blocks dev_ok fs' \<and> fs_abs blocks fs' = fs_abs blocks fs"
proof (cases "path = [SLASH]")
  case False
  from resolve_path_law [OF assms, of path] obtain f1 where
    f1: "resolve_path D fs path = Some (f1, map_sum id resolved_record (spec_resolve (fs_abs blocks fs) path))"
    "fs_ok blocks dev_ok f1" "same_view blocks fs f1" by blast
  show ?thesis using f1(1) False fs_inv_same_view(1,2) [OF assms f1(2,3)]
    by (cases "spec_resolve (fs_abs blocks fs) path") (auto simp: spec_listed_def resolved_record_def)
qed (use assms in \<open>simp add: spec_listed_def\<close>)

lemma dump_dir_law:
  assumes "fs_inv blocks dev_ok fs"
  shows "\<exists>fs'. fs_inv blocks dev_ok fs' \<and> fs_abs blocks fs' = fs_abs blocks fs \<and> dump_dir D fs path out = Some (fs',
    case spec_listed (fs_abs blocks fs) path of
      Inl e \<Rightarrow> Inl e
    | Inr i \<Rightarrow> if is_dir (fs_abs blocks fs) i then Inr (out @ dump_text (fs_abs blocks fs) (entries_of (fs_abs blocks fs) i)) else Inl NotADirectory)"
proof -
  let ?a = "fs_abs blocks fs"
  from listed_law [OF assms, of path] obtain f1 where
    f1: "(if path = [SLASH] then Some (fs, Inr 0)
      else do {
        (fs, r) \<leftarrow> resolve_path D fs path;
        Some (fs, and_then r (\<lambda>p. Inr (rp_basename_inode p)))
      }) = Some (f1, spec_listed ?a path)" "fs_inv blocks dev_ok f1" "fs_abs blocks f1 = ?a" by blast
  show ?thesis
  proof (cases "spec_listed ?a path")
    case (Inl e)
    then show ?thesis using f1 unfolding dump_dir_def by auto
  next
    case (Inr i)
    from spec_listed_alloc [OF fs_invD(5) [OF assms] Inr] obtain nd where "fs_abs blocks f1 i = Some nd" using f1(3) by auto
    from display_law [OF f1(2) this] obtain ino f2 where
      f2: "lookup_inode D f1 i = Some (ino, f2)" "fs_inv blocks dev_ok f2" "fs_abs blocks f2 = ?a" "in_is_directory ino \<longleftrightarrow> is_dir ?a i"
      by (auto simp: f1(3))
    show ?thesis
    proof (cases "is_dir ?a i")
      case True
      from dump_listing_law [OF f2(2), of i out] True f2(3) obtain es f3 f4 where
        "read_dir_entry D f2 i = Some (es, f3)"
        "dump_entries D f3 es (out @ str_lit ''  TYPE  INODE       SIZE  NAME'' @ NEWLINE @ str_lit ''  ----  -----  ---------  ----'' @ NEWLINE) =
          Some (f4, out @ dump_text ?a (entries_of ?a i))" "fs_inv blocks dev_ok f4" "fs_abs blocks f4 = ?a" by auto
      then show ?thesis unfolding dump_dir_def f1(1) using Inr True f2 by simp
    next
      case False
      then show ?thesis unfolding dump_dir_def f1(1) using Inr f2 by simp
    qed
  qed
qed

end

section \<open>Properties\<close>

text \<open>
  C18: \<open>tree\<close> ends and prints the tree. Its recursion follows the entries that it reads from the disk, which
  need not end on an arbitrary disk; on every state that the filesystem reaches it does, because the
  directories form a tree. It does not panic; what it prints is the root, then for every entry whose
  name does not start with a dot its row, under the connectors of its ancestors, with the rows below it,
  in the order of the entries; and it changes nothing.
\<close>
theorem tree_exact:
  assumes "block_device D B ok" and "ok d0" and "length (B d0) < 2 ^ 32" and "fs_reach D d0 fs"
  shows "\<exists>fs' t. tree D fs out = Some (fs', out @ [47] @ NEWLINE @ t) \<and>
    tree_text (fs_abs B fs) [] (shown (entries_of (fs_abs B fs) 0)) t \<and>
    (\<forall>u. tree_text (fs_abs B fs) [] (shown (entries_of (fs_abs B fs) 0)) u \<longrightarrow> u = t) \<and>
    fs_inv B ok fs' \<and> fs_abs B fs' = fs_abs B fs"
proof -
  from block_device.reach_ranked [OF assms(1,4,2,3)] obtain rank where "ranked (fs_abs B fs) rank" by blast
  from block_device.tree_law [OF assms(1) block_device.reach_inv [OF assms(1,4,2,3)] this, of out] show ?thesis
    using tree_text_unique by blast
qed

theorem tree_exact_witness:
  "\<exists>fs fs'. fs_reach ramdisk_device (replicate RAMDISK_SIZE 0) fs \<and> tree ramdisk_device fs [] = Some (fs', [47, 10])"
proof -
  from ramdisk_empty obtain fs where
    fs: "fs_reach ramdisk_device (replicate RAMDISK_SIZE 0) fs" "fs_abs chunks fs = empty_tree" by blast
  have none: "shown (entries_of empty_tree 0) = []"
    by (simp add: shown_def entries_of_def empty_tree_def starts_with_def DOT_def DOTDOT_def)
  from tree_exact [OF ramdisk.block_device_axioms _ _ fs(1), of "[]", unfolded fs(2) none] show ?thesis
    using fs(1) by (auto simp: NEWLINE_def elim: tree_text_NilE)
qed

text \<open>
  C19: \<open>dump_dir\<close>, the \<open>ls\<close> of the shell, prints exactly the entries of the directory. It never panics and
  changes nothing; a path that does not resolve gives its error and a file \<open>NotADirectory\<close>, with
  nothing printed; otherwise the header and one row for each entry follow, with its type, i-node, size
  and name.
\<close>
theorem ls_exact:
  assumes "block_device D B ok" and "fs_inv B ok fs"
  shows "\<exists>fs'. fs_inv B ok fs' \<and> fs_abs B fs' = fs_abs B fs \<and> dump_dir D fs path out = Some (fs',
    case spec_listed (fs_abs B fs) path of
      Inl e \<Rightarrow> Inl e
    | Inr i \<Rightarrow> if is_dir (fs_abs B fs) i then Inr (out @ dump_text (fs_abs B fs) (entries_of (fs_abs B fs) i)) else Inl NotADirectory)"
  by (rule block_device.dump_dir_law [OF assms])

theorem ls_exact_witness:
  "\<exists>fs fs'. fs_inv chunks ramdisk_ok fs \<and> dump_dir ramdisk_device fs [47] [] = Some (fs', Inr (str_lit
     ''  TYPE  INODE       SIZE  NAME'' @ [10] @ str_lit ''  ----  -----  ---------  ----'' @ [10] @
     str_lit ''  d     [  0]          -  ./'' @ [10] @ str_lit ''  d     [  0]          -  ../'' @ [10]))"
proof -
  from ramdisk_empty obtain fs where fs: "fs_inv chunks ramdisk_ok fs" "fs_abs chunks fs = empty_tree" by blast
  have e: "spec_listed empty_tree [47] = Inr 0" "is_dir empty_tree 0" "entries_of empty_tree 0 = [(DOT, 0), (DOTDOT, 0)]" "empty_tree 0 = Some (Dir [(DOT, 0), (DOTDOT, 0)])"
    by (simp_all add: spec_listed_def SLASH_def is_dir_def entries_of_def empty_tree_def)
  have "dump_text empty_tree [(DOT, 0), (DOTDOT, 0)] = str_lit
     ''  TYPE  INODE       SIZE  NAME'' @ [10] @ str_lit ''  ----  -----  ---------  ----'' @ [10] @
     str_lit ''  d     [  0]          -  ./'' @ [10] @ str_lit ''  d     [  0]          -  ../'' @ [10]"
    by (simp add: dump_text_def listing_row_def node_display_def e(4) NEWLINE_def DOT_def DOTDOT_def) code_simp
  with ls_exact [OF ramdisk.block_device_axioms fs(1), of "[47]" "[]"] fs show ?thesis by (auto simp: e)
qed

end
