(* ===== verification/Shell_Session.thy ===== *)
theory Shell_Session
  imports Shell_Heap FS_Listing Virtio_Drivers
begin

text \<open>
  What a user can do. The commands of the shell act on the abstract tree of the mounted filesystem as a
  labelled step relation says, and print what it says; a session is a sequence of such steps, one for each
  command line that was typed, whatever else was typed; and what a session that ends with \<open>exit\<close> leaves on
  the disk is the tree that it reached.
\<close>

section \<open>Command lines are text\<close>

lemma leading_space_valid: "valid_utf8 s \<Longrightarrow> valid_utf8 (drop (leading_space s) s)"
proof (cases s)
  case (Cons a t)
  assume v: "valid_utf8 s"
  have "leading_space s = 0 \<or> leading_space s = 1 \<and> (a = 32 \<or> (9 \<le> a \<and> a \<le> 13)) \<or> leading_space s = 2 \<and> a = 0xC2 \<and> t \<noteq> [] \<or>
      leading_space s = 3 \<and> (a = 0xE1 \<or> a = 0xE2 \<or> a = 0xE3) \<and> 2 \<le> length t"
    unfolding Cons leading_space_def list.case by (cases t; cases "tl t") (simp_all split: if_split)
  then consider (none) "leading_space s = 0" | (one) "leading_space s = 1" "a = 32 \<or> (9 \<le> a \<and> a \<le> 13)"
    | (two) "leading_space s = 2" "a = 0xC2" "t \<noteq> []"
    | (three) "leading_space s = 3" "a = 0xE1 \<or> a = 0xE2 \<or> a = 0xE3" "2 \<le> length t" by argo
  then show ?thesis
  proof cases
    case one
    then have "a < 128" by (auto simp: word_le_nat_alt word_less_nat_alt)
    then show ?thesis using v one(1) by (simp add: Cons)
  next
    case two
    then show ?thesis using v by (cases t) (auto simp: Cons)
  next
    case three
    then obtain b c r where t: "t = b # c # r" by (cases t; cases "tl t") auto
    from three(2) show ?thesis using v three(1) by (elim disjE) (auto simp: Cons t)
  qed (use v in simp)
qed simp

lemma trim_start_text: "valid_utf8 s \<Longrightarrow> valid_utf8 (trim_start s)" "set (trim_start s) \<subseteq> set s"
proof (induction s rule: trim_start.induct)
  case (1 s)
  {
    case 1
    then show ?case using "1.IH"(1) leading_space_valid [of s] by (cases "leading_space s = 0") (simp_all add: trim_start.simps [of s])
  next
    case 2
    then show ?case using "1.IH"(2) set_drop_subset [of "leading_space s" s]
      by (cases "leading_space s = 0") (auto simp: trim_start.simps [of s])
  }
qed

lemma trim_end_text: "valid_utf8 s \<Longrightarrow> valid_utf8 (trim_end s)" "set (trim_end s) \<subseteq> set s"
proof (induction s rule: trim_end.induct)
  case (1 s)
  let ?c = "s \<noteq> [] \<and> leading_space (last_char s) = length (last_char s)" and ?s = "take (length s - length (last_char s)) s"
  {
    case 1
    have "valid_utf8 ?s" if ?c using pop_char_valid [of s ?s] 1 that by (simp add: pop_char_def)
    then show ?case using "1.IH"(1) 1 by (subst trim_end.simps) simp
  next
    case 2
    then show ?case using "1.IH"(2) set_take_subset [of "length s - length (last_char s)" s]
      by (cases ?c) (auto simp: trim_end.simps [of s])
  }
qed

lemma trim_text: "valid_utf8 s \<Longrightarrow> valid_utf8 (trim s)" "set (trim s) \<subseteq> set s"
  using trim_start_text [of s] trim_end_text [of "trim_start s"] by (auto simp: trim_def)

lemma part_path_ok:
  assumes "path_ok line" and "p \<in> set (split_at_char 32 (trim line))"
  shows "path_ok (normalize_root_path p)"
proof -
  have "valid_utf8 (trim line)" "0 \<notin> set (trim line)" using assms(1) trim_text [of line] by (auto simp: path_ok_def)
  then have "valid_utf8 p" "0 \<notin> set p" using split_at_char_parts [OF assms(2)] by auto
  then show ?thesis by (auto simp: path_ok_def normalize_root_path_def SLASH_def)
qed

section \<open>The commands on the tree\<close>

definition failed :: "string \<Rightarrow> fs_error \<Rightarrow> bytes" where
  "failed msg e = str_lit msg @ fmt_fs_error e @ NEWLINE"

definition complaint :: "string \<Rightarrow> fs_error option \<Rightarrow> bytes" where
  "complaint msg r = (case r of None \<Rightarrow> [] | Some e \<Rightarrow> failed msg e)"

definition on_filesystem :: "shell_command \<Rightarrow> bool" where
  "on_filesystem cmd = (case cmd of
       Ls _ \<Rightarrow> True | Mkdir _ \<Rightarrow> True | DumpFs \<Rightarrow> True | Write _ _ \<Rightarrow> True | Cat _ \<Rightarrow> True | Touch _ \<Rightarrow> True
     | Rm _ \<Rightarrow> True | Tree \<Rightarrow> True | Flush \<Rightarrow> True | _ \<Rightarrow> False)"

text \<open>Creating a file or a directory: refused with an error, or done under some free i-node.\<close>

inductive create_step :: "entry_kind \<Rightarrow> afs \<Rightarrow> bytes \<Rightarrow> fs_error option \<Rightarrow> afs \<Rightarrow> bool" for kind a path where
  create_refused: "spec_create a path = Inl e \<Longrightarrow> create_step kind a path (Some e) a"
| create_full: "spec_create a path = Inr (p, nm) \<Longrightarrow> create_step kind a path (Some NoFreeInodes) a"
| create_done: "spec_create a path = Inr (p, nm) \<Longrightarrow> a k = None \<Longrightarrow>
    create_step kind a path None (a(k \<mapsto> new_node kind k p, p \<mapsto> Dir (entries_of a p @ [(nm, k)])))"

text \<open>One command: the tree before, the command, what it prints, and the tree behind it.\<close>

inductive command_step :: "afs \<Rightarrow> shell_command \<Rightarrow> bytes \<Rightarrow> afs \<Rightarrow> bool" for a where
  step_ls: "spec_listed a path = Inr i \<Longrightarrow> is_dir a i \<Longrightarrow> command_step a (Ls path) (dump_text a (entries_of a i)) a"
| step_ls_file: "spec_listed a path = Inr i \<Longrightarrow> \<not> is_dir a i \<Longrightarrow> command_step a (Ls path) (failed ''ls failed: '' NotADirectory) a"
| step_ls_missing: "spec_listed a path = Inl e \<Longrightarrow> command_step a (Ls path) (failed ''ls failed: '' e) a"
| step_mkdir: "create_step EntryDirectory a path r b \<Longrightarrow> command_step a (Mkdir path) (complaint ''mkdir failed: '' r) b"
| step_touch: "create_step EntryFile a path r b \<Longrightarrow> command_step a (Touch path) (complaint ''touch failed: '' r) b"
| step_rm: "spec_resolve a path = Inr (p, nm, i) \<Longrightarrow> \<not> is_dir a i \<Longrightarrow>
    command_step a (Rm path) [] (a(i := None, p \<mapsto> Dir (swap_remove (entries_of a p) (name_index nm (entries_of a p)))))"
| step_rm_dir: "spec_resolve a path = Inr (p, nm, i) \<Longrightarrow> is_dir a i \<Longrightarrow> command_step a (Rm path) (failed ''rm failed: '' OperationNotSupported) a"
| step_rm_missing: "spec_resolve a path = Inl e \<Longrightarrow> command_step a (Rm path) (failed ''rm failed: '' e) a"
| step_write: "spec_resolve a path = Inr (p, nm, i) \<Longrightarrow> a i = Some (File c) \<Longrightarrow> length c + length s \<le> 8192 \<Longrightarrow>
    command_step a (Write path s) [] (a(i \<mapsto> File (c @ s)))"
| step_write_part: "spec_resolve a path = Inr (p, nm, i) \<Longrightarrow> a i = Some (File c) \<Longrightarrow> length c + length s \<le> 8192 \<Longrightarrow> k < length s \<Longrightarrow>
    command_step a (Write path s) (failed ''Writing to file failed: '' NoSpaceLeft) (a(i \<mapsto> File (c @ take k s)))"
| step_write_large: "spec_resolve a path = Inr (p, nm, i) \<Longrightarrow> a i = Some (File c) \<Longrightarrow> 8192 < length c + length s \<Longrightarrow>
    command_step a (Write path s) (failed ''Writing to file failed: '' FileTooLarge) a"
| step_write_dir: "spec_resolve a path = Inr (p, nm, i) \<Longrightarrow> is_dir a i \<Longrightarrow>
    command_step a (Write path s) (failed ''Writing to file failed: '' IsDirectory) a"
| step_write_missing: "spec_resolve a path = Inl e \<Longrightarrow> command_step a (Write path s) (failed ''Writing to file failed: '' e) a"
| step_cat: "spec_resolve a path = Inr (p, nm, i) \<Longrightarrow> a i = Some (File c) \<Longrightarrow> command_step a (Cat path) (c @ NEWLINE) a"
| step_cat_dir: "spec_resolve a path = Inr (p, nm, i) \<Longrightarrow> is_dir a i \<Longrightarrow> command_step a (Cat path) (failed ''cat failed: '' IsDirectory) a"
| step_cat_missing: "spec_resolve a path = Inl e \<Longrightarrow> command_step a (Cat path) (failed ''cat failed: '' e) a"
| step_tree: "tree_text a [] (shown (entries_of a 0)) t \<Longrightarrow> command_step a Tree ([47] @ NEWLINE @ t) a"
| step_dump: "command_step a DumpFs t a"
| step_flush: "command_step a Flush [] a"
| step_other: "\<not> on_filesystem cmd \<Longrightarrow> command_step a cmd t a"

inductive_cases create_stepE: "create_step kind a path r b"

text \<open>The directories stay a tree.\<close>

lemma spec_create_dir: "spec_create a path = Inr (p, nm) \<Longrightarrow> afs_ok a \<Longrightarrow> is_dir a p"
  using spec_walk_dir [of a 0 "butlast (path_parts path)" p] by (auto simp: spec_create_def Let_def afs_ok_def split: if_splits)

lemma resolved_dir: "spec_resolve a path = Inr (p, nm, i) \<Longrightarrow> is_dir a p"
  using spec_resolve_entry(1) [of a path p nm i] by (cases "a p") (auto simp: is_dir_def entries_of_def split: fnode.splits)

lemma create_step_tree: "create_step kind a path r b \<Longrightarrow> afs_ok a \<Longrightarrow> tree_like a \<Longrightarrow> tree_like b"
  by (erule create_stepE) (auto intro: tree_like_create spec_create_dir)

lemma command_step_tree: "command_step a cmd t b \<Longrightarrow> afs_ok a \<Longrightarrow> tree_like a \<Longrightarrow> tree_like b"
proof (induction rule: command_step.induct)
  case (step_rm path p nm i)
  then show ?case unfolding tree_like_def
    using ranked_remove [OF _ resolved_dir name_index(1) [OF spec_resolve_Inr]] by blast
next
  case (step_write path p nm i c s)
  then show ?case unfolding tree_like_def using ranked_write by blast
next
  case (step_write_part path p nm i c s k)
  then show ?case unfolding tree_like_def using ranked_write by blast
qed (use create_step_tree in blast)+

section \<open>The service behind the lock\<close>

definition mounted :: "kernel_block_device \<Rightarrow> ('v \<Rightarrow> bytes list) \<Rightarrow> ('v \<Rightarrow> bool) \<Rightarrow> 'v fs_mutex \<Rightarrow> 'v kernel_disk filesystem \<Rightarrow> bool" where
  "mounted dv vb vok x fs \<longleftrightarrow> \<not> mx_locked x \<and> lf_inner (mx_inner x) = Some fs \<and> fs_inv (kd_blocks vb) (kd_ok dv vok) fs"

definition replace_fs :: "'v fs_mutex \<Rightarrow> 'v kernel_disk filesystem \<Rightarrow> 'v fs_mutex" where
  "replace_fs x fs = x\<lparr>mx_inner := (mx_inner x)\<lparr>lf_inner := Some fs\<rparr>\<rparr>"

lemma mounted_replace: "mounted dv vb vok x fs \<Longrightarrow> fs_inv (kd_blocks vb) (kd_ok dv vok) fs' \<Longrightarrow> mounted dv vb vok (replace_fs x fs') fs'"
  by (simp add: mounted_def replace_fs_def)

lemma mounted_inv: "mounted dv vb vok x fs \<Longrightarrow> fs_inv (kd_blocks vb) (kd_ok dv vok) fs"
  by (simp add: mounted_def)

lemma serve:
  "mounted dv vb vok x fs \<Longrightarrow> with_lock (\<lambda>l. lf_with l f) x = map_option (\<lambda>(fs', r). (r, replace_fs x fs')) (f fs)"
  by (cases "f fs") (auto simp: mounted_def with_lock_def lf_with_def replace_fs_def)

text \<open>A device with the block-device contract behind the kernel's service: the dispatching device keeps the contract too.\<close>

locale kernel_service = block_device V vb vok
  for V :: "'v block_device_ops" and vb :: "'v \<Rightarrow> bytes list" and vok :: "'v \<Rightarrow> bool"

sublocale kernel_service \<subseteq> kdev: block_device "kernel_device V" "kd_blocks vb" "kd_ok dv vok"
  for dv
  by (rule kernel_device_contract) unfold_locales

lemma fs_inv_device:
  assumes "fs_inv B ok fs" and "ok d" and "B d = B (fs_device fs)"
  shows "fs_inv B ok (fs\<lparr>fs_device := d\<rparr>)" and "fs_abs B (fs\<lparr>fs_device := d\<rparr>) = fs_abs B fs"
proof -
  note ok = fs_invD(1) [OF assms(1)]
  have "fs_ok B ok (fs\<lparr>fs_device := d\<rparr>)"
    by (rule fs_ok_device [OF ok assms(2)]) (use fs_okD(2) [OF ok] in \<open>simp_all add: assms(3)\<close>)
  moreover have "fs_node B (fs\<lparr>fs_device := d\<rparr>) i = fs_node B fs i" for i
    by (simp add: fs_node_def assms(3) split: option.splits)
  then have "same_view B fs (fs\<lparr>fs_device := d\<rparr>)" by (simp add: same_view_def assms(3))
  ultimately show "fs_inv B ok (fs\<lparr>fs_device := d\<rparr>)" "fs_abs B (fs\<lparr>fs_device := d\<rparr>) = fs_abs B fs"
    using fs_inv_same_view [OF assms(1)] by blast+
qed

context kernel_service
begin

lemma read_page_blocks_law:
  assumes "\<forall>i \<in> set is. first + i < length (kd_blocks vb k) \<and> i < 8" and "length (kd_blocks vb k) < 2 ^ 32" and "kd_ok dv vok k" and "length pg = 4096"
  shows "\<exists>pg' k'. read_page_blocks V k first is pg = Some (pg', k') \<and> length pg' = 4096 \<and> kd_ok dv vok k' \<and> kd_blocks vb k' = kd_blocks vb k"
  using assms
proof (induction "is" arbitrary: k pg)
  case (Cons i "is")
  have "first + i < 2 ^ 32" and i: "i < 8" using Cons.prems(1,2) by auto
  then have "unat (as_u32 (first + i)) < length (kd_blocks vb k)" using Cons.prems(1) by (simp add: unat_as_u32)
  note i = this i
  from kdev.read_law [OF Cons.prems(3) i(1)] obtain k1 where
    k1: "kernel_read_block V k (as_u32 (first + i)) = Some (kd_blocks vb k ! unat (as_u32 (first + i)), k1)" "kd_ok dv vok k1" "kd_blocks vb k1 = kd_blocks vb k"
    by (auto simp: kernel_device_def)
  have len: "length (kd_blocks vb k ! unat (as_u32 (first + i))) = 512" using kdev.block_length [OF Cons.prems(3) i(1)] .
  then have "copy_to_slice pg (i * BLOCK_SIZE) (i * BLOCK_SIZE + BLOCK_SIZE) (kd_blocks vb k ! unat (as_u32 (first + i))) =
      Some (put_at pg (i * BLOCK_SIZE) (kd_blocks vb k ! unat (as_u32 (first + i))))"
    using i(2) Cons.prems(4) by (simp add: copy_to_slice_def BLOCK_SIZE_def)
  moreover have "length (put_at pg (i * BLOCK_SIZE) (kd_blocks vb k ! unat (as_u32 (first + i)))) = 4096"
    using Cons.prems(4) len i(2) by (simp add: put_at_def BLOCK_SIZE_def)
  ultimately show ?case using Cons.IH [OF _ _ k1(2)] Cons.prems(1,2) k1 by (auto simp: k1(3) Let_def)
qed simp

lemma dump_pages_law:
  assumes "\<forall>i \<in> set is. i * 8 \<le> length (kd_blocks vb k)" and "length (kd_blocks vb k) < 2 ^ 32" and "kd_ok dv vok k" and "length pg = 4096"
  shows "\<exists>k' t. dump_pages V (length (kd_blocks vb k)) is k pg out = Some (k', out @ t) \<and> kd_ok dv vok k' \<and> kd_blocks vb k' = kd_blocks vb k"
  using assms
proof (induction "is" arbitrary: k pg out)
  case (Cons i "is")
  let ?n = "length (kd_blocks vb k)" and ?first = "i * 8"
  have "\<forall>j \<in> set [0..<min (?n - ?first) 8]. ?first + j < ?n \<and> j < 8" by auto
  from read_page_blocks_law [OF this Cons.prems(2-4)] obtain pg' k1 where
    k1: "read_page_blocks V k ?first [0..<min (?n - ?first) 8] pg = Some (pg', k1)" "length pg' = 4096" "kd_ok dv vok k1" "kd_blocks vb k1 = kd_blocks vb k" by blast
  then have "\<exists>s. dump_page V ?n i k pg = Some (k1, pg', s)"
    using Cons.prems(1) by (auto simp: dump_page_def sub_usize_def BLOCKS_PER_PAGE_def BLOCK_SIZE_def Let_def)
  then obtain s where s: "dump_page V ?n i k pg = Some (k1, pg', s)" by blast
  from Cons.IH [OF _ _ k1(3,2), of "out @ s"] Cons.prems(1,2) k1(4) obtain k' t where
    "dump_pages V ?n is k1 pg' (out @ s) = Some (k', (out @ s) @ t)" "kd_ok dv vok k'" "kd_blocks vb k' = kd_blocks vb k" by auto
  then show ?case using s by auto
qed simp

lemma dump_law:
  assumes "fs_inv (kd_blocks vb) (kd_ok dv vok) fs"
  shows "\<exists>k t. dump_non_empty_pages V (fs_device fs) out = Some (k, out @ t) \<and>
    fs_inv (kd_blocks vb) (kd_ok dv vok) (fs\<lparr>fs_device := k\<rparr>) \<and> fs_abs (kd_blocks vb) (fs\<lparr>fs_device := k\<rparr>) = fs_abs (kd_blocks vb) fs"
proof -
  let ?k = "fs_device fs" and ?n = "length (kd_blocks vb (fs_device fs))"
  note ok = fs_invD(1) [OF assms]
  have n: "?n < 2 ^ 32" using geometry_bounds(5) [OF fs_okD(3) [OF ok]] .
  have tot: "kernel_total_blocks V ?k = ?n" using kdev.total [OF fs_okD(1) [OF ok]] by (simp add: kernel_device_def)
  have mul: "mul_usize ?n BLOCK_SIZE = Some (?n * BLOCK_SIZE)" using n by (simp add: mul_usize_def BLOCK_SIZE_def)
  have "\<forall>i \<in> set [0..<div_ceil ?n BLOCKS_PER_PAGE]. i * 8 \<le> ?n"
    by (auto simp: div_ceil_less_iff BLOCKS_PER_PAGE_def BLOCK_SIZE_def mult.commute)
  note pages = dump_pages_law [OF this n fs_okD(1) [OF ok], of "replicate 4096 0", simplified]
  have "\<exists>k t. dump_non_empty_pages V ?k out = Some (k, out @ t) \<and> kd_ok dv vok k \<and> kd_blocks vb k = kd_blocks vb ?k"
  proof -
    let ?out = "out @ str_lit ''=== '' @ (case kd_device ?k of Ramdisk \<Rightarrow> str_lit ''RAMDISK'' | VirtIO \<Rightarrow> str_lit ''VIRTIO'') @ str_lit '' DUMP ('' @
      fmt_dec ?n @ str_lit '' blocks, '' @ fmt_dec (div_ceil ?n BLOCKS_PER_PAGE) @ str_lit '' pages, '' @ fmt_dec (?n * BLOCK_SIZE) @ str_lit '' bytes total) ==='' @ NEWLINE"
    from pages [of ?out] show ?thesis using mul tot by (auto simp: dump_non_empty_pages_def Let_def)
  qed
  then show ?thesis using fs_inv_device [OF assms] by blast
qed

end

section \<open>The shell's calls\<close>

text \<open>
  The calls that panic: creating an entry in a directory with 18 entries, or a directory when no data block is left;
  and printing a file with a block that is not UTF-8 on its own.
\<close>

definition create_panics :: "('d \<Rightarrow> bytes list) \<Rightarrow> 'd filesystem \<Rightarrow> entry_kind \<Rightarrow> bytes \<Rightarrow> bool" where
  "create_panics B fs kind path = (case spec_create (fs_abs B fs) path of
       Inl e \<Rightarrow> False
     | Inr (p, nm) \<Rightarrow> bitmap_find_free (fs_inode_bitmap fs) \<noteq> None \<and> (length (entries_of (fs_abs B fs) p) = 18 \<or>
         kind = EntryDirectory \<and> bitmap_find_free (fs_data_bitmap fs) = None))"

definition cat_panics :: "afs \<Rightarrow> bytes \<Rightarrow> bool" where
  "cat_panics a path \<longleftrightarrow> (\<exists>p nm i c. spec_resolve a path = Inr (p, nm, i) \<and> a i = Some (File c) \<and> \<not> utf8_blocks 16 c)"

definition command_panics :: "('d \<Rightarrow> bytes list) \<Rightarrow> 'd filesystem \<Rightarrow> shell_command \<Rightarrow> bool" where
  "command_panics B fs cmd = (case cmd of
       Mkdir path \<Rightarrow> create_panics B fs EntryDirectory path
     | Touch path \<Rightarrow> create_panics B fs EntryFile path
     | Cat path \<Rightarrow> cat_panics (fs_abs B fs) path
     | _ \<Rightarrow> False)"

text \<open>The paths of commands that create something are text without NUL.\<close>

definition command_ok :: "shell_command \<Rightarrow> bool" where
  "command_ok cmd = (case cmd of Mkdir path \<Rightarrow> path_ok path | Touch path \<Rightarrow> path_ok path | _ \<Rightarrow> True)"

definition error_of :: "'e + 'r \<Rightarrow> 'e option" where
  "error_of r = (case r of Inl e \<Rightarrow> Some e | Inr _ \<Rightarrow> None)"

lemma error_of_simps [simp]: "error_of (Inl e) = Some e" "error_of (Inr r) = None"
  by (simp_all add: error_of_def)

definition ran :: "kernel_block_device \<Rightarrow> ('v \<Rightarrow> bytes list) \<Rightarrow> ('v \<Rightarrow> bool) \<Rightarrow> 'v shell_world \<Rightarrow> 'v kernel_disk filesystem \<Rightarrow> shell_command \<Rightarrow>
    'v shell_world panics \<Rightarrow> bool" where
  "ran dv vb vok w fs cmd res \<longleftrightarrow> (\<exists>fs' t. res = Some (w\<lparr>sw_fs := replace_fs (sw_fs w) fs', sw_out := sw_out w @ t\<rparr>) \<and>
     fs_inv (kd_blocks vb) (kd_ok dv vok) fs' \<and> command_step (fs_abs (kd_blocks vb) fs) cmd t (fs_abs (kd_blocks vb) fs'))"

lemma ranI:
  "res = Some (w\<lparr>sw_fs := replace_fs (sw_fs w) fs', sw_out := sw_out w @ t\<rparr>) \<Longrightarrow> fs_inv (kd_blocks vb) (kd_ok dv vok) fs' \<Longrightarrow>
     command_step (fs_abs (kd_blocks vb) fs) cmd t (fs_abs (kd_blocks vb) fs') \<Longrightarrow> ran dv vb vok w fs cmd res"
  unfolding ran_def by blast

lemma report_law:
  assumes "mounted dv vb vok (sw_fs w) fs"
  shows "report msg w (with_lock (\<lambda>l. lf_with l f) (sw_fs w)) =
    (case f fs of None \<Rightarrow> None
     | Some (fs', r) \<Rightarrow> Some (w\<lparr>sw_fs := replace_fs (sw_fs w) fs', sw_out := sw_out w @ complaint msg (error_of r)\<rparr>))"
proof (cases "f fs")
  case (Some p)
  obtain fs' r where "p = (fs', r)" by (cases p)
  then show ?thesis using Some by (cases r) (auto simp: serve [OF assms] report_def complaint_def failed_def put_out_def)
qed (simp add: serve [OF assms] report_def)

context kernel_service
begin

lemma create_law:
  assumes "fs_inv (kd_blocks vb) (kd_ok dv vok) fs" and "path_ok path"
  shows "case new_dir_entry (kernel_device V) fs path kind of
      None \<Rightarrow> create_panics (kd_blocks vb) fs kind path
    | Some (fs', r) \<Rightarrow> \<not> create_panics (kd_blocks vb) fs kind path \<and> fs_inv (kd_blocks vb) (kd_ok dv vok) fs' \<and>
        create_step kind (fs_abs (kd_blocks vb) fs) path (error_of r) (fs_abs (kd_blocks vb) fs')"
proof -
  have path: "valid_utf8 path" "0 \<notin> set path" using assms(2) by (simp_all add: path_ok_def)
  note law = kdev.new_dir_entry_law [OF assms(1) path, of kind]
  show ?thesis
  proof (cases "spec_create (fs_abs (kd_blocks vb) fs) path")
    case (Inl e)
    then show ?thesis using law create_refused by (fastforce simp: create_panics_def)
  next
    case (Inr pn)
    obtain p nm where pn: "pn = (p, nm)" by (cases pn)
    show ?thesis
    proof (cases "bitmap_find_free (fs_inode_bitmap fs)")
      case None
      then show ?thesis using law Inr pn create_full by (fastforce simp: create_panics_def)
    next
      case (Some k)
      then show ?thesis using law Inr pn create_done [of "fs_abs (kd_blocks vb) fs" path p nm "as_u32 k" kind]
        by (auto simp: create_panics_def split: if_splits)
    qed
  qed
qed

lemma call_create:
  assumes "mounted dv vb vok (sw_fs w) fs" and "path_ok path"
    and "\<And>r b. create_step kind (fs_abs (kd_blocks vb) fs) path r b \<Longrightarrow> command_step (fs_abs (kd_blocks vb) fs) cmd (complaint msg r) b"
  shows "if create_panics (kd_blocks vb) fs kind path
    then report msg w (with_lock (\<lambda>l. lf_with l (\<lambda>fs. new_dir_entry (kernel_device V) fs path kind)) (sw_fs w)) = None
    else ran dv vb vok w fs cmd (report msg w (with_lock (\<lambda>l. lf_with l (\<lambda>fs. new_dir_entry (kernel_device V) fs path kind)) (sw_fs w)))"
  using create_law [OF mounted_inv [OF assms(1)] assms(2), of kind] assms(3)
  by (auto simp: report_law [OF assms(1)] ran_def split: option.splits prod.splits)

lemma call_rm:
  assumes "mounted dv vb vok (sw_fs w) fs"
  shows "ran dv vb vok w fs (Rm path) (call_fs V (Rm path) w)"
proof -
  note rep = report_law [OF assms, of "''rm failed: ''" "\<lambda>fs. remove_dir_entry (kernel_device V) fs path"]
  from kdev.remove_dir_entry_law [OF mounted_inv [OF assms], of path] obtain fs' where
    fs': "fs_inv (kd_blocks vb) (kd_ok dv vok) fs'" and law: "case spec_resolve (fs_abs (kd_blocks vb) fs) path of
       Inl e \<Rightarrow> remove_dir_entry (kernel_device V) fs path = Some (fs', Inl e) \<and> fs_abs (kd_blocks vb) fs' = fs_abs (kd_blocks vb) fs
     | Inr (p, nm, i) \<Rightarrow>
         if is_dir (fs_abs (kd_blocks vb) fs) i
         then remove_dir_entry (kernel_device V) fs path = Some (fs', Inl OperationNotSupported) \<and> fs_abs (kd_blocks vb) fs' = fs_abs (kd_blocks vb) fs
         else remove_dir_entry (kernel_device V) fs path = Some (fs', Inr ()) \<and> fs_abs (kd_blocks vb) fs' = (fs_abs (kd_blocks vb) fs)
           (i := None, p \<mapsto> Dir (swap_remove (entries_of (fs_abs (kd_blocks vb) fs) p) (name_index nm (entries_of (fs_abs (kd_blocks vb) fs) p))))" by blast
  have "\<exists>r. remove_dir_entry (kernel_device V) fs path = Some (fs', r) \<and>
    command_step (fs_abs (kd_blocks vb) fs) (Rm path) (complaint ''rm failed: '' (error_of r)) (fs_abs (kd_blocks vb) fs')"
    using law by (auto simp: complaint_def split: sum.splits if_splits intro: command_step.intros)
  then show ?thesis using rep fs' by (auto simp: call_fs_def api_remove_dir_entry_def intro!: ranI)
qed

lemma call_write:
  assumes "mounted dv vb vok (sw_fs w) fs"
  shows "ran dv vb vok w fs (Write path s) (call_fs V (Write path s) w)"
proof -
  let ?a = "fs_abs (kd_blocks vb) fs"
  note rep = report_law [OF assms, of "''Writing to file failed: ''" "\<lambda>fs. write_to_file (kernel_device V) fs path s"]
  from kdev.append_to_file_law [OF mounted_inv [OF assms], of path s] obtain fs' r where
    fs': "append_to_file (kernel_device V) fs path s = Some (fs', r)" "fs_inv (kd_blocks vb) (kd_ok dv vok) fs'"
    and law: "case spec_resolve ?a path of
       Inl e \<Rightarrow> r = Inl e \<and> fs_abs (kd_blocks vb) fs' = ?a
     | Inr (p, nm, i) \<Rightarrow>
         (case ?a i of
            Some (File c) \<Rightarrow>
              if length c + length s > 8192 then r = Inl FileTooLarge \<and> fs_abs (kd_blocks vb) fs' = ?a
              else r = Inr (length s) \<and> fs_abs (kd_blocks vb) fs' = ?a(i \<mapsto> File (c @ s)) \<or>
                r = Inl NoSpaceLeft \<and> bitmap_find_free (fs_data_bitmap fs') = None \<and>
                  (\<exists>k < length s. fs_abs (kd_blocks vb) fs' = ?a(i \<mapsto> File (c @ take k s)))
          | _ \<Rightarrow> r = Inl IsDirectory \<and> fs_abs (kd_blocks vb) fs' = ?a)" by blast
  have "command_step ?a (Write path s) (complaint ''Writing to file failed: '' (error_of r)) (fs_abs (kd_blocks vb) fs')"
  proof (cases "spec_resolve ?a path")
    case (Inl e)
    then show ?thesis using law step_write_missing by (simp add: complaint_def)
  next
    case (Inr res)
    obtain p nm i where res: "res = (p, nm, i)" by (cases res)
    from spec_resolve_entry(2) [OF Inr [unfolded res]] fs_invD(5) [OF mounted_inv [OF assms]] obtain nd where nd: "?a i = Some nd" by blast
    show ?thesis
    proof (cases nd)
      case (File c)
      then show ?thesis using law Inr res nd command_step.intros(9-11) [of ?a path p nm i c s]
        by (auto simp: complaint_def not_less split: if_splits)
    next
      case (Dir es)
      then show ?thesis using law Inr res nd step_write_dir [of ?a path p nm i s] by (simp add: complaint_def is_dir_def)
    qed
  qed
  then show ?thesis using rep fs' by (auto simp: call_fs_def api_write_to_file_def write_to_file_def intro!: ranI)
qed

end

context kernel_service
begin

lemma call_ls:
  assumes "mounted dv vb vok (sw_fs w) fs"
  shows "ran dv vb vok w fs (Ls path) (call_fs V (Ls path) w)"
proof -
  let ?a = "fs_abs (kd_blocks vb) fs"
  from kdev.dump_dir_law [OF mounted_inv [OF assms], of path "sw_out w"] obtain fs' where
    fs': "fs_inv (kd_blocks vb) (kd_ok dv vok) fs'" "fs_abs (kd_blocks vb) fs' = ?a" "dump_dir (kernel_device V) fs path (sw_out w) = Some (fs',
      case spec_listed ?a path of Inl e \<Rightarrow> Inl e
      | Inr i \<Rightarrow> if is_dir ?a i then Inr (sw_out w @ dump_text ?a (entries_of ?a i)) else Inl NotADirectory)" by blast
  show ?thesis
  proof (cases "spec_listed ?a path")
    case (Inl e)
    then show ?thesis using fs' step_ls_missing [of ?a path e]
      by (intro ranI [where fs' = fs' and t = "failed ''ls failed: '' e"]) (simp_all add: call_fs_def api_dump_dir_def serve [OF assms] put_out_def failed_def)
  next
    case (Inr i)
    show ?thesis
    proof (cases "is_dir ?a i")
      case True
      then show ?thesis using Inr fs' step_ls [OF Inr True]
        by (intro ranI [where fs' = fs' and t = "dump_text ?a (entries_of ?a i)"]) (simp_all add: call_fs_def api_dump_dir_def serve [OF assms])
    next
      case False
      then show ?thesis using Inr fs' step_ls_file [OF Inr False]
        by (intro ranI [where fs' = fs' and t = "failed ''ls failed: '' NotADirectory"])
          (simp_all add: call_fs_def api_dump_dir_def serve [OF assms] put_out_def failed_def)
    qed
  qed
qed

lemma call_cat:
  assumes "mounted dv vb vok (sw_fs w) fs"
  shows "if cat_panics (fs_abs (kd_blocks vb) fs) path then call_fs V (Cat path) w = None
    else ran dv vb vok w fs (Cat path) (call_fs V (Cat path) w)"
proof -
  let ?a = "fs_abs (kd_blocks vb) fs"
  note inv = mounted_inv [OF assms]
  from kdev.read_file_law [OF inv, of path] obtain fs' where
    fs': "fs_inv (kd_blocks vb) (kd_ok dv vok) fs'" "fs_abs (kd_blocks vb) fs' = ?a" and rd: "read_file (kernel_device V) fs path =
      (case spec_resolve ?a path of
         Inl e \<Rightarrow> Some (fs', Inl e)
       | Inr (p, nm, i) \<Rightarrow>
           (case ?a i of
              Some (File c) \<Rightarrow> if utf8_blocks 16 c then Some (fs', Inr c) else None
            | _ \<Rightarrow> Some (fs', Inl IsDirectory)))" by blast
  have call: "call_fs V (Cat path) w = (case read_file (kernel_device V) fs path of None \<Rightarrow> None
     | Some (f, r) \<Rightarrow> Some (w\<lparr>sw_fs := replace_fs (sw_fs w) f,
         sw_out := sw_out w @ (case r of Inl e \<Rightarrow> failed ''cat failed: '' e | Inr c \<Rightarrow> c @ NEWLINE)\<rparr>))"
    by (auto simp: call_fs_def api_read_file_def serve [OF assms] put_out_def failed_def split: option.splits prod.splits sum.splits)
  show ?thesis
  proof (cases "spec_resolve ?a path")
    case (Inl e)
    then show ?thesis using call rd fs' step_cat_missing [OF Inl]
      by (auto simp: cat_panics_def intro!: ranI [where fs' = fs' and t = "failed ''cat failed: '' e"])
  next
    case (Inr res)
    obtain p nm i where res: "res = (p, nm, i)" by (cases res)
    note r = Inr [unfolded res]
    from spec_resolve_entry(2) [OF r] fs_invD(5) [OF inv] obtain nd where nd: "?a i = Some nd" by blast
    show ?thesis
    proof (cases nd)
      case (File c)
      then show ?thesis using call rd fs' r nd step_cat [OF r, of c]
        by (auto simp: cat_panics_def intro!: ranI [where fs' = fs' and t = "c @ NEWLINE"])
    next
      case (Dir es)
      then show ?thesis using call rd fs' r nd step_cat_dir [OF r]
        by (auto simp: cat_panics_def is_dir_def intro!: ranI [where fs' = fs' and t = "failed ''cat failed: '' IsDirectory"])
    qed
  qed
qed

lemma call_tree:
  assumes "mounted dv vb vok (sw_fs w) fs" and "tree_like (fs_abs (kd_blocks vb) fs)"
  shows "ran dv vb vok w fs Tree (call_fs V Tree w)"
proof -
  from assms(2) obtain rank where "ranked (fs_abs (kd_blocks vb) fs) rank" by (auto simp: tree_like_def)
  from kdev.tree_law [OF mounted_inv [OF assms(1)] this, of "sw_out w"] obtain fs' t where
    "tree (kernel_device V) fs (sw_out w) = Some (fs', sw_out w @ [47] @ NEWLINE @ t)" "fs_inv (kd_blocks vb) (kd_ok dv vok) fs'"
    "fs_abs (kd_blocks vb) fs' = fs_abs (kd_blocks vb) fs"
    "tree_text (fs_abs (kd_blocks vb) fs) [] (shown (entries_of (fs_abs (kd_blocks vb) fs) 0)) t" by blast
  then show ?thesis using step_tree
    by (intro ranI [where fs' = fs' and t = "[47] @ NEWLINE @ t"]) (simp_all add: call_fs_def api_tree_def serve [OF assms(1)])
qed

lemma call_dump:
  assumes "mounted dv vb vok (sw_fs w) fs"
  shows "ran dv vb vok w fs DumpFs (call_fs V DumpFs w)"
proof -
  from dump_law [OF mounted_inv [OF assms], of "sw_out w"] obtain k t where
    "dump_non_empty_pages V (fs_device fs) (sw_out w) = Some (k, sw_out w @ t)" "fs_inv (kd_blocks vb) (kd_ok dv vok) (fs\<lparr>fs_device := k\<rparr>)"
    "fs_abs (kd_blocks vb) (fs\<lparr>fs_device := k\<rparr>) = fs_abs (kd_blocks vb) fs" by blast
  then show ?thesis using step_dump [of "fs_abs (kd_blocks vb) fs" t]
    by (intro ranI [where fs' = "fs\<lparr>fs_device := k\<rparr>" and t = t]) (simp_all add: call_fs_def api_dump_def serve [OF assms])
qed

text \<open>Flushing also leaves a disk that holds the tree.\<close>

lemma api_flush_law:
  assumes "mounted dv vb vok x fs"
  shows "\<exists>fs'. api_flush V x = Some (replace_fs x fs') \<and> fs_inv (kd_blocks vb) (kd_ok dv vok) fs' \<and>
    fs_abs (kd_blocks vb) fs' = fs_abs (kd_blocks vb) fs \<and>
    disk_holds (kd_blocks vb (fs_device fs')) (fs_lay fs) (fs_inode_bitmap fs) (fs_data_bitmap fs) (fs_abs (kd_blocks vb) fs)"
  using kdev.flush_disk_law [OF mounted_inv [OF assms]] by (auto simp: api_flush_def serve [OF assms])

lemma call_flush:
  assumes "mounted dv vb vok (sw_fs w) fs"
  shows "ran dv vb vok w fs Flush (call_fs V Flush w)"
  using api_flush_law [OF assms] by (auto simp: call_fs_def intro!: ranI [where t = "[]"] step_flush)

lemma call_fs_law:
  assumes "mounted dv vb vok (sw_fs w) fs" and "tree_like (fs_abs (kd_blocks vb) fs)" and "command_ok cmd" and "on_filesystem cmd"
  shows "if command_panics (kd_blocks vb) fs cmd then call_fs V cmd w = None else ran dv vb vok w fs cmd (call_fs V cmd w)"
proof (cases cmd)
  case (Mkdir path)
  then show ?thesis using call_create [OF assms(1) _ step_mkdir, of path] assms(3)
    by (simp add: command_panics_def command_ok_def call_fs_def api_mkdir_def mkdir_def)
next
  case (Touch path)
  then show ?thesis using call_create [OF assms(1) _ step_touch, of path] assms(3)
    by (simp add: command_panics_def command_ok_def call_fs_def api_create_file_def create_file_def)
qed (use assms(4) call_ls call_rm call_write call_cat call_tree call_dump call_flush assms(1,2) in
    \<open>simp_all add: command_panics_def on_filesystem_def\<close>)

end

section \<open>What the user types\<close>

text \<open>The rounds of the line editor on an input: each line that was entered with its echo, then the echo of the line that waits.\<close>

lemma read_line_echo:
  "read_line_loop h ed input out = map_option (\<lambda>(l, r, echo). (l, r, out @ echo)) (read_line_loop h ed input [])"
proof (induction input arbitrary: ed out)
  case (Cons c input)
  show ?case
  proof (cases "c = 13 \<or> edit_byte h ed c = None")
    case False
    then obtain ed' t where e: "edit_byte h ed c = Some (ed', t)" by auto
    show ?thesis using False Cons [of ed' "out @ t"] Cons [of ed' t] by (simp add: e option.map_comp comp_def case_prod_unfold)
  qed auto
qed simp

function typed_rounds :: "command_history \<Rightarrow> bytes \<Rightarrow> (bytes option \<times> bytes) list" where
  "typed_rounds h input =
     (case read_line_and_display h input [] of
        None \<Rightarrow> []
      | Some (None, rest, echo) \<Rightarrow> [(None, echo)]
      | Some (Some line, rest, echo) \<Rightarrow> (Some line, echo) # typed_rounds (history_push h line) rest)"
  by pat_completeness auto
termination
  by (relation "measure (\<lambda>(h, input). length input)") (auto simp: read_line_and_display_def dest: read_line_rest)

declare typed_rounds.simps [simp del]

lemma read_line_out:
  "read_line_and_display h input out = map_option (\<lambda>(l, r, echo). (l, r, out @ echo)) (read_line_and_display h input [])"
  unfolding read_line_and_display_def
  by (subst read_line_echo, subst (2) read_line_echo) (simp add: option.map_comp comp_def case_prod_unfold)

text \<open>Lines without NUL come from bytes without NUL.\<close>

definition history_ok :: "command_history \<Rightarrow> bool" where
  "history_ok h \<longleftrightarrow> list_all path_ok (hist_entries h)"

definition editor_clean :: "editor \<Rightarrow> bool" where
  "editor_clean ed \<longleftrightarrow> 0 \<notin> set (ed_line ed) \<and> 0 \<notin> set (ed_draft ed)"

lemma char_bytes_clean: "c \<noteq> 0 \<Longrightarrow> 0 \<notin> set (char_bytes c)"
  by (auto simp: char_bytes_def or_eq_0_iff dest: sym)

lemma edit_byte_clean:
  assumes "history_ok h" and "editor_clean ed" and "c \<noteq> 0" and "edit_byte h ed c = Some (ed', echo)"
  shows "editor_clean ed'"
proof -
  have old: "0 \<notin> set s" if "list_get (hist_entries h) k = Some s" for k s
    using that assms(1) by (auto simp: list_get_def history_ok_def path_ok_def list_all_length split: if_splits)
  have pop: "0 \<notin> set s" if "pop_char (ed_line ed) = Some s" for s
    using that assms(2) by (auto simp: pop_char_def editor_clean_def dest: in_set_takeD split: if_splits)
  show ?thesis
  proof (cases "ed_state ed")
    case Normal
    then show ?thesis using assms(2-4) char_bytes_clean [OF assms(3)] pop
      by (cases "pop_char (ed_line ed)") (auto simp: edit_byte_def editor_clean_def split: if_splits)
  next
    case Escape
    then show ?thesis using assms by (auto simp: edit_byte_def editor_clean_def)
  next
    case ControlSequence
    then show ?thesis using assms(2,4) old
      by (auto simp: edit_byte_def control_byte_def editor_clean_def Let_def split: if_splits bind_splits)
  qed
qed

lemma read_line_loop_clean:
  "history_ok h \<Longrightarrow> editor_clean ed \<Longrightarrow> 0 \<notin> set input \<Longrightarrow> read_line_loop h ed input out = Some (Some line, rest, out') \<Longrightarrow>
     0 \<notin> set line \<and> 0 \<notin> set rest"
proof (induction input arbitrary: ed out)
  case (Cons c input)
  show ?case
  proof (cases "c = 13")
    case True
    then show ?thesis using Cons.prems by (auto simp: editor_clean_def)
  next
    case False
    from Cons.prems(4) False obtain ed' echo where e: "edit_byte h ed c = Some (ed', echo)" "read_line_loop h ed' input (out @ echo) = Some (Some line, rest, out')"
      by (auto split: bind_splits)
    have "c \<noteq> 0" using Cons.prems(3) by auto
    from Cons.IH [OF Cons.prems(1) edit_byte_clean [OF Cons.prems(1,2) this e(1)] _ e(2)] Cons.prems(3) show ?thesis by simp
  qed
qed simp

lemma read_line_path_ok:
  assumes "history_ok h" and "0 \<notin> set input" and "read_line_and_display h input out = Some (Some line, rest, out')"
  shows "path_ok line" and "0 \<notin> set rest" and "history_ok (history_push h line)"
proof -
  have "list_all valid_utf8 (hist_entries h)" using assms(1) by (simp add: history_ok_def path_ok_def list_all_iff)
  moreover have "editor_ok h (editor_new h)" "editor_clean (editor_new h)" by (simp_all add: editor_ok_def editor_clean_def editor_new_def)
  ultimately have "valid_utf8 line" "0 \<notin> set line" "0 \<notin> set rest"
    using read_line_loop_ok [of h "editor_new h" input "out @ str_lit ''> ''"] read_line_loop_clean [OF assms(1) _ assms(2)] assms(3)
    by (auto simp: read_line_and_display_def)
  then show l: "path_ok line" "0 \<notin> set rest" by (simp_all add: path_ok_def)
  then show "history_ok (history_push h line)" using assms(1) by (cases "hist_entries h") (auto simp: history_ok_def history_push_def Let_def)
qed

lemma from_line_ok:
  assumes "path_ok line" and "from_line line = Some (Some cmd)"
  shows "command_ok cmd"
proof -
  let ?parts = "split_at_char 32 (trim line)"
  have part: "path_ok (normalize_root_path p)" if "list_get ?parts i = Some p" for i p
    using part_path_ok [OF assms(1), of p] that by (auto simp: list_get_def split: if_splits)
  show ?thesis
  proof (cases cmd)
    case (Mkdir path)
    then have "\<exists>p. list_get ?parts 1 = Some p \<and> path = normalize_root_path p"
      using assms(2) unfolding from_line_split command_of_def Let_def by (auto split: if_splits bind_splits)
    then show ?thesis using part Mkdir by (auto simp: command_ok_def)
  next
    case (Touch path)
    then have "\<exists>p. list_get ?parts 1 = Some p \<and> path = normalize_root_path p"
      using assms(2) unfolding from_line_split command_of_def Let_def by (auto split: if_splits bind_splits)
    then show ?thesis using part Touch by (auto simp: command_ok_def)
  qed (simp_all add: command_ok_def)
qed

section \<open>Sessions\<close>

definition not_found :: "bytes \<Rightarrow> bytes" where
  "not_found line = str_lit ''ShellCommand not found: '' @ [39] @ line @ [39] @ NEWLINE"

text \<open>
  A session on the tree: the rounds that were typed, what the terminal shows, how it ends, and the tree it leaves. It
  halts at the first \<open>exit\<close>, or the last round waits for a line.
\<close>

inductive session :: "afs \<Rightarrow> (bytes option \<times> bytes) list \<Rightarrow> bytes \<Rightarrow> outcome \<Rightarrow> afs \<Rightarrow> bool" where
  session_waits: "session a [(None, echo)] echo Running a"
| session_exit: "from_line line = Some (Some Exit) \<Longrightarrow> session a ((Some line, echo) # rs) echo Halted a"
| session_command: "from_line line = Some (Some cmd) \<Longrightarrow> cmd \<noteq> Exit \<Longrightarrow> command_step a cmd t b \<Longrightarrow> session b rs out end c \<Longrightarrow>
    session a ((Some line, echo) # rs) (echo @ t @ out) end c"
| session_unknown: "from_line line = Some None \<Longrightarrow> session a rs out end c \<Longrightarrow>
    session a ((Some line, echo) # rs) (echo @ not_found line @ out) end c"

text \<open>Everything the shell works on is sound: the filesystem with its lock free, and the heap.\<close>

definition world_ok :: "kernel_block_device \<Rightarrow> ('v \<Rightarrow> bytes list) \<Rightarrow> ('v \<Rightarrow> bool) \<Rightarrow> usize \<Rightarrow> usize \<Rightarrow> u64 \<Rightarrow> 'v shell_world \<Rightarrow> 'v kernel_disk filesystem \<Rightarrow>
    allocation set \<Rightarrow> bool" where
  "world_ok dv vb vok start e st w fs live \<longleftrightarrow> mounted dv vb vok (sw_fs w) fs \<and> tree_like (fs_abs (kd_blocks vb) fs) \<and>
     locked_inv start e st (sw_heap w) live"

lemma world_ok_out [simp]: "world_ok dv vb vok start e st (w\<lparr>sw_out := out\<rparr>) fs live \<longleftrightarrow> world_ok dv vb vok start e st w fs live"
  "world_ok dv vb vok start e st (put_out w s) fs live \<longleftrightarrow> world_ok dv vb vok start e st w fs live"
  by (simp_all add: world_ok_def put_out_def)

lemma world_ok_ran:
  assumes "world_ok dv vb vok start e st w fs live" and "ran dv vb vok w fs cmd (Some w')"
  shows "\<exists>fs' t. world_ok dv vb vok start e st w' fs' live \<and> sw_out w' = sw_out w @ t \<and>
    command_step (fs_abs (kd_blocks vb) fs) cmd t (fs_abs (kd_blocks vb) fs')"
proof -
  from assms(2) obtain fs' t where r: "w' = w\<lparr>sw_fs := replace_fs (sw_fs w) fs', sw_out := sw_out w @ t\<rparr>"
    "fs_inv (kd_blocks vb) (kd_ok dv vok) fs'" "command_step (fs_abs (kd_blocks vb) fs) cmd t (fs_abs (kd_blocks vb) fs')" by (auto simp: ran_def)
  have w: "mounted dv vb vok (sw_fs w) fs" "tree_like (fs_abs (kd_blocks vb) fs)" "locked_inv start e st (sw_heap w) live"
    using assms(1) by (simp_all add: world_ok_def)
  have "tree_like (fs_abs (kd_blocks vb) fs')" by (rule command_step_tree [OF r(3) fs_invD(5) [OF mounted_inv [OF w(1)]] w(2)])
  then show ?thesis using r w mounted_replace [OF w(1) r(2)] by (intro exI [of _ fs'] exI [of _ t]) (simp add: world_ok_def)
qed

definition continues :: "kernel_block_device \<Rightarrow> ('v \<Rightarrow> bytes list) \<Rightarrow> ('v \<Rightarrow> bool) \<Rightarrow> usize \<Rightarrow> usize \<Rightarrow> u64 \<Rightarrow> 'v shell_world \<Rightarrow> 'v kernel_disk filesystem \<Rightarrow>
    allocation set \<Rightarrow> shell_command \<Rightarrow> 'v shell_world \<Rightarrow> bool" where
  "continues dv vb vok start e st w fs live cmd w' \<longleftrightarrow> (\<exists>fs' live' t. world_ok dv vb vok start e st w' fs' live' \<and> live \<subseteq> live' \<and>
     sw_out w' = sw_out w @ t \<and> command_step (fs_abs (kd_blocks vb) fs) cmd t (fs_abs (kd_blocks vb) fs'))"

text \<open>Commands off the filesystem leave it alone; the allocating ones keep the heap's invariant.\<close>

lemma continues_other:
  assumes "world_ok dv vb vok start e st w fs live" and "\<not> on_filesystem cmd" and "sw_fs w' = sw_fs w"
    and "locked_inv start e st (sw_heap w') live'" and "live \<subseteq> live'" and "sw_out w' = sw_out w @ t"
  shows "continues dv vb vok start e st w fs live cmd w'"
  unfolding continues_def using assms step_other [OF assms(2)]
  by (intro exI [of _ fs] exI [of _ live'] exI [of _ t]) (auto simp: world_ok_def)

lemma stats_keeps: "locked_inv start e st (c, m, mx) live \<Longrightarrow> locked_stats m mx = Some (s, mx') \<Longrightarrow> mx' = mx"
  by (auto simp: locked_stats_def with_lock_def locked_inv_def split: bind_splits)

context kernel_service
begin

lemma shell_call_law:
  assumes w: "world_ok dv vb vok start e st w fs live" and "command_ok cmd" and "cmd \<noteq> Exit"
    and run: "shell_call V sysinfo t0 t1 cmd h w = Some (out, w')"
  shows "out = Running" and "continues dv vb vok start e st w fs live cmd w'"
proof -
  show "out = Running" using run assms(3) by (cases cmd) (auto simp: shell_call_def)
  have heap: "locked_inv start e st (sw_heap w) live" using w by (simp add: world_ok_def)
  show "continues dv vb vok start e st w fs live cmd w'"
  proof (cases "on_filesystem cmd")
    case True
    then have "call_fs V cmd w = Some w'" using run by (cases cmd) (auto simp: shell_call_def on_filesystem_def)
    with call_fs_law [of dv w fs cmd] w assms(2) True have "ran dv vb vok w fs cmd (Some w')"
      by (auto simp: world_ok_def split: if_splits)
    from world_ok_ran [OF w this] show ?thesis by (auto simp: continues_def)
  next
    case other: False
    show ?thesis
    proof (cases cmd)
      case MemoryDump
      obtain c m mx where h: "sw_heap w = (c, m, mx)" by (cases "sw_heap w")
      with run obtain s mx' where s: "locked_stats m mx = Some (s, mx')" "w' = put_out (w\<lparr>sw_heap := (c, m, mx')\<rparr>) (memory_text s)"
        by (auto simp: MemoryDump shell_call_def call_memory_def split: bind_splits)
      then show ?thesis using stats_keeps [OF heap [unfolded h] s(1)] heap h
        by (intro continues_other [OF w other, where live' = live]) (simp_all add: put_out_def)
    next
      case (Allocate n)
      with run obtain hp where hp: "shell_allocate (sw_heap w) n = Some hp" "w' = w\<lparr>sw_heap := hp\<rparr>"
        by (auto simp: shell_call_def split: bind_splits)
      from shell_allocate_law [OF heap hp(1)] obtain leak where "locked_inv start e st hp (live \<union> set leak)" by (auto simp: owns_def)
      then show ?thesis using hp(2) by (intro continues_other [OF w other, where live' = "live \<union> set leak" and t = "[]"]) simp_all
    next
      case (Bench n sz)
      with run obtain s hp where hp: "benchmark_allocator sysinfo t0 t1 (sw_heap w) n sz = Some (s, hp)" "w' = put_out (w\<lparr>sw_heap := hp\<rparr>) s"
        by (auto simp: shell_call_def split: bind_splits)
      then show ?thesis using benchmark_law [OF heap hp(1)]
        by (intro continues_other [OF w other, where live' = live]) (simp_all add: put_out_def)
    next
      case (Timer n)
      with run show ?thesis using heap
        by (intro continues_other [OF w other, where live' = live and t = "[]"]) (auto simp: shell_call_def split: bind_splits)
    qed (use run heap other assms(3) in \<open>auto simp: shell_call_def call_uptime_def put_out_def on_filesystem_def split: bind_splits
        intro!: continues_other [OF w, where live' = live]\<close>)
  qed
qed

lemma exit_law:
  assumes w: "world_ok dv vb vok start e st w fs live" and run: "shell_call V sysinfo t0 t1 Exit h w = Some (out, w')"
  shows "out = Halted" and "\<exists>fs' l ibm dbm. world_ok dv vb vok start e st w' fs' live \<and> fs_abs (kd_blocks vb) fs' = fs_abs (kd_blocks vb) fs \<and>
    sw_out w' = sw_out w \<and> disk_holds (kd_blocks vb (fs_device fs')) l ibm dbm (fs_abs (kd_blocks vb) fs')"
proof -
  have m: "mounted dv vb vok (sw_fs w) fs" using w by (simp add: world_ok_def)
  from api_flush_law [OF m] obtain fs' where
    f: "api_flush V (sw_fs w) = Some (replace_fs (sw_fs w) fs')" "fs_inv (kd_blocks vb) (kd_ok dv vok) fs'"
      "fs_abs (kd_blocks vb) fs' = fs_abs (kd_blocks vb) fs"
      "disk_holds (kd_blocks vb (fs_device fs')) (fs_lay fs) (fs_inode_bitmap fs) (fs_data_bitmap fs) (fs_abs (kd_blocks vb) fs)" by blast
  have r: "out = Halted" "w' = w\<lparr>sw_fs := replace_fs (sw_fs w) fs'\<rparr>" using run f(1) by (simp_all add: shell_call_def exit_shell_def)
  then show "out = Halted" by simp
  have "world_ok dv vb vok start e st w' fs' live" using w mounted_replace [OF m f(2)] f(3) r(2) by (simp add: world_ok_def)
  then show "\<exists>fs' l ibm dbm. world_ok dv vb vok start e st w' fs' live \<and> fs_abs (kd_blocks vb) fs' = fs_abs (kd_blocks vb) fs \<and>
    sw_out w' = sw_out w \<and> disk_holds (kd_blocks vb (fs_device fs')) l ibm dbm (fs_abs (kd_blocks vb) fs')" using f(3,4) r(2) by (intro exI [of _ fs']) auto
qed

end

lemma typed_rounds_next:
  "read_line_and_display h input [] = Some (Some line, rest, echo) \<Longrightarrow>
     typed_rounds h input = (Some line, echo) # typed_rounds (history_push h line) rest"
  by (subst typed_rounds.simps) simp

lemma typed_rounds_last: "read_line_and_display h input [] = Some (None, rest, echo) \<Longrightarrow> typed_rounds h input = [(None, echo)]"
  by (subst typed_rounds.simps) simp

context kernel_service
begin

text \<open>One line: it ends the session, or the session goes on from the tree it leaves.\<close>

lemma run_line_law:
  assumes w: "world_ok dv vb vok start e st w fs live" and line: "path_ok line" and run: "run_line V sysinfo t0 t1 line h w = Some (fin, w1)"
  shows "fin = Halted \<and> from_line line = Some (Some Exit) \<and> sw_out w1 = sw_out w \<and>
      (\<exists>f1 l ibm dbm. world_ok dv vb vok start e st w1 f1 live \<and> fs_abs (kd_blocks vb) f1 = fs_abs (kd_blocks vb) fs \<and>
        disk_holds (kd_blocks vb (fs_device f1)) l ibm dbm (fs_abs (kd_blocks vb) f1)) \<or>
    fin = Running \<and> (\<exists>f1 live1 t. world_ok dv vb vok start e st w1 f1 live1 \<and> live \<subseteq> live1 \<and> sw_out w1 = sw_out w @ t \<and>
      (\<forall>rs out end c echo. session (fs_abs (kd_blocks vb) f1) rs out end c \<longrightarrow>
         session (fs_abs (kd_blocks vb) fs) ((Some line, echo) # rs) (echo @ t @ out) end c))"
proof -
  from run obtain cmdo where fl: "from_line line = Some cmdo" by (auto simp: run_line_def split: bind_splits)
  show ?thesis
  proof (cases cmdo)
    case None
    then have r: "fin = Running" "w1 = put_out w (not_found line)" using run fl by (simp_all add: run_line_def not_found_def)
    then show ?thesis using w session_unknown [OF fl [unfolded None]] by (intro disjI2) (auto simp: put_out_def intro!: exI [of _ fs] exI [of _ live])
  next
    case (Some cmd)
    note fl = fl [unfolded Some]
    have call: "shell_call V sysinfo t0 t1 cmd h w = Some (fin, w1)" using run fl by (simp add: run_line_def)
    show ?thesis
    proof (cases "cmd = Exit")
      case True
      from exit_law [OF w call [unfolded True]] show ?thesis using fl True by auto
    next
      case False
      note go = shell_call_law [OF w from_line_ok [OF line fl] False call]
      then show ?thesis using session_command [OF fl False] unfolding continues_def by blast
    qed
  qed
qed

lemma session_law:
  assumes "world_ok dv vb vok start e st w fs live" and "history_ok h" and "0 \<notin> set input"
    and "shell_loop V sysinfo clock k h input w = Some (end, h', w')"
  shows "\<exists>fs' live' out. session (fs_abs (kd_blocks vb) fs) (typed_rounds h input) out end (fs_abs (kd_blocks vb) fs') \<and>
    sw_out w' = sw_out w @ out \<and> world_ok dv vb vok start e st w' fs' live' \<and> live \<subseteq> live' \<and>
    (end = Halted \<longrightarrow> (\<exists>l ibm dbm. disk_holds (kd_blocks vb (fs_device fs')) l ibm dbm (fs_abs (kd_blocks vb) fs')))"
  using assms
proof (induction "length input" arbitrary: input k h w fs live rule: less_induct)
  case less
  let ?a = "fs_abs (kd_blocks vb) fs"
  note loop = less.prems(4) [unfolded shell_loop.simps [of V sysinfo clock k h input w] read_line_out [of h input "sw_out w"]]
  from loop obtain lo rest echo where rl: "read_line_and_display h input [] = Some (lo, rest, echo)"
    by (cases "read_line_and_display h input []") auto
  show ?case
  proof (cases lo)
    case None
    then have "end = Running" "w' = w\<lparr>sw_out := sw_out w @ echo\<rparr>" using loop rl by simp_all
    then show ?thesis using less.prems(1) session_waits [of ?a echo] typed_rounds_last [of h input rest echo] rl None
      by (intro exI [of _ fs] exI [of _ live] exI [of _ echo]) simp
  next
    case (Some line)
    let ?h = "history_push h line" and ?w = "w\<lparr>sw_out := sw_out w @ echo\<rparr>"
    note rounds = typed_rounds_next [OF rl [unfolded Some]]
    note ok = read_line_path_ok [OF less.prems(2,3) rl [unfolded Some]]
    have shorter: "length rest < length input" using rl Some by (auto simp: read_line_and_display_def dest: read_line_rest)
    obtain t0 t1 where t: "clock k = (t0, t1)" by (cases "clock k")
    from loop rl Some t obtain fin w1 where run: "run_line V sysinfo t0 t1 line ?h ?w = Some (fin, w1)"
      and more: "case fin of Halted \<Rightarrow> end = Halted \<and> w' = w1 | Running \<Rightarrow> shell_loop V sysinfo clock (Suc k) ?h rest w1 = Some (end, h', w')"
      by (auto simp: Let_def split: option.splits outcome.splits)
    have "world_ok dv vb vok start e st ?w fs live" using less.prems(1) by simp
    from run_line_law [OF this ok(1) run] show ?thesis
    proof (elim disjE conjE exE)
      fix f1 l ibm dbm
      assume "fin = Halted" "from_line line = Some (Some Exit)" "sw_out w1 = sw_out ?w" "world_ok dv vb vok start e st w1 f1 live"
        "fs_abs (kd_blocks vb) f1 = ?a" "disk_holds (kd_blocks vb (fs_device f1)) l ibm dbm (fs_abs (kd_blocks vb) f1)"
      then show ?thesis using more session_exit [of line ?a echo "typed_rounds ?h rest"] rounds
        by (intro exI [of _ f1] exI [of _ live] exI [of _ echo]) auto
    next
      fix f1 live1 t
      assume fin: "fin = Running" and s: "world_ok dv vb vok start e st w1 f1 live1" "live \<subseteq> live1" "sw_out w1 = sw_out ?w @ t"
        "\<forall>rs out end c echo. session (fs_abs (kd_blocks vb) f1) rs out end c \<longrightarrow> session ?a ((Some line, echo) # rs) (echo @ t @ out) end c"
      have "shell_loop V sysinfo clock (Suc k) ?h rest w1 = Some (end, h', w')" using more fin by simp
      from less.hyps [OF shorter s(1) ok(3,2) this] obtain fs' live' out where
        "session (fs_abs (kd_blocks vb) f1) (typed_rounds ?h rest) out end (fs_abs (kd_blocks vb) fs')" "sw_out w' = sw_out w1 @ out"
        "world_ok dv vb vok start e st w' fs' live'" "live1 \<subseteq> live'"
        "end = Halted \<longrightarrow> (\<exists>l ibm dbm. disk_holds (kd_blocks vb (fs_device fs')) l ibm dbm (fs_abs (kd_blocks vb) fs'))" by blast
      then show ?thesis using s rounds by (intro exI [of _ fs'] exI [of _ live'] exI [of _ "echo @ t @ out"]) auto
    qed
  qed
qed

end

interpretation vservice: kernel_service "virtio_device sector_disk" "\<lambda>d. d" sectors_ok
  by (rule kernel_service.intro) (rule vdisk.block_device_axioms)

interpretation fservice: kernel_service file_device "\<lambda>f. chunks (fd_bytes f)" file_ok
  by (rule kernel_service.intro) (rule image.block_device_axioms)

section \<open>A small world\<close>

text \<open>A freshly formatted ramdisk behind the kernel's service, with the heap of the other examples.\<close>

definition zero_disk :: "bytes list kernel_disk" where
  "zero_disk = \<lparr>kd_device = Ramdisk, kd_ramdisk = replicate RAMDISK_SIZE 0, kd_virtio = []\<rparr>"

definition world_with :: "bytes list kernel_disk filesystem \<Rightarrow> bytes list shell_world" where
  "world_with fs = \<lparr>sw_heap = (sample_csrs, sample_mem, \<lparr>mx_locked = False, mx_inner = sample_fl\<rparr>),
     sw_fs = \<lparr>mx_locked = False, mx_inner = \<lparr>lf_inner = Some fs, lf_ramdisk = []\<rparr>\<rparr>, sw_deadline = 0, sw_out = []\<rparr>"

lemma kernel_empty:
  "\<exists>fs. fs_inv (kd_blocks (\<lambda>d. d)) (kd_ok Ramdisk sectors_ok) fs \<and> fs_abs (kd_blocks (\<lambda>d. d)) fs = empty_tree"
proof -
  have "kd_ok Ramdisk sectors_ok zero_disk" "length (kd_blocks (\<lambda>d. d) zero_disk) = 2048"
    using ramdisk_size by (simp_all add: kd_ok_def kd_blocks_def zero_disk_def chunks_def)
  from vservice.kdev.format_law(3) [OF this(1)] this(2) ramdisk_fits show ?thesis by auto
qed

lemma world_with_ok:
  assumes "fs_inv (kd_blocks (\<lambda>d. d)) (kd_ok Ramdisk sectors_ok) fs" and "fs_abs (kd_blocks (\<lambda>d. d)) fs = empty_tree"
  shows "mounted Ramdisk (\<lambda>d. d) sectors_ok (sw_fs (world_with fs)) fs" and "tree_like (fs_abs (kd_blocks (\<lambda>d. d)) fs)"
    and "world_ok Ramdisk (\<lambda>d. d) sectors_ok 0x80100000 0x80100400 2 (world_with fs) fs {}"
proof -
  show m: "mounted Ramdisk (\<lambda>d. d) sectors_ok (sw_fs (world_with fs)) fs" using assms(1) by (simp add: mounted_def world_with_def)
  show t: "tree_like (fs_abs (kd_blocks (\<lambda>d. d)) fs)" using tree_like_empty assms(2) by simp
  have "locked_inv 0x80100000 0x80100400 2 (sw_heap (world_with fs)) {}"
    using sample_reach sample_range by (simp add: locked_inv_def sample_csrs_def world_with_def)
  then show "world_ok Ramdisk (\<lambda>d. d) sectors_ok 0x80100000 0x80100400 2 (world_with fs) fs {}" using m t by (simp add: world_ok_def)
qed

inductive_cases step_catE: "command_step a (Cat path) t b"

section \<open>Properties\<close>

text \<open>
  C5: the shell's filesystem commands refine the steps on the tree, through the lock and whatever device is mounted
  below. \<open>ls\<close>, \<open>rm\<close>, \<open>write\<close>, \<open>tree\<close>, \<open>dumpfs\<close> and \<open>flush\<close> never panic; \<open>mkdir\<close> and \<open>touch\<close> panic exactly
  when the parent has 18 entries or, for a directory, no data block is left; \<open>cat\<close> exactly on a file with a block that
  is not UTF-8. Otherwise the command returns with the lock free, a sound filesystem whose directories form a tree, and
  the heap untouched; and it printed the text and made the change that the step relation gives for it.
\<close>
theorem command_refines:
  assumes "block_device V vb vok" and "mounted dv vb vok (sw_fs w) fs" and "tree_like (fs_abs (kd_blocks vb) fs)"
    and "on_filesystem cmd" and "command_ok cmd"
  shows "(call_fs V cmd w = None \<longleftrightarrow> command_panics (kd_blocks vb) fs cmd) \<and>
    (\<forall>w'. call_fs V cmd w = Some w' \<longrightarrow> (\<exists>fs' t. mounted dv vb vok (sw_fs w') fs' \<and> tree_like (fs_abs (kd_blocks vb) fs') \<and>
       sw_heap w' = sw_heap w \<and> sw_out w' = sw_out w @ t \<and>
       command_step (fs_abs (kd_blocks vb) fs) cmd t (fs_abs (kd_blocks vb) fs')))"
proof -
  from kernel_service.call_fs_law [OF kernel_service.intro [OF assms(1)] assms(2,3,5,4)]
  have law: "if command_panics (kd_blocks vb) fs cmd then call_fs V cmd w = None else ran dv vb vok w fs cmd (call_fs V cmd w)" .
  have step: "\<exists>fs' t. mounted dv vb vok (sw_fs w') fs' \<and> tree_like (fs_abs (kd_blocks vb) fs') \<and> sw_heap w' = sw_heap w \<and>
      sw_out w' = sw_out w @ t \<and> command_step (fs_abs (kd_blocks vb) fs) cmd t (fs_abs (kd_blocks vb) fs')"
    if "ran dv vb vok w fs cmd (Some w')" for w'
    using that mounted_replace [OF assms(2)] command_step_tree [OF _ fs_invD(5) [OF mounted_inv [OF assms(2)]] assms(3)]
    by (fastforce simp: ran_def)
  have "call_fs V cmd w \<noteq> None" if "ran dv vb vok w fs cmd (call_fs V cmd w)" using that by (auto simp: ran_def)
  then show ?thesis using law step by (metis option.distinct(1))
qed

theorem command_refines_witness:
  "\<exists>fs w'. mounted Ramdisk (\<lambda>d. d) sectors_ok (sw_fs (world_with fs)) fs \<and> call_fs (virtio_device sector_disk) (Cat [47, 97]) (world_with fs) = Some w' \<and>
     sw_out w' = str_lit ''cat failed: NotFound'' @ [10]"
proof -
  from kernel_empty obtain fs where fs: "fs_inv (kd_blocks (\<lambda>d. d)) (kd_ok Ramdisk sectors_ok) fs" "fs_abs (kd_blocks (\<lambda>d. d)) fs = empty_tree" by blast
  note w = world_with_ok [OF fs]
  have nf: "spec_resolve empty_tree [47, 97] = Inl NotFound"
    by (simp add: spec_resolve_def empty_tree_def entries_of_def rsplit_once_def SLASH_def path_parts_def DOT_def DOTDOT_def)
  then have np: "\<not> command_panics (kd_blocks (\<lambda>d. d)) fs (Cat [47, 97])" by (simp add: command_panics_def cat_panics_def fs(2))
  have cmd: "on_filesystem (Cat [47, 97])" "command_ok (Cat [47, 97])" by (simp_all add: on_filesystem_def command_ok_def)
  from command_refines [OF vdisk.block_device_axioms w(1,2) cmd] np obtain w' fs' where
    r: "call_fs (virtio_device sector_disk) (Cat [47, 97]) (world_with fs) = Some w'"
      "command_step empty_tree (Cat [47, 97]) (sw_out w') (fs_abs (kd_blocks (\<lambda>d. d)) fs')"
    by (cases "call_fs (virtio_device sector_disk) (Cat [47, 97]) (world_with fs)") (auto simp: fs(2), auto simp: world_with_def)
  from r(2) have "sw_out w' = failed ''cat failed: '' NotFound" by (rule step_catE) (simp_all add: nf on_filesystem_def)
  then show ?thesis using r(1) w(1) by (auto simp: failed_def str_lit_def NEWLINE_def)
qed

text \<open>
  C4: a session at the shell, on any device with the contract and from any sound state. Whatever bytes other than NUL arrive
  at the UART, escape sequences and unknown commands included, if the shell has not panicked then: the terminal shows
  the echoes of the editor and the texts of the steps, in the order of the lines, and nothing else; the tree is the
  one that these steps lead to; the filesystem is sound and its lock free, the directories form a tree, the heap is
  sound and has lost at most what \<open>allocate\<close> leaks. The shell halts exactly at the first \<open>exit\<close>, and then the disk
  holds the tree that was reached, ready to be mounted.
\<close>
theorem session_refines:
  assumes "block_device V vb vok" and "world_ok dv vb vok start e st w fs live" and "history_ok h" and "0 \<notin> set input"
    and "shell_loop V sysinfo clock k h input w = Some (end, h', w')"
  shows "\<exists>fs' live' out. session (fs_abs (kd_blocks vb) fs) (typed_rounds h input) out end (fs_abs (kd_blocks vb) fs') \<and>
    sw_out w' = sw_out w @ out \<and> world_ok dv vb vok start e st w' fs' live' \<and> live \<subseteq> live' \<and>
    (end = Halted \<longrightarrow> (\<exists>l ibm dbm. disk_holds (kd_blocks vb (fs_device fs')) l ibm dbm (fs_abs (kd_blocks vb) fs')))"
  by (rule kernel_service.session_law [OF kernel_service.intro [OF assms(1)] assms(2-5)])

text \<open>The session \<open>touch /a\<close>, \<open>exit\<close> on the empty filesystem: it halts, and the disk holds the new file.\<close>

lemma small_lines:
  "from_line (str_lit ''touch /a'') = Some (Some (Touch [47, 97]))" "from_line (str_lit ''exit'') = Some (Some Exit)"
proof -
  have "visible_text (str_lit ''touch'')" "str_lit ''touch'' \<noteq> []" "visible_text [47, 97]" by (simp_all add: visible_text_def str_lit_def)
  from typed_parts [OF this] have "split_at_char 32 (trim (str_lit ''touch /a'')) = [str_lit ''touch'', [47, 97]]" by (simp add: str_lit_def)
  moreover have "command_of [str_lit ''touch'', q] = Some (Some (Touch (normalize_root_path q)))" for q
    unfolding command_of_def Let_def by (simp add: str_lit_def list_get_def)
  ultimately show "from_line (str_lit ''touch /a'') = Some (Some (Touch [47, 97]))"
    using normalize_rooted [of "[47, 97]"] by (simp add: from_line_split SLASH_def)
  have "trim (str_lit ''exit'') = str_lit ''exit''" using trim_visible [of 101 116 "str_lit ''xi''"] by (simp add: str_lit_def)
  moreover have "split_at_char 32 (str_lit ''exit'') = [str_lit ''exit'']" by (simp add: str_lit_def)
  moreover have "command_of [str_lit ''exit''] = Some (Some Exit)" unfolding command_of_def Let_def by (simp add: str_lit_def)
  ultimately show "from_line (str_lit ''exit'') = Some (Some Exit)" by (simp add: from_line_split)
qed

lemma shell_loop_exit:
  assumes "typed line" and "run_line V sysinfo (fst (clock k)) (snd (clock k)) line (history_push h line)
      (w\<lparr>sw_out := sw_out w @ str_lit ''> '' @ line @ NEWLINE\<rparr>) = Some (Halted, w')"
  shows "shell_loop V sysinfo clock k h (line @ 13 # rest) w = Some (Halted, history_push h line, w')"
  using assms(2) read_line_typed [OF assms(1), of h rest "sw_out w"]
  by (subst shell_loop.simps) (simp add: case_prod_unfold Let_def)

context kernel_service
begin

lemma small_session:
  assumes m0: "mounted dv vb vok (sw_fs w) fs" and empty: "fs_abs (kd_blocks vb) fs = empty_tree"
  shows "\<exists>h w'. shell_loop V sysinfo clock 0 history_new (str_lit ''touch /a'' @ 13 # str_lit ''exit'' @ [13]) w = Some (Halted, h, w')"
proof -
  let ?w = "\<lambda>w line. w\<lparr>sw_out := sw_out w @ str_lit ''> '' @ line @ NEWLINE\<rparr>"
  let ?w1 = "?w w (str_lit ''touch /a'')"
  have ty: "typed (str_lit ''touch /a'')" "typed (str_lit ''exit'')" by (simp_all add: typed_def str_lit_def)
  have m: "mounted dv vb vok (sw_fs ?w1) fs" and t: "tree_like (fs_abs (kd_blocks vb) fs)" using m0 empty tree_like_empty by simp_all
  have "length (entries_of empty_tree p) \<noteq> 18" for p by (simp add: entries_of_def empty_tree_def)
  then have "\<not> command_panics (kd_blocks vb) fs (Touch [47, 97])"
    by (simp add: command_panics_def create_panics_def empty split: sum.splits)
  moreover have "command_ok (Touch [47, 97])" "on_filesystem (Touch [47, 97])" by (simp_all add: command_ok_def path_ok_def on_filesystem_def)
  ultimately have "ran dv vb vok ?w1 fs (Touch [47, 97]) (call_fs V (Touch [47, 97]) ?w1)" using call_fs_law [OF m t] by simp
  then obtain fs' s where r: "call_fs V (Touch [47, 97]) ?w1 = Some (?w1\<lparr>sw_fs := replace_fs (sw_fs ?w1) fs', sw_out := sw_out ?w1 @ s\<rparr>)"
    "fs_inv (kd_blocks vb) (kd_ok dv vok) fs'" by (auto simp: ran_def)
  let ?w2 = "?w1\<lparr>sw_fs := replace_fs (sw_fs ?w1) fs', sw_out := sw_out ?w1 @ s\<rparr>"
  have "mounted dv vb vok (sw_fs (?w ?w2 (str_lit ''exit''))) fs'" using mounted_replace [OF m r(2)] by simp
  from api_flush_law [OF this] have
    "\<exists>w3. run_line V sysinfo t0 t1 (str_lit ''exit'') h (?w ?w2 (str_lit ''exit'')) = Some (Halted, w3)" for h t0 t1
    by (auto simp: run_line_def small_lines shell_call_def exit_shell_def)
  then obtain w3 where "run_line V sysinfo (fst (clock 1)) (snd (clock 1)) (str_lit ''exit'')
      (history_push (history_push history_new (str_lit ''touch /a'')) (str_lit ''exit'')) (?w ?w2 (str_lit ''exit'')) = Some (Halted, w3)" by blast
  moreover have "run_line V sysinfo t0 t1 (str_lit ''touch /a'') h ?w1 = Some (Running, ?w2)" for h t0 t1
    using r(1) by (simp add: run_line_def small_lines shell_call_def)
  ultimately show ?thesis
    using shell_loop_typed [OF ty(1), where k = 0 and rest = "str_lit ''exit'' @ [13]" and w' = ?w2]
      shell_loop_exit [OF ty(2), where k = 1 and rest = "[]" and w' = w3 and w = ?w2]
    by simp
qed

end

theorem session_refines_witness:
  "\<exists>fs h w' fs' out l ibm dbm. shell_loop (virtio_device sector_disk) None (\<lambda>k. (0, 0)) 0 history_new
      (str_lit ''touch /a'' @ 13 # str_lit ''exit'' @ [13]) (world_with fs) = Some (Halted, h, w') \<and>
    session empty_tree (typed_rounds history_new (str_lit ''touch /a'' @ 13 # str_lit ''exit'' @ [13])) out Halted (fs_abs (kd_blocks (\<lambda>d. d)) fs') \<and>
    disk_holds (kd_blocks (\<lambda>d. d) (fs_device fs')) l ibm dbm (fs_abs (kd_blocks (\<lambda>d. d)) fs')"
proof -
  from kernel_empty obtain fs where fs: "fs_inv (kd_blocks (\<lambda>d. d)) (kd_ok Ramdisk sectors_ok) fs" "fs_abs (kd_blocks (\<lambda>d. d)) fs = empty_tree" by blast
  from vservice.small_session [OF world_with_ok(1) [OF fs] fs(2)] obtain h w' where r: "shell_loop (virtio_device sector_disk) None (\<lambda>k. (0, 0)) 0 history_new
      (str_lit ''touch /a'' @ 13 # str_lit ''exit'' @ [13]) (world_with fs) = Some (Halted, h, w')" by blast
  have "history_ok history_new" "0 \<notin> set (str_lit ''touch /a'' @ 13 # str_lit ''exit'' @ [13])" by (simp_all add: history_ok_def history_new_def str_lit_def)
  from session_refines [OF vdisk.block_device_axioms world_with_ok(3) [OF fs] this r] fs(2) r show ?thesis by fastforce
qed

end
