(* ===== verification/Spec2Isabelle.thy ===== *)
theory Spec2Isabelle
  imports Scheduler Boot Virtio Mkfs_Correct Shell_Session
begin

text \<open>
  LemonShark is a small RISC-V kernel (\<open>src/src\<close>) with the crates it is built from (\<open>bitmap\<close>,
  \<open>allocator\<close>, \<open>virtual_memory\<close>, \<open>filesystem\<close>) and the host tool \<open>mkfs\<close> that builds its disk image. This
  development models the code of all of them, crate by crate and function by function, and proves what
  each part promises to the others.

  \<^bold>\<open>The program.\<close> At boot the kernel sets up its heap and its log, reads the device tree, hands the free RAM to
  the page-frame allocator, builds its page table from frames, mounts the filesystem on a block device and
  runs a shell. Traps and timer interrupts enter through an assembly vector; a round-robin scheduler exists
  but is not started by the boot path. The same filesystem crate runs on the host inside \<open>mkfs\<close>.

  \<^bold>\<open>Conventions.\<close> \<open>Kernel_Prelude\<close> fixes the types: \<open>usize\<close> is a natural number with its
  checked operations written out, and \<open>u8\<close>, \<open>u32\<close> and \<open>u64\<close> are words where bits or wrap-around matter. A
  result of type \<open>panics\<close> is missing where the code panics (a failed assertion, an index out of range, an
  arithmetic overflow, \<open>unwrap\<close>), where it waits for a lock that is never released and where a loop never
  ends; \<open>Result\<close> is a sum with the error on the left. Mutable state is passed and returned: records for
  structs, a function from addresses to words for memory that the code overlays with headers, tables or
  frames. Code outside the repository (the device-tree parser, the devices and the VirtIO driver crate, the
  host's file calls, the time counter) is an argument; what is assumed of it is a named hypothesis or a locale.

  \<^bold>\<open>Memory.\<close>
  \<^item> \<open>Bitmap\<close> (\<open>bitmap/src/lib.rs\<close>): the words of a bitmap and the set of indices it stands for; \<open>set\<close>,
    \<open>unset\<close>, \<open>is_set\<close>, \<open>find_free\<close> and \<open>drain_ones\<close> refine the operations on that set.
  \<^item> \<open>Phys_Range\<close> (\<open>virtual_memory/src/physical_range.rs\<close>) and \<open>Device_Tree\<close> (\<open>src/device_tree.rs\<close>): ranges,
    their normal form and the subtraction of reservations; discovery from a parsed tree. What discovery
    returns is related to the addresses of the tree's nodes.
  \<^item> \<open>Page_Frames\<close> (\<open>src/page_frame_allocator.rs\<close>): arenas of frames over bitmaps; no frame is handed out
    twice, none lies in reserved memory, and exactly the taken frames can be freed.
  \<^item> \<open>Virtual_Memory\<close> (\<open>virtual_memory/src/lib.rs\<close>) and \<open>Kernel_Paging\<close> (\<open>src/page_table.rs\<close>): Sv39 tables in
    physical memory, \<open>PageTable::map\<close> and the boot map, against the hardware's table walk. The source of
    frames is the locale \<open>frame_source\<close>, interpreted on the page-frame allocator.
  \<^item> \<open>Free_List\<close> (\<open>allocator/src/lib.rs\<close>) and \<open>Kernel_Heap\<close> (\<open>src/allocator.rs\<close>): the first-fit heap whose
    list lives in the memory it manages, over an address-indexed memory; safety, completeness, coalescing
    and statistics in every reachable heap. The locale \<open>heap_service\<close> states what the kernel's collections
    rely on and is interpreted on the locked allocator.

  \<^bold>\<open>Machine.\<close>
  \<^item> \<open>Riscv\<close> (\<open>src/riscv.rs\<close>, \<open>src/interrupts.rs\<close>): control registers and the critical section.
  \<^item> \<open>Trap_Handler\<close> (\<open>src/trap_handler.rs\<close>, \<open>src/timer.rs\<close>): the entry and exit assembly instruction by
    instruction and the Rust handler between them. What the compiled handler leaves in the registers is an
    argument.
  \<^item> \<open>Scheduler\<close> (\<open>src/scheduler.rs\<close>): round robin and process creation.
  \<^item> \<open>Uart\<close> (\<open>src/println.rs\<close>, \<open>src/lib.rs\<close>, \<open>src/sbi.rs\<close>): the terminal, the panic handler and the calls into the
    firmware.
  \<^item> \<open>Virtio\<close> (\<open>src/virtio.rs\<close>): the legacy block driver, register access by register access, on a device that may
    answer anything; the theorem is about the trace of accesses. \<open>Virtio_Drivers\<close> (\<open>src/virtio2.rs\<close>): the console
    search, the block device behind the filesystem and the memory lent to the driver crate. What the crate
    documents of its block device (\<open>blk_documented\<close>) gives the contract \<open>block_device\<close>.

  \<^bold>\<open>Filesystem.\<close>
  \<^item> \<open>Byte_IO\<close>, \<open>FS_Layout\<close>, \<open>FS_Nodes\<close>: the byte cursor, the typed indices, the layout computation (a loop
    that may not end, hence a partial function), i-nodes, directory entries and superblock with their
    encodings.
  \<^item> \<open>Block_Device\<close>: the trait as a record of operations; the ramdisk and the image file. The contract is
    the locale \<open>block_device\<close>, interpreted on both and, in \<open>Kernel_FS\<close>, on the kernel's device.
  \<^item> \<open>INode_Cache\<close>, \<open>Filesystem\<close>, \<open>FS_Output\<close>: the write-back cache, every operation of
    \<open>filesystem/src/filesystem.rs\<close>, and the listings.
  \<^item> \<open>FS_State\<close>, \<open>FS_Model\<close>, \<open>FS_Files\<close>, \<open>FS_Create\<close>, \<open>FS_Remove\<close>, \<open>FS_Mount\<close>: the laws of the operations,
    proved inside \<open>block_device\<close>. \<open>fs_abs\<close> reads an abstract tree (\<open>afs\<close>: files are byte strings, directories
    lists of names and indices) off a state; \<open>fs_inv\<close> is the invariant: cache, bitmaps and disk agree,
    i-nodes share no block, the data bitmap marks exactly the blocks in use, and the tree is well formed.
    \<open>disk_holds\<close> says of the blocks alone, whatever device has them, that they hold a tree: flushing
    establishes it and mounting needs it.
  \<^item> \<open>FS_Correct\<close>: the results: reachable states, refinement of create, append, read and remove, the round
    trip through \<open>flush\<close> and a mount, \<open>format\<close>, and a file that outlives a mount. \<open>FS_Tree\<close>: the
    directories of a reachable state form a tree (\<open>tree_like\<close>), which no local condition says. \<open>FS_Listing\<close>: hence
    \<open>tree\<close> ends; the text that \<open>tree\<close> and \<open>dump_dir\<close> print.
  \<^item> \<open>Kernel_FS\<close> (\<open>src/filesystem.rs\<close>): the device that is either ramdisk or VirtIO disk, the lock, the API and
    the page dump.

  \<^bold>\<open>Shell, log and image builder.\<close>
  \<^item> \<open>Console_Text\<close>, \<open>Shell\<close> (\<open>src/shell.rs\<close>): number formatting and parsing, UTF-8; history, line editor,
    parser, commands and loop. \<open>Shell_Heap\<close>: the allocating commands on the kernel heap. \<open>Shell_Session\<close>: the
    commands as labelled steps on the abstract tree (\<open>command_step\<close>), sessions as sequences of them, and that the
    shell on the mounted filesystem refines them; the locale \<open>kernel_service\<close> has the device below as its
    parameter and gives, as a sublocale, the contract of the dispatching device.
  \<^item> \<open>Klog\<close> (\<open>src/klog.rs\<close>): log lines in a fixed buffer, the early buffer and the console.
  \<^item> \<open>Mkfs\<close>, \<open>Mkfs_Correct\<close> (\<open>mkfs/src\<close>): the command line, the import and the replacement of the image;
    a successful build holds the whole source tree.

  \<^bold>\<open>The whole.\<close> \<open>Boot\<close> (\<open>src/main.rs\<close>, \<open>src/kernel_layout.rs\<close>, \<open>src/logo.rs\<close>) composes the components in the
  order of \<open>_start\<close> and proves that the composition reaches the shell, from hypotheses about the machine
  only (\<open>machine_ok\<close>). This theory adds what spans the host and the kernel, and two boots: a file that \<open>mkfs\<close>
  packs is what the booted kernel prints, and what a user did before \<open>exit\<close> is there after the next boot.

  \<^bold>\<open>Loops and bounds.\<close> Recursion that is not structural has a termination proof. \<open>layout_loop\<close>,
  \<open>walk_list\<close> and \<open>tree\<close> follow data and are partial functions in the option type, so that not returning is
  a missing result; the theorems about them show when a result exists. No fuel is used.

  \<^bold>\<open>Not modelled.\<close> The code in \<open>tests\<close> modules and \<open>src/tests\<close>, and the test runner; the log lines of the
  components other than \<open>_start\<close> and the panic handler, which are arguments of the boot; the program counter during the jump to
  the upper half at the end of \<open>page_table::init\<close>; concurrency beyond interrupts on the single hart; the heap
  traffic of strings and vectors outside the shell's allocating commands; the third-party crates.
\<close>

section \<open>Properties that span components\<close>

text \<open>
  C6: the boot path from the device tree to the page-frame allocator. If discovery of the blob at
  \<open>addr\<close> succeeds and the linker labels are sane, the allocator is created without a panic, hands
  out nothing yet, and its frames are exactly the whole pages of the enabled memory nodes that meet
  neither a firmware reservation, nor the blob, nor the kernel image.
\<close>

theorem boot_page_frames:
  assumes "device_tree_init from_ptr rd None addr = Some (Some info, Inr ())"
    and "kernel_start layout < kernel_end layout" and "kernel_end layout < usize_limit"
  shows "\<exists>p t. page_frame_allocator_init None info layout = Some (Some p) \<and> from_ptr addr = Some t \<and>
    pfa_taken p = {} \<and>
    pfa_frames p = {n * PAGE_SIZE |n. page n \<subseteq>
      (\<Union>m \<in> {m \<in> set (all_nodes t). node_is_enabled m \<and> prop_device_type m = Some ''memory''}. node_addrs m) -
      (ranges_addrs (si_reserved_memory_regions info) \<union> {addr ..< addr + total_size t} \<union> kernel_image layout)}"
proof -
  from assms(1) have "system_info_new from_ptr rd addr = Some (Inr info)"
    by (auto simp: device_tree_init_def split: Option.bind_splits sum.splits)
  from system_info_new_Inr [OF this] obtain t where t: "from_ptr addr = Some t"
    "collect_memory_regions t = Inr (si_memory_regions info)"
    "collect_reserved_memory_regions t = Inr (si_reserved_memory_regions info)"
    "from_start_size addr (total_size t) = Inr (si_fdt_range info)" by blast
  note mem = collect_memory_regions_Inr [OF t(2)]
  have "info_ok info"
    using mem(2) collect_reserved_memory_regions_Inr(2) [OF t(3)] from_start_size_ok [OF t(4)]
    by (simp add: info_ok_def)
  from pfa_new_spec [OF this assms(2,3)] obtain p where p: "pfa_new info layout = Some p" "pfa_ok p"
    "pfa_taken p = {}" "ranges_addrs (pfa_ranges p) = \<Union> {page n |n. page n \<subseteq> free_ram info layout}" by blast
  have "pr_addrs (si_fdt_range info) = {addr ..< addr + total_size t}"
    using t(4) by (auto simp: from_start_size_Inr pr_addrs_def)
  then have ram: "free_ram info layout =
      (\<Union>m \<in> {m \<in> set (all_nodes t). node_is_enabled m \<and> prop_device_type m = Some ''memory''}. node_addrs m) -
      (ranges_addrs (si_reserved_memory_regions info) \<union> {addr ..< addr + total_size t} \<union> kernel_image layout)"
    by (simp add: free_ram_def mem(4))
  have "pfa_frames p = {n * PAGE_SIZE |n. page n \<subseteq> free_ram info layout}"
    using free_page_frame [OF p(2,4)] free_page_is_frame [OF p(2,4)] by blast
  then show ?thesis using p(1,3) t(1) unfolding ram by (auto simp: page_frame_allocator_init_def)
qed

theorem boot_page_frames_witness:
  "\<exists>p. page_frame_allocator_init None sample_info sample_layout = Some (Some p) \<and> pfa_taken p = {}"
proof -
  have "device_tree_init (\<lambda>a. if a = 0x8000E000 then Some sample_tree else None) (\<lambda>_. 2) None 0x8000E000 =
      Some (Some sample_info, Inr ())" by (simp add: device_tree_init_def sample_discovery)
  from boot_page_frames [OF this sample_ok(2,3)] show ?thesis by blast
qed

text \<open>
  C2: from the host's directory to the user's terminal. If \<open>mkfs\<close> succeeds on a source tree, the image it
  writes is the disk of a machine that the kernel is made for, and the tree has a file at \<open>q\<close> whose blocks are
  text, then the kernel boots from that disk, and a user who types \<open>cat\<close> and the path sees exactly the
  contents of the file, behind the logo, the greeting, the prompt and the echo of the command; then the prompt
  waits for the next one.
\<close>

theorem host_file_on_terminal:
  assumes build: "build_image h files cfg = Some (files', Inr summary)" "h_source h = Inr (HDir (Inr es))" "host_names_ok es"
      "files' (cfg_output cfg) = Some img"
    and machine: "machine_ok E s addr info p blocks ok (chunks img)"
    and entry: "host_entry es [SLASH] q (Some c)" "utf8_blocks 16 c" and q: "visible_text q" "q \<noteq> []" "hd q = SLASH"
  shows "\<exists>hist w. start_kernel E addr clock (str_lit ''cat '' @ q @ [13]) s = Some (Running, hist, w) \<and>
    sw_out w = ks_uart s @ SHARK @ NEWLINE @ str_lit ''Welcome to LemonShark v0.0.1'' @ NEWLINE @
      str_lit ''> cat '' @ q @ NEWLINE @ c @ NEWLINE @ str_lit ''> ''"
proof -
  from build_image_spec [OF build(1)] build(2,3) obtain img' l ibm dbm t where
    b: "files' = files(cfg_output cfg \<mapsto> img')" "disk_holds (chunks img') l ibm dbm t" "tree_like t" "\<forall>q co. host_entry es [SLASH] q co \<longrightarrow> holds_at t q co" by auto
  have "img' = img" using b(1) build(4) by simp
  with b(2) have "disk_holds (chunks img) l ibm dbm t" by simp
  from boot_spec [OF machine this refl] obtain s' fs where s': "boot E addr s = Some s'" "\<not> mx_locked (ks_fs s')"
    "lf_inner (mx_inner (ks_fs s')) = Some fs" "fs_inv (kd_blocks blocks) (kd_ok VirtIO ok) fs" "fs_abs (kd_blocks blocks) fs = t"
    "ks_uart s' = ks_uart s @ SHARK @ NEWLINE @ str_lit ''Welcome to LemonShark v0.0.1'' @ NEWLINE" by blast
  from b(4) entry(1) have "holds_at t q (Some c)" by blast
  then obtain d nm i where r: "spec_resolve t q = Inr (d, nm, i)" "t i = Some (File c)"
    by (auto simp: holds_at_def split: sum.splits prod.splits)
  have V: "block_device (virtio_device (be_blk E)) blocks ok"
    using machine by (intro virtio_device_contract) (simp add: machine_ok_def)
  let ?w = "(shell_view s')\<lparr>sw_out := ks_uart s' @ str_lit ''> '' @ (str_lit ''cat '' @ q) @ NEWLINE\<rparr>"
  have w: "\<not> mx_locked (sw_fs ?w)" "lf_inner (mx_inner (sw_fs ?w)) = Some fs" using s'(2,3) by (simp_all add: shell_view_def)
  from cat_line [OF V w s'(4) r [folded s'(5)] entry(2) q] obtain x where
    run: "run_line (virtio_device (be_blk E)) (ks_sysinfo s') (fst (clock 0)) (snd (clock 0)) (str_lit ''cat '' @ q)
      (history_push history_new (str_lit ''cat '' @ q)) ?w = Some (Running, ?w\<lparr>sw_fs := x, sw_out := sw_out ?w @ c @ NEWLINE\<rparr>)" by blast
  have "typed (str_lit ''cat '' @ q)" using visible_typed [OF q(1)] by (simp add: typed_def str_lit_def)
  from shell_loop_typed [OF this, where k = 0 and rest = "[]" and w = "shell_view s'"] run s'(1,6) show ?thesis
    by (simp add: start_kernel_def shell_def shell_loop_waits shell_view_def) (simp add: str_lit_def)
qed

text \<open>A source directory with the file \<open>a\<close> that contains \<open>hi\<close>, on the small machine.\<close>

theorem host_file_on_terminal_witness:
  "\<exists>files summary img hist w. build_image sample_host (\<lambda>p. None) sample_config = Some (files, Inr summary) \<and>
     files (cfg_output sample_config) = Some img \<and>
     start_kernel (sample_env (chunks img)) 0x8000E000 (\<lambda>k. (0, 0)) (str_lit ''cat /a'' @ [13]) sample_kernel = Some (Running, hist, w) \<and>
     sw_out w = SHARK @ NEWLINE @ str_lit ''Welcome to LemonShark v0.0.1'' @ NEWLINE @
       str_lit ''> cat /a'' @ NEWLINE @ str_lit ''hi'' @ NEWLINE @ str_lit ''> ''"
proof -
  from sample_run obtain files sm where run: "build_image sample_host (\<lambda>p. None) sample_config = Some (files, Inr sm)" by blast
  have src: "h_source sample_host = Inr (HDir (Inr sample_entries))" by (simp add: sample_host_def)
  from build_image_spec [OF run] src sample_names obtain img l ibm dbm t where
    img: "files = (\<lambda>p. None)(cfg_output sample_config \<mapsto> img)" "disk_holds (chunks img) l ibm dbm t" by auto
  have "length (chunks img) < 2 ^ 32" using img(2) by (simp add: disk_holds_def fs_inv_def fs_struct_def fs_ok_def geometry_ok_def)
  then have "sectors_ok (chunks img)" using chunks_size by (auto simp: sectors_ok_def)
  note m = sample_machine_ok [OF this]
  have e: "host_entry sample_entries [SLASH] (str_lit ''/a'') (Some (str_lit ''hi''))"
    using host_file [of "[97]" "Inr 2" "[104, 105]" sample_entries "[SLASH]"]
    by (simp add: sample_entries_def child_path_def SLASH_def str_lit_def)
  have u: "utf8_blocks 16 (str_lit ''hi'')" unfolding utf8_blocks_def
    by (intro allI impI valid_utf8_ascii) (auto simp: list_all_iff str_lit_def dest!: in_set_takeD in_set_dropD)
  have q: "visible_text (str_lit ''/a'')" "str_lit ''/a'' \<noteq> []" "hd (str_lit ''/a'') = SLASH"
    by (simp_all add: visible_text_def str_lit_def SLASH_def)
  have f: "files (cfg_output sample_config) = Some img" using img(1) by simp
  have s: "ks_uart sample_kernel = []" by (simp add: sample_kernel_def)
  have t: "str_lit ''cat /a'' = str_lit ''cat '' @ str_lit ''/a''" "str_lit ''> cat /a'' = str_lit ''> cat '' @ str_lit ''/a''" by (simp_all add: str_lit_def)
  from host_file_on_terminal [OF run src sample_names f m e u q, where clock = "\<lambda>k. (0, 0)"] run f show ?thesis
    unfolding s t by auto
qed

text \<open>
  C1: work survives a reboot. A kernel boots from a disk whose tree has no cycle, a user types anything but NUL, and the
  kernel halts, which it does only at \<open>exit\<close>. Then the terminal shows the logo, the greeting and what the session on
  the tree prints, and every machine that the kernel is made for and that has this disk boots to a filesystem with
  exactly the tree that the session led to.
\<close>

theorem work_survives_reboot:
  assumes machine: "machine_ok E s addr info p blocks ok img" and disk: "disk_holds img l ibm dbm t" "tree_like t"
    and input: "0 \<notin> set input" and run: "start_kernel E addr clock input s = Some (Halted, hist, w)"
  shows "\<exists>t' out fs. session t (typed_rounds history_new input) out Halted t' \<and> tree_like t' \<and>
    sw_out w = ks_uart s @ SHARK @ NEWLINE @ str_lit ''Welcome to LemonShark v0.0.1'' @ NEWLINE @ out \<and>
    lf_inner (mx_inner (sw_fs w)) = Some fs \<and> ok (kd_virtio (fs_device fs)) \<and>
    (\<forall>(E2 :: ('d2, 't2, 'b2) boot_env) s2 addr2 info2 p2 blocks2 ok2.
       machine_ok E2 s2 addr2 info2 p2 blocks2 ok2 (blocks (kd_virtio (fs_device fs))) \<longrightarrow>
       (\<exists>s3 fs3. boot E2 addr2 s2 = Some s3 \<and> lf_inner (mx_inner (ks_fs s3)) = Some fs3 \<and>
          fs_inv (kd_blocks blocks2) (kd_ok VirtIO ok2) fs3 \<and> fs_abs (kd_blocks blocks2) fs3 = t'))"
proof -
  from boot_spec [OF machine disk(1) refl] obtain s' fs0 where s': "boot E addr s = Some s'"
    "locked_inv (heap_start (from_labels (be_labels E))) (heap_end (from_labels (be_labels E))) (csr_sstatus (mc_csrs (ks_machine s')))
       (mc_csrs (ks_machine s'), ks_heap s') {}" "\<not> mx_locked (ks_fs s')"
    "lf_inner (mx_inner (ks_fs s')) = Some fs0" "fs_inv (kd_blocks blocks) (kd_ok VirtIO ok) fs0" "fs_abs (kd_blocks blocks) fs0 = t"
    "ks_uart s' = ks_uart s @ SHARK @ NEWLINE @ str_lit ''Welcome to LemonShark v0.0.1'' @ NEWLINE" by blast
  have V: "block_device (virtio_device (be_blk E)) blocks ok"
    using machine by (intro virtio_device_contract) (simp add: machine_ok_def)
  have w0: "world_ok VirtIO blocks ok (heap_start (from_labels (be_labels E))) (heap_end (from_labels (be_labels E)))
      (csr_sstatus (mc_csrs (ks_machine s'))) (shell_view s') fs0 {}"
    using s'(2-6) disk(2) by (simp add: world_ok_def mounted_def shell_view_def)
  have "shell_loop (virtio_device (be_blk E)) (ks_sysinfo s') clock 0 history_new input (shell_view s') = Some (Halted, hist, w)"
    using run s'(1) by (simp add: start_kernel_def shell_def)
  moreover have "history_ok history_new" by (simp add: history_ok_def history_new_def)
  ultimately obtain fs live out l2 ibm2 dbm2 where
    r: "session t (typed_rounds history_new input) out Halted (fs_abs (kd_blocks blocks) fs)" "sw_out w = sw_out (shell_view s') @ out"
      "world_ok VirtIO blocks ok (heap_start (from_labels (be_labels E))) (heap_end (from_labels (be_labels E)))
        (csr_sstatus (mc_csrs (ks_machine s'))) w fs live"
      "disk_holds (kd_blocks blocks (fs_device fs)) l2 ibm2 dbm2 (fs_abs (kd_blocks blocks) fs)"
    using kernel_service.session_law [OF kernel_service.intro [OF V] w0 _ input] s'(6) by blast
  have fs: "lf_inner (mx_inner (sw_fs w)) = Some fs" "tree_like (fs_abs (kd_blocks blocks) fs)" "fs_inv (kd_blocks blocks) (kd_ok VirtIO ok) fs"
    using r(3) by (simp_all add: world_ok_def mounted_def)
  have dev: "kd_blocks blocks (fs_device fs) = blocks (kd_virtio (fs_device fs))" "ok (kd_virtio (fs_device fs))"
    using fs_okD(1) [OF fs_invD(1) [OF fs(3)]] by (simp_all add: kd_ok_def kd_blocks_def)
  note d = r(4) [unfolded dev(1)]
  have again: "\<exists>s3 fs3. boot E2 addr2 s2 = Some s3 \<and> lf_inner (mx_inner (ks_fs s3)) = Some fs3 \<and>
      fs_inv (kd_blocks blocks2) (kd_ok VirtIO ok2) fs3 \<and> fs_abs (kd_blocks blocks2) fs3 = fs_abs (kd_blocks blocks) fs"
    if "machine_ok E2 s2 addr2 info2 p2 blocks2 ok2 (blocks (kd_virtio (fs_device fs)))"
    for E2 :: "('d2, 't2, 'b2) boot_env" and s2 addr2 info2 p2 blocks2 ok2 using boot_spec [OF that d refl] by blast
  have out: "sw_out w = ks_uart s @ SHARK @ NEWLINE @ str_lit ''Welcome to LemonShark v0.0.1'' @ NEWLINE @ out"
    using r(2) s'(7) by (simp add: shell_view_def)
  show ?thesis
    by (rule exI [of _ "fs_abs (kd_blocks blocks) fs"], rule exI [of _ out], rule exI [of _ fs]) (intro conjI r(1) fs(1,2) out dev(2) allI impI again)
qed

text \<open>On the small machine: \<open>touch /a\<close> and \<open>exit\<close>, then the same machine boots from the disk that was left.\<close>

theorem work_survives_reboot_witness:
  "\<exists>img hist w out fs s3 fs3. start_kernel (sample_env img) 0x8000E000 (\<lambda>k. (0, 0)) (str_lit ''touch /a'' @ 13 # str_lit ''exit'' @ [13]) sample_kernel =
       Some (Halted, hist, w) \<and>
     session empty_tree (typed_rounds history_new (str_lit ''touch /a'' @ 13 # str_lit ''exit'' @ [13])) out Halted (fs_abs (kd_blocks (\<lambda>d. d)) fs3) \<and>
     lf_inner (mx_inner (sw_fs w)) = Some fs \<and>
     boot (sample_env (kd_virtio (fs_device fs))) 0x8000E000 sample_kernel = Some s3 \<and> lf_inner (mx_inner (ks_fs s3)) = Some fs3"
proof -
  let ?input = "str_lit ''touch /a'' @ 13 # str_lit ''exit'' @ [13]"
  from sample_disk obtain img l ibm dbm where img: "sectors_ok img" "disk_holds img l ibm dbm empty_tree" by blast
  note m = sample_machine_ok [OF img(1)]
  from boot_spec [OF m img(2) refl] obtain s' fs0 where s': "boot (sample_env img) 0x8000E000 sample_kernel = Some s'" "\<not> mx_locked (ks_fs s')"
    "lf_inner (mx_inner (ks_fs s')) = Some fs0" "fs_inv (kd_blocks (\<lambda>d. d)) (kd_ok VirtIO sectors_ok) fs0" "fs_abs (kd_blocks (\<lambda>d. d)) fs0 = empty_tree" by blast
  have "mounted VirtIO (\<lambda>d. d) sectors_ok (sw_fs (shell_view s')) fs0" using s'(2-4) by (simp add: mounted_def shell_view_def)
  from vservice.small_session [OF this s'(5)] obtain hist w where
    "shell_loop (virtio_device sector_disk) (ks_sysinfo s') (\<lambda>k. (0, 0)) 0 history_new ?input (shell_view s') = Some (Halted, hist, w)" by blast
  then have run: "start_kernel (sample_env img) 0x8000E000 (\<lambda>k. (0, 0)) ?input sample_kernel = Some (Halted, hist, w)"
    using s'(1) by (simp add: start_kernel_def shell_def sample_env_def)
  have "0 \<notin> set ?input" by (simp add: str_lit_def)
  from work_survives_reboot [OF m img(2) tree_like_empty this run] obtain t' out fs where
    r: "session empty_tree (typed_rounds history_new ?input) out Halted t'" "lf_inner (mx_inner (sw_fs w)) = Some fs" "sectors_ok (kd_virtio (fs_device fs))"
      "machine_ok E2 s2 addr2 info2 p2 blocks2 ok2 (kd_virtio (fs_device fs)) \<longrightarrow>
       (\<exists>s3 fs3. boot E2 addr2 s2 = Some s3 \<and> lf_inner (mx_inner (ks_fs s3)) = Some fs3 \<and>
          fs_inv (kd_blocks blocks2) (kd_ok VirtIO ok2) fs3 \<and> fs_abs (kd_blocks blocks2) fs3 = t')"
    for E2 :: "(unit, unit, bytes list) boot_env" and s2 addr2 info2 p2 blocks2 ok2 by blast
  from r(4) sample_machine_ok [OF r(3)] obtain s3 fs3 where "boot (sample_env (kd_virtio (fs_device fs))) 0x8000E000 sample_kernel = Some s3"
    "lf_inner (mx_inner (ks_fs s3)) = Some fs3" "fs_abs (kd_blocks (\<lambda>d. d)) fs3 = t'" by blast
  then show ?thesis using run r(1,2) by blast
qed

end
